(* ===== verification/WriteLanes.thy ===== *)
theory WriteLanes
  imports Prelude "HOL-Library.Multiset"
begin

text \<open>
  \<open>crates/kernel/src/write_lanes.rs\<close>: which changes may run at once. A writer joins a line and
  waits until no earlier arrival overlaps its key; dropping its place lets those behind it go.
  \<open>SharedLeases\<close> shares one cross-process lease per scope among this process's writers.

  Tasks run concurrently, so both are step relations: each rule is one critical section of the
  code (the atomic counter, one hold of a mutex), and any interleaving of tasks is a run.
\<close>

section \<open>Keys and when two of them overlap\<close>

definition WHOLE :: string where
  "WHOLE = ''state:*''"

definition path_key :: "string \<Rightarrow> string" where
  "path_key path = ''path:'' @ path"

definition overlap :: "string \<Rightarrow> string \<Rightarrow> bool" where
  "overlap left right =
     (case (strip_prefix ''path:'' left, strip_prefix ''path:'' right) of
        (Some l, Some r) \<Rightarrow> path_starts_with l r \<or> path_starts_with r l
      | (Some _, None) \<Rightarrow> \<not> starts_with right ''memory:''
      | (None, Some _) \<Rightarrow> \<not> starts_with left ''memory:''
      | (None, None) \<Rightarrow> True)"

text \<open>
  What the lanes need of a conflict test: it does not matter which of two keys is asked first.
  \<open>compatible\<close> is the order-free statement that a set of admitted places may run together.
\<close>

locale conflict_test =
  fixes conflict :: "'k \<Rightarrow> 'k \<Rightarrow> bool"
  assumes conflict_sym: "conflict a b \<Longrightarrow> conflict b a"
begin

lemma not_conflict_sym: "\<not> conflict a b \<Longrightarrow> \<not> conflict b a"
  using conflict_sym by blast

text \<open>Checking each entry against those before it is checking all pairs.\<close>

lemma ahead_clear_pairwise:
  assumes clear: "\<And>i j. i < j \<Longrightarrow> j < length ks \<Longrightarrow> P (ks ! i) \<Longrightarrow> P (ks ! j) \<Longrightarrow>
      \<not> conflict (key (ks ! i)) (key (ks ! j))"
    and a: "a \<in> set ks" "P a" and b: "b \<in> set ks" "P b" and ne: "a \<noteq> b"
  shows "\<not> conflict (key a) (key b)"
proof -
  obtain i where i: "i < length ks" "ks ! i = a" using a by (auto simp: in_set_conv_nth)
  obtain j where j: "j < length ks" "ks ! j = b" using b by (auto simp: in_set_conv_nth)
  consider "i < j" | "j < i" using i j ne by (cases i j rule: linorder_cases) auto
  then show ?thesis
  proof cases
    case 1
    with clear [of i j] i j a b show ?thesis by simp
  next
    case 2
    with clear [of j i] i j a b show ?thesis by (auto dest: conflict_sym)
  qed
qed

end

lemma overlap_sym: "overlap a b \<Longrightarrow> overlap b a"
  by (cases "strip_prefix ''path:'' a"; cases "strip_prefix ''path:'' b")
    (auto simp: overlap_def simp del: strip_prefix_Some)

lemma overlap_refl: "overlap a a"
  by (cases "strip_prefix ''path:'' a")
    (simp_all add: overlap_def path_starts_with_def del: strip_prefix_Some)

interpretation lane_keys: conflict_test overlap
  by unfold_locales (rule overlap_sym)

lemma overlap_WHOLE: "overlap WHOLE k" "overlap k WHOLE"
proof -
  have *: "strip_prefix ''path:'' WHOLE = None" "\<not> starts_with WHOLE ''memory:''"
    by (simp_all add: WHOLE_def strip_prefix_def starts_with_def)
  show "overlap WHOLE k" using * by (simp add: overlap_def split: option.splits)
  then show "overlap k WHOLE" by (rule overlap_sym)
qed

section \<open>The line of writers\<close>

text \<open>
  \<open>lane_line\<close> is \<open>WriteLanes::line\<close>, \<open>lane_next\<close> its counter (a \<open>u64\<close> that one process does not
  exhaust). \<open>arriving\<close> holds the calls of \<open>enter\<close> between the counter and the push, which are two
  atomic actions; \<open>held\<close> the calls that returned their \<open>Held\<close>.
\<close>

type_synonym place = "nat \<times> string"

record lanes =
  lane_line :: "place list"
  lane_next :: nat
  arriving :: "place list"
  held :: "nat list"

definition lanes_default :: lanes where
  "lanes_default = \<lparr>lane_line = [], lane_next = 0, arriving = [], held = []\<rparr>"

text \<open>The test in the loop of \<open>enter\<close>.\<close>

definition ahead :: "place list \<Rightarrow> nat \<Rightarrow> place list" where
  "ahead line i = takeWhile (\<lambda>entry. fst entry \<noteq> i) line"

definition lane_clear :: "place list \<Rightarrow> nat \<Rightarrow> string \<Rightarrow> bool" where
  "lane_clear line i key \<longleftrightarrow> \<not> list_ex (\<lambda>entry. overlap (snd entry) key) (ahead line i)"

definition lane_take :: "string \<Rightarrow> lanes \<Rightarrow> lanes" where
  "lane_take key s = s\<lparr>lane_next := Suc (lane_next s), arriving := (lane_next s, key) # arriving s\<rparr>"

definition lane_push :: "place \<Rightarrow> lanes \<Rightarrow> lanes" where
  "lane_push p s = s\<lparr>lane_line := lane_line s @ [p], arriving := remove1 p (arriving s)\<rparr>"

definition lane_grant :: "nat \<Rightarrow> lanes \<Rightarrow> lanes" where
  "lane_grant i s = s\<lparr>held := i # held s\<rparr>"

text \<open>\<open>Drop for Held\<close>: also what a cancelled call of \<open>enter\<close> runs while it still waits.\<close>

definition lane_release :: "nat \<Rightarrow> lanes \<Rightarrow> lanes" where
  "lane_release i s = s\<lparr>lane_line := filter (\<lambda>entry. fst entry \<noteq> i) (lane_line s),
     held := filter (\<lambda>j. j \<noteq> i) (held s)\<rparr>"

inductive lane_step :: "lanes \<Rightarrow> lanes \<Rightarrow> bool" where
  take: "lane_step s (lane_take key s)"
| push: "p \<in> set (arriving s) \<Longrightarrow> lane_step s (lane_push p s)"
| grant: "(i, key) \<in> set (lane_line s) \<Longrightarrow> i \<notin> set (held s) \<Longrightarrow> lane_clear (lane_line s) i key \<Longrightarrow>
    lane_step s (lane_grant i s)"
| release: "i \<in> fst ` set (lane_line s) \<Longrightarrow> lane_step s (lane_release i s)"

inductive lane_reachable :: "lanes \<Rightarrow> bool" where
  start: "lane_reachable lanes_default"
| step: "lane_reachable s \<Longrightarrow> lane_step s t \<Longrightarrow> lane_reachable t"

inductive_cases lane_stepE: "lane_step s t"

subsection \<open>The invariant\<close>

definition lane_inv :: "lanes \<Rightarrow> bool" where
  "lane_inv s \<longleftrightarrow>
     distinct (map fst (lane_line s @ arriving s)) \<and>
     (\<forall>p \<in> set (lane_line s @ arriving s). fst p < lane_next s) \<and>
     set (held s) \<subseteq> fst ` set (lane_line s) \<and>
     (\<forall>(i, key) \<in> set (lane_line s). i \<in> set (held s) \<longrightarrow> lane_clear (lane_line s) i key)"

lemma ahead_append_in: "i \<in> fst ` set line \<Longrightarrow> ahead (line @ ys) i = ahead line i"
  by (force simp: ahead_def)

lemma set_ahead: "set (ahead line i) \<subseteq> set line"
  by (auto simp: ahead_def dest: set_takeWhileD)

lemma ahead_filter:
  "i \<noteq> j \<Longrightarrow> ahead (filter (\<lambda>e. fst e \<noteq> j) line) i = filter (\<lambda>e. fst e \<noteq> j) (ahead line i)"
  by (induction line) (auto simp: ahead_def)

lemma lane_clear_filter:
  "i \<noteq> j \<Longrightarrow> lane_clear line i key \<Longrightarrow> lane_clear (filter (\<lambda>e. fst e \<noteq> j) line) i key"
  by (auto simp: lane_clear_def ahead_filter list_ex_iff)

lemma lane_clear_append:
  "i \<in> fst ` set line \<Longrightarrow> lane_clear (line @ ys) i key = lane_clear line i key"
  by (simp add: lane_clear_def ahead_append_in)

lemma lane_inv_default: "lane_inv lanes_default"
  by (simp add: lane_inv_def lanes_default_def)

lemma lane_inv_take:
  assumes inv: "lane_inv s"
  shows "lane_inv (lane_take key s)"
proof -
  have "\<forall>p \<in> set (lane_line s @ arriving s). fst p < lane_next s" using inv by (simp add: lane_inv_def)
  then have "lane_next s \<notin> fst ` set (lane_line s @ arriving s)" by fastforce
  then show ?thesis using inv by (auto simp: lane_inv_def lane_take_def less_Suc_eq)
qed

lemma lane_inv_push:
  assumes inv: "lane_inv s" and p: "p \<in> set (arriving s)"
  shows "lane_inv (lane_push p s)"
proof -
  have d: "distinct (map fst (lane_line s @ arriving s))" using inv by (simp add: lane_inv_def)
  then have da: "distinct (arriving s)" by (simp add: distinct_map)
  have new: "fst p \<notin> fst ` set (lane_line s)" using d p by auto
  have fstr: "fst p \<notin> fst ` set (remove1 p (arriving s))"
    using d p da by (auto simp: inj_on_def distinct_map)
  have notheld: "fst p \<notin> set (held s)" using inv new by (auto simp: lane_inv_def)
  have "distinct (map fst ((lane_line s @ [p]) @ remove1 p (arriving s)))"
    using d new fstr da by (auto simp: distinct_map inj_on_def)
  moreover have "\<forall>q \<in> set ((lane_line s @ [p]) @ remove1 p (arriving s)). fst q < lane_next s"
    using inv p da by (auto simp: lane_inv_def)
  moreover have "\<forall>(i, key) \<in> set (lane_line s @ [p]). i \<in> set (held s) \<longrightarrow>
      lane_clear (lane_line s @ [p]) i key"
  proof (clarify)
    fix i key assume e: "(i, key) \<in> set (lane_line s @ [p])" and h: "i \<in> set (held s)"
    then have e': "(i, key) \<in> set (lane_line s)" using notheld by auto
    then have "i \<in> fst ` set (lane_line s)" by force
    then show "lane_clear (lane_line s @ [p]) i key"
      using inv e' h by (auto simp: lane_clear_append lane_inv_def)
  qed
  ultimately show ?thesis using inv by (auto simp: lane_inv_def lane_push_def)
qed

lemma lane_inv_grant:
  assumes inv: "lane_inv s" and e: "(i, key) \<in> set (lane_line s)" and c: "lane_clear (lane_line s) i key"
  shows "lane_inv (lane_grant i s)"
proof -
  have only: "k = key" if "(i, k) \<in> set (lane_line s)" for k
    using inv e that by (intro eq_key_imp_eq_value [of "lane_line s" i]) (simp_all add: lane_inv_def)
  have "i \<in> fst ` set (lane_line s)" using e by force
  then show ?thesis using inv c by (auto simp: lane_inv_def lane_grant_def dest: only)
qed

lemma lane_inv_release: "lane_inv s \<Longrightarrow> lane_inv (lane_release i s)"
  by (auto simp: lane_inv_def lane_release_def distinct_map inj_on_def intro!: lane_clear_filter)

lemma lane_step_inv: "lane_step s t \<Longrightarrow> lane_inv s \<Longrightarrow> lane_inv t"
  by (induction rule: lane_step.induct)
    (auto intro: lane_inv_take lane_inv_push lane_inv_grant lane_inv_release)

lemma lane_reachable_inv: "lane_reachable s \<Longrightarrow> lane_inv s"
  by (induction rule: lane_reachable.induct) (auto intro: lane_inv_default lane_step_inv)

lemma lane_inv_clear:
  "lane_inv s \<Longrightarrow> (i, key) \<in> set (lane_line s) \<Longrightarrow> i \<in> set (held s) \<Longrightarrow> lane_clear (lane_line s) i key"
  by (auto simp: lane_inv_def)

lemma ahead_nth:
  assumes d: "distinct (map fst line)" and j: "j < length line"
  shows "ahead line (fst (line ! j)) = take j line"
proof -
  have "takeWhile (\<lambda>e. fst e \<noteq> fst (line ! j)) line = take j line"
  proof (rule takeWhile_eq_take_P_nth)
    fix m assume "m < j" "m < length line"
    then show "fst (line ! m) \<noteq> fst (line ! j)"
      using d j by (metis distinct_conv_nth length_map nat_neq_iff nth_map)
  qed simp
  then show ?thesis by (simp add: ahead_def)
qed

lemma lane_clear_nth:
  assumes d: "distinct (map fst line)" and ij: "i < j" "j < length line"
    and c: "lane_clear line (fst (line ! j)) (snd (line ! j))"
  shows "\<not> overlap (snd (line ! i)) (snd (line ! j))"
proof -
  have "line ! i \<in> set (take j line)" using ij by (auto simp: in_set_conv_nth)
  then show ?thesis using c ahead_nth [OF d ij(2)] by (auto simp: lane_clear_def list_ex_iff)
qed

lemma lane_inv_exclusive:
  assumes inv: "lane_inv s"
    and a: "a \<in> set (lane_line s)" "fst a \<in> set (held s)"
    and b: "b \<in> set (lane_line s)" "fst b \<in> set (held s)" and ne: "a \<noteq> b"
  shows "\<not> overlap (snd a) (snd b)"
proof (rule lane_keys.ahead_clear_pairwise [OF _ a b ne])
  have d: "distinct (map fst (lane_line s))" using inv by (simp add: lane_inv_def)
  fix i j assume ij: "i < j" "j < length (lane_line s)" and h: "fst (lane_line s ! j) \<in> set (held s)"
  have "lane_line s ! j \<in> set (lane_line s)" using ij by simp
  then have "lane_clear (lane_line s) (fst (lane_line s ! j)) (snd (lane_line s ! j))"
    using inv h by (intro lane_inv_clear) simp_all
  then show "\<not> overlap (snd (lane_line s ! i)) (snd (lane_line s ! j))"
    by (rule lane_clear_nth [OF d ij])
qed

subsection \<open>No starvation\<close>

text \<open>Who a waiting place still waits for.\<close>

definition blockers :: "lanes \<Rightarrow> nat \<Rightarrow> string \<Rightarrow> place list" where
  "blockers s i key = filter (\<lambda>e. overlap (snd e) key) (ahead (lane_line s) i)"

lemma lane_clear_blockers: "lane_clear (lane_line s) i key \<longleftrightarrow> blockers s i key = []"
  by (auto simp: lane_clear_def blockers_def list_ex_iff filter_empty_conv)

lemma lane_step_blockers:
  assumes step: "lane_step s t" and i: "i \<in> fst ` set (lane_line s)" "i \<in> fst ` set (lane_line t)"
  shows "\<exists>j. blockers t i key = filter (\<lambda>e. fst e \<noteq> j) (blockers s i key) \<or> blockers t i key = blockers s i key"
  using step
proof (cases rule: lane_step.cases)
  case (release j)
  then have "i \<noteq> j" using i by (auto simp: lane_release_def)
  then show ?thesis using release
    by (auto simp: blockers_def lane_release_def ahead_filter conj_commute intro!: exI [of _ j])
qed (use i in \<open>auto simp: blockers_def lane_take_def lane_push_def lane_grant_def ahead_append_in\<close>)

lemma lane_step_blockers_subset:
  "lane_step s t \<Longrightarrow> i \<in> fst ` set (lane_line s) \<Longrightarrow> i \<in> fst ` set (lane_line t) \<Longrightarrow>
   set (blockers t i key) \<subseteq> set (blockers s i key)"
  using lane_step_blockers [of s t i key] by auto

text \<open>Runs of the lanes that leave the place where it is.\<close>

inductive lane_run :: "nat \<Rightarrow> lanes \<Rightarrow> lanes \<Rightarrow> bool" where
  refl: "lane_run i s s"
| step: "lane_run i s t \<Longrightarrow> lane_step t u \<Longrightarrow> i \<in> fst ` set (lane_line u) \<Longrightarrow> lane_run i s u"

lemma lane_run_in: "lane_run i s t \<Longrightarrow> i \<in> fst ` set (lane_line s) \<Longrightarrow> i \<in> fst ` set (lane_line t)"
  by (induction rule: lane_run.induct) auto

lemma lane_run_blockers:
  "lane_run i s t \<Longrightarrow> i \<in> fst ` set (lane_line s) \<Longrightarrow> set (blockers t i key) \<subseteq> set (blockers s i key)"
proof (induction rule: lane_run.induct)
  case (step i s t u)
  then show ?case using lane_step_blockers_subset [of t u i key] lane_run_in [of i s t] by blast
qed simp

lemma lane_head_clear: "lane_line s = (i, key) # rest \<Longrightarrow> lane_clear (lane_line s) i key"
  by (simp add: lane_clear_def ahead_def)

lemma lane_progress_some:
  assumes inv: "lane_inv s" and ne: "lane_line s \<noteq> []"
  shows "held s \<noteq> [] \<or> (\<exists>i. lane_step s (lane_grant i s))"
proof (cases "lane_line s")
  case (Cons p rest)
  obtain i key where p: "p = (i, key)" by (cases p)
  show ?thesis
  proof (cases "i \<in> set (held s)")
    case False
    then have "lane_step s (lane_grant i s)"
      using Cons p lane_head_clear [of s i key rest] by (intro lane_step.grant [of i key]) auto
    then show ?thesis by blast
  qed auto
qed (use ne in simp)

section \<open>Shared leases\<close>

text \<open>
  \<open>open_shares\<close> is the map \<open>SharedLeases::open\<close> without the lease values; \<open>live_shares\<close> the
  \<open>LeaseShare\<close>s not yet dropped, by scope; \<open>os_leases\<close> the cross-process leases this process
  holds. \<open>lease_opener\<close> is the task that holds the \<open>opening\<close> mutex and how far it is: before its
  second \<open>join\<close>, waiting in \<open>acquire_mutation_lease\<close>, or with the lease in hand.
\<close>

datatype opener = NoOpener | Rechecking string | Acquiring string | Inserting string

record leases =
  open_shares :: "string \<Rightarrow> nat option"
  lease_opener :: opener
  live_shares :: "string multiset"
  os_leases :: "string multiset"

definition leases_default :: leases where
  "leases_default = \<lparr>open_shares = Map.empty, lease_opener = NoOpener, live_shares = {#}, os_leases = {#}\<rparr>"

text \<open>The closure \<open>join\<close>: None when it returns false.\<close>

definition lease_join :: "string \<Rightarrow> leases \<Rightarrow> leases option" where
  "lease_join scope s = (case open_shares s scope of
     Some n \<Rightarrow> Some (s\<lparr>open_shares := (open_shares s)(scope \<mapsto> n + 1),
       live_shares := add_mset scope (live_shares s)\<rparr>)
   | None \<Rightarrow> None)"

definition lease_insert :: "string \<Rightarrow> leases \<Rightarrow> leases" where
  "lease_insert scope s = s\<lparr>open_shares := (open_shares s)(scope \<mapsto> 1), lease_opener := NoOpener,
     live_shares := add_mset scope (live_shares s)\<rparr>"

text \<open>\<open>Drop for LeaseShare\<close>; removing the entry drops its lease.\<close>

definition lease_drop :: "string \<Rightarrow> leases \<Rightarrow> leases" where
  "lease_drop scope s =
     (case open_shares s scope of
        None \<Rightarrow> s\<lparr>live_shares := live_shares s - {#scope#}\<rparr>
      | Some n \<Rightarrow>
          if n - 1 = 0
          then s\<lparr>open_shares := (open_shares s)(scope := None), live_shares := live_shares s - {#scope#},
                 os_leases := os_leases s - {#scope#}\<rparr>
          else s\<lparr>open_shares := (open_shares s)(scope \<mapsto> n - 1),
                 live_shares := live_shares s - {#scope#}\<rparr>)"

inductive lease_step :: "leases \<Rightarrow> leases \<Rightarrow> bool" where
  join: "lease_join scope s = Some t \<Longrightarrow> lease_step s t"
| lock: "lease_opener s = NoOpener \<Longrightarrow> lease_step s (s\<lparr>lease_opener := Rechecking scope\<rparr>)"
| rejoin: "lease_opener s = Rechecking scope \<Longrightarrow> lease_join scope s = Some t \<Longrightarrow>
    lease_step s (t\<lparr>lease_opener := NoOpener\<rparr>)"
| miss: "lease_opener s = Rechecking scope \<Longrightarrow> lease_join scope s = None \<Longrightarrow>
    lease_step s (s\<lparr>lease_opener := Acquiring scope\<rparr>)"
| acquired: "lease_opener s = Acquiring scope \<Longrightarrow>
    lease_step s (s\<lparr>lease_opener := Inserting scope, os_leases := add_mset scope (os_leases s)\<rparr>)"
| refused: "lease_opener s = Acquiring scope \<Longrightarrow> lease_step s (s\<lparr>lease_opener := NoOpener\<rparr>)"
| insert: "lease_opener s = Inserting scope \<Longrightarrow> lease_step s (lease_insert scope s)"
| drop: "scope \<in># live_shares s \<Longrightarrow> lease_step s (lease_drop scope s)"

inductive lease_reachable :: "leases \<Rightarrow> bool" where
  start: "lease_reachable leases_default"
| step: "lease_reachable s \<Longrightarrow> lease_step s t \<Longrightarrow> lease_reachable t"

definition share_map :: "string multiset \<Rightarrow> string \<Rightarrow> nat option" where
  "share_map m = (\<lambda>k. if k \<in># m then Some (count m k) else None)"

lemma in_minus_one: "k' \<in># m - {#k#} \<longleftrightarrow> (if k' = k then count m k - 1 \<noteq> 0 else k' \<in># m)"
proof (cases "k' = k")
  case False
  then have "count (m - {#k#}) k' = count m k'" by simp
  then have "k' \<in># m - {#k#} \<longleftrightarrow> k' \<in># m" by (metis not_in_iff)
  then show ?thesis using False by simp
next
  case True
  have "count (m - {#k#}) k = count m k - 1" by simp
  then have "k \<in># m - {#k#} \<longleftrightarrow> count m k - 1 \<noteq> 0" by (metis not_in_iff)
  then show ?thesis using True by simp
qed

lemma share_map_add: "share_map (add_mset k m) = (share_map m)(k \<mapsto> count m k + 1)"
  by (rule ext) (simp add: share_map_def)

lemma share_map_minus:
  "share_map (m - {#k#}) = (share_map m)(k := if count m k - 1 = 0 then None else Some (count m k - 1))"
  by (rule ext) (simp add: share_map_def in_minus_one)

lemma share_map_Some: "share_map m k = Some n \<longleftrightarrow> n = count m k \<and> k \<in># m"
  by (auto simp: share_map_def count_eq_zero_iff)

lemma share_map_None: "share_map m k = None \<longleftrightarrow> k \<notin># m"
  by (auto simp: share_map_def count_eq_zero_iff)

definition lease_inv :: "leases \<Rightarrow> bool" where
  "lease_inv s \<longleftrightarrow>
     open_shares s = share_map (live_shares s) \<and>
     (\<forall>k. lease_opener s = Acquiring k \<or> lease_opener s = Inserting k \<longrightarrow> k \<notin># live_shares s) \<and>
     (\<forall>k. count (os_leases s) k =
        (if k \<in># live_shares s \<or> lease_opener s = Inserting k then 1 else 0))"

lemma lease_inv_default: "lease_inv leases_default"
  by (simp add: lease_inv_def leases_default_def share_map_def fun_eq_iff)

lemma lease_inv_join: "lease_inv s \<Longrightarrow> lease_join scope s = Some t \<Longrightarrow> lease_inv t"
  by (auto simp: lease_inv_def lease_join_def share_map_add share_map_Some split: option.splits)

lemma lease_inv_idle: "lease_inv s \<Longrightarrow> lease_opener s = Rechecking scope \<or> lease_opener s = Acquiring scope \<Longrightarrow>
    lease_inv (s\<lparr>lease_opener := NoOpener\<rparr>)"
  by (auto simp: lease_inv_def)

lemma lease_inv_insert: "lease_inv s \<Longrightarrow> lease_opener s = Inserting scope \<Longrightarrow> lease_inv (lease_insert scope s)"
  by (auto simp: lease_inv_def lease_insert_def share_map_add count_eq_zero_iff)

lemma lease_inv_drop:
  assumes inv: "lease_inv s" and live: "scope \<in># live_shares s"
  shows "lease_inv (lease_drop scope s)"
proof -
  define m where "m = live_shares s"
  have op: "open_shares s = share_map m" "share_map m scope = Some (count m scope)"
    using inv live by (simp_all add: lease_inv_def share_map_Some m_def)
  show ?thesis using inv live op
    by (auto simp: lease_inv_def lease_drop_def share_map_minus in_minus_one m_def [symmetric])
qed

lemma opener_lease_join: "lease_join scope s = Some t \<Longrightarrow> lease_opener t = lease_opener s"
  by (auto simp: lease_join_def split: option.splits)

lemma lease_step_inv: "lease_step s t \<Longrightarrow> lease_inv s \<Longrightarrow> lease_inv t"
proof (induction rule: lease_step.induct)
  case (rejoin s scope t)
  then show ?case by (metis lease_inv_idle lease_inv_join opener_lease_join)
next
  case (lock s scope)
  then show ?case by (simp add: lease_inv_def)
next
  case (miss s scope)
  then show ?case by (auto simp: lease_inv_def lease_join_def share_map_None split: option.splits)
next
  case (acquired s scope)
  then show ?case by (auto simp: lease_inv_def)
qed (auto intro: lease_inv_join lease_inv_idle lease_inv_insert lease_inv_drop)

lemma lease_reachable_inv: "lease_reachable s \<Longrightarrow> lease_inv s"
  by (induction rule: lease_reachable.induct) (auto intro: lease_inv_default lease_step_inv)

section \<open>Properties\<close>

text \<open>C9. Mutual exclusion: whatever the interleaving of arrivals, waits, grants and drops, two
  places that are both held at the same time never have overlapping keys.\<close>

theorem held_never_overlap:
  assumes "lane_reachable s"
    and "a \<in> set (lane_line s)" "fst a \<in> set (held s)"
    and "b \<in> set (lane_line s)" "fst b \<in> set (held s)" and "a \<noteq> b"
  shows "\<not> overlap (snd a) (snd b)"
  using lane_reachable_inv [OF assms(1)] assms(2-) by (rule lane_inv_exclusive)

definition two_lanes :: lanes where
  "two_lanes = lane_grant 1 (lane_grant 0 (lane_push (1, ''path:/b'') (lane_take ''path:/b''
     (lane_push (0, ''path:/a'') (lane_take ''path:/a'' lanes_default)))))"

lemma two_lanes_reachable: "lane_reachable two_lanes"
proof -
  let ?s1 = "lane_take ''path:/a'' lanes_default"
  let ?s2 = "lane_push (0, ''path:/a'') ?s1"
  let ?s3 = "lane_take ''path:/b'' ?s2"
  let ?s4 = "lane_push (1, ''path:/b'') ?s3"
  let ?s5 = "lane_grant 0 ?s4"
  have 1: "lane_reachable ?s1" by (rule lane_reachable.step [OF lane_reachable.start lane_step.take])
  have 2: "lane_reachable ?s2"
    by (rule lane_reachable.step [OF 1 lane_step.push]) (simp add: lane_take_def lanes_default_def)
  have 3: "lane_reachable ?s3" by (rule lane_reachable.step [OF 2 lane_step.take])
  have 4: "lane_reachable ?s4"
    by (rule lane_reachable.step [OF 3 lane_step.push])
      (simp add: lane_take_def lane_push_def lanes_default_def)
  have 5: "lane_reachable ?s5"
    by (rule lane_reachable.step [OF 4 lane_step.grant [of 0 "''path:/a''"]])
      (simp_all add: lane_take_def lane_push_def lanes_default_def lane_clear_def ahead_def)
  have "lane_clear (lane_line ?s5) 1 ''path:/b''" by code_simp
  then show ?thesis unfolding two_lanes_def
    by (intro lane_reachable.step [OF 5 lane_step.grant [of 1 "''path:/b''"]])
      (simp_all add: lane_take_def lane_push_def lane_grant_def lanes_default_def)
qed

lemma two_lanes_parts: "lane_line two_lanes = [(0, ''path:/a''), (1, ''path:/b'')]" "held two_lanes = [1, 0]"
  by (simp_all add: two_lanes_def lane_take_def lane_push_def lane_grant_def lanes_default_def)

theorem held_never_overlap_witness: "\<not> overlap ''path:/a'' ''path:/b''"
  using held_never_overlap [OF two_lanes_reachable, of "(0, ''path:/a'')" "(1, ''path:/b'')"]
  by (simp add: two_lanes_parts)

text \<open>C29. No starvation: from any reachable state, as long as a place stays in line, the arrivals it
  waits for only ever become fewer (whatever else arrives, is granted or leaves), it is let in as
  soon as none is left, and the line is never stuck: someone holds a place or can be let in.\<close>

theorem lanes_no_starvation:
  assumes "lane_reachable s" "(i, key) \<in> set (lane_line s)" "lane_run i s t"
  shows "set (blockers t i key) \<subseteq> set (blockers s i key) \<and>
    (blockers t i key = [] \<longleftrightarrow> lane_clear (lane_line t) i key) \<and>
    (held t \<noteq> [] \<or> (\<exists>j. lane_step t (lane_grant j t)))"
proof -
  have i: "i \<in> fst ` set (lane_line s)" using assms(2) by force
  have r: "lane_reachable t" using assms(3,1)
    by (induction rule: lane_run.induct) (auto intro: lane_reachable.step)
  have "lane_line t \<noteq> []" using lane_run_in [OF assms(3) i] by auto
  then show ?thesis
    using lane_run_blockers [OF assms(3) i, of key] lane_progress_some [OF lane_reachable_inv [OF r]]
    by (auto simp only: lane_clear_blockers)
qed

theorem lanes_no_starvation_witness: "blockers two_lanes 1 ''path:/b'' = [] \<and> lane_clear (lane_line two_lanes) 1 ''path:/b''"
proof -
  have "blockers two_lanes 1 ''path:/b'' = []" by code_simp
  then show ?thesis
    using lanes_no_starvation [OF two_lanes_reachable, of 1 "''path:/b''" two_lanes]
    by (simp add: two_lanes_parts lane_run.refl)
qed

text \<open>One cross-process lease per scope: in every interleaving of \<open>share\<close> and of dropped shares,
  the process holds a scope's lease at most once (it never waits for a lease it has itself), and it
  holds it exactly as long as a share of it is alive or is about to be handed out.\<close>

theorem lease_held_once:
  assumes "lease_reachable s"
  shows "count (os_leases s) k \<le> 1 \<and>
    (lease_opener s = Acquiring k \<longrightarrow> k \<notin># os_leases s) \<and>
    (k \<in># os_leases s \<longleftrightarrow> k \<in># live_shares s \<or> lease_opener s = Inserting k)"
proof -
  have inv: "lease_inv s" by (rule lease_reachable_inv [OF assms])
  have c: "count (os_leases s) k = (if k \<in># live_shares s \<or> lease_opener s = Inserting k then 1 else 0)"
    using inv by (simp add: lease_inv_def)
  have "k \<in># os_leases s \<longleftrightarrow> k \<in># live_shares s \<or> lease_opener s = Inserting k"
    using c count_greater_zero_iff [of "os_leases s" k] by (simp split: if_splits)
  moreover have "k \<notin># live_shares s" if "lease_opener s = Acquiring k"
    using inv that by (simp add: lease_inv_def)
  ultimately show ?thesis using c by (auto split: if_splits)
qed

theorem lease_held_once_witness: "count (os_leases leases_default) ''k'' \<le> 1"
  using lease_held_once [OF lease_reachable.start, of "''k''"] by blast

end
