(* ===== verification/ShellReader.thy ===== *)
theory ShellReader
  imports Prelude
begin

text \<open>
  \<open>crates/shell-reader\<close>: what one shell command line runs, and whether it only reads
  (\<open>lib.rs\<close>, \<open>program.rs\<close>, \<open>readers.rs\<close>). Admission, backups and write lanes all ask this reading.
  The tree walk that produces the reading is in \<open>ShellParse\<close>.
\<close>

section \<open>Words, redirects, commands\<close>

text \<open>\<open>Value\<close>: how much of a word the text decides; ordered by declaration, as \<open>derive(Ord)\<close> has it.\<close>

datatype shell_value = Literal | Pattern | Status | Dynamic

fun value_rank :: "shell_value \<Rightarrow> nat" where
  "value_rank Literal = 0"
| "value_rank Pattern = 1"
| "value_rank Status = 2"
| "value_rank Dynamic = 3"

lemma value_rank_inj: "value_rank a = value_rank b \<Longrightarrow> a = b"
  by (cases a; cases b) simp_all

instantiation shell_value :: linorder
begin

definition less_eq_shell_value :: "shell_value \<Rightarrow> shell_value \<Rightarrow> bool" where
  "less_eq_shell_value a b \<longleftrightarrow> value_rank a \<le> value_rank b"

definition less_shell_value :: "shell_value \<Rightarrow> shell_value \<Rightarrow> bool" where
  "less_shell_value a b \<longleftrightarrow> value_rank a < value_rank b"

instance
  by standard (auto simp: less_eq_shell_value_def less_shell_value_def intro: value_rank_inj)

end

record shell_word =
  word_text :: string
  word_value :: shell_value

definition word_new :: "string \<Rightarrow> shell_value \<Rightarrow> shell_word" where
  "word_new text v = \<lparr>word_text = text, word_value = v\<rparr>"

definition word_join :: "shell_word \<Rightarrow> shell_word \<Rightarrow> shell_word" where
  "word_join w other =
     \<lparr>word_text = word_text w @ word_text other, word_value = max (word_value w) (word_value other)\<rparr>"

definition literal_text :: "shell_word \<Rightarrow> string option" where
  "literal_text w = (if word_value w = Literal then Some (word_text w) else None)"

datatype flow = FlowRead | FlowWrite | FlowAppend | FlowReadWrite | FlowDuplicate | FlowHere

record redirect =
  redirect_fd :: "nat option"
  redirect_flow :: flow
  redirect_target :: shell_word

definition is_device :: "string \<Rightarrow> bool" where
  "is_device path \<longleftrightarrow>
     path \<in> {''/dev/null'', ''/dev/stdout'', ''/dev/stderr'', ''/dev/tty''} \<or> starts_with path ''/dev/fd/''"

definition redirect_writes :: "redirect \<Rightarrow> bool" where
  "redirect_writes r \<longleftrightarrow>
     redirect_flow r \<in> {FlowWrite, FlowAppend, FlowReadWrite} \<and> \<not> is_device (word_text (redirect_target r))"

record shell_command =
  cmd_words :: "shell_word list"
  cmd_assigns :: "string list"
  cmd_redirects :: "redirect list"
  cmd_piped_in :: bool
  cmd_background :: bool
  cmd_substituted :: bool

definition command_default :: shell_command where
  "command_default = \<lparr>cmd_words = [], cmd_assigns = [], cmd_redirects = [], cmd_piped_in = False,
     cmd_background = False, cmd_substituted = False\<rparr>"

record reading =
  reading_commands :: "shell_command list"
  reading_complete :: bool
  reading_self_forking :: bool

definition reading_default :: reading where
  "reading_default = \<lparr>reading_commands = [], reading_complete = False, reading_self_forking = False\<rparr>"

section \<open>The program behind the wrappers\<close>

definition is_any_slash :: "char \<Rightarrow> bool" where
  "is_any_slash c \<longleftrightarrow> c = CHR ''/'' \<or> c = CHR 0x5C"

definition basename :: "string \<Rightarrow> string" where
  "basename word =
     (let name = to_lowercase (last (split_by is_any_slash word))
      in (case strip_suffix ''.exe'' name of Some n \<Rightarrow> n | None \<Rightarrow> name))"

text \<open>The loop of \<open>after_options\<close>, \<open>i\<close> being the index of the head of the remaining words.\<close>

function after_options_at ::
  "string \<Rightarrow> string list \<Rightarrow> bool \<Rightarrow> nat \<Rightarrow> shell_word list \<Rightarrow> nat option" where
  "after_options_at shorts longs assignments i [] = None"
| "after_options_at shorts longs assignments i (arg # rest) =
     (let text = word_text arg in
      if text = ''--'' then Some (i + 1)
      else case strip_prefix ''--'' text of
        Some long \<Rightarrow>
          if \<not> CHR ''='' \<in> set long \<and> long \<in> set longs
          then after_options_at shorts longs assignments (i + 2) (drop 1 rest)
          else after_options_at shorts longs assignments (i + 1) rest
      | None \<Rightarrow>
          if 1 < length text \<and> starts_with text ''-'' then
            (let flags = drop 1 text in
             case position (\<lambda>c. c \<in> set shorts) flags of
               Some at \<Rightarrow>
                 if at + 1 = length flags
                 then after_options_at shorts longs assignments (i + 2) (drop 1 rest)
                 else after_options_at shorts longs assignments (i + 1) rest
             | None \<Rightarrow> after_options_at shorts longs assignments (i + 1) rest)
          else if assignments \<and> CHR ''='' \<in> set text \<and> \<not> starts_with text ''=''
          then after_options_at shorts longs assignments (i + 1) rest
          else Some i)"
  by pat_completeness auto

termination
  by (relation "measure (\<lambda>(_, _, _, _, args). length args)") auto

definition after_options :: "shell_word list \<Rightarrow> string \<Rightarrow> string list \<Rightarrow> bool \<Rightarrow> nat option" where
  "after_options args shorts longs assignments = after_options_at shorts longs assignments 0 args"

text \<open>The offset of the wrapped program among the words after the wrapper \<open>name\<close>.\<close>

definition wrapped_offset :: "string \<Rightarrow> shell_word list \<Rightarrow> nat option" where
  "wrapped_offset name rest =
     (if name = ''env'' then after_options rest ''uCSP'' [''unset'', ''chdir'', ''split-string''] True
      else if name = ''command'' \<and> \<not> list_ex (\<lambda>w. word_text w = ''-v'' \<or> word_text w = ''-V'') rest
      then after_options rest [] [] False
      else if name = ''builtin'' \<or> name = ''nohup'' then after_options rest [] [] False
      else if name = ''exec'' then after_options rest ''a'' [] False
      else if name = ''nice'' then after_options rest ''n'' [''adjustment''] False
      else if name = ''time'' then after_options rest ''fo'' [''format'', ''output''] False
      else if name = ''stdbuf'' then after_options rest ''ioe'' [''input'', ''output'', ''error''] False
      else if name = ''timeout''
      then map_option (\<lambda>at. at + 1) (after_options rest ''sk'' [''signal'', ''kill-after''] False)
      else if name = ''xargs''
      then after_options rest ''IELnPsdae'' [''max-args'', ''max-procs'', ''delimiter'', ''arg-file'',
             ''eof'', ''replace'', ''max-lines'', ''max-chars''] False
      else None)"

record program =
  prog_at :: nat
  prog_name :: string
  prog_args :: "shell_word list"
  prog_fed :: bool

function program_from :: "shell_word list \<Rightarrow> nat \<Rightarrow> bool \<Rightarrow> program option" where
  "program_from words at fed =
     (if at < length words then
        (case literal_text (words ! at) of
           None \<Rightarrow> None
         | Some text \<Rightarrow>
             (let name = basename text;
                  rest = drop (at + 1) words;
                  fed' = (fed \<or> name = ''xargs'')
              in case wrapped_offset name rest of
                   Some offset \<Rightarrow>
                     if offset < length rest then program_from words (at + 1 + offset) fed'
                     else Some \<lparr>prog_at = at, prog_name = name, prog_args = rest, prog_fed = fed'\<rparr>
                 | None \<Rightarrow> Some \<lparr>prog_at = at, prog_name = name, prog_args = rest, prog_fed = fed'\<rparr>))
      else None)"
  by pat_completeness auto

termination
  by (relation "measure (\<lambda>(words, at, _). length words - at)") auto

declare program_from.simps [simp del]

definition command_program :: "shell_command \<Rightarrow> program option" where
  "command_program c = program_from (cmd_words c) 0 False"

section \<open>Programs that only read\<close>

text \<open>The text after the next unescaped delimiter.\<close>

fun skip_delimited_from :: "bool \<Rightarrow> string \<Rightarrow> char \<Rightarrow> string option" where
  "skip_delimited_from escaped [] d = None"
| "skip_delimited_from escaped (ch # text) d =
     (if escaped then skip_delimited_from False text d
      else if ch = CHR 0x5C then skip_delimited_from True text d
      else if ch = d then Some text
      else skip_delimited_from False text d)"

definition skip_delimited :: "string \<Rightarrow> char \<Rightarrow> string option" where
  "skip_delimited text d = skip_delimited_from False text d"

definition substitute_flags :: "string \<Rightarrow> string option" where
  "substitute_flags rest =
     (case rest of [] \<Rightarrow> None
      | d # rest' \<Rightarrow> (case skip_delimited rest' d of None \<Rightarrow> None | Some r \<Rightarrow> skip_delimited r d))"

definition address_char :: "char \<Rightarrow> bool" where
  "address_char c \<longleftrightarrow> is_ascii_digit c \<or> c \<in> set ''$,! ~+''"

lemma skip_delimited_from_length: "skip_delimited_from e s d = Some r \<Longrightarrow> length r < length s"
  by (induction e s d rule: skip_delimited_from.induct) (auto split: if_splits)

lemma skip_delimited_length: "skip_delimited s d = Some r \<Longrightarrow> length r < length s"
  by (simp add: skip_delimited_def skip_delimited_from_length)

lemma length_trim_start_by: "length (trim_start_by P s) \<le> length s"
  by (simp add: trim_start_by_def length_dropWhile_le)

function strip_address :: "string \<Rightarrow> string" where
  "strip_address command =
     (let rest = trim_start_by address_char command in
      case strip_prefix ''/'' rest of
        Some regex \<Rightarrow> strip_address (case skip_delimited regex (CHR ''/'') of Some r \<Rightarrow> r | None \<Rightarrow> [])
      | None \<Rightarrow> rest)"
  by pat_completeness auto

termination
proof (relation "measure length", simp)
  fix command rest regex :: string
  assume rest: "rest = trim_start_by address_char command" and p: "strip_prefix ''/'' rest = Some regex"
  have "length regex < length command"
    using p length_trim_start_by [of address_char command] by (simp add: rest)
  then show "((case skip_delimited regex (CHR ''/'') of Some r \<Rightarrow> r | None \<Rightarrow> []), command) \<in> measure length"
    by (auto split: option.split dest: skip_delimited_length)
qed

declare strip_address.simps [simp del]

lemma length_strip_address: "length (strip_address s) \<le> length s"
proof (induction s rule: strip_address.induct)
  case (1 command)
  let ?rest = "trim_start_by address_char command"
  show ?case
  proof (cases "strip_prefix ''/'' ?rest")
    case None
    then show ?thesis by (simp add: strip_address.simps [of command] length_trim_start_by)
  next
    case (Some regex)
    let ?next = "case skip_delimited regex (CHR ''/'') of Some r \<Rightarrow> r | None \<Rightarrow> []"
    have "length ?next \<le> length regex" by (auto split: option.split dest: skip_delimited_length)
    moreover have "length regex < length command"
      using Some length_trim_start_by [of address_char command] by simp
    moreover have "strip_address command = strip_address ?next"
      by (subst strip_address.simps) (simp only: Let_def Some option.case)
    ultimately show ?thesis using 1 [OF refl Some] by simp
  qed
qed

text \<open>What follows one \<open>sed\<close> command: None when the command writes or runs something.\<close>

definition script_tail :: "char \<Rightarrow> string \<Rightarrow> string option" where
  "script_tail command rest =
     (if command \<in> set ''ewW'' then None
      else if command \<in> set ''sy'' then
        (case substitute_flags rest of
           None \<Rightarrow> None
         | Some flags \<Rightarrow>
             let stop = (\<lambda>c. c = CHR 0x0A \<or> c = CHR '';'' \<or> c = CHR ''}'')
             in if command = CHR ''s'' \<and> list_ex (\<lambda>c. c = CHR ''e'' \<or> c = CHR ''w'') (takeWhile (\<lambda>c. \<not> stop c) flags)
                then None
                else Some (dropWhile (\<lambda>c. \<not> stop c) flags))
      else if command \<in> set ''aicrR'' then Some (dropWhile (\<lambda>c. c \<noteq> CHR 0x0A) rest)
      else if command \<in> set ''btT:'' then Some (dropWhile (\<lambda>c. c \<noteq> CHR 0x0A \<and> c \<noteq> CHR '';'') rest)
      else Some rest)"

lemma substitute_flags_length: "substitute_flags rest = Some flags \<Longrightarrow> length flags < length rest"
  by (fastforce simp: substitute_flags_def split: list.splits option.splits dest: skip_delimited_length)

lemma length_script_tail: "script_tail c rest = Some t \<Longrightarrow> length t \<le> length rest"
  by (auto simp: script_tail_def Let_def split: if_splits option.splits
      dest!: substitute_flags_length intro: le_trans [OF length_dropWhile_le] simp del: list.set)

function script_reads :: "string \<Rightarrow> bool" where
  "script_reads script =
     (case strip_address (trim_start_by (\<lambda>c. is_ws c \<or> c \<in> set '';{}'') script) of
        [] \<Rightarrow> True
      | command # rest \<Rightarrow> (case script_tail command rest of None \<Rightarrow> False | Some tail \<Rightarrow> script_reads tail))"
  by pat_completeness auto

termination
proof (relation "measure length", simp)
  fix script tail rest :: string and command :: char
  assume s: "strip_address (trim_start_by (\<lambda>c. is_ws c \<or> c \<in> set '';{}'') script) = command # rest"
    and t: "script_tail command rest = Some tail"
  have "length (command # rest) \<le> length script"
    using length_strip_address [of "trim_start_by (\<lambda>c. is_ws c \<or> c \<in> set '';{}'') script"]
      length_trim_start_by [of "\<lambda>c. is_ws c \<or> c \<in> set '';{}''" script] unfolding s by linarith
  then show "(tail, script) \<in> measure length" using length_script_tail [OF t] by simp
qed

declare script_reads.simps [simp del]

text \<open>The loop of \<open>sed_reads\<close>: None is its early \<open>return false\<close>, Some the scripts it collected.\<close>

fun sed_scripts :: "shell_word list \<Rightarrow> bool \<Rightarrow> shell_word list \<Rightarrow> shell_word list option" where
  "sed_scripts [] explicit scripts = Some scripts"
| "sed_scripts (arg # rest) explicit scripts =
     (let text = word_text arg in
      if starts_with text ''--in-place'' \<or> starts_with text ''--file'' \<or> text = ''-f'' then None
      else
        (case (case strip_prefix ''-'' text of
                 Some flags \<Rightarrow> if \<not> starts_with flags ''-'' \<and> flags \<noteq> [] then Some flags else None
               | None \<Rightarrow> None) of
           Some flags \<Rightarrow>
             if CHR ''i'' \<in> set flags \<or> CHR ''f'' \<in> set flags then None
             else if ends_with flags ''e''
             then (case rest of [] \<Rightarrow> Some scripts | w # later \<Rightarrow> sed_scripts later True (scripts @ [w]))
             else sed_scripts rest explicit scripts
         | None \<Rightarrow>
             if text = ''--expression''
             then (case rest of [] \<Rightarrow> Some scripts | w # later \<Rightarrow> sed_scripts later True (scripts @ [w]))
             else if \<not> explicit \<and> scripts = [] then sed_scripts rest explicit (scripts @ [arg])
             else sed_scripts rest explicit scripts))"

definition sed_reads :: "shell_word list \<Rightarrow> bool" where
  "sed_reads args = (case sed_scripts args False [] of
     None \<Rightarrow> False
   | Some scripts \<Rightarrow>
       list_all (\<lambda>script. case literal_text script of Some t \<Rightarrow> script_reads t | None \<Rightarrow> False) scripts)"

definition git_readers :: "string list" where
  "git_readers = [''status'', ''diff'', ''log'', ''show'', ''blame'', ''rev-parse'', ''ls-files'', ''ls-tree'',
     ''cat-file'', ''describe'', ''shortlog'', ''merge-base'', ''rev-list'', ''--version'']"

definition git_reads :: "shell_word list \<Rightarrow> bool" where
  "git_reads args \<longleftrightarrow>
     (case args of [] \<Rightarrow> False | sub # _ \<Rightarrow> word_text sub \<in> set git_readers) \<and>
     \<not> list_ex (\<lambda>arg. list_ex (starts_with (word_text arg))
         [''--out'', ''--ext'', ''--textc'', ''--show-sig'', ''--open-files'']) args"

definition plain_readers :: "string list" where
  "plain_readers = [''ls'', ''pwd'', ''echo'', ''printf'', ''cat'', ''head'', ''tail'', ''less'', ''more'', ''wc'',
     ''cut'', ''tr'', ''grep'', ''egrep'', ''fgrep'', ''diff'', ''cmp'', ''comm'', ''stat'', ''du'',
     ''df'', ''which'', ''whereis'', ''type'', ''true'', ''false'', ''sleep'', ''readlink'',
     ''realpath'', ''basename'', ''dirname'', ''test'', ''['', ''[['', '':'', ''nl'', ''od'', ''xxd'',
     ''hexdump'', ''strings'', ''jq'', ''cd'', ''pushd'', ''popd'', ''exit'', ''return'', ''wait'', ''read'']"

text \<open>The closures \<open>has\<close>, \<open>long\<close> and \<open>short\<close> of \<open>readers::reads_only\<close>.\<close>

definition args_have :: "shell_word list \<Rightarrow> (string \<Rightarrow> bool) \<Rightarrow> bool" where
  "args_have args test = list_ex (\<lambda>arg. test (word_text arg)) args"

definition args_long :: "shell_word list \<Rightarrow> string list \<Rightarrow> bool" where
  "args_long args starts = args_have args (\<lambda>arg. list_ex (starts_with arg) starts)"

definition args_short :: "shell_word list \<Rightarrow> string \<Rightarrow> bool" where
  "args_short args flags = args_have args (\<lambda>arg.
     case strip_prefix ''-'' arg of
       Some rest \<Rightarrow> \<not> starts_with rest ''-'' \<and> list_ex (\<lambda>flag. flag \<in> set flags) rest
     | None \<Rightarrow> False)"

definition program_only_reads :: "string \<Rightarrow> shell_word list \<Rightarrow> bool" where
  "program_only_reads program args =
     (if program \<in> set plain_readers then True
      else if program = ''sort'' then \<not> args_short args ''o'' \<and> \<not> args_long args [''--o'', ''--co'']
      else if program = ''uniq'' then length (filter (\<lambda>arg. \<not> starts_with (word_text arg) ''-'') args) < 2
      else if program = ''tree'' then \<not> args_short args ''oR''
      else if program = ''file'' then \<not> args_short args ''C'' \<and> \<not> args_long args [''--c'']
      else if program = ''rg''
      then \<not> args_short args ''z'' \<and> \<not> args_long args [''--pre'', ''--hostname-bin'', ''--search-zip'']
      else if program = ''find''
      then \<not> args_have args (\<lambda>arg. arg = ''-delete'' \<or> arg = ''-fls'' \<or>
             list_ex (starts_with arg) [''-exec'', ''-ok'', ''-fprint''])
      else if program = ''date'' then \<not> args_short args ''s'' \<and> \<not> args_long args [''--set'']
      else if program = ''ffprobe'' then \<not> args_have args (\<lambda>arg. arg = ''-report'')
      else if program = ''sed'' then sed_reads args
      else if program = ''git'' then git_reads args
      else False)"

text \<open>\<open>program_reads_only\<close>: the same table for a program started with no shell between.\<close>

definition program_reads_only :: "string \<Rightarrow> string list \<Rightarrow> bool" where
  "program_reads_only program args =
     program_only_reads (basename program) (map (\<lambda>arg. word_new arg Literal) args)"

section \<open>What the line only reads\<close>

definition command_reads_only :: "shell_command \<Rightarrow> bool" where
  "command_reads_only c =
     (if list_ex redirect_writes (cmd_redirects c) \<or> cmd_assigns c \<noteq> [] then False
      else case command_program c of
        None \<Rightarrow> cmd_words c = []
      | Some p \<Rightarrow>
          let by_name = \<not> list_ex is_any_slash (word_text (cmd_words c ! prog_at p));
              set_env = list_ex (\<lambda>w. CHR ''='' \<in> set (word_text w)) (take (prog_at p) (cmd_words c))
          in by_name \<and> \<not> set_env \<and> \<not> prog_fed p \<and> program_only_reads (prog_name p) (prog_args p))"

definition reading_reads_only :: "reading \<Rightarrow> bool" where
  "reading_reads_only r \<longleftrightarrow>
     reading_complete r \<and> \<not> reading_self_forking r \<and> reading_commands r \<noteq> [] \<and>
     list_all (\<lambda>c. \<not> cmd_background c \<and> command_reads_only c) (reading_commands r)"

section \<open>What \<open>always allow\<close> covers\<close>

definition interpreters :: "string list" where
  "interpreters = [''sh'', ''dash'', ''bash'', ''zsh'', ''fish'', ''ksh'', ''python'', ''python2'', ''python3'', ''perl'',
     ''ruby'', ''node'', ''nodejs'', ''deno'', ''bun'', ''php'', ''lua'', ''tclsh'', ''powershell'', ''pwsh'',
     ''cmd'', ''wscript'', ''cscript'', ''mshta'', ''osascript'']"

definition is_interpreter :: "string \<Rightarrow> bool" where
  "is_interpreter name \<longleftrightarrow> name \<in> set interpreters"

definition leaves :: "string \<Rightarrow> bool" where
  "leaves text \<longleftrightarrow>
     (case text of [] \<Rightarrow> False | c # _ \<Rightarrow> is_any_slash c \<or> c = CHR ''~'') \<or>
     ''..'' \<in> set (split_by is_any_slash text) \<or>
     get_at text 1 = Some (CHR '':'')"

definition plain_word :: "shell_word \<Rightarrow> bool" where
  "plain_word arg \<longleftrightarrow>
     list_all (\<lambda>c. is_ascii_alphanumeric c \<or> c \<in> set ''-_:'') (word_text arg) \<and>
     \<not> starts_with (word_text arg) ''-''"

definition program_shape :: "program \<Rightarrow> string" where
  "program_shape p =
     (case prog_args p of
        arg # _ \<Rightarrow> if plain_word arg then prog_name p @ '' '' @ word_text arg else prog_name p
      | [] \<Rightarrow> prog_name p)"

text \<open>The loop over the commands: None is an early \<open>return None\<close>.\<close>

fun approval_shapes :: "shell_command list \<Rightarrow> string list \<Rightarrow> string list option" where
  "approval_shapes [] shapes = Some shapes"
| "approval_shapes (c # cs) shapes =
     (if list_ex (\<lambda>w. word_value w = Dynamic \<or> leaves (word_text w))
           (cmd_words c @ map redirect_target (cmd_redirects c))
      then None
      else case command_program c of
        None \<Rightarrow> approval_shapes cs shapes
      | Some p \<Rightarrow>
          if is_interpreter (prog_name p) \<or> 0 < prog_at p then None
          else let shape = program_shape p
               in approval_shapes cs (if shape \<in> set shapes then shapes else shapes @ [shape]))"

text \<open>\<open>approval_shape\<close> on the reading of the line.\<close>

definition approval_shape :: "reading \<Rightarrow> string option" where
  "approval_shape r =
     (if \<not> reading_complete r \<or> reading_self_forking r then None
      else case approval_shapes (reading_commands r) [] of
        None \<Rightarrow> None
      | Some shapes \<Rightarrow> if shapes \<noteq> [] then Some (join_with ''; '' shapes) else None)"

section \<open>Lemmas\<close>

lemma after_options_at_step:
  "after_options_at sv lv asg i (arg # rest) = Some k \<Longrightarrow>
   k = i \<or> k = i + 1 \<or> after_options_at sv lv asg (i + 1) rest = Some k
   \<or> after_options_at sv lv asg (i + 2) (drop 1 rest) = Some k"
  by (simp only: after_options_at.simps Let_def split: if_splits option.splits) simp_all

lemma after_options_at_bounds:
  "after_options_at sv lv asg i args = Some k \<Longrightarrow> k \<le> i + length args"
proof (induction "length args" arbitrary: args i rule: less_induct)
  case less
  show ?case
  proof (cases args)
    case Nil
    then show ?thesis using less.prems by simp
  next
    case (Cons arg rest)
    from after_options_at_step [OF less.prems [unfolded Cons]]
    consider "k \<le> i + 1" | "after_options_at sv lv asg (i + 1) rest = Some k"
      | "after_options_at sv lv asg (i + 2) (drop 1 rest) = Some k"
      by auto
    then show ?thesis
    proof cases
      case 2
      then show ?thesis using less.hyps [of rest "i + 1"] Cons by simp
    next
      case 3
      show ?thesis
      proof (cases rest)
        case Nil
        then show ?thesis using 3 by simp
      next
        case (Cons w more')
        then show ?thesis using 3 less.hyps [of "drop 1 rest" "i + 2"] \<open>args = arg # rest\<close> by simp
      qed
    qed (simp add: Cons)
  qed
qed

lemma after_options_bounds: "after_options args sv lv asg = Some k \<Longrightarrow> k \<le> length args"
  using after_options_at_bounds [of sv lv asg 0 args k] by (simp add: after_options_def)

text \<open>What \<open>program\<close> promises of the program it found.\<close>

definition program_ok :: "shell_word list \<Rightarrow> nat \<Rightarrow> program \<Rightarrow> bool" where
  "program_ok words at p \<longleftrightarrow>
     at \<le> prog_at p \<and> prog_at p < length words \<and>
     word_value (words ! prog_at p) = Literal \<and>
     prog_name p = basename (word_text (words ! prog_at p)) \<and>
     prog_args p = drop (prog_at p + 1) words \<and>
     (\<forall>offset. wrapped_offset (prog_name p) (prog_args p) = Some offset \<longrightarrow> length (prog_args p) \<le> offset) \<and>
     (prog_name p = ''xargs'' \<longrightarrow> prog_fed p)"

lemma program_ok_mono: "program_ok words at' p \<Longrightarrow> at \<le> at' \<Longrightarrow> program_ok words at p"
  unfolding program_ok_def by (blast intro: le_trans)

lemma literal_text_Some [simp]: "literal_text w = Some t \<longleftrightarrow> word_value w = Literal \<and> t = word_text w"
  by (auto simp: literal_text_def)

lemma program_from_ok: "program_from words at fed = Some p \<Longrightarrow> program_ok words at p"
proof (induction words at fed rule: program_from.induct)
  case (1 words at fed)
  from "1.prems" obtain lit: "at < length words" "word_value (words ! at) = Literal"
    by (subst (asm) program_from.simps) (auto split: if_splits option.splits)
  let ?name = "basename (word_text (words ! at))"
  let ?rest = "drop (at + 1) words"
  have lt: "literal_text (words ! at) = Some (word_text (words ! at))" using lit by simp
  show ?case
  proof (cases "wrapped_offset ?name ?rest")
    case None
    then show ?thesis using "1.prems" lit lt
      by (subst (asm) program_from.simps) (auto simp: program_ok_def Let_def)
  next
    case (Some offset)
    show ?thesis
    proof (cases "offset < length ?rest")
      case True
      have "program_from words (at + 1 + offset) (fed \<or> ?name = ''xargs'') = Some p"
        using "1.prems" lit lt Some True by (subst (asm) program_from.simps) (simp add: Let_def)
      then have "program_ok words (at + 1 + offset) p"
        by (rule "1.IH" [OF lit(1) lt refl refl refl Some True])
      then show ?thesis by (rule program_ok_mono) simp
    next
      case False
      then show ?thesis using "1.prems" lit lt Some
        by (subst (asm) program_from.simps) (auto simp: program_ok_def Let_def)
    qed
  qed
qed

lemma command_program_ok: "command_program c = Some p \<Longrightarrow> program_ok (cmd_words c) 0 p"
  by (simp add: command_program_def program_from_ok)

lemma plain_readers_not_interpreters: "program_only_reads n args \<Longrightarrow> \<not> is_interpreter n"
  by (auto simp: program_only_reads_def plain_readers_def is_interpreter_def interpreters_def)

lemma list_ex_iff_ex: "list_ex P xs \<longleftrightarrow> (\<exists>x \<in> set xs. P x)"
  by (simp add: list_ex_iff)

lemma approval_shapes_sound:
  "approval_shapes cs shapes = Some res \<Longrightarrow>
   (\<forall>c \<in> set cs.
      (\<forall>w \<in> set (cmd_words c) \<union> redirect_target ` set (cmd_redirects c).
         word_value w \<noteq> Dynamic \<and> \<not> leaves (word_text w)) \<and>
      (\<forall>p. command_program c = Some p \<longrightarrow> prog_at p = 0 \<and> \<not> is_interpreter (prog_name p))) \<and>
   set res = set shapes \<union> {program_shape p | p c. c \<in> set cs \<and> command_program c = Some p} \<and>
   (distinct shapes \<longrightarrow> distinct res)"
proof (induction cs shapes rule: approval_shapes.induct)
  case (2 c cs shapes)
  have clean: "\<forall>w \<in> set (cmd_words c) \<union> redirect_target ` set (cmd_redirects c).
      word_value w \<noteq> Dynamic \<and> \<not> leaves (word_text w)"
    using "2.prems" by (force simp: list_ex_iff_ex split: if_splits)
  then have nex: "\<not> list_ex (\<lambda>w. word_value w = Dynamic \<or> leaves (word_text w))
      (cmd_words c @ map redirect_target (cmd_redirects c))"
    by (auto simp: list_ex_iff_ex)
  show ?case
  proof (cases "command_program c")
    case None
    have "approval_shapes cs shapes = Some res" using "2.prems" nex None by simp
    from "2.IH"(1) [OF nex None this] show ?thesis using clean None by fastforce
  next
    case (Some p)
    have ni: "\<not> (is_interpreter (prog_name p) \<or> 0 < prog_at p)"
      using "2.prems" nex Some by (auto split: if_splits)
    let ?shapes = "if program_shape p \<in> set shapes then shapes else shapes @ [program_shape p]"
    have step: "approval_shapes cs ?shapes = Some res"
      using "2.prems" nex Some ni by (simp add: Let_def split: if_splits)
    have "{program_shape q | q d. d \<in> set (c # cs) \<and> command_program d = Some q} =
        insert (program_shape p) {program_shape q | q d. d \<in> set cs \<and> command_program d = Some q}"
      using Some by auto
    moreover have "distinct shapes \<Longrightarrow> distinct ?shapes" by simp
    moreover have "set ?shapes = insert (program_shape p) (set shapes)" by auto
    ultimately show ?thesis
      using "2.IH"(2) [OF nex Some ni refl step] clean Some ni by (simp only: list.set ball_simps) auto
  qed
qed simp

lemma command_reads_only_program:
  assumes "command_reads_only c"
  shows "cmd_words c = [] \<or> (\<exists>p. command_program c = Some p \<and>
    program_only_reads (prog_name p) (prog_args p) \<and> \<not> is_interpreter (prog_name p) \<and>
    \<not> prog_fed p \<and> (\<forall>ch \<in> set (word_text (cmd_words c ! prog_at p)). \<not> is_any_slash ch))"
  using assms
  by (auto simp: command_reads_only_def Let_def list_ex_iff_ex dest: plain_readers_not_interpreters
      split: if_splits option.splits)

section \<open>Properties\<close>

text \<open>The program found behind the wrappers is really what runs: its index is a word of the command
  (so indexing it cannot fail), that word is fully written out, its arguments are exactly the words
  after it, and it is not itself a wrapper such as \<open>env\<close> or \<open>timeout\<close> around a further program.\<close>

theorem program_found_sound:
  assumes "command_program c = Some p"
  shows "prog_at p < length (cmd_words c) \<and>
    word_value (cmd_words c ! prog_at p) = Literal \<and>
    prog_name p = basename (word_text (cmd_words c ! prog_at p)) \<and>
    prog_args p = drop (prog_at p + 1) (cmd_words c) \<and>
    (\<forall>offset. wrapped_offset (prog_name p) (prog_args p) = Some offset \<longrightarrow> length (prog_args p) \<le> offset)"
  using command_program_ok [OF assms] unfolding program_ok_def by blast

definition env_sort :: shell_command where
  "env_sort = command_default\<lparr>cmd_words := map (\<lambda>t. word_new t Literal)
     [''/usr/bin/env'', ''LC_ALL=C'', ''timeout'', ''-s'', ''KILL'', ''5'', ''Sort'', ''-u'']\<rparr>"

lemma env_sort_program: "command_program env_sort = Some \<lparr>prog_at = 6, prog_name = ''sort'',
    prog_args = [word_new ''-u'' Literal], prog_fed = False\<rparr>"
  by (simp add: env_sort_def command_default_def command_program_def program_from.simps word_new_def
      literal_text_def) code_simp

theorem program_found_sound_witness: "wrapped_offset ''sort'' [word_new ''-u'' Literal] \<noteq> Some 0"
  using program_found_sound [OF env_sort_program] by auto

text \<open>A line taken as read-only leaves nothing behind: its grammar was complete, nothing of it runs in
  the background or forks itself, no command sets an environment variable or opens a file for writing
  (other than a terminal or null device), and each program is a listed reader, called by its bare
  name, with all its arguments written in the line, and never a shell or a language runtime.\<close>

theorem reads_only_is_safe:
  assumes "reading_reads_only r"
  shows "reading_complete r \<and> \<not> reading_self_forking r \<and>
    (\<forall>c \<in> set (reading_commands r).
       \<not> cmd_background c \<and> cmd_assigns c = [] \<and>
       (\<forall>d \<in> set (cmd_redirects c). redirect_flow d \<in> {FlowRead, FlowDuplicate, FlowHere}
          \<or> is_device (word_text (redirect_target d))) \<and>
       (cmd_words c = [] \<or> (\<exists>p. command_program c = Some p \<and>
          program_only_reads (prog_name p) (prog_args p) \<and> \<not> is_interpreter (prog_name p) \<and>
          \<not> prog_fed p \<and> (\<forall>ch \<in> set (word_text (cmd_words c ! prog_at p)). \<not> is_any_slash ch))))"
proof -
  have each: "\<not> cmd_background c \<and> command_reads_only c" if "c \<in> set (reading_commands r)" for c
    using assms that by (auto simp: reading_reads_only_def list_all_iff)
  have redir: "redirect_flow d \<in> {FlowRead, FlowDuplicate, FlowHere} \<or> is_device (word_text (redirect_target d))"
    if "c \<in> set (reading_commands r)" "d \<in> set (cmd_redirects c)" for c d
    using each [OF that(1)] that(2)
    by (cases "redirect_flow d") (auto simp: command_reads_only_def redirect_writes_def list_ex_iff_ex split: if_splits)
  have "cmd_assigns c = []" if "c \<in> set (reading_commands r)" for c
    using each [OF that] by (simp add: command_reads_only_def split: if_splits)
  moreover have "reading_complete r" "\<not> reading_self_forking r"
    using assms by (simp_all add: reading_reads_only_def)
  ultimately show ?thesis using each redir command_reads_only_program by blast
qed

definition sort_line :: reading where
  "sort_line = \<lparr>reading_commands = [command_default\<lparr>cmd_words := [word_new ''sort'' Literal, word_new ''a'' Literal],
     cmd_redirects := [\<lparr>redirect_fd = Some 2, redirect_flow = FlowWrite, redirect_target = word_new ''/dev/null'' Literal\<rparr>]\<rparr>],
     reading_complete = True, reading_self_forking = False\<rparr>"

lemma sort_line_program: "command_program (hd (reading_commands sort_line)) = Some \<lparr>prog_at = 0, prog_name = ''sort'',
    prog_args = [word_new ''a'' Literal], prog_fed = False\<rparr>"
  by (simp add: sort_line_def command_default_def command_program_def program_from.simps word_new_def
      literal_text_def) code_simp

theorem reads_only_is_safe_witness: "\<not> is_interpreter ''sort'' \<and> is_device ''/dev/null''"
proof -
  have "command_reads_only (hd (reading_commands sort_line))"
    unfolding command_reads_only_def sort_line_program by code_simp
  then have "reading_reads_only sort_line"
    by (simp add: reading_reads_only_def sort_line_def command_default_def)
  from reads_only_is_safe [OF this] sort_line_program show ?thesis
    by (auto simp: sort_line_def command_default_def word_new_def)
qed

text \<open>An \<open>always allow\<close> never reaches what the person did not see: when a line has a shape, the line was
  parsed completely, none of its words or redirect targets is decided by the shell or leaves the
  folder, no program of it is an interpreter or stands behind a wrapper, and the shape lists
  each program of the line, each exactly once.\<close>

theorem approval_shape_covers_line:
  assumes "approval_shape r = Some s"
  shows "reading_complete r \<and>
    (\<forall>c \<in> set (reading_commands r).
      (\<forall>w \<in> set (cmd_words c) \<union> redirect_target ` set (cmd_redirects c).
         word_value w \<noteq> Dynamic \<and> \<not> leaves (word_text w)) \<and>
      (\<forall>p. command_program c = Some p \<longrightarrow> prog_at p = 0 \<and> \<not> is_interpreter (prog_name p))) \<and>
    (\<exists>shapes. s = join_with ''; '' shapes \<and> distinct shapes \<and>
       set shapes = {program_shape p | p c. c \<in> set (reading_commands r) \<and> command_program c = Some p})"
proof -
  obtain shapes where "approval_shapes (reading_commands r) [] = Some shapes"
    and s: "reading_complete r" "s = join_with ''; '' shapes"
    using assms by (auto simp: approval_shape_def split: if_splits option.splits)
  from approval_shapes_sound [OF this(1)] s show ?thesis by (intro conjI exI [of _ shapes]) simp_all
qed

definition cargo_test :: reading where
  "cargo_test = \<lparr>reading_commands = [command_default\<lparr>cmd_words := [word_new ''cargo'' Literal, word_new ''test'' Literal]\<rparr>],
     reading_complete = True, reading_self_forking = False\<rparr>"

lemma cargo_test_program: "command_program (hd (reading_commands cargo_test)) = Some \<lparr>prog_at = 0, prog_name = ''cargo'',
    prog_args = [word_new ''test'' Literal], prog_fed = False\<rparr>"
  by (simp add: cargo_test_def command_default_def command_program_def program_from.simps word_new_def
      literal_text_def) code_simp

theorem approval_shape_covers_line_witness:
  "approval_shape cargo_test = Some ''cargo test'' \<and> \<not> is_interpreter ''cargo'' \<and> \<not> leaves ''test''"
proof -
  have plain: "plain_word (word_new ''test'' Literal)" "\<not> leaves ''cargo''" "\<not> leaves ''test''"
    "\<not> is_interpreter ''cargo''" by code_simp+
  then have "approval_shapes (reading_commands cargo_test) [] = Some [''cargo test'']"
    using cargo_test_program
    by (simp add: cargo_test_def command_default_def program_shape_def) (simp add: word_new_def)
  then have s: "approval_shape cargo_test = Some ''cargo test''"
    by (simp add: approval_shape_def cargo_test_def)
  from approval_shape_covers_line [OF this] cargo_test_program s show ?thesis
    by (auto simp: cargo_test_def command_default_def word_new_def)
qed

section \<open>A gap in the list of readers\<close>

text \<open>
  \<open>sed -e'w out' t\<close> writes \<open>out\<close>: the script is attached to its option, so \<open>sed_reads\<close> never looks at
  it and takes the operand for the script. \<open>xxd dump out\<close> writes \<open>out\<close> too, and \<open>xxd\<close> is on the list of
  programs that read whatever their arguments.
\<close>

text \<open>Two programs that write pass for readers: \<open>sed\<close> with any script attached to \<open>-e\<close> that has no letter
  \<open>i\<close> or \<open>f\<close> and does not end in \<open>e\<close>, and \<open>xxd\<close> with an output file.\<close>

theorem reader_list_gaps:
  assumes "CHR ''i'' \<notin> set script" "CHR ''f'' \<notin> set script" "script \<noteq> []" "last script \<noteq> CHR ''e''"
  shows "program_only_reads ''sed'' [word_new (''-e'' @ script) Literal, word_new ''t'' Literal] \<and>
    program_only_reads ''xxd'' [word_new ''dump'' Literal, word_new out Literal]"
proof
  have "\<not> ends_with (CHR ''e'' # script) ''e''"
    using assms(3,4) by (cases script rule: rev_cases) (simp_all add: ends_with_def)
  then have "sed_scripts [word_new (''-e'' @ script) Literal, word_new ''t'' Literal] False [] = Some [word_new ''t'' Literal]"
    using assms(1,2) by (simp add: word_new_def starts_with_def strip_prefix_def Let_def)
  moreover have "script_reads ''t''" by code_simp
  ultimately have "sed_reads [word_new (''-e'' @ script) Literal, word_new ''t'' Literal]"
    by (simp add: sed_reads_def literal_text_def word_new_def)
  then show "program_only_reads ''sed'' [word_new (''-e'' @ script) Literal, word_new ''t'' Literal]"
    by (simp add: program_only_reads_def plain_readers_def)
  show "program_only_reads ''xxd'' [word_new ''dump'' Literal, word_new out Literal]"
    by (simp add: program_only_reads_def plain_readers_def)
qed

theorem reader_list_gaps_witness:
  "program_only_reads ''sed'' [word_new ''-ew out'' Literal, word_new ''t'' Literal]"
  using reader_list_gaps [of "''w out''" "[]"] by simp

end
