(* ===== verification/ShellParse.thy ===== *)
theory ShellParse
  imports ShellReader
begin

text \<open>
  \<open>crates/shell-reader/src/parse.rs\<close> and \<open>word.rs\<close>: the walk over the bash grammar tree that
  collects the commands of a line. The grammar itself is the \<open>tree-sitter-bash\<close> crate; its tree is
  the input here (\<open>node\<close>: kind, whether it is a named node, its source text, its children with
  their field names), and \<open>shell_read\<close> takes the parser as a parameter.
\<close>

datatype node = Node (node_kind: string) (node_named: bool) (node_text: string)
  (node_children: "(string option \<times> node) list")

definition children :: "node \<Rightarrow> node list" where
  "children n = map snd (node_children n)"

definition named :: "node \<Rightarrow> node list" where
  "named n = filter node_named (children n)"

definition field_of :: "node \<Rightarrow> string \<Rightarrow> node option" where
  "field_of n name = find_map (\<lambda>(l, c). if l = Some name then Some c else None) (node_children n)"

lemma size_children [termination_simp]: "c \<in> set (children n) \<Longrightarrow> size c < size n"
proof (cases n)
  case (Node k b t cs)
  assume "c \<in> set (children n)"
  then obtain l where "(l, c) \<in> set cs" using Node by (auto simp: children_def)
  then have "size c \<le> size_list (\<lambda>x. Suc (size (snd x))) cs"
    by (rule size_list_estimation') simp
  then show ?thesis using Node by (simp add: size_prod_simp)
qed

lemma size_named [termination_simp]: "c \<in> set (named n) \<Longrightarrow> size c < size n"
  by (simp add: named_def size_children)

lemma size_field_of [termination_simp]: "field_of n name = Some c \<Longrightarrow> size c < size n"
  by (auto simp: field_of_def children_def image_iff dest!: find_map_Some intro!: size_children split: if_splits)
    (metis snd_conv)

section \<open>The value of a word\<close>

fun bare_chars :: "bool \<Rightarrow> string \<Rightarrow> string \<times> bool" where
  "bare_chars braces [] = ([], False)"
| "bare_chars braces (ch # rest) =
     (if ch = CHR 0x5C then
        (case rest of
           [] \<Rightarrow> ([], False)
         | c # later \<Rightarrow>
             (let (v, p) = bare_chars braces later in (if c \<noteq> CHR 0x0A then (c # v, p) else (v, p))))
      else if ch \<in> set ''*?['' \<or> (ch = CHR ''{'' \<and> braces)
      then (let (v, p) = bare_chars braces rest in (ch # v, True))
      else (let (v, p) = bare_chars braces rest in (ch # v, p)))"

definition bare :: "string \<Rightarrow> shell_word" where
  "bare raw =
     (let (v, pattern) = bare_chars (CHR '','' \<in> set raw \<or> contains_str raw ''..'') raw
      in word_new v (if pattern then Pattern else Literal))"

definition expansion :: "node \<Rightarrow> shell_word" where
  "expansion n =
     (let raw = node_text n;
          status =
            (case named n of
               [only] \<Rightarrow>
                 if node_kind only = ''special_variable_name'' then node_text only \<in> {''?'', ''#'', ''$'', ''!'', ''-''}
                 else if node_kind only = ''subscript'' then starts_with raw ''${PIPESTATUS[''
                 else starts_with raw ''${#''
             | _ \<Rightarrow> starts_with raw ''${#'')
      in word_new raw (if status then Status else Dynamic))"

fun unescape_quoted :: "string \<Rightarrow> string" where
  "unescape_quoted [] = []"
| "unescape_quoted (ch # rest) =
     (if ch = CHR 0x5C
      then (case rest of
              [] \<Rightarrow> [ch]
            | c # later \<Rightarrow>
                if c \<in> {CHR ''$'', CHR 0x60, CHR 0x22, CHR 0x5C} then c # unescape_quoted later
                else if c = CHR 0x0A then unescape_quoted later
                else ch # unescape_quoted rest)
      else ch # unescape_quoted rest)"

fun ansi_c_body :: "string \<Rightarrow> string" where
  "ansi_c_body [] = []"
| "ansi_c_body (ch # rest) =
     (if ch \<noteq> CHR 0x5C then ch # ansi_c_body rest
      else (case rest of
              [] \<Rightarrow> []
            | c # later \<Rightarrow>
                (if c = CHR ''n'' then CHR 0x0A
                 else if c = CHR ''t'' then CHR 0x09
                 else if c = CHR ''r'' then CHR 0x0D
                 else if c = CHR ''0'' then CHR 0x00
                 else c) # ansi_c_body later))"

text \<open>\<open>s.trim_start_matches(pat)\<close> for a string: the pattern is stripped as often as it starts the text.\<close>

function trim_start_matches :: "string \<Rightarrow> string \<Rightarrow> string" where
  "trim_start_matches pat s =
     (case strip_prefix pat s of
        Some r \<Rightarrow> if length r < length s then trim_start_matches pat r else s
      | None \<Rightarrow> s)"
  by pat_completeness auto

termination by (relation "measure (\<lambda>(_, s). length s)") auto

declare trim_start_matches.simps [simp del]

definition is_quote :: "char \<Rightarrow> bool" where
  "is_quote c \<longleftrightarrow> c = CHR 0x27"

definition ansi_c :: "string \<Rightarrow> string" where
  "ansi_c raw = ansi_c_body (trim_end_by is_quote (trim_start_matches [CHR ''$'', CHR 0x27] raw))"

definition join_words :: "shell_word list \<Rightarrow> shell_word" where
  "join_words ws = foldl word_join (word_new [] Literal) ws"

text \<open>\<open>word\<close>, with \<open>quoted\<close> written out in its second branch.\<close>

function node_word :: "node \<Rightarrow> shell_word" where
  "node_word n =
     (let raw = node_text n; kind = node_kind n in
      if kind = ''concatenation'' then join_words (map node_word (named n))
      else if kind = ''string'' \<or> kind = ''translated_string'' then
        join_words (map (\<lambda>child.
            if node_kind child = ''string_content'' then word_new (unescape_quoted (node_text child)) Literal
            else if \<not> node_named child then word_new (node_text child) Literal
            else node_word child)
          (filter (\<lambda>child. node_kind child \<noteq> [CHR 0x22]) (children n)))
      else if (kind = ''word'' \<or> kind = ''number'') \<and> named n = [] then bare raw
      else if kind = ''raw_string'' then word_new (trim_end_by is_quote (trim_start_by is_quote raw)) Literal
      else if kind = ''ansi_c_string'' then word_new (ansi_c raw) Literal
      else if kind = ''simple_expansion'' \<or> kind = ''expansion'' then expansion n
      else if kind = ''arithmetic_expansion'' then word_new raw Status
      else if kind = ''brace_expression'' \<or> kind = ''extglob_pattern'' then word_new raw Pattern
      else word_new raw Dynamic)"
  by pat_completeness auto

termination by (relation "measure size") (auto intro: size_children size_named)

declare node_word.simps [simp del]

section \<open>The walk\<close>

record walk_ctx =
  in_pipe :: bool
  in_background :: bool
  in_substitution :: bool

definition ctx_default :: walk_ctx where
  "ctx_default = \<lparr>in_pipe = False, in_background = False, in_substitution = False\<rparr>"

record walk =
  walk_commands :: "shell_command list"
  walk_complete :: bool
  walk_self_forking :: bool

definition is_value :: "string \<Rightarrow> bool" where
  "is_value kind \<longleftrightarrow> kind \<in> set [''word'', ''string'', ''raw_string'', ''ansi_c_string'', ''translated_string'',
     ''concatenation'', ''number'', ''simple_expansion'', ''expansion'', ''arithmetic_expansion'',
     ''brace_expression'', ''extglob_pattern'', ''array'', ''regex'', ''variable_name'', ''test_operator'',
     ''command_substitution'', ''process_substitution'']"

definition shell_flow :: "string \<Rightarrow> shell_word \<Rightarrow> flow" where
  "shell_flow operator target =
     (let descriptor = word_text target = ''-'' \<or> list_all is_ascii_digit (word_text target) in
      if operator = ''<'' then FlowRead
      else if operator = ''>>'' \<or> operator = ''&>>'' then FlowAppend
      else if operator = ''<>'' then FlowReadWrite
      else if operator = ''<&'' \<or> operator = ''<&-'' \<or> operator = ''>&-'' then FlowDuplicate
      else if operator = ''>&'' \<and> descriptor then FlowDuplicate
      else FlowWrite)"

definition here_redirect :: "nat option \<Rightarrow> redirect" where
  "here_redirect fd = \<lparr>redirect_fd = fd, redirect_flow = FlowHere, redirect_target = word_new [] Literal\<rparr>"

definition file_redirect :: "nat option \<Rightarrow> node \<Rightarrow> redirect" where
  "file_redirect fd n =
     (let operator = (case filter (\<lambda>c. \<not> node_named c) (children n) of c # _ \<Rightarrow> node_kind c | [] \<Rightarrow> []);
          target = (case field_of n ''destination'' of Some t \<Rightarrow> node_word t | None \<Rightarrow> word_new [] Literal)
      in \<lparr>redirect_fd = fd, redirect_flow = shell_flow operator target, redirect_target = target\<rparr>)"

text \<open>Each child with whether the next child is \<open>&\<close>.\<close>

fun with_amp :: "node list \<Rightarrow> (node \<times> bool) list" where
  "with_amp [] = []"
| "with_amp (c # cs) = (c, (case cs of d # _ \<Rightarrow> node_kind d = ''&'' | [] \<Rightarrow> False)) # with_amp cs"

lemma with_amp_fst: "p \<in> set (with_amp cs) \<Longrightarrow> fst p \<in> set cs"
  by (induction cs) auto

lemma enumerate_snd: "p \<in> set (List.enumerate k xs) \<Longrightarrow> snd p \<in> set xs"
  by (cases p) (auto simp: enumerate_eq_zip dest: set_zip_rightD)

lemma size_with_amp [termination_simp]: "p \<in> set (with_amp (children n)) \<Longrightarrow> size (fst p) < size n"
  by (simp add: size_children with_amp_fst)

lemma size_enumerate [termination_simp]: "p \<in> set (List.enumerate k (named n)) \<Longrightarrow> size (snd p) < size n"
  by (rule size_named [OF enumerate_snd])

definition redirect_kinds :: "string list" where
  "redirect_kinds = [''file_redirect'', ''herestring_redirect'', ''heredoc_redirect'']"

definition block_kinds :: "string list" where
  "block_kinds = [''program'', ''list'', ''subshell'', ''compound_statement'', ''negated_command'', ''if_statement'',
     ''elif_clause'', ''else_clause'', ''while_statement'', ''for_statement'', ''c_style_for_statement'',
     ''case_statement'', ''case_item'', ''do_group'']"

definition declared_fd :: "node \<Rightarrow> nat option" where
  "declared_fd n = (case field_of n ''descriptor'' of Some d \<Rightarrow> parse_unsigned 32 (node_text d) | None \<Rightarrow> None)"

text \<open>What one child of a command node adds to the command; redirect children are in \<open>walk_command\<close>.\<close>

definition command_child :: "node \<Rightarrow> shell_command \<Rightarrow> shell_command" where
  "command_child child c =
     (let kind = node_kind child in
      if kind = ''variable_assignment'' then
        (case field_of child ''name'' of
           Some name \<Rightarrow> c\<lparr>cmd_assigns := cmd_assigns c @ [node_text name]\<rparr> | None \<Rightarrow> c)
      else if kind = ''command_name'' then
        (case named child of name # _ \<Rightarrow> c\<lparr>cmd_words := cmd_words c @ [node_word name]\<rparr> | [] \<Rightarrow> c)
      else if is_value kind then c\<lparr>cmd_words := cmd_words c @ [node_word child]\<rparr>
      else if \<not> node_named child \<and> cmd_words c = [] \<and>
        list_all (\<lambda>ch. is_ascii_alphabetic ch \<or> ch = CHR ''['') kind
      then c\<lparr>cmd_words := [word_new kind Literal]\<rparr>
      else c)"

definition first_word :: "shell_command \<Rightarrow> string option" where
  "first_word c = map_option word_text (first_of (cmd_words c))"

text \<open>A function that pipes or backgrounds a call to itself.\<close>

definition calls_itself :: "string option \<Rightarrow> shell_command list \<Rightarrow> bool" where
  "calls_itself name cs \<longleftrightarrow>
     list_ex (\<lambda>c. (cmd_piped_in c \<or> cmd_background c) \<and> first_word c = name) cs"

function (sequential)
  walk_block :: "node \<Rightarrow> walk_ctx \<Rightarrow> walk \<Rightarrow> walk \<times> nat option" and
  walk_substitutions :: "node \<Rightarrow> walk \<Rightarrow> walk" and
  walk_redirect :: "node \<Rightarrow> walk_ctx \<Rightarrow> walk \<Rightarrow> walk \<times> redirect list" and
  walk_command :: "node \<Rightarrow> walk_ctx \<Rightarrow> walk \<Rightarrow> walk \<times> nat" and
  walk_pipeline :: "node \<Rightarrow> walk_ctx \<Rightarrow> walk \<Rightarrow> walk \<times> nat option" and
  walk_redirected :: "node \<Rightarrow> walk_ctx \<Rightarrow> walk \<Rightarrow> walk \<times> nat option" and
  walk_function :: "node \<Rightarrow> walk_ctx \<Rightarrow> walk \<Rightarrow> walk" and
  walk_statement :: "node \<Rightarrow> walk_ctx \<Rightarrow> walk \<Rightarrow> walk \<times> nat option"
where
  "walk_block n ctx w =
     foldl (\<lambda>st p.
         let (w, last) = st; child = fst p in
         if \<not> node_named child then (w, last)
         else if is_value (node_kind child) then (walk_substitutions child w, last)
         else walk_statement child (ctx\<lparr>in_background := in_background ctx \<or> snd p\<rparr>) w)
       (w, None) (with_amp (children n))"
| "walk_substitutions n w =
     (if node_kind n = ''command_substitution'' \<or> node_kind n = ''process_substitution''
      then fst (walk_block n (ctx_default\<lparr>in_substitution := True\<rparr>) w)
      else foldl (\<lambda>w child. walk_substitutions child w) w (named n))"
| "walk_redirect n ctx w =
     (let fd = declared_fd n in
      if node_kind n = ''file_redirect'' then (walk_substitutions n w, [file_redirect fd n])
      else if node_kind n = ''heredoc_redirect'' then
        foldl (\<lambda>st child. let (w, rs) = st in
            if node_kind child = ''file_redirect''
            then (let (w', more') = walk_redirect child ctx w in (w', rs @ more'))
            else if node_kind child \<in> {''heredoc_body'', ''heredoc_start'', ''heredoc_end''}
            then (walk_substitutions child w, rs)
            else (fst (walk_statement child (ctx\<lparr>in_pipe := True\<rparr>) w), rs))
          (w, [here_redirect fd]) (named n)
      else (walk_substitutions n w, [here_redirect fd]))"
| "walk_command n ctx w =
     (let command = command_default\<lparr>cmd_piped_in := in_pipe ctx, cmd_background := in_background ctx,
            cmd_substituted := in_substitution ctx\<rparr>;
          at = length (walk_commands w);
          (w', command') =
            foldl (\<lambda>st child. let (w, c) = st in
                if node_kind child \<in> set redirect_kinds
                then (let (w', rs) = walk_redirect child ctx w in (w', c\<lparr>cmd_redirects := cmd_redirects c @ rs\<rparr>))
                else (walk_substitutions child w, command_child child c))
              (w\<lparr>walk_commands := walk_commands w @ [command_default]\<rparr>, command) (children n)
      in (w'\<lparr>walk_commands := (walk_commands w')[at := command']\<rparr>, at))"
| "walk_pipeline n ctx w =
     foldl (\<lambda>st p.
         walk_statement (snd p) (ctx\<lparr>in_pipe := in_pipe ctx \<or> 0 < fst p\<rparr>) (fst st))
       (w, None) (List.enumerate 0 (named n))"
| "walk_redirected n ctx w =
     (let (w', rs, last) =
            foldl (\<lambda>st child. let (w, rs, last) = st in
                if node_kind child \<in> set redirect_kinds
                then (let (w', more') = walk_redirect child ctx w in (w', rs @ more', last))
                else if node_named child
                then (let (w', last') = walk_statement child ctx w in (w', rs, last'))
                else (w, rs, last))
              (w, [], None) (children n);
          body = map_option node_kind (field_of n ''body'')
      in case last of
           Some at \<Rightarrow>
             if body \<in> {Some ''command'', Some ''list'', Some ''pipeline''}
             then (w'\<lparr>walk_commands := (walk_commands w')[at :=
                     ((walk_commands w') ! at)\<lparr>cmd_redirects := cmd_redirects (walk_commands w' ! at) @ rs\<rparr>]\<rparr>, Some at)
             else (w'\<lparr>walk_commands := walk_commands w' @ [command_default\<lparr>cmd_redirects := rs\<rparr>]\<rparr>, None)
         | None \<Rightarrow> (w'\<lparr>walk_commands := walk_commands w' @ [command_default\<lparr>cmd_redirects := rs\<rparr>]\<rparr>, None))"
| "walk_function n ctx w =
     (let name = map_option node_text (field_of n ''name'');
          start = length (walk_commands w);
          w' = (case field_of n ''body'' of Some body \<Rightarrow> fst (walk_statement body ctx w) | None \<Rightarrow> w)
      in w'\<lparr>walk_self_forking := (walk_self_forking w' \<or> calls_itself name (drop start (walk_commands w')))\<rparr>)"
| "walk_statement n ctx w =
     (let kind = node_kind n in
      if kind \<in> {''command'', ''declaration_command'', ''unset_command'', ''test_command''}
      then (let (w', at) = walk_command n ctx w in (w', Some at))
      else if kind \<in> {''variable_assignment'', ''variable_assignments''} then (walk_substitutions n w, None)
      else if kind = ''pipeline'' then walk_pipeline n ctx w
      else if kind = ''redirected_statement'' then walk_redirected n ctx w
      else if kind = ''function_definition'' then (walk_function n ctx w, None)
      else if kind \<in> {''comment'', ''heredoc_body''} then (w, None)
      else if kind = ''ERROR'' then walk_block n ctx (w\<lparr>walk_complete := False\<rparr>)
      else if kind \<in> set block_kinds then walk_block n ctx w
      else (walk_substitutions n (w\<lparr>walk_complete := False\<rparr>), None))"
  by pat_completeness auto

termination
proof (relation "measure (case_sum
    (case_sum (case_sum (\<lambda>(n, _). 4 * size n) (\<lambda>(n, _). 4 * size n + 1))
              (case_sum (\<lambda>(n, _). 4 * size n + 2) (\<lambda>(n, _). 4 * size n + 2)))
    (case_sum (case_sum (\<lambda>(n, _). 4 * size n + 2) (\<lambda>(n, _). 4 * size n + 2))
              (case_sum (\<lambda>(n, _). 4 * size n + 2) (\<lambda>(n, _). 4 * size n + 3))))", goal_cases)
qed (auto dest: size_children size_named size_field_of size_with_amp size_enumerate)

declare walk_block.simps [simp del] walk_substitutions.simps [simp del] walk_redirect.simps [simp del]
  walk_command.simps [simp del] walk_pipeline.simps [simp del] walk_redirected.simps [simp del]
  walk_function.simps [simp del] walk_statement.simps [simp del]

text \<open>
  \<open>read\<close>: \<open>parser\<close> is the grammar, the root of the tree and its \<open>has_error\<close>, or None when the
  language or the parse is not available.
\<close>

definition shell_read :: "(string \<Rightarrow> (node \<times> bool) option) \<Rightarrow> string \<Rightarrow> reading" where
  "shell_read parser line =
     (case parser line of
        None \<Rightarrow> reading_default
      | Some (root, has_error) \<Rightarrow>
          let w = fst (walk_block root ctx_default
                \<lparr>walk_commands = [], walk_complete = \<not> has_error, walk_self_forking = False\<rparr>)
          in \<lparr>reading_commands = walk_commands w, reading_complete = walk_complete w,
              reading_self_forking = walk_self_forking w\<rparr>)"

section \<open>What every step of the walk keeps\<close>

definition grows :: "walk \<Rightarrow> walk \<Rightarrow> bool" where
  "grows w w' \<longleftrightarrow> prefix (walk_commands w) (walk_commands w') \<and>
     (walk_complete w' \<longrightarrow> walk_complete w) \<and> (walk_self_forking w \<longrightarrow> walk_self_forking w')"

definition lands :: "walk \<Rightarrow> walk \<times> nat option \<Rightarrow> bool" where
  "lands w r \<longleftrightarrow> grows w (fst r) \<and>
     (\<forall>at. snd r = Some at \<longrightarrow> length (walk_commands w) \<le> at \<and> at < length (walk_commands (fst r)))"

lemma grows_refl [simp]: "grows w w"
  by (simp add: grows_def)

lemma grows_trans: "grows u v \<Longrightarrow> grows v w \<Longrightarrow> grows u w"
  by (auto simp: grows_def intro: prefix_order.trans)

lemma grows_incomplete [simp]: "grows w (w\<lparr>walk_complete := False\<rparr>)"
  by (simp add: grows_def)

lemma grows_push: "grows w w' \<Longrightarrow> grows w (w'\<lparr>walk_commands := walk_commands w' @ [c]\<rparr>)"
  by (simp add: grows_def)

lemma grows_update:
  "grows w w' \<Longrightarrow> length (walk_commands w) \<le> at \<Longrightarrow> grows w (w'\<lparr>walk_commands := (walk_commands w')[at := c]\<rparr>)"
  by (auto simp: grows_def prefix_def list_update_append)

lemma lands_trans: "grows u v \<Longrightarrow> lands v r \<Longrightarrow> lands u r"
  by (fastforce simp: lands_def dest: grows_trans simp: grows_def prefix_length_le
      intro: le_trans [OF prefix_length_le])

lemma lands_None: "grows w w' \<Longrightarrow> lands w (w', None)"
  by (simp add: lands_def)

lemma foldl_inv:
  "I s \<Longrightarrow> (\<And>s x. x \<in> set xs \<Longrightarrow> I s \<Longrightarrow> I (f s x)) \<Longrightarrow> I (foldl f s xs)"
  by (induction xs arbitrary: s) simp_all

definition walk_good :: "node \<Rightarrow> bool" where
  "walk_good n \<longleftrightarrow> (\<forall>ctx w. lands w (walk_block n ctx w)) \<and> (\<forall>w. grows w (walk_substitutions n w)) \<and>
     (\<forall>ctx w. grows w (fst (walk_redirect n ctx w))) \<and> (\<forall>ctx w. lands w (walk_statement n ctx w))"

lemma walk_goodD:
  assumes "walk_good n"
  shows "lands w (walk_block n ctx w)" "grows w (walk_substitutions n w)"
    "grows w (fst (walk_redirect n ctx w))" "lands w (walk_statement n ctx w)"
  using assms by (simp_all add: walk_good_def)

lemma lands_grows: "lands w r \<Longrightarrow> grows w (fst r)"
  by (simp add: lands_def)

lemma lands_extend: "lands w (u, l) \<Longrightarrow> grows u v \<Longrightarrow> lands w (v, l)"
  by (auto simp: lands_def grows_def dest: prefix_length_le intro: prefix_order.trans)

lemma block_lands:
  assumes kids: "\<And>c. c \<in> set (children n) \<Longrightarrow> walk_good c"
  shows "lands w (walk_block n ctx w)"
  unfolding walk_block.simps
proof (rule foldl_inv [where I = "lands w"])
  show "lands w (w, None)" by (simp add: lands_def)
next
  fix st p assume p: "p \<in> set (with_amp (children n))" and st: "lands w st"
  have g: "walk_good (fst p)" by (rule kids [OF with_amp_fst [OF p]])
  obtain u last where st': "st = (u, last)" by (cases st)
  have gu: "grows w u" using st by (simp add: st' lands_def)
  have "lands w (u, last)" "lands w (walk_substitutions (fst p) u, last)"
    using st walk_goodD(2) [OF g] by (auto simp: st' intro: lands_extend)
  moreover have "lands w (walk_statement (fst p) (ctx\<lparr>in_background := in_background ctx \<or> snd p\<rparr>) u)"
    by (rule lands_trans [OF gu walk_goodD(4) [OF g]])
  ultimately show "lands w (let (w, last) = st; child = fst p in
      if \<not> node_named child then (w, last)
      else if is_value (node_kind child) then (walk_substitutions child w, last)
      else walk_statement child (ctx\<lparr>in_background := in_background ctx \<or> snd p\<rparr>) w)"
    by (simp add: st' Let_def)
qed

lemma substitutions_grows:
  assumes kids: "\<And>c. c \<in> set (children n) \<Longrightarrow> walk_good c"
  shows "grows w (walk_substitutions n w)"
proof -
  have "grows w (foldl (\<lambda>w child. walk_substitutions child w) w (named n))"
  proof (rule foldl_inv [where I = "grows w"])
    fix s x assume "x \<in> set (named n)" "grows w s"
    then show "grows w (walk_substitutions x s)"
      using walk_goodD(2) [OF kids [of x]] by (auto simp: named_def intro: grows_trans)
  qed simp
  then show ?thesis
    using lands_grows [OF block_lands [OF kids]] by (simp add: walk_substitutions.simps)
qed

lemma redirect_grows:
  assumes kids: "\<And>c. c \<in> set (children n) \<Longrightarrow> walk_good c"
  shows "grows w (fst (walk_redirect n ctx w))"
proof -
  have "grows w (fst (foldl (\<lambda>st child. let (w, rs) = st in
      if node_kind child = ''file_redirect''
      then (let (w', more') = walk_redirect child ctx w in (w', rs @ more'))
      else if node_kind child \<in> {''heredoc_body'', ''heredoc_start'', ''heredoc_end''}
      then (walk_substitutions child w, rs)
      else (fst (walk_statement child (ctx\<lparr>in_pipe := True\<rparr>) w), rs))
    (w, [here_redirect (declared_fd n)]) (named n)))" (is "grows w (fst (foldl ?f _ _))")
  proof (rule foldl_inv [where I = "\<lambda>st. grows w (fst st)"])
    fix st :: "walk \<times> redirect list" and x assume x: "x \<in> set (named n)" and st: "grows w (fst st)"
    have g: "walk_good x" using x kids by (simp add: named_def)
    have "grows w (walk_substitutions x (fst st))" "grows w (fst (walk_redirect x ctx (fst st)))"
      "grows w (fst (walk_statement x (ctx\<lparr>in_pipe := True\<rparr>) (fst st)))"
      by (rule grows_trans [OF st walk_goodD(2) [OF g]], rule grows_trans [OF st walk_goodD(3) [OF g]],
          rule grows_trans [OF st lands_grows [OF walk_goodD(4) [OF g]]])
    then show "grows w (fst (?f st x))"
      by (cases st; cases "walk_redirect x ctx (fst st)") simp
  qed simp
  then show ?thesis
    using substitutions_grows [OF kids, where w = w] by (simp add: walk_redirect.simps Let_def)
qed

lemma command_lands:
  assumes kids: "\<And>c. c \<in> set (children n) \<Longrightarrow> walk_good c"
    and r: "walk_command n ctx w = (u, at)"
  shows "lands w (u, Some at)"
proof -
  define v where "v = w\<lparr>walk_commands := walk_commands w @ [command_default]\<rparr>"
  define f where "f = (\<lambda>st child. let (w, c) = st in
      if node_kind child \<in> set redirect_kinds
      then (let (w', rs) = walk_redirect child ctx w in (w', c\<lparr>cmd_redirects := cmd_redirects c @ rs\<rparr>))
      else (walk_substitutions child w, command_child child c))"
  have loop: "grows v (fst (foldl f (v, c) (children n)))" for c
  proof (rule foldl_inv [where I = "\<lambda>st. grows v (fst st)"])
    fix st :: "walk \<times> shell_command" and x assume x: "x \<in> set (children n)" and st: "grows v (fst st)"
    have "grows v (walk_substitutions x (fst st))" "grows v (fst (walk_redirect x ctx (fst st)))"
      by (rule grows_trans [OF st walk_goodD(2) [OF kids [OF x]]],
          rule grows_trans [OF st walk_goodD(3) [OF kids [OF x]]])
    then show "grows v (fst (f st x))"
      by (cases st; cases "walk_redirect x ctx (fst st)") (simp add: f_def)
  qed simp
  obtain u' c' where fold: "foldl f (v, command_default\<lparr>cmd_piped_in := in_pipe ctx,
      cmd_background := in_background ctx, cmd_substituted := in_substitution ctx\<rparr>) (children n) = (u', c')"
    by (meson surj_pair)
  have gv: "grows v u'" using loop fold by (metis fst_conv)
  have at: "at = length (walk_commands w)" and u: "u = u'\<lparr>walk_commands := (walk_commands u')[at := c']\<rparr>"
    using r unfolding walk_command.simps v_def [symmetric] f_def [symmetric] by (auto simp add: fold Let_def)
  have "grows w u'" using gv grows_push [OF grows_refl, of w] by (auto simp: v_def intro: grows_trans)
  moreover have "at < length (walk_commands u')"
    using gv by (auto simp: at v_def grows_def dest: prefix_length_le)
  ultimately show ?thesis by (simp add: lands_def u at grows_update)
qed

lemma pipeline_lands:
  assumes kids: "\<And>c. c \<in> set (children n) \<Longrightarrow> walk_good c"
  shows "lands w (walk_pipeline n ctx w)"
  unfolding walk_pipeline.simps
proof (rule foldl_inv [where I = "lands w"])
  fix st p assume p: "p \<in> set (List.enumerate 0 (named n))" and st: "lands w st"
  have "snd p \<in> set (children n)" using enumerate_snd [OF p] by (simp add: named_def)
  then show "lands w (walk_statement (snd p) (ctx\<lparr>in_pipe := in_pipe ctx \<or> 0 < fst p\<rparr>) (fst st))"
    using lands_trans [OF lands_grows [OF st]] walk_goodD(4) [OF kids] by blast
qed (simp add: lands_def)

lemma redirected_lands:
  assumes kids: "\<And>c. c \<in> set (children n) \<Longrightarrow> walk_good c"
  shows "lands w (walk_redirected n ctx w)"
proof -
  define f where "f = (\<lambda>st child. let (w, rs, last) = st in
      if node_kind child \<in> set redirect_kinds
      then (let (w', more') = walk_redirect child ctx w in (w', rs @ more', last))
      else if node_named child
      then (let (w', last') = walk_statement child ctx w in (w', rs, last'))
      else (w, rs, last))"
  have "lands w (case foldl f (w, [], None) (children n) of (u, rs, l) \<Rightarrow> (u, l))"
  proof (rule foldl_inv [where I = "\<lambda>st. lands w (case st of (u, rs, l) \<Rightarrow> (u, l))"])
    fix st :: "walk \<times> redirect list \<times> nat option" and x
    assume x: "x \<in> set (children n)" and st: "lands w (case st of (u, rs, l) \<Rightarrow> (u, l))"
    obtain u rs l where st': "st = (u, rs, l)" by (cases st)
    have l: "lands w (u, l)" using st by (simp add: st')
    have "lands w (fst (walk_redirect x ctx u), l)"
      by (rule lands_extend [OF l walk_goodD(3) [OF kids [OF x]]])
    moreover have "lands w (walk_statement x ctx u)"
      using lands_grows [OF l] lands_trans walk_goodD(4) [OF kids [OF x]] by fastforce
    ultimately show "lands w (case f st x of (u, rs, l) \<Rightarrow> (u, l))"
      using l by (cases "walk_redirect x ctx u"; cases "walk_statement x ctx u") (simp add: f_def st')
  qed (simp add: lands_def)
  then obtain u rs l where fold: "foldl f (w, [], None) (children n) = (u, rs, l)" and l: "lands w (u, l)"
    by (cases "foldl f (w, [], None) (children n)") auto
  have g: "grows w u" using l by (simp add: lands_def)
  have none: "lands w (u\<lparr>walk_commands := walk_commands u @ [c]\<rparr>, None)" for c
    by (rule lands_None [OF grows_push [OF g]])
  have some: "lands w (u\<lparr>walk_commands := (walk_commands u)[at := c]\<rparr>, Some at)" if "l = Some at" for at c
    using l that g by (simp add: lands_def grows_update)
  show ?thesis
    unfolding walk_redirected.simps f_def [symmetric] fold
    by (cases l) (auto simp: none some)
qed

lemma function_grows:
  assumes kids: "\<And>c. c \<in> set (children n) \<Longrightarrow> walk_good c"
  shows "grows w (walk_function n ctx w)"
proof -
  have "grows w (fst (walk_statement b ctx w))" if "field_of n ''body'' = Some b" for b
  proof -
    have "b \<in> set (children n)"
      using that by (force simp: field_of_def children_def split: if_splits dest!: find_map_Some)
    then show ?thesis by (rule lands_grows [OF walk_goodD(4) [OF kids]])
  qed
  then show ?thesis by (auto simp: walk_function.simps Let_def grows_def split: option.split)
qed

lemma statement_lands:
  assumes kids: "\<And>c. c \<in> set (children n) \<Longrightarrow> walk_good c"
  shows "lands w (walk_statement n ctx w)"
proof -
  have incomplete: "lands w r" if "lands (w\<lparr>walk_complete := False\<rparr>) r" for r
    by (rule lands_trans [OF grows_incomplete that])
  have "lands w (case walk_command n ctx w of (u, at) \<Rightarrow> (u, Some at))"
    using command_lands [OF kids] by (cases "walk_command n ctx w") simp
  then show ?thesis
    using block_lands [OF kids, where w = w and ctx = ctx] pipeline_lands [OF kids, where w = w and ctx = ctx] redirected_lands [OF kids, where w = w and ctx = ctx]
      incomplete [OF block_lands [OF kids, where ctx = ctx and w = "w\<lparr>walk_complete := False\<rparr>"]]
      incomplete [OF lands_None [OF substitutions_grows [OF kids, where w = "w\<lparr>walk_complete := False\<rparr>"]]]
      lands_None [OF substitutions_grows [OF kids, where w = w]] lands_None [OF function_grows [OF kids, where w = w]]
      lands_None [OF grows_refl, of w]
    by (simp add: walk_statement.simps Let_def)
qed

lemma walk_all_good: "walk_good n"
proof (induction "size n" arbitrary: n rule: less_induct)
  case less
  have kids: "\<And>c. c \<in> set (children n) \<Longrightarrow> walk_good c" by (rule less) (rule size_children)
  show ?case unfolding walk_good_def
    using block_lands [OF kids] substitutions_grows [OF kids] redirect_grows [OF kids] statement_lands [OF kids]
    by blast
qed

section \<open>Properties\<close>

text \<open>The walk never indexes outside the commands it collected, and never touches a command of an
  earlier statement: the index a statement returns (where a trailing redirect is added) is one of the
  commands that statement itself added, all commands already collected are kept as they are and in
  order, a parse error once seen stays seen, and so does a self-forking function.\<close>

theorem walk_statement_in_bounds:
  "grows w (fst (walk_statement n ctx w)) \<and>
   (\<forall>at. snd (walk_statement n ctx w) = Some at \<longrightarrow>
      length (walk_commands w) \<le> at \<and> at < length (walk_commands (fst (walk_statement n ctx w))))"
  using walk_goodD(4) [OF walk_all_good, of w n ctx] unfolding lands_def .

definition ls_node :: node where
  "ls_node = Node ''command'' True ''ls x'' [(None, Node ''command_name'' True ''ls''
     [(None, Node ''word'' True ''ls'' [])]), (None, Node ''word'' True ''x'' [])]"

definition empty_walk :: walk where
  "empty_walk = \<lparr>walk_commands = [], walk_complete = True, walk_self_forking = False\<rparr>"

lemma ls_walk_index: "snd (walk_statement ls_node ctx_default empty_walk) = Some 0"
  by code_simp

theorem walk_statement_in_bounds_witness:
  "0 < length (walk_commands (fst (walk_statement ls_node ctx_default empty_walk)))"
  using walk_statement_in_bounds [of empty_walk ls_node ctx_default] ls_walk_index by blast

text \<open>A line the grammar could not parse is never taken as read-only and never gets a standing
  approval, whatever the tree the parser made of it.\<close>

theorem parse_error_never_trusted:
  assumes "case parser line of None \<Rightarrow> True | Some (root, has_error) \<Rightarrow> has_error"
  shows "\<not> reading_reads_only (shell_read parser line) \<and> approval_shape (shell_read parser line) = None"
proof -
  have "\<not> reading_complete (shell_read parser line)"
  proof (cases "parser line")
    case (Some r)
    then obtain root where r: "parser line = Some (root, True)" using assms by (cases r) simp
    let ?w = "\<lparr>walk_commands = [], walk_complete = False, walk_self_forking = False\<rparr>"
    have "grows ?w (fst (walk_block root ctx_default ?w))"
      by (rule lands_grows [OF walk_goodD(1) [OF walk_all_good]])
    then show ?thesis using r by (simp add: shell_read_def Let_def grows_def)
  qed (simp add: shell_read_def reading_default_def)
  then show ?thesis by (simp add: reading_reads_only_def approval_shape_def)
qed

theorem parse_error_never_trusted_witness:
  "\<not> reading_reads_only (shell_read (\<lambda>l. Some (ls_node, True)) ''ls x'')"
  using parse_error_never_trusted [of "\<lambda>l. Some (ls_node, True)" "''ls x''"] by simp

end
