(* ===== verification/Json.thy ===== *)
theory Json
  imports Prelude
begin

text \<open>
  JSON values as \<open>serde_json::Value\<close> holds them. An object is an association list in key order
  (the crate is built without \<open>preserve_order\<close>, so its map is a \<open>BTreeMap\<close>); a number is an
  integer or the bit pattern of an \<open>f64\<close>, which the development never computes with.
\<close>

datatype json =
    JNull
  | JBool bool
  | JInt int
  | JFloat "64 word"
  | JStr string
  | JArr "json list"
  | JObj "(string \<times> json) list"

text \<open>\<open>Value::get(key)\<close>, and \<open>value[key]\<close>, which is \<open>null\<close> for what is missing.\<close>

definition json_get :: "json \<Rightarrow> string \<Rightarrow> json option" where
  "json_get v k = (case v of JObj fields \<Rightarrow> map_of fields k | _ \<Rightarrow> None)"

definition json_index :: "json \<Rightarrow> string \<Rightarrow> json" where
  "json_index v k = (case json_get v k of Some w \<Rightarrow> w | None \<Rightarrow> JNull)"

definition as_str :: "json \<Rightarrow> string option" where
  "as_str v = (case v of JStr s \<Rightarrow> Some s | _ \<Rightarrow> None)"

definition as_array :: "json \<Rightarrow> json list option" where
  "as_array v = (case v of JArr xs \<Rightarrow> Some xs | _ \<Rightarrow> None)"

definition as_object :: "json \<Rightarrow> (string \<times> json) list option" where
  "as_object v = (case v of JObj xs \<Rightarrow> Some xs | _ \<Rightarrow> None)"

definition is_object :: "json \<Rightarrow> bool" where
  "is_object v = (case v of JObj _ \<Rightarrow> True | _ \<Rightarrow> False)"

text \<open>\<open>value.get(key).and_then(Value::as_str)\<close>, the commonest read.\<close>

definition get_str :: "json \<Rightarrow> string \<Rightarrow> string option" where
  "get_str v k = Option.bind (json_get v k) as_str"

text \<open>\<open>Map::insert\<close> and \<open>Map::remove\<close> on the sorted map.\<close>

fun obj_insert :: "string \<Rightarrow> json \<Rightarrow> (string \<times> json) list \<Rightarrow> (string \<times> json) list" where
  "obj_insert k v [] = [(k, v)]"
| "obj_insert k v ((k', v') # r) =
     (if k = k' then (k, v) # r
      else if k < k' then (k, v) # (k', v') # r
      else (k', v') # obj_insert k v r)"

definition obj_remove :: "string \<Rightarrow> (string \<times> json) list \<Rightarrow> (string \<times> json) list" where
  "obj_remove k fields = filter (\<lambda>f. fst f \<noteq> k) fields"

text \<open>\<open>json!({...})\<close> with literal keys.\<close>

definition json_obj :: "(string \<times> json) list \<Rightarrow> json" where
  "json_obj fields = JObj (fold (\<lambda>(k, v). obj_insert k v) fields [])"

text \<open>\<open>value[key] = v\<close>: it inserts in an object (and turns \<open>null\<close> into one).\<close>

definition json_set :: "string \<Rightarrow> json \<Rightarrow> json \<Rightarrow> json" where
  "json_set k v w = (case w of JObj fields \<Rightarrow> JObj (obj_insert k v fields)
     | JNull \<Rightarrow> JObj [(k, v)] | _ \<Rightarrow> w)"

lemmas json_access [rust_std] =
  json_get_def json_index_def as_str_def as_array_def as_object_def is_object_def get_str_def

lemma map_of_obj_insert [simp]: "map_of (obj_insert k v fields) = (map_of fields)(k \<mapsto> v)"
  by (induction k v fields rule: obj_insert.induct) auto

lemma set_obj_insert_keys [simp]: "fst ` set (obj_insert k v fields) = insert k (fst ` set fields)"
  by (induction k v fields rule: obj_insert.induct) auto

lemma sorted_obj_insert:
  "sorted_wrt (<) (map fst fields) \<Longrightarrow> sorted_wrt (<) (map fst (obj_insert k v fields))"
proof (induction k v fields rule: obj_insert.induct)
  case (1 k v)
  then show ?case by simp
next
  case (2 k v k' v' r)
  have keys: "set (map fst (obj_insert k v r)) = insert k (fst ` set r)"
    by (simp add: image_set [symmetric])
  show ?case
  proof (cases "k = k' \<or> k < k'")
    case True
    with 2 show ?thesis by (auto dest: less_trans)
  next
    case False
    then have "k' < k" by auto
    moreover have "sorted_wrt (<) (map fst (obj_insert k v r))"
      using 2 False by simp
    moreover have "\<forall>x \<in> set (map fst r). k' < x" using 2 by simp
    ultimately show ?thesis using False keys by auto
  qed
qed

lemma json_get_set [simp]:
  "json_get (JObj (obj_insert k v fields)) k' = (if k = k' then Some v else json_get (JObj fields) k')"
  by (simp add: json_get_def)

lemma json_get_json_set [simp]:
  "is_object w \<Longrightarrow> json_get (json_set k v w) k' = (if k = k' then Some v else json_get w k')"
  by (simp add: json_set_def is_object_def split: json.splits)

end
