(* ===== verification/KernelTypes.thy ===== *)
theory KernelTypes
  imports Json
begin

text \<open>
  The vendor-neutral types of the kernel, \<open>crates/kernel/src/types.rs\<close>: trust labels and how
  taint flows between them, the risk of a call, how it is contained, the operator's dial, the
  intents a model proposes and the observations that answer them.
\<close>

section \<open>Trust labels\<close>

datatype trust_label = User | System | Tool | Web | Memory | Skill | Workspace

fun trust_as_str :: "trust_label \<Rightarrow> string" where
  "trust_as_str User = ''user''"
| "trust_as_str System = ''system''"
| "trust_as_str Tool = ''tool''"
| "trust_as_str Web = ''web''"
| "trust_as_str Memory = ''memory''"
| "trust_as_str Skill = ''skill''"
| "trust_as_str Workspace = ''workspace''"

definition trust_parse :: "string \<Rightarrow> trust_label option" where
  "trust_parse s =
     (if s = ''user'' then Some User
      else if s = ''system'' then Some System
      else if s = ''tool'' then Some Tool
      else if s = ''web'' then Some Web
      else if s = ''memory'' then Some Memory
      else if s = ''skill'' then Some Skill
      else if s = ''workspace'' then Some Workspace
      else None)"

text \<open>Higher is more trusted; fetched content is the floor.\<close>

fun trust_rank :: "trust_label \<Rightarrow> nat" where
  "trust_rank System = 5"
| "trust_rank User = 4"
| "trust_rank Skill = 2"
| "trust_rank Workspace = 3"
| "trust_rank Memory = 2"
| "trust_rank Tool = 2"
| "trust_rank Web = 0"

definition trust_min :: "trust_label \<Rightarrow> trust_label \<Rightarrow> trust_label" where
  "trust_min a b = (if trust_rank b < trust_rank a then b else a)"

section \<open>Risk, containment and the dial\<close>

datatype blast_radius = ReadRadius | ReversibleLocal | IrreversibleLocal | External

datatype containment = NoContainment | OsFsJail | OsFsJailNoNet

fun confines_network :: "containment \<Rightarrow> bool" where
  "confines_network OsFsJailNoNet = True"
| "confines_network _ = False"

datatype autonomy_level = Plan | Careful | Normal | Yolo

fun autonomy_as_str :: "autonomy_level \<Rightarrow> string" where
  "autonomy_as_str Plan = ''plan''"
| "autonomy_as_str Careful = ''careful''"
| "autonomy_as_str Normal = ''normal''"
| "autonomy_as_str Yolo = ''yolo''"

definition autonomy_parse :: "string \<Rightarrow> string + autonomy_level" where
  "autonomy_parse s =
     (let t = to_lowercase (trim s)
      in if t = ''plan'' then Inr Plan
         else if t = ''careful'' then Inr Careful
         else if t = ''normal'' then Inr Normal
         else if t = ''yolo'' then Inr Yolo
         else Inl (''unknown mode '' @ [CHR 0x27] @ s @ [CHR 0x27]
                   @ ''; choose plan, careful, normal, or yolo''))"

definition autonomy_from_id :: "string \<Rightarrow> autonomy_level" where
  "autonomy_from_id s =
     (let t = to_lowercase (trim s)
      in if t = ''plan'' then Plan
         else if t = ''normal'' then Normal
         else if t = ''yolo'' then Yolo
         else Careful)"

datatype decision = Allow | Deny string | Human

section \<open>Intents and observations\<close>

record tool_intent =
  intent_id :: string
  intent_tool :: string
  intent_args :: json

datatype obs_status = StatusOk | StatusDenied | StatusRejected | StatusSchemaInvalid | StatusError

datatype protocol = OpenAiChat | OpenAiResponses | AnthropicMessages | GeminiInteractions

text \<open>Opaque replay metadata of one wire protocol.\<close>

record provider_state =
  ps_protocol :: protocol
  ps_kind :: string
  ps_value :: json

datatype media_source = Url string | Base64 string | Artifact string

record media_part =
  mime_type :: string
  media_src :: media_source
  media_label :: "string option"
  media_width :: "32 word option"
  media_height :: "32 word option"
  media_byte_size :: "nat option"
  media_state :: "provider_state list"

record observation =
  obs_intent_id :: string
  obs_status :: obs_status
  obs_payload :: json
  obs_media :: "media_part list"
  relayed_trust :: "trust_label option"
  net_denied :: bool
  model_text :: "string option"

definition obs_ok :: "string \<Rightarrow> json \<Rightarrow> observation" where
  "obs_ok i payload = \<lparr>obs_intent_id = i, obs_status = StatusOk, obs_payload = payload,
     obs_media = [], relayed_trust = None, net_denied = False, model_text = None\<rparr>"

definition obs_denial :: "string \<Rightarrow> string \<Rightarrow> observation" where
  "obs_denial i reason = \<lparr>obs_intent_id = i, obs_status = StatusDenied,
     obs_payload = json_obj [(''reason'', JStr reason), (''ran'', JBool False)],
     obs_media = [], relayed_trust = None, net_denied = False, model_text = None\<rparr>"

definition obs_error :: "string \<Rightarrow> string \<Rightarrow> observation" where
  "obs_error i message = \<lparr>obs_intent_id = i, obs_status = StatusError,
     obs_payload = json_obj [(''error'', JStr message)],
     obs_media = [], relayed_trust = None, net_denied = False, model_text = None\<rparr>"

section \<open>Lemmas\<close>

lemma trust_parse_as_str [simp]: "trust_parse (trust_as_str t) = Some t"
  by (cases t) (simp_all add: trust_parse_def)

lemma trust_parse_Some: "trust_parse s = Some t \<Longrightarrow> s = trust_as_str t"
  by (auto simp: trust_parse_def split: if_splits)

lemma trust_rank_min [simp]: "trust_rank (trust_min a b) = min (trust_rank a) (trust_rank b)"
  by (simp add: trust_min_def)

lemma trust_min_assoc: "trust_min (trust_min a b) c = trust_min a (trust_min b c)"
  by (simp add: trust_min_def)

lemma trust_min_idem [simp]: "trust_min a a = a"
  by (simp add: trust_min_def)

lemma trust_rank_0 [simp]: "trust_rank t = 0 \<longleftrightarrow> t = Web"
  by (cases t) simp_all

lemma trust_min_Web [simp]: "trust_min a b = Web \<longleftrightarrow> a = Web \<or> b = Web"
  by (metis min_0L min_0R trust_rank_0 trust_rank_min min_def)

lemma autonomy_from_id_as_str [simp]: "autonomy_from_id (autonomy_as_str a) = a"
  by (cases a) (simp_all add: autonomy_from_id_def Let_def, code_simp+)

lemma obs_status_simps [simp]:
  "obs_status (obs_ok i p) = StatusOk"
  "obs_status (obs_denial i r) = StatusDenied"
  "obs_status (obs_error i r) = StatusError"
  by (simp_all add: obs_ok_def obs_denial_def obs_error_def)

end
