(* ===== verification/Hooks.thy ===== *)
theory Hooks
  imports KernelTypes
begin

text \<open>
  The host-owned hook boundary: what a hook sees of a call (\<open>hook_safe_value\<close> and
  \<open>bounded_hook_reason\<close> of \<open>crates/kernel/src/loop_.rs\<close>), what it can answer
  (\<open>crates/kernel/src/hooks.rs\<close>) and how its context reaches the model (\<open>hook_points.rs\<close>).
\<close>

section \<open>What a hook is shown\<close>

definition MAX_HOOK_PAYLOAD_BYTES :: nat where
  "MAX_HOOK_PAYLOAD_BYTES = 32 * 1024"

definition MAX_HOOK_AUDIT_REASON_BYTES :: nat where
  "MAX_HOOK_AUDIT_REASON_BYTES = 1024"

definition sensitive_parts :: "string list" where
  "sensitive_parts = [''authorization'', ''api_key'', ''apikey'', ''token'', ''secret'', ''password'', ''cookie'',
     ''credential'', ''provider_state'', ''signature'']"

definition sensitive_hook_key :: "string \<Rightarrow> bool" where
  "sensitive_hook_key key = list_ex (contains_str (to_lowercase key)) sensitive_parts"

definition redacted :: json where
  "redacted = JStr ''<redacted>''"

definition cut_text :: "nat \<Rightarrow> string \<Rightarrow> string" where
  "cut_text end text = (if end = length text then text else take end text @ ''<truncated>'')"

text \<open>
  \<open>walk\<close>: the value, and what is left of the byte budget. \<open>show_len\<close> is the length of
  \<open>value.to_string()\<close> for a scalar, which the \<open>serde_json\<close> crate decides.
\<close>

function hook_walk :: "(json \<Rightarrow> nat) \<Rightarrow> json \<Rightarrow> nat \<Rightarrow> nat \<Rightarrow> json \<times> nat"
  and hook_walk_items :: "(json \<Rightarrow> nat) \<Rightarrow> json list \<Rightarrow> nat \<Rightarrow> nat \<Rightarrow> json list \<times> nat"
  and hook_walk_fields :: "(json \<Rightarrow> nat) \<Rightarrow> (string \<times> json) list \<Rightarrow> nat \<Rightarrow> nat \<Rightarrow>
    (string \<times> json) list \<times> nat"
where
  "hook_walk show_len v remaining depth =
     (if remaining = 0 \<or> 16 < depth then (JStr ''<truncated>'', remaining)
      else case v of
        JStr text \<Rightarrow>
          (let end = floor_boundary text (min remaining (length text))
           in (JStr (cut_text end text), remaining - end))
      | JArr values \<Rightarrow>
          (let (vs, r) = hook_walk_items show_len (take 128 values) remaining (depth + 1) in (JArr vs, r))
      | JObj values \<Rightarrow>
          (let (fs, r) = hook_walk_fields show_len (take 128 values) remaining (depth + 1) in (json_obj fs, r))
      | _ \<Rightarrow> (v, remaining - show_len v))"
| "hook_walk_items show_len [] remaining depth = ([], remaining)"
| "hook_walk_items show_len (v # vs) remaining depth =
     (let (v', r) = hook_walk show_len v remaining depth;
          (vs', r') = hook_walk_items show_len vs r depth
      in (v' # vs', r'))"
| "hook_walk_fields show_len [] remaining depth = ([], remaining)"
| "hook_walk_fields show_len ((key, v) # fs) remaining depth =
     (if remaining = 0 then ([], remaining)
      else
        let r = remaining - length key;
            (v', r') = (if sensitive_hook_key key then (redacted, r) else hook_walk show_len v r depth);
            (fs', r'') = hook_walk_fields show_len fs r' depth
        in ((key, v') # fs', r''))"
  by pat_completeness auto

termination
proof (relation "measures [
    case_sum (\<lambda>(_, _, _, d). 17 - d) (case_sum (\<lambda>(_, _, _, d). 17 - d) (\<lambda>(_, _, _, d). 17 - d)),
    case_sum (\<lambda>_. 0) (case_sum (\<lambda>(_, vs, _, _). Suc (length vs)) (\<lambda>(_, fs, _, _). Suc (length fs)))]", goal_cases)
qed auto

declare hook_walk.simps [simp del]

definition hook_safe_value :: "(json \<Rightarrow> nat) \<Rightarrow> json \<Rightarrow> json" where
  "hook_safe_value show_len v = fst (hook_walk show_len v MAX_HOOK_PAYLOAD_BYTES 0)"

definition bounded_hook_reason :: "string \<Rightarrow> string" where
  "bounded_hook_reason reason =
     (if length reason \<le> MAX_HOOK_AUDIT_REASON_BYTES then reason
      else take (floor_boundary reason MAX_HOOK_AUDIT_REASON_BYTES) reason @ ''<truncated>'')"

section \<open>What a hook answers\<close>

datatype hook_point =
    SessionStart | SessionEnd | PromptSubmit | PreModel | PostModel | PreTool | PostTool | ToolFailure
  | ApprovalDecision | FileChange | PreCompaction | PostCompaction | AgentStart | AgentStop | JobStateChange
  | TaskCompletion

datatype hook_directive = HookContinue | HookDeny string | HookRequestApproval string

record hook_context =
  ctx_plugin :: string
  ctx_component :: string
  ctx_text :: string

datatype hook_status = HookCompleted | HookFailed | HookTimedOut | HookCancelled | HookSkipped

record hook_audit =
  audit_plugin :: string
  audit_component :: string
  audit_status :: hook_status
  audit_reason :: "string option"

record hook_batch =
  directive :: hook_directive
  audits :: "hook_audit list"
  contexts :: "hook_context list"
  notices :: "string list"

definition hook_batch_default :: hook_batch where
  "hook_batch_default = \<lparr>directive = HookContinue, audits = [], contexts = [], notices = []\<rparr>"

definition bounded_audit :: "hook_audit \<Rightarrow> hook_audit" where
  "bounded_audit a = a\<lparr>audit_reason := map_option bounded_hook_reason (audit_reason a)\<rparr>"

text \<open>\<open>attach_hook_contexts\<close>: notes beside the tool's own result.\<close>

definition context_note :: "hook_context \<Rightarrow> json" where
  "context_note c = json_obj [(''source'', JStr (ctx_plugin c @ ''/'' @ ctx_component c)), (''text'', JStr (ctx_text c))]"

definition attach_hook_contexts :: "observation \<Rightarrow> hook_context list \<Rightarrow> observation" where
  "attach_hook_contexts obs cs =
     (if cs = [] then obs
      else
        let notes = JArr (map context_note cs) in
        case obs_payload obs of
          JObj fs \<Rightarrow> obs\<lparr>obs_payload := JObj (obj_insert ''hook_context'' notes fs)\<rparr>
        | other \<Rightarrow> obs\<lparr>obs_payload := json_obj [(''result'', other), (''hook_context'', notes)]\<rparr>)"

section \<open>Lemmas\<close>

fun secrets_hidden :: "json \<Rightarrow> bool" where
  "secrets_hidden (JObj fs) =
     list_all (\<lambda>f. (sensitive_hook_key (fst f) \<longrightarrow> snd f = redacted) \<and> secrets_hidden (snd f)) fs"
| "secrets_hidden (JArr vs) = list_all secrets_hidden vs"
| "secrets_hidden _ = True"

lemma set_fold_obj_insert: "set (fold (\<lambda>(k, v). obj_insert k v) fs acc) \<subseteq> set fs \<union> set acc"
proof (induction fs arbitrary: acc)
  case (Cons f fs)
  obtain k v where f: "f = (k, v)" by (cases f)
  have "set (obj_insert k v acc) \<subseteq> insert (k, v) (set acc)"
    by (induction k v acc rule: obj_insert.induct) auto
  then show ?case using Cons [of "obj_insert k v acc"] by (auto simp: f)
qed simp

lemma secrets_hidden_obj: "secrets_hidden (JObj fs) \<Longrightarrow> secrets_hidden (json_obj fs)"
  using set_fold_obj_insert [of fs "[]"] by (auto simp: json_obj_def list_all_iff)

lemma hook_walk_hides:
  "secrets_hidden (fst (hook_walk show_len v r d))"
  "secrets_hidden (JArr (fst (hook_walk_items show_len vs r d)))"
  "secrets_hidden (JObj (fst (hook_walk_fields show_len fs r d)))"
proof (induction show_len v r d and show_len vs r d and show_len fs r d
    rule: hook_walk_hook_walk_items_hook_walk_fields.induct)
  case (1 show_len v remaining depth)
  then show ?case
    by (cases v)
      (auto simp: hook_walk.simps Let_def split: prod.splits intro: secrets_hidden_obj)
next
  case (5 show_len key v fs remaining depth)
  show ?case
  proof (cases "remaining = 0")
    case False
    let ?r = "remaining - length key"
    let ?p = "if sensitive_hook_key key then (redacted, ?r) else hook_walk show_len v ?r depth"
    have v: "(sensitive_hook_key key \<longrightarrow> fst ?p = redacted) \<and> secrets_hidden (fst ?p)"
      using 5(1) [OF False refl] by (simp add: redacted_def)
    have fs: "secrets_hidden (JObj (fst (hook_walk_fields show_len fs (snd ?p) depth)))"
      by (rule 5(2) [OF False refl refl surjective_pairing [symmetric]])
    show ?thesis using False v fs
      by (cases ?p; cases "hook_walk_fields show_len fs (snd ?p) depth") (auto simp: Let_def split: if_splits)
  qed simp
qed (auto split: prod.splits)

lemma hook_walk_budget:
  "snd (hook_walk show_len v r d) \<le> r"
  "snd (hook_walk_items show_len vs r d) \<le> r"
  "snd (hook_walk_fields show_len fs r d) \<le> r"
proof (induction show_len v r d and show_len vs r d and show_len fs r d
    rule: hook_walk_hook_walk_items_hook_walk_fields.induct)
  case (1 show_len v remaining depth)
  then show ?case
    by (cases v) (auto simp: hook_walk.simps Let_def split: prod.splits)
next
  case (5 show_len key v fs remaining depth)
  then show ?case by (fastforce simp: Let_def split: prod.splits if_splits intro: le_trans)
qed (fastforce split: prod.splits intro: le_trans)+

lemma hook_payload_hides_secrets: "secrets_hidden (hook_safe_value show_len v)"
  by (simp add: hook_safe_value_def hook_walk_hides(1))

end
