(* ===== verification/Admission.thy ===== *)
theory Admission
  imports ShellReader
begin

text \<open>
  \<open>crates/policy/src/admission.rs\<close> and the path helpers of \<open>crates/policy/src/lib.rs\<close>: what a
  shell line may do before it runs. \<open>danger\<close> is refused in every mode, \<open>delete_tier\<close> ranks the
  recursive deletes, \<open>review\<close> lists what goes to a person when no jail contains the command.
\<close>

section \<open>Paths of the scan\<close>

definition is_slash_char :: "char \<Rightarrow> bool" where
  "is_slash_char c \<longleftrightarrow> c = CHR ''/''"

definition normalize_rm_path :: "string \<Rightarrow> string" where
  "normalize_rm_path path =
     (let clean = (\<lambda>tail. join_with ''/''
            (filter (\<lambda>component. component \<noteq> [] \<and> component \<noteq> ''.'') (split_by is_slash_char tail)))
      in case strip_prefix ''/'' path of
           Some tail \<Rightarrow> if clean tail = [] then ''/'' else ''/'' @ clean tail
         | None \<Rightarrow>
             (case strip_prefix ''~/'' path of
                Some tail \<Rightarrow> if clean tail = [] then ''~'' else ''~/'' @ clean tail
              | None \<Rightarrow> path))"

definition home_tail :: "string \<Rightarrow> string option" where
  "home_tail p =
     (case (case strip_prefix ''${home}'' p of Some t \<Rightarrow> Some t | None \<Rightarrow> strip_prefix ''$home'' p) of
        None \<Rightarrow> None
      | Some tail \<Rightarrow> if tail = [] \<or> starts_with tail ''/'' then Some tail else None)"

text \<open>The pattern \<open>^(/users|/home)/[^/]+$\<close>.\<close>

definition is_home_root :: "string \<Rightarrow> bool" where
  "is_home_root p \<longleftrightarrow>
     list_ex (\<lambda>base. case strip_prefix base p of
         Some name \<Rightarrow> name \<noteq> [] \<and> list_all (\<lambda>c. \<not> is_slash_char c) name
       | None \<Rightarrow> False) [''/users/'', ''/home/'']"

definition system_dirs :: "string list" where
  "system_dirs = [''/etc'', ''/usr'', ''/bin'', ''/sbin'', ''/lib'', ''/lib64'', ''/opt'', ''/boot'', ''/dev'',
     ''/sys'', ''/proc'', ''/var'', ''/system'', ''/library'', ''/applications'', ''/private/etc'', ''/private/var'']"

text \<open>\<open>p == root || p.starts_with("{root}/")\<close>, the containment test the scan uses throughout.\<close>

definition at_or_below :: "string \<Rightarrow> string \<Rightarrow> bool" where
  "at_or_below root p \<longleftrightarrow> p = root \<or> starts_with p (root @ ''/'')"

definition is_system_path :: "string \<Rightarrow> bool" where
  "is_system_path p \<longleftrightarrow>
     p \<in> {'''', ''/'', ''~'', ''$home'', ''/users'', ''/home'', ''/root''} \<or>
     is_home_root p \<or>
     (case strip_prefix ''/'' p of
        Some tail \<Rightarrow> list_ex (\<lambda>c. c \<in> set ''*?[{'') (hd (split_by is_slash_char tail))
      | None \<Rightarrow> False) \<or>
     (starts_with p ''~'' \<and> \<not> starts_with p ''~/'') \<or>
     list_ex (\<lambda>s. at_or_below s p) system_dirs"

definition is_absolute_path :: "string \<Rightarrow> bool" where
  "is_absolute_path value =
     (if starts_with value ''/'' \<or> starts_with value [CHR 0x5C] then True
      else case value of
        drive # colon # sep # _ \<Rightarrow> colon = CHR '':'' \<and> is_any_slash sep \<and> is_ascii_alphabetic drive
      | _ \<Rightarrow> False)"

definition argument_escapes_workspace :: "string \<Rightarrow> string option \<Rightarrow> bool" where
  "argument_escapes_workspace argument workspace =
     (let value = (case split_once (\<lambda>c. c = CHR ''='') argument of Some (_, v) \<Rightarrow> v | None \<Rightarrow> argument);
          normalized = replace_char (CHR 0x5C) (CHR ''/'') value
      in if normalized = ''..'' \<or> starts_with normalized ''../'' \<or> contains_str normalized ''/../''
           \<or> ends_with normalized ''/..'' \<or> starts_with normalized ''~''
         then True
         else if \<not> is_absolute_path value then False
         else case workspace of
           None \<Rightarrow> True
         | Some root \<Rightarrow> \<not> at_or_below (replace_char (CHR 0x5C) (CHR ''/'') root) normalized)"

section \<open>Recursive deletes\<close>

datatype delete_tier = Unseen | Outside | SystemTier

fun tier_rank :: "delete_tier \<Rightarrow> nat" where
  "tier_rank Unseen = 0"
| "tier_rank Outside = 1"
| "tier_rank SystemTier = 2"

lemma tier_rank_inj: "tier_rank a = tier_rank b \<Longrightarrow> a = b"
  by (cases a; cases b) simp_all

instantiation delete_tier :: linorder
begin

definition less_eq_delete_tier :: "delete_tier \<Rightarrow> delete_tier \<Rightarrow> bool" where
  "less_eq_delete_tier a b \<longleftrightarrow> tier_rank a \<le> tier_rank b"

definition less_delete_tier :: "delete_tier \<Rightarrow> delete_tier \<Rightarrow> bool" where
  "less_delete_tier a b \<longleftrightarrow> tier_rank a < tier_rank b"

instance
  by standard (auto simp: less_eq_delete_tier_def less_delete_tier_def intro: tier_rank_inj)

end

definition recursive_flag :: "shell_word list \<Rightarrow> bool" where
  "recursive_flag args \<longleftrightarrow>
     list_ex (\<lambda>arg. word_text arg = ''--recursive'' \<or>
         (case strip_prefix ''-'' (word_text arg) of
            Some flags \<Rightarrow> \<not> starts_with flags ''-'' \<and> (CHR ''r'' \<in> set flags \<or> CHR ''R'' \<in> set flags)
          | None \<Rightarrow> False))
       (takeWhile (\<lambda>arg. word_text arg \<noteq> ''--'') args)"

fun operands_from :: "bool \<Rightarrow> shell_word list \<Rightarrow> shell_word list" where
  "operands_from after [] = []"
| "operands_from after (arg # args) =
     (if \<not> after \<and> word_text arg = ''--'' then operands_from True args
      else if after \<or> \<not> starts_with (word_text arg) ''-'' then arg # operands_from after args
      else operands_from after args)"

definition operands :: "shell_word list \<Rightarrow> shell_word list" where
  "operands args = operands_from False args"

definition temp_roots :: "string list" where
  "temp_roots = [''/tmp'', ''/private/tmp'', ''/var/folders'', ''/private/var/folders'']"

text \<open>The text \<open>path_tier\<close> judges: Inl is its early return.\<close>

definition expanded_target :: "shell_word \<Rightarrow> bool \<Rightarrow> delete_tier option + string" where
  "expanded_target arg jailed =
     (let lower = to_lowercase (word_text arg);
          raw = (if lower = ''/'' then ''/'' else trim_end_by is_slash_char lower)
      in if word_value arg = Literal \<or> word_value arg = Pattern then Inr raw
         else case home_tail raw of
           Some tail \<Rightarrow> Inr (''~'' @ tail)
         | None \<Rightarrow> Inl (if jailed then None else Some Unseen))"

definition path_tier :: "shell_word \<Rightarrow> string option \<Rightarrow> bool \<Rightarrow> delete_tier option" where
  "path_tier arg workspace jailed =
     (case expanded_target arg jailed of
        Inl tier \<Rightarrow> tier
      | Inr expanded \<Rightarrow>
          let rooted = starts_with expanded ''/'' \<or> starts_with expanded ''~''
          in if ''..'' \<in> set (split_by is_slash_char expanded)
             then (if rooted then Some SystemTier else if \<not> jailed then Some Unseen else None)
             else let path = normalize_rm_path expanded
               in if \<not> rooted then None
                  else if list_ex (\<lambda>root. at_or_below root path) temp_roots then None
                  else if (case workspace of Some root \<Rightarrow> at_or_below root path | None \<Rightarrow> False) then None
                  else if is_system_path path then Some SystemTier
                  else Some Outside)"

definition delete_tiers :: "reading \<Rightarrow> string option \<Rightarrow> delete_tier list" where
  "delete_tiers r workspace =
     concat (map (\<lambda>p. List.map_filter (\<lambda>arg. path_tier arg workspace False) (operands (prog_args p)))
       (filter (\<lambda>p. prog_name p = ''rm'' \<and> recursive_flag (prog_args p))
         (List.map_filter command_program (reading_commands r))))"

text \<open>\<open>Iterator::max\<close>.\<close>

definition max_of :: "'a :: linorder list \<Rightarrow> 'a option" where
  "max_of xs = (case xs of [] \<Rightarrow> None | x # rest \<Rightarrow> Some (foldl max x rest))"

definition delete_tier_of :: "reading \<Rightarrow> string option \<Rightarrow> delete_tier option" where
  "delete_tier_of r workspace = max_of (delete_tiers r workspace)"

section \<open>Refused in every mode\<close>

definition credential_stores :: "string list" where
  "credential_stores = [''id_rsa'', ''id_ed25519'', ''id_ecdsa'', ''.aws/credentials'', ''.git-credentials'',
     ''/.netrc'', ''.docker/config.json'', ''.kube/config'', ''/etc/shadow'']"

definition path_like :: "string \<Rightarrow> bool" where
  "path_like text \<longleftrightarrow> list_ex is_any_slash text \<or> starts_with text ''~'' \<or> starts_with text ''.''"

definition raw_device :: "string \<Rightarrow> bool" where
  "raw_device path =
     (let lower = to_lowercase path in
      starts_with lower ''/dev/'' \<and>
      lower \<notin> {''/dev/null'', ''/dev/zero'', ''/dev/stdout'', ''/dev/stderr'', ''/dev/tty''} \<and>
      \<not> starts_with lower ''/dev/fd/'' \<and> \<not> starts_with lower ''/dev/tcp/'' \<and> \<not> starts_with lower ''/dev/udp/'')"

definition names_credentials :: "shell_command \<Rightarrow> bool" where
  "names_credentials c \<longleftrightarrow>
     list_ex (\<lambda>w. list_ex (contains_str (to_lowercase (word_text w))) credential_stores)
       (filter (\<lambda>w. path_like (word_text w)) (cmd_words c @ map redirect_target (cmd_redirects c)))"

definition program_danger :: "shell_command \<Rightarrow> bool \<Rightarrow> program \<Rightarrow> string option" where
  "program_danger c jailed p =
     (let name = prog_name p; args = prog_args p in
      if name = ''sudo'' \<or> name = ''doas'' then Some ''privilege escalation''
      else if starts_with name ''mkfs'' then Some ''formats a filesystem''
      else if name = ''dd'' \<and> list_ex (\<lambda>arg. case strip_prefix ''of='' (word_text arg) of
          Some d \<Rightarrow> raw_device d | None \<Rightarrow> False) args
      then Some ''writes straight to a disk device''
      else if (name = ''powershell'' \<or> name = ''pwsh'') \<and> list_ex (\<lambda>arg. to_lowercase (word_text arg) \<in>
          {''-enc'', ''/enc'', ''-encodedcommand'', ''/encodedcommand''}) args
      then Some ''runs an encoded PowerShell payload''
      else if (name = ''chmod'' \<or> name = ''chown'' \<or> name = ''chgrp'') \<and> recursive_flag args \<and>
        list_ex (\<lambda>arg. path_tier arg None jailed = Some SystemTier) (operands args)
      then Some ''changes ownership or permissions across a system folder''
      else if \<not> jailed \<and> cmd_piped_in c \<and> (is_interpreter name \<or> name = ''eval'')
      then Some ''pipes data into a shell or interpreter''
      else None)"

definition command_danger :: "shell_command \<Rightarrow> bool \<Rightarrow> string option" where
  "command_danger c jailed =
     (if list_ex (\<lambda>d. redirect_writes d \<and> raw_device (word_text (redirect_target d))) (cmd_redirects c)
      then Some ''writes straight to a disk device''
      else if names_credentials c then Some ''reads a credential store''
      else case command_program c of None \<Rightarrow> None | Some p \<Rightarrow> program_danger c jailed p)"

definition danger :: "reading \<Rightarrow> string option \<Rightarrow> bool \<Rightarrow> string option" where
  "danger r workspace jailed =
     (if reading_self_forking r
      then Some ''a function that starts copies of itself without end (fork bomb)''
      else case find_map (\<lambda>c. command_danger c jailed) (reading_commands r) of
        Some why \<Rightarrow> Some why
      | None \<Rightarrow>
          if delete_tier_of r workspace = Some SystemTier
          then Some ''recursive delete of the filesystem root, a home folder, or a system folder''
          else None)"

section \<open>What goes to a person without a jail\<close>

definition builds :: "string \<Rightarrow> shell_word list \<Rightarrow> bool" where
  "builds name args =
     (if name = ''cargo'' then
        (case args of
           sub # _ \<Rightarrow> word_text sub \<in> {''build'', ''check'', ''test'', ''bench'', ''clippy'', ''fmt'', ''doc'',
             ''metadata'', ''tree'', ''--version'', ''-vV''}
         | [] \<Rightarrow> False)
      else name \<in> {''rustc'', ''rustfmt'', ''go'', ''make'', ''cmake'', ''ninja'', ''pytest''})"

definition dumps_environment :: "string \<Rightarrow> shell_word list \<Rightarrow> bool" where
  "dumps_environment name args =
     (let first = map_option word_text (first_of args) in
      if name = ''printenv'' then True
      else if name = ''env'' \<or> name = ''set'' then args = []
      else if name = ''export'' then first = Some ''-p'' \<or> args = []
      else if name = ''declare'' \<or> name = ''typeset'' then first = Some ''-x'' \<or> first = Some ''-p''
      else False)"

definition network_programs :: "string list" where
  "network_programs = [''curl'', ''wget'', ''http'', ''https'', ''scp'', ''sftp'', ''rsync'', ''nc'', ''ncat'', ''netcat'',
     ''telnet'', ''ftp'', ''ssh'', ''invoke-webrequest'', ''invoke-restmethod'']"

definition outside_word :: "string option \<Rightarrow> string option \<Rightarrow> shell_word \<Rightarrow> bool" where
  "outside_word workspace scratch arg =
     (let text = to_lowercase (word_text arg) in
      argument_escapes_workspace text workspace \<and>
      (case scratch of None \<Rightarrow> True | Some root \<Rightarrow> argument_escapes_workspace text (Some root)))"

definition review_redirect :: "redirect \<Rightarrow> string option" where
  "review_redirect d =
     (let target = to_lowercase (word_text (redirect_target d)) in
      if starts_with target ''/dev/tcp/'' \<or> starts_with target ''/dev/udp/''
      then Some ''opens a raw network socket''
      else if redirect_flow d \<in> {FlowRead, FlowWrite, FlowAppend, FlowReadWrite} \<and>
        (redirect_writes d \<or> redirect_flow d = FlowRead)
      then Some ''reads or writes a file through shell redirection''
      else None)"

definition review_program ::
  "shell_command \<Rightarrow> string option \<Rightarrow> string option \<Rightarrow> program \<Rightarrow> string option" where
  "review_program c workspace scratch p =
     (let name = prog_name p; first = word_text (cmd_words c ! 0) in
      if list_ex (\<lambda>w. word_value w = Dynamic \<or> word_value w = Pattern) (cmd_words c)
      then Some ''uses shell expansion or globbing''
      else if 0 < prog_at p \<or> prog_fed p then Some ''runs its program through a wrapper''
      else if is_interpreter name then Some ''invokes a shell or interpreter''
      else if list_ex is_any_slash first \<or> starts_with first ''~'' then Some ''runs a file by path''
      else if name \<in> set network_programs then Some ''uses network egress or file transfer''
      else if dumps_environment name (prog_args p) then Some ''prints the environment''
      else if name \<in> {''eval'', ''source'', ''.'', ''parallel'', ''chmod'', ''chown'', ''install''}
      then Some ''uses a dynamic or consequential command''
      else if name \<noteq> ''rm'' \<and> list_ex (outside_word workspace scratch) (prog_args p)
      then Some ''references a path outside the authorized workspace''
      else if \<not> command_reads_only c \<and> \<not> builds name (prog_args p) \<and>
        \<not> (name = ''rm'' \<and> recursive_flag (prog_args p))
      then Some ''invokes a command outside the statically approved shell subset''
      else None)"

definition review_command ::
  "shell_command \<Rightarrow> string option \<Rightarrow> string option \<Rightarrow> string option" where
  "review_command c workspace scratch =
     (if cmd_background c then Some ''runs a command in the background''
      else case find_map review_redirect (cmd_redirects c) of
        Some why \<Rightarrow> Some why
      | None \<Rightarrow>
          if cmd_assigns c \<noteq> [] then Some ''sets a shell environment variable''
          else case command_program c of
            None \<Rightarrow> if cmd_words c \<noteq> [] then Some ''has no statically known program'' else None
          | Some p \<Rightarrow> review_program c workspace scratch p)"

definition review :: "reading \<Rightarrow> string option \<Rightarrow> string option \<Rightarrow> string option" where
  "review r workspace scratch =
     (if \<not> reading_complete r then Some ''contains shell syntax Medha could not read''
      else find_map (\<lambda>c. review_command c workspace scratch) (reading_commands r))"

section \<open>Lemmas\<close>

lemma max_of_None [simp]: "max_of xs = None \<longleftrightarrow> xs = []"
  by (simp add: max_of_def split: list.splits)

lemma foldl_max: "foldl max a xs = Max (set (a # xs))" for a :: "'a :: linorder"
proof (induction xs arbitrary: a)
  case (Cons x xs)
  show ?case by (cases "xs = []") (simp_all add: Cons.IH max.assoc)
qed simp

lemma max_of_Some: "max_of xs = Some m \<longleftrightarrow> xs \<noteq> [] \<and> m = Max (set xs)" for m :: "'a :: linorder"
  by (cases xs) (auto simp: max_of_def foldl_max)

lemma SystemTier_top: "t \<le> SystemTier"
  by (cases t) (simp_all add: less_eq_delete_tier_def)

lemma max_of_SystemTier: "max_of ts = Some SystemTier \<longleftrightarrow> SystemTier \<in> set ts"
proof
  assume "max_of ts = Some SystemTier"
  then show "SystemTier \<in> set ts" by (metis List.finite_set Max_in max_of_Some set_empty)
next
  assume t: "SystemTier \<in> set ts"
  then have "Max (set ts) = SystemTier" by (intro Max_eqI) (auto simp: SystemTier_top)
  then show "max_of ts = Some SystemTier" using t by (auto simp: max_of_Some)
qed

lemma set_map_filter: "set (List.map_filter f xs) = {y. \<exists>x \<in> set xs. f x = Some y}"
  by (induction xs) (auto simp: List.map_filter_simps split: option.splits)

text \<open>A recursive \<open>rm\<close> one of whose operands is a system path.\<close>

definition deletes_system :: "string option \<Rightarrow> shell_command \<Rightarrow> bool" where
  "deletes_system workspace c \<longleftrightarrow>
     (case command_program c of
        Some p \<Rightarrow> prog_name p = ''rm'' \<and> recursive_flag (prog_args p) \<and>
          list_ex (\<lambda>arg. path_tier arg workspace False = Some SystemTier) (operands (prog_args p))
      | None \<Rightarrow> False)"

lemma delete_tier_System:
  "delete_tier_of r workspace = Some SystemTier \<longleftrightarrow> (\<exists>c \<in> set (reading_commands r). deletes_system workspace c)"
  by (fastforce simp: delete_tier_of_def max_of_SystemTier delete_tiers_def set_map_filter deletes_system_def
      list_ex_iff split: option.splits)

lemma danger_None:
  "danger r workspace jailed = None \<longleftrightarrow>
     \<not> reading_self_forking r \<and>
     (\<forall>c \<in> set (reading_commands r). command_danger c jailed = None \<and> \<not> deletes_system workspace c)"
  by (auto simp: danger_def find_map_None delete_tier_System split: option.splits dest!: find_map_Some)

lemma program_in_review:
  assumes "review r workspace scratch = None" "c \<in> set (reading_commands r)" "command_program c = Some p"
  shows "review_program c workspace scratch p = None"
proof -
  have "review_command c workspace scratch = None"
    using assms(1,2) by (simp add: review_def find_map_None split: if_splits)
  then show ?thesis using assms(3) by (simp add: review_command_def split: if_splits option.splits)
qed

lemma review_program_None:
  assumes "review_program c workspace scratch p = None"
  shows "prog_at p = 0" "\<not> prog_fed p" "\<not> is_interpreter (prog_name p)" "prog_name p \<notin> set network_programs"
    "command_reads_only c \<or> builds (prog_name p) (prog_args p) \<or> (prog_name p = ''rm'' \<and> recursive_flag (prog_args p))"
    "\<forall>w \<in> set (cmd_words c). word_value w \<noteq> Dynamic \<and> word_value w \<noteq> Pattern"
    "prog_name p \<noteq> ''rm'' \<longrightarrow> (\<forall>arg \<in> set (prog_args p). \<not> outside_word workspace scratch arg)"
  using assms by (auto simp: review_program_def Let_def list_ex_iff split: if_splits)

lemma path_tier_parent:
  assumes "word_value arg = Literal \<or> word_value arg = Pattern"
    and "''..'' \<in> set (split_by is_slash_char (trim_end_by is_slash_char (to_lowercase (word_text arg))))"
    and "starts_with (trim_end_by is_slash_char (to_lowercase (word_text arg))) ''/''"
  shows "path_tier arg workspace jailed = Some SystemTier"
proof -
  have "to_lowercase (word_text arg) \<noteq> ''/''" using assms(2) by (auto simp: trim_end_by_def is_slash_char_def)
  then show ?thesis using assms by (simp add: path_tier_def expanded_target_def Let_def)
qed

end
