(* ===== verification/Policy.thy ===== *)
theory Policy
  imports Admission KernelTypes
begin

text \<open>
  \<open>crates/policy/src/lib.rs\<close> and \<open>crates/kernel/src/policy.rs\<close>: the deny-first authorization of
  a validated intent. \<open>default_policy\<close> is \<open>DefaultPolicy\<close>; the bash grammar of the shell reader is
  the parameter \<open>grammar\<close> (see \<open>ShellParse\<close>: \<open>shell_read parser\<close>).
\<close>

section \<open>Configuration\<close>

datatype jail = JailActive | JailMissing | JailOff

datatype memory_write_approval = ApproveNone | ApproveUserScope | ApproveAll

record default_policy =
  approve :: "string list"
  workspace :: "string option"
  memory_approval :: memory_write_approval
  policy_jail :: jail
  policy_scratch :: "string option"

definition scan_root :: "string \<Rightarrow> string option" where
  "scan_root root =
     (let r = trim_end_by is_slash_char (replace_char (CHR 0x5C) (CHR ''/'') (to_lowercase root))
      in if r \<noteq> [] then Some r else None)"

definition policy_new :: default_policy where
  "policy_new = \<lparr>approve = [], workspace = None, memory_approval = ApproveUserScope,
     policy_jail = JailOff, policy_scratch = None\<rparr>"

definition requiring_approval :: "string list \<Rightarrow> default_policy" where
  "requiring_approval tools = policy_new\<lparr>approve := tools\<rparr>"

definition with_jail :: "jail \<Rightarrow> default_policy \<Rightarrow> default_policy" where
  "with_jail j p = p\<lparr>policy_jail := j\<rparr>"

definition with_workspace :: "string \<Rightarrow> default_policy \<Rightarrow> default_policy" where
  "with_workspace root p = p\<lparr>workspace := scan_root root\<rparr>"

definition with_scratch :: "string \<Rightarrow> default_policy \<Rightarrow> default_policy" where
  "with_scratch root p = p\<lparr>policy_scratch := scan_root root\<rparr>"

definition with_memory_write_approval :: "string \<Rightarrow> default_policy \<Rightarrow> default_policy" where
  "with_memory_write_approval mode p = p\<lparr>memory_approval :=
     (if mode = ''none'' then ApproveNone else if mode = ''all'' then ApproveAll else ApproveUserScope)\<rparr>"

section \<open>The dial\<close>

definition file_tools :: "string list" where
  "file_tools = [''write'', ''edit'']"

definition escalates :: "default_policy \<Rightarrow> autonomy_level \<Rightarrow> string \<Rightarrow> bool" where
  "escalates p autonomy tool =
     (let file_tool = tool \<in> set file_tools;
          named = tool \<in> set (approve p) \<or> (file_tool \<and> list_ex (\<lambda>name. name \<in> set (approve p)) file_tools)
      in case autonomy of
           Plan \<Rightarrow> False
         | Careful \<Rightarrow> named
         | Normal \<Rightarrow> \<not> file_tool \<and> named
         | Yolo \<Rightarrow> False)"

definition command_text :: "tool_intent \<Rightarrow> string" where
  "command_text i = (case get_str (intent_args i) ''command'' of Some c \<Rightarrow> c | None \<Rightarrow> [])"

definition only_reads :: "(string \<Rightarrow> reading) \<Rightarrow> tool_intent \<Rightarrow> bool" where
  "only_reads grammar i = reading_reads_only (grammar (command_text i))"

definition asks :: "(string \<Rightarrow> reading) \<Rightarrow> default_policy \<Rightarrow> autonomy_level \<Rightarrow> tool_intent \<Rightarrow> bool" where
  "asks grammar p autonomy i =
     (let shell = intent_tool i = ''shell.exec'' in
      if autonomy = Normal \<and> policy_jail p = JailActive \<and> shell then False
      else if autonomy = Yolo \<and> policy_jail p = JailMissing \<and> shell
      then ''shell.exec'' \<in> set (approve p) \<and> \<not> only_reads grammar i
      else escalates p autonomy (intent_tool i))"

section \<open>Authorization\<close>

definition gates_memory :: "default_policy \<Rightarrow> tool_intent \<Rightarrow> bool" where
  "gates_memory p i =
     (case memory_approval p of
        ApproveNone \<Rightarrow> False
      | ApproveAll \<Rightarrow> True
      | ApproveUserScope \<Rightarrow> get_str (intent_args i) ''scope'' = Some ''user'')"

definition mutates_memory :: "tool_intent \<Rightarrow> bool" where
  "mutates_memory i \<longleftrightarrow> intent_tool i = ''memory'' \<and>
     get_str (intent_args i) ''op'' \<in> {Some ''write'', Some ''update'', Some ''forget''}"

definition authorize_git :: "tool_intent \<Rightarrow> decision" where
  "authorize_git i =
     (let sub = (case get_str (intent_args i) ''subcommand'' of Some s \<Rightarrow> s | None \<Rightarrow> []) in
      if sub \<in> {''status'', ''diff'', ''log'', ''blame'', ''show''} then Allow
      else if sub = ''add'' \<or> sub = ''commit'' then Human
      else Deny (''the git tool runs status, diff, log, blame, show, add and commit; run `git ''
             @ sub @ ''` with the shell instead''))"

definition scan_command ::
  "(string \<Rightarrow> reading) \<Rightarrow> tool_intent \<Rightarrow> string option \<Rightarrow> string option \<Rightarrow> jail \<Rightarrow> decision" where
  "scan_command grammar i ws scratch j =
     (let reading = grammar (command_text i); jailed = (j = JailActive) in
      case danger reading ws jailed of
        Some reason \<Rightarrow> Deny (''blocked dangerous command: '' @ reason
          @ ''. This never runs at any autonomy level; if it is really needed, ask the person to run it themselves'')
      | None \<Rightarrow>
          let tier = delete_tier_of reading ws in
          if tier = Some Outside then Human
          else if tier = Some Unseen \<and> \<not> jailed then Human
          else if \<not> jailed \<and> review reading ws scratch \<noteq> None then Human
          else Allow)"

text \<open>The \<open>verdict\<close> before the dial.\<close>

definition floor_verdict ::
  "(string \<Rightarrow> reading) \<Rightarrow> default_policy \<Rightarrow> tool_intent \<Rightarrow> blast_radius option \<Rightarrow> decision" where
  "floor_verdict grammar p i radius =
     (if intent_tool i = ''shell.exec''
      then scan_command grammar i (workspace p) (policy_scratch p) (policy_jail p)
      else if intent_tool i = ''git'' then authorize_git i
      else if intent_tool i = ''skill.save'' then Human
      else if intent_tool i = ''agent.apply'' then Human
      else if mutates_memory i \<and> gates_memory p i then Human
      else case radius of
        Some ReadRadius \<Rightarrow> Allow
      | Some ReversibleLocal \<Rightarrow> Allow
      | Some IrreversibleLocal \<Rightarrow> Human
      | Some External \<Rightarrow> Human
      | None \<Rightarrow> Deny (''tool '' @ [CHR 0x27] @ intent_tool i @ [CHR 0x27] @ '' is not registered ''
          @ [CHR 0xE2, CHR 0x80, CHR 0x94] @ '' not permitted (deny-first)''))"

definition authorize ::
  "(string \<Rightarrow> reading) \<Rightarrow> default_policy \<Rightarrow> autonomy_level \<Rightarrow> tool_intent \<Rightarrow> blast_radius option \<Rightarrow> decision" where
  "authorize grammar p autonomy i radius =
     (if autonomy = Plan \<and> radius \<noteq> Some ReadRadius
      then Deny ''plan mode permits read-only tools; switch mode to implement''
      else
        let verdict = floor_verdict grammar p i radius in
        if verdict = Allow \<and> asks grammar p autonomy i then Human else verdict)"

definition allow_all :: "autonomy_level \<Rightarrow> tool_intent \<Rightarrow> blast_radius option \<Rightarrow> decision" where
  "allow_all autonomy i radius = Allow"

section \<open>The contract of a policy\<close>

text \<open>
  \<open>Policy::authorize\<close> promises that autonomy never weakens a decision: turning the dial from
  \<open>yolo\<close> to \<open>normal\<close> to \<open>careful\<close> can only make a call wait for a person, and a refusal is the same
  refusal on all three.
\<close>

fun strictness :: "decision \<Rightarrow> nat" where
  "strictness Allow = 0"
| "strictness Human = 1"
| "strictness (Deny _) = 2"

locale dial_policy =
  fixes decide :: "autonomy_level \<Rightarrow> tool_intent \<Rightarrow> blast_radius option \<Rightarrow> decision"
  assumes normal_not_looser: "strictness (decide Yolo i r) \<le> strictness (decide Normal i r)"
    and careful_not_looser: "strictness (decide Normal i r) \<le> strictness (decide Careful i r)"
    and deny_fixed: "a \<noteq> Plan \<Longrightarrow> b \<noteq> Plan \<Longrightarrow> decide a i r = Deny m \<Longrightarrow> decide b i r = Deny m"
begin

lemma yolo_least_strict: "a \<noteq> Plan \<Longrightarrow> strictness (decide Yolo i r) \<le> strictness (decide a i r)"
  using normal_not_looser [of i r] careful_not_looser [of i r] by (cases a) simp_all

lemma careful_strictest: "a \<noteq> Plan \<Longrightarrow> strictness (decide a i r) \<le> strictness (decide Careful i r)"
  using normal_not_looser [of i r] careful_not_looser [of i r] by (cases a) simp_all

lemma careful_allow_everywhere: "decide Careful i r = Allow \<Longrightarrow> a \<noteq> Plan \<Longrightarrow> decide a i r = Allow"
  using careful_strictest [of a i r] by (cases "decide a i r") simp_all

lemma yolo_deny_everywhere: "decide Yolo i r = Deny m \<Longrightarrow> a \<noteq> Plan \<Longrightarrow> decide a i r = Deny m"
  using deny_fixed by blast

end

lemma authorize_off_plan: "autonomy \<noteq> Plan \<Longrightarrow> authorize grammar p autonomy i radius =
    (if floor_verdict grammar p i radius = Allow \<and> asks grammar p autonomy i then Human
     else floor_verdict grammar p i radius)"
  by (simp add: authorize_def Let_def)

lemma asks_monotone:
  "asks grammar p Yolo i \<Longrightarrow> asks grammar p Normal i"
  "asks grammar p Normal i \<Longrightarrow> asks grammar p Careful i"
  by (auto simp: asks_def escalates_def file_tools_def Let_def split: if_splits)

interpretation default_dial: dial_policy "authorize grammar p" for grammar p
proof unfold_locales
  fix i r a b m
  show "strictness (authorize grammar p Yolo i r) \<le> strictness (authorize grammar p Normal i r)"
    using asks_monotone(1) [of grammar p i] by (auto simp: authorize_off_plan)
  show "strictness (authorize grammar p Normal i r) \<le> strictness (authorize grammar p Careful i r)"
    using asks_monotone(2) [of grammar p i] by (auto simp: authorize_off_plan)
  assume "a \<noteq> Plan" "b \<noteq> Plan" "authorize grammar p a i r = Deny m"
  then show "authorize grammar p b i r = Deny m" by (auto simp: authorize_off_plan split: if_splits)
qed

interpretation allow_all_dial: dial_policy allow_all
  by unfold_locales (simp_all add: allow_all_def)

section \<open>Lemmas\<close>

lemma scan_command_Allow:
  assumes "scan_command grammar i ws scratch j = Allow"
  shows "danger (grammar (command_text i)) ws (j = JailActive) = None"
    "delete_tier_of (grammar (command_text i)) ws \<noteq> Some Outside"
    "j \<noteq> JailActive \<Longrightarrow> review (grammar (command_text i)) ws scratch = None"
    "j \<noteq> JailActive \<Longrightarrow> delete_tier_of (grammar (command_text i)) ws \<noteq> Some Unseen"
  using assms by (auto simp: scan_command_def Let_def split: option.splits if_splits)

lemma authorize_Allow:
  assumes "authorize grammar p a i r = Allow"
  shows "floor_verdict grammar p i r = Allow" "\<not> asks grammar p a i" "a = Plan \<Longrightarrow> r = Some ReadRadius"
  using assms by (auto simp: authorize_def Let_def split: if_splits)

lemma authorize_floor_Deny:
  "floor_verdict grammar p i r = Deny m \<Longrightarrow> \<exists>m'. authorize grammar p a i r = Deny m'"
  by (auto simp: authorize_def Let_def)

lemma floor_shell: "intent_tool i = ''shell.exec'' \<Longrightarrow> floor_verdict grammar p i r =
    scan_command grammar i (workspace p) (policy_scratch p) (policy_jail p)"
  by (simp add: floor_verdict_def)

section \<open>Properties\<close>

text \<open>The dial only ever strengthens a decision: what \<open>careful\<close> lets through is let through by
  \<open>normal\<close> and \<open>yolo\<close> too, and what \<open>yolo\<close> refuses is refused, with the same reason, at every other
  setting outside plan mode.\<close>

theorem autonomy_never_weakens:
  assumes "autonomy \<noteq> Plan"
  shows "(authorize grammar p Careful i r = Allow \<longrightarrow> authorize grammar p autonomy i r = Allow) \<and>
    (authorize grammar p Yolo i r = Deny m \<longrightarrow> authorize grammar p autonomy i r = Deny m) \<and>
    strictness (floor_verdict grammar p i r) \<le> strictness (authorize grammar p autonomy i r)"
proof -
  have "strictness (floor_verdict grammar p i r) \<le> strictness (authorize grammar p autonomy i r)"
    using assms by (simp add: authorize_off_plan)
  then show ?thesis
    using default_dial.careful_allow_everywhere [OF _ assms] default_dial.yolo_deny_everywhere [OF _ assms]
    by blast
qed

definition read_intent :: tool_intent where
  "read_intent = \<lparr>intent_id = ''1'', intent_tool = ''read'', intent_args = JObj []\<rparr>"

theorem autonomy_never_weakens_witness:
  "authorize (\<lambda>_. reading_default) policy_new Normal read_intent (Some ReadRadius) = Allow"
proof -
  have "authorize (\<lambda>_. reading_default) policy_new Careful read_intent (Some ReadRadius) = Allow"
    by (simp add: authorize_def floor_verdict_def read_intent_def mutates_memory_def asks_def escalates_def
        file_tools_def policy_new_def)
  with autonomy_never_weakens [of Normal "\<lambda>_. reading_default" policy_new read_intent "Some ReadRadius"]
  show ?thesis by simp
qed

text \<open>C4. Real dangers never run: a shell line that forks itself, deletes a system folder recursively,
  escalates privilege, writes a disk device or reads a credential store is denied at every autonomy
  level, with or without a jail, whatever rules the operator configured.\<close>

theorem danger_denied_in_every_mode:
  assumes "intent_tool i = ''shell.exec''"
    and "reading_self_forking (grammar (command_text i)) \<or>
      (\<exists>c \<in> set (reading_commands (grammar (command_text i))).
         deletes_system (workspace p) c \<or> command_danger c (policy_jail p = JailActive) \<noteq> None)"
  shows "\<exists>m. authorize grammar p autonomy i r = Deny m"
proof -
  have "danger (grammar (command_text i)) (workspace p) (policy_jail p = JailActive) \<noteq> None"
    using assms(2) by (auto simp: danger_None)
  then obtain m where "floor_verdict grammar p i r = Deny m"
    by (auto simp: floor_shell [OF assms(1)] scan_command_def Let_def)
  then show ?thesis by (rule authorize_floor_Deny)
qed

definition shell_intent :: tool_intent where
  "shell_intent = \<lparr>intent_id = ''1'', intent_tool = ''shell.exec'', intent_args = JObj [(''command'', JStr ''x'')]\<rparr>"

definition rm_root :: reading where
  "rm_root = \<lparr>reading_commands = [command_default\<lparr>cmd_words := map (\<lambda>t. word_new t Literal)
     [''rm'', ''-rf'', ''/tmp/../etc'']\<rparr>], reading_complete = True, reading_self_forking = False\<rparr>"

lemma rm_root_program: "command_program (hd (reading_commands rm_root)) = Some \<lparr>prog_at = 0, prog_name = ''rm'',
    prog_args = [word_new ''-rf'' Literal, word_new ''/tmp/../etc'' Literal], prog_fed = False\<rparr>"
  by (simp add: rm_root_def command_default_def command_program_def program_from.simps word_new_def
      literal_text_def) code_simp

theorem danger_denied_in_every_mode_witness:
  "\<exists>m. authorize (\<lambda>_. rm_root) (with_jail JailActive policy_new) Yolo shell_intent (Some External) = Deny m"
proof -
  have "deletes_system None (hd (reading_commands rm_root))"
    unfolding deletes_system_def rm_root_program by code_simp
  moreover have "hd (reading_commands rm_root) \<in> set (reading_commands rm_root)" by (simp add: rm_root_def)
  ultimately show ?thesis
    by (intro danger_denied_in_every_mode)
      (auto simp: shell_intent_def with_jail_def policy_new_def)
qed

text \<open>Without a jail, a shell line runs unasked only when its text shows all it does: it was parsed
  completely, sets no variable and redirects no file, and every command names its program plainly (no
  expansion, wrapper, path, interpreter or network client), only reads, builds, or deletes inside,
  and names no path outside the workspace and the scratch folder.\<close>

theorem unjailed_allow_is_visible:
  assumes "intent_tool i = ''shell.exec''" "policy_jail p \<noteq> JailActive"
    and "authorize grammar p autonomy i r = Allow"
  shows "reading_complete (grammar (command_text i)) \<and>
    (\<forall>c \<in> set (reading_commands (grammar (command_text i))).
       \<not> cmd_background c \<and> cmd_assigns c = [] \<and>
       (cmd_words c = [] \<or> (\<exists>q. command_program c = Some q \<and> prog_at q = 0 \<and> \<not> prog_fed q \<and>
          \<not> is_interpreter (prog_name q) \<and> prog_name q \<notin> set network_programs \<and>
          (\<forall>w \<in> set (cmd_words c). word_value w \<noteq> Dynamic \<and> word_value w \<noteq> Pattern) \<and>
          (command_reads_only c \<or> builds (prog_name q) (prog_args q) \<or> prog_name q = ''rm'') \<and>
          (prog_name q = ''rm'' \<or>
             (\<forall>arg \<in> set (prog_args q). \<not> outside_word (workspace p) (policy_scratch p) arg)))))"
proof -
  let ?r = "grammar (command_text i)"
  have rv: "review ?r (workspace p) (policy_scratch p) = None"
    using authorize_Allow(1) [OF assms(3)] assms(2)
    by (simp add: floor_shell [OF assms(1)] scan_command_Allow(3))
  have each: "review_command c (workspace p) (policy_scratch p) = None" if "c \<in> set (reading_commands ?r)" for c
    using rv that by (simp add: review_def find_map_None split: if_splits)
  have basic: "\<not> cmd_background c" "cmd_assigns c = []" "cmd_words c = [] \<or> command_program c \<noteq> None"
    if "c \<in> set (reading_commands ?r)" for c
    using each [OF that] by (auto simp: review_command_def split: if_splits option.splits)
  have prog: "review_program c (workspace p) (policy_scratch p) q = None"
    if "c \<in> set (reading_commands ?r)" "command_program c = Some q" for c q
    by (rule program_in_review [OF rv that])
  have "reading_complete ?r" using rv by (simp add: review_def split: if_splits)
  then show ?thesis
  proof (intro conjI ballI)
    fix c assume c: "c \<in> set (reading_commands ?r)"
    show "\<not> cmd_background c" "cmd_assigns c = []" using basic [OF c] by simp_all
    show "cmd_words c = [] \<or> (\<exists>q. command_program c = Some q \<and> prog_at q = 0 \<and> \<not> prog_fed q \<and>
          \<not> is_interpreter (prog_name q) \<and> prog_name q \<notin> set network_programs \<and>
          (\<forall>w \<in> set (cmd_words c). word_value w \<noteq> Dynamic \<and> word_value w \<noteq> Pattern) \<and>
          (command_reads_only c \<or> builds (prog_name q) (prog_args q) \<or> prog_name q = ''rm'') \<and>
          (prog_name q = ''rm'' \<or>
             (\<forall>arg \<in> set (prog_args q). \<not> outside_word (workspace p) (policy_scratch p) arg)))"
    proof (cases "command_program c")
      case (Some q)
      then show ?thesis using review_program_None [OF prog [OF c Some]] by auto
    qed (use basic(3) [OF c] in simp)
  qed
qed

theorem unjailed_allow_is_visible_witness: "\<not> is_interpreter ''cargo'' \<and> builds ''cargo'' [word_new ''test'' Literal]"
proof -
  have "review_program (hd (reading_commands cargo_test)) None None \<lparr>prog_at = 0, prog_name = ''cargo'',
    prog_args = [word_new ''test'' Literal], prog_fed = False\<rparr> = None" by code_simp
  then have rv: "review cargo_test None None = None"
    using cargo_test_program by (simp add: review_def cargo_test_def review_command_def command_default_def)
  have "command_danger (hd (reading_commands cargo_test)) False = None"
    unfolding command_danger_def cargo_test_program by code_simp
  moreover have "\<not> deletes_system None (hd (reading_commands cargo_test))"
    unfolding deletes_system_def cargo_test_program by simp
  ultimately have dn: "danger cargo_test None False = None"
    by (simp add: danger_None cargo_test_def)
  have dt: "delete_tier_of cargo_test None = None"
    using cargo_test_program
    by (simp add: delete_tier_of_def delete_tiers_def cargo_test_def List.map_filter_simps)
  have "scan_command (\<lambda>_. cargo_test) shell_intent None None JailOff = Allow"
    using rv dn dt by (simp add: scan_command_def)
  then have "authorize (\<lambda>_. cargo_test) policy_new Careful shell_intent (Some External) = Allow"
    by (simp add: authorize_def floor_verdict_def shell_intent_def policy_new_def asks_def escalates_def file_tools_def)
  from unjailed_allow_is_visible [OF _ _ this] cargo_test_program show ?thesis
    by (auto simp: shell_intent_def policy_new_def cargo_test_def command_default_def builds_def word_new_def)
qed

text \<open>Inside the jail, in \<open>normal\<close> and \<open>yolo\<close>, a shell line runs unasked exactly when it is no
  danger and deletes nothing of the person's outside the workspace; a danger is denied, such a delete
  asks.\<close>

theorem jailed_shell_decision:
  assumes "intent_tool i = ''shell.exec''" "policy_jail p = JailActive" "autonomy = Normal \<or> autonomy = Yolo"
  shows "(authorize grammar p autonomy i r = Allow \<longleftrightarrow>
      danger (grammar (command_text i)) (workspace p) True = None \<and>
      delete_tier_of (grammar (command_text i)) (workspace p) \<noteq> Some Outside) \<and>
    (authorize grammar p autonomy i r = Human \<longleftrightarrow>
      danger (grammar (command_text i)) (workspace p) True = None \<and>
      delete_tier_of (grammar (command_text i)) (workspace p) = Some Outside)"
proof -
  have "\<not> asks grammar p autonomy i" using assms by (auto simp: asks_def escalates_def)
  moreover have "autonomy \<noteq> Plan" using assms(3) by auto
  ultimately show ?thesis
    using assms(2) by (auto simp: authorize_off_plan floor_shell [OF assms(1)] scan_command_def Let_def split: option.splits)
qed

theorem jailed_shell_decision_witness:
  "authorize (\<lambda>_. reading_default) (with_jail JailActive policy_new) Yolo shell_intent None = Allow"
proof -
  have "danger reading_default None True = None" "delete_tier_of reading_default None \<noteq> Some Outside" by code_simp+
  then show ?thesis
    using jailed_shell_decision [of shell_intent "with_jail JailActive policy_new" Yolo "\<lambda>_. reading_default" None]
    by (simp add: shell_intent_def with_jail_def policy_new_def)
qed

text \<open>Deny-first: a tool the registry does not know is denied at every setting, except the few the
  policy judges by their arguments, and none of those runs unasked unless it is a shell line or a
  \<open>git\<close> read.\<close>

theorem unregistered_denied:
  "(\<exists>m. authorize grammar p autonomy i None = Deny m) \<or>
   intent_tool i \<in> {''shell.exec'', ''git''} \<or>
   (authorize grammar p autonomy i None = Human \<and>
    (intent_tool i \<in> {''skill.save'', ''agent.apply''} \<or> mutates_memory i))"
  by (simp add: authorize_def floor_verdict_def Let_def)

text \<open>Changing files is one capability: a rule that names \<open>write\<close> or \<open>edit\<close> gates both in \<open>careful\<close>.\<close>

theorem file_rule_gates_both_tools:
  assumes "''write'' \<in> set (approve p) \<or> ''edit'' \<in> set (approve p)"
    and "intent_tool i = ''write'' \<or> intent_tool i = ''edit''"
  shows "authorize grammar p Careful i (Some ReversibleLocal) = Human"
  using assms
  by (auto simp: authorize_def floor_verdict_def asks_def escalates_def file_tools_def mutates_memory_def Let_def)

theorem file_rule_gates_both_tools_witness:
  "authorize (\<lambda>_. reading_default) (requiring_approval [''edit'']) Careful
     \<lparr>intent_id = ''1'', intent_tool = ''write'', intent_args = JNull\<rparr> (Some ReversibleLocal) = Human"
  by (rule file_rule_gates_both_tools) (simp_all add: requiring_approval_def policy_new_def)

end
