(* ===== verification/Dispatch.thy ===== *)
theory Dispatch
  imports Hooks Policy
begin

text \<open>
  \<open>crates/kernel/src/dispatch.rs\<close>: what happens to one validated intent, from the outbound check to
  the observation the model reads, with the trust-flow rule of \<open>loop_.rs\<close> and the answers of
  \<open>gate.rs\<close>.

  Everything outside the kernel (the executor, the policy, the hooks, the person at the gate, the
  event log) is a field of the record \<open>world\<close>, an arbitrary function of what the kernel hands it.
  A dispatch returns the observation and the list of actions it took, in order, so that \<open>what ran\<close> and
  \<open>what was asked and recorded before\<close> are statements about that list.
\<close>

section \<open>Answers of a person\<close>

datatype approval = Once | Always | ApprovalDeny

fun approved :: "approval \<Rightarrow> bool" where
  "approved Once = True"
| "approved Always = True"
| "approved ApprovalDeny = False"

datatype network_decision = NetOnce | NetSession | NetPersistent | NetDeny

text \<open>\<open>HumanGate::confirm_network\<close> and \<open>confirm_access\<close> for a gate that only has \<open>confirm\<close>.\<close>

definition network_of_approval :: "bool \<Rightarrow> approval \<Rightarrow> network_decision" where
  "network_of_approval escalated a =
     (case a of
        Once \<Rightarrow> NetOnce
      | Always \<Rightarrow> if \<not> escalated then NetPersistent else NetOnce
      | ApprovalDeny \<Rightarrow> NetDeny)"

datatype path_approval = PathOnce | PathOnly | PathFolder | PathDeny

fun path_of_approval :: "approval \<Rightarrow> path_approval" where
  "path_of_approval Once = PathOnce"
| "path_of_approval Always = PathOnly"
| "path_of_approval ApprovalDeny = PathDeny"

record execution_access =
  acc_network :: bool
  acc_read_paths :: "string list"
  acc_write_paths :: "string list"
  acc_outside_sandbox :: bool

definition access_is_empty :: "execution_access \<Rightarrow> bool" where
  "access_is_empty a \<longleftrightarrow>
     \<not> acc_network a \<and> \<not> acc_outside_sandbox a \<and> acc_read_paths a = [] \<and> acc_write_paths a = []"

definition no_access :: execution_access where
  "no_access = \<lparr>acc_network = False, acc_read_paths = [], acc_write_paths = [], acc_outside_sandbox = False\<rparr>"

section \<open>Trust flow\<close>

definition consequential :: "blast_radius option \<Rightarrow> bool" where
  "consequential radius \<longleftrightarrow> radius = Some IrreversibleLocal \<or> radius = Some External"

definition follows_web :: "blast_radius option \<Rightarrow> bool \<Rightarrow> containment \<Rightarrow> bool" where
  "follows_web radius web_tainted c \<longleftrightarrow> web_tainted \<and> consequential radius \<and> \<not> confines_network c"

definition escalate_for_trust_flow ::
  "decision \<Rightarrow> blast_radius option \<Rightarrow> bool \<Rightarrow> containment \<Rightarrow> decision" where
  "escalate_for_trust_flow d radius web_tainted c =
     (if d = Allow \<and> follows_web radius web_tainted c then Human else d)"

text \<open>\<open>salient_arg\<close> and \<open>approval_key\<close>: what a remembered approval is remembered under.\<close>

definition salient_arg :: "tool_intent \<Rightarrow> string option" where
  "salient_arg i = find_map (get_str (intent_args i)) [''command'', ''path'', ''url'']"

definition approval_key :: "(string \<Rightarrow> reading) \<Rightarrow> tool_intent \<Rightarrow> string" where
  "approval_key grammar i =
     (let shape = (if intent_tool i = ''shell.exec''
                   then (case as_str (json_index (intent_args i) ''command'') of
                           Some line \<Rightarrow> approval_shape (grammar line) | None \<Rightarrow> None)
                   else None)
      in case shape of
           Some s \<Rightarrow> intent_tool i @ '': '' @ s
         | None \<Rightarrow> (case salient_arg i of Some a \<Rightarrow> intent_tool i @ '': '' @ a | None \<Rightarrow> intent_tool i))"

text \<open>
  What the cards say. \<open>show\<close> prints a JSON value, which the \<open>serde_json\<close> crate does; \<open>nl\<close> is the line break.
\<close>

definition nl :: string where
  "nl = [CHR 0x0A]"

definition approval_detail :: "(json \<Rightarrow> string) \<Rightarrow> tool_intent \<Rightarrow> string" where
  "approval_detail show i =
     (let s = (\<lambda>k. case get_str (intent_args i) k of Some v \<Rightarrow> v | None \<Rightarrow> [])
      in if intent_tool i = ''shell.exec'' then ''$ '' @ s ''command''
         else if intent_tool i = ''edit'' \<and> json_get (intent_args i) ''content'' \<noteq> None
         then ''write '' @ s ''path'' @ '' ('' @ decimal (length (s ''content'')) @ '' bytes)''
         else if intent_tool i = ''edit'' \<and> json_get (intent_args i) ''edits'' \<noteq> None
         then ''edit '' @ s ''path'' @ '' ('' @ decimal (case as_array (json_index (intent_args i) ''edits'') of
                Some vs \<Rightarrow> length vs | None \<Rightarrow> 0) @ '' changes)''
         else if intent_tool i = ''edit''
         then ''edit '' @ s ''path'' @ nl @ ''- '' @ take_chars 120 (s ''old_string'')
                @ nl @ ''+ '' @ take_chars 120 (s ''new_string'')
         else intent_tool i @ '' '' @ take_chars 200 (show (intent_args i)))"

definition hook_line :: "string option \<Rightarrow> string" where
  "hook_line reason = (case reason of
     Some r \<Rightarrow> nl @ nl @ ''A pre-tool hook requires approval: '' @ r | None \<Rightarrow> [])"

definition access_lines :: "execution_access \<Rightarrow> bool \<Rightarrow> string" where
  "access_lines a escalated =
     nl @ nl @ ''Additional access required before running:''
     @ (if acc_outside_sandbox a
        then nl @ ''- Run outside Medha'' @ [CHR 0x27]
             @ ''s sandbox, this one time: the command can read and change anything your user account can'' else [])
     @ (if acc_network a then nl @ ''- Network access'' else [])
     @ concat (map (\<lambda>p. nl @ ''- Read '' @ p @ '' (including subdirectories)'') (acc_read_paths a))
     @ concat (map (\<lambda>p. nl @ ''- Read/write '' @ p @ '' (including subdirectories)'') (acc_write_paths a))
     @ (if escalated
        then nl @ ''This command handled untrusted content; approve this invocation only.'' else [])"

definition net_grant_detail :: "string \<Rightarrow> bool \<Rightarrow> observation \<Rightarrow> string" where
  "net_grant_detail action web_tainted obs =
     (let unproven = (case json_get (obs_payload obs) ''timed_out'' of Some (JBool b) \<Rightarrow> b | _ \<Rightarrow> False)
      in (if unproven
          then ''This command hit its deadline under a sandbox that denies network access:'' @ nl @ ''  '' @ action @ nl
               @ ''If it was waiting on the network, its resolver error may have been hidden by a pipe. ''
               @ ''Grant network access and retry?''
          else ''The sandbox denied network access, so this command could not reach the network:'' @ nl @ ''  '' @ action @ nl
               @ ''Grant network access and retry?'')
         @ (if web_tainted
            then nl @ nl @ ''This command handled web-fetched content. Opening the network means it could ''
                 @ ''send that content out '' @ [CHR 0xE2, CHR 0x80, CHR 0x94] @ '' approve only if you trust it to.''
            else []))"

section \<open>The world around a dispatch\<close>

text \<open>How much a run may reach: as contained, with granted access, or with the network for one run.\<close>

datatype run_scope = PlainRun | AccessRun execution_access | NetworkOnceRun

datatype log_record = PolicyRecord decision | HookRecord hook_point hook_audit | EffectRecord string "json option"

record hook_request =
  req_point :: hook_point
  req_trust :: trust_label
  req_payload :: json

datatype action =
    Appended log_record
  | Hooked hook_request
  | AskedAccess execution_access string bool
  | AskedGate string string bool
  | AskedNetwork string bool
  | Ran nat run_scope

record world =
  w_outbound :: "string option"
  w_radius :: "blast_radius option"
  w_mutation_key :: "string option"
  w_policy :: "autonomy_level \<Rightarrow> tool_intent \<Rightarrow> blast_radius option \<Rightarrow> decision"
  w_containment :: containment
  w_hook :: "hook_request \<Rightarrow> hook_batch"
  w_cancelled :: bool
  w_append :: "log_record \<Rightarrow> string option"
  w_preflight :: "observation option"
  w_missing :: "string + execution_access"
  w_preview :: "string option"
  w_grant_access :: "execution_access \<Rightarrow> string \<Rightarrow> bool \<Rightarrow> string + network_decision"
  w_confirm :: "string \<Rightarrow> string \<Rightarrow> bool \<Rightarrow> approval"
  w_denial_reason :: string
  w_retry_allowed :: bool
  w_grant_network :: "string \<Rightarrow> bool \<Rightarrow> network_decision"
  w_lane :: "nat \<Rightarrow> string option"
  w_prepare :: "nat \<Rightarrow> observation + json"
  w_execute :: "nat \<Rightarrow> run_scope \<Rightarrow> observation"
  w_finish :: "nat \<Rightarrow> json \<Rightarrow> observation \<Rightarrow> observation"
  w_failed :: "string \<Rightarrow> observation \<Rightarrow> bool"
  w_grammar :: "string \<Rightarrow> reading"
  w_show :: "json \<Rightarrow> string"

definition hook_view :: "world \<Rightarrow> json \<Rightarrow> json" where
  "hook_view w v = hook_safe_value (\<lambda>j. length (w_show w j)) v"

definition card_detail :: "world \<Rightarrow> tool_intent \<Rightarrow> string" where
  "card_detail w i = (case w_preview w of Some p \<Rightarrow> p | None \<Rightarrow> approval_detail (w_show w) i)"

text \<open>\<open>Kernel::log.append\<close>: the action, and the error it failed with, if it did.\<close>

definition append_log :: "world \<Rightarrow> log_record \<Rightarrow> action list \<times> string option" where
  "append_log w r = (case w_append w r of None \<Rightarrow> ([Appended r], None) | Some e \<Rightarrow> ([], Some e))"

section \<open>Hooks of a call\<close>

fun append_audits :: "world \<Rightarrow> hook_point \<Rightarrow> hook_audit list \<Rightarrow> action list \<times> string option" where
  "append_audits w point [] = ([], None)"
| "append_audits w point (a # rest) =
     (case append_log w (HookRecord point (bounded_audit a)) of
        (t, Some e) \<Rightarrow> (t, Some (''hook decision could not be recorded: '' @ e))
      | (t, None) \<Rightarrow> (let (t', r) = append_audits w point rest in (t @ t', r)))"

definition invoke_hook ::
  "world \<Rightarrow> hook_point \<Rightarrow> trust_label \<Rightarrow> json \<Rightarrow> action list \<times> (string + hook_batch)" where
  "invoke_hook w point trust payload =
     (let request = \<lparr>req_point = point, req_trust = trust, req_payload = payload\<rparr>;
          batch = w_hook w request in
      if directive batch \<noteq> HookContinue \<and> audits batch = []
      then ([Hooked request], Inl ''hook runner returned an unaudited decision'')
      else case append_audits w point (audits batch) of
        (t, Some e) \<Rightarrow> (Hooked request # t, Inl e)
      | (t, None) \<Rightarrow> (Hooked request # t, Inr (batch\<lparr>audits := map bounded_audit (audits batch)\<rparr>)))"

fun network_decision_str :: "network_decision \<Rightarrow> string" where
  "network_decision_str NetOnce = ''once''"
| "network_decision_str NetSession = ''session''"
| "network_decision_str NetPersistent = ''persistent''"
| "network_decision_str NetDeny = ''deny''"

fun approval_str :: "approval \<Rightarrow> string" where
  "approval_str Once = ''once''"
| "approval_str Always = ''always''"
| "approval_str ApprovalDeny = ''deny''"

text \<open>\<open>observe_hook\<close> after a card: what the hook answers is not read.\<close>

definition observe_decision :: "world \<Rightarrow> tool_intent \<Rightarrow> string \<Rightarrow> string \<Rightarrow> action list" where
  "observe_decision w i kind answer = fst (invoke_hook w ApprovalDecision System (json_obj
     [(''intent_id'', JStr (intent_id i)), (''tool'', JStr (intent_tool i)), (''kind'', JStr kind),
      (''decision'', JStr answer)]))"

fun obs_status_str :: "obs_status \<Rightarrow> string" where
  "obs_status_str StatusOk = ''ok''"
| "obs_status_str StatusDenied = ''denied''"
| "obs_status_str StatusRejected = ''rejected''"
| "obs_status_str StatusSchemaInvalid = ''schema_invalid''"
| "obs_status_str StatusError = ''error''"

text \<open>The loop of \<open>apply_post_tool_hook\<close> over its points: contexts gathered and the first problem.\<close>

fun post_hooks :: "world \<Rightarrow> trust_label \<Rightarrow> json \<Rightarrow> hook_point list \<Rightarrow> hook_context list \<Rightarrow> string option \<Rightarrow>
    action list \<times> hook_context list \<times> string option" where
  "post_hooks w trust payload [] cs problem = ([], cs, problem)"
| "post_hooks w trust payload (point # rest) cs problem =
     (let (t, answer) = invoke_hook w point trust payload;
          (cs', problem') =
            (case answer of
               Inl e \<Rightarrow> (cs, case problem of None \<Rightarrow> Some e | Some p \<Rightarrow> Some p)
             | Inr batch \<Rightarrow>
                 (cs @ contexts batch,
                  case directive batch of
                    HookContinue \<Rightarrow> problem
                  | HookDeny r \<Rightarrow> (case problem of None \<Rightarrow> Some r | Some p \<Rightarrow> Some p)
                  | HookRequestApproval r \<Rightarrow> (case problem of None \<Rightarrow> Some r | Some p \<Rightarrow> Some p)));
          (t', result) = post_hooks w trust payload rest cs' problem'
      in (t @ t', result))"

definition post_problem :: "string \<Rightarrow> observation \<Rightarrow> observation" where
  "post_problem problem obs = obs\<lparr>obs_status := StatusError, obs_payload := json_obj
     [(''error'', JStr (''tool completed, but its required post-tool hook did not settle safely: '' @ problem)),
      (''tool_status'', JStr (obs_status_str (obs_status obs))), (''tool_result'', obs_payload obs)]\<rparr>"

definition apply_post_tool_hook ::
  "world \<Rightarrow> tool_intent \<Rightarrow> bool \<Rightarrow> observation \<Rightarrow> action list \<times> observation" where
  "apply_post_tool_hook w i web_tainted obs =
     (let payload = json_obj [(''intent_id'', JStr (intent_id i)), (''tool'', JStr (intent_tool i)),
            (''status'', JStr (obs_status_str (obs_status obs))), (''result'', hook_view w (obs_payload obs))];
          points = [PostTool] @ (if w_failed w (intent_tool i) obs then [ToolFailure] else []);
          (t, cs, problem) = post_hooks w (if web_tainted then Web else Tool) payload points [] None;
          file_changed = (obs_status obs = StatusOk \<and> (intent_tool i = ''write'' \<or> intent_tool i = ''edit''));
          attached = attach_hook_contexts obs cs;
          settled = (case problem of Some p \<Rightarrow> post_problem p attached | None \<Rightarrow> attached);
          t' = (if file_changed
                then fst (invoke_hook w FileChange System (json_obj [(''intent_id'', JStr (intent_id i)),
                  (''tool'', JStr (intent_tool i)), (''args'', hook_view w (intent_args i))]))
                else [])
      in (t @ t', settled))"

section \<open>Running the call\<close>

definition execute_with_effect_outbox ::
  "world \<Rightarrow> tool_intent \<Rightarrow> nat \<Rightarrow> run_scope \<Rightarrow> action list \<times> observation" where
  "execute_with_effect_outbox w i attempt scope =
     (case w_lane w attempt of
        Some reason \<Rightarrow> ([], obs_error (intent_id i) reason)
      | None \<Rightarrow>
        (case w_prepare w attempt of
           Inl obs \<Rightarrow> ([], obs)
         | Inr preparation \<Rightarrow>
             (case w_mutation_key w of
                None \<Rightarrow> ([Ran attempt scope], w_finish w attempt preparation (w_execute w attempt scope))
              | Some key \<Rightarrow>
                  (case append_log w (EffectRecord key (json_get preparation ''_checkpoint_manifest'')) of
                     (t, Some e) \<Rightarrow> (t, obs_error (intent_id i)
                        (''state change was not started because its durable execution record could not be written: '' @ e))
                   | (t, None) \<Rightarrow> (t @ [Ran attempt scope], w_finish w attempt preparation (w_execute w attempt scope))))))"

definition execute_with_net_retry :: "world \<Rightarrow> tool_intent \<Rightarrow> bool \<Rightarrow> action list \<times> observation" where
  "execute_with_net_retry w i web_tainted =
     (let (t, obs) = execute_with_effect_outbox w i 0 PlainRun in
      if \<not> net_denied obs \<or> \<not> w_retry_allowed w then (t, obs)
      else
        let escalated = follows_web (w_radius w) web_tainted OsFsJail;
            detail = net_grant_detail (approval_key (w_grammar w) i) web_tainted obs;
            answer = w_grant_network w detail escalated;
            asked = t @ [AskedNetwork detail escalated]
              @ observe_decision w i ''network_retry'' (network_decision_str answer)
        in case answer of
             NetDeny \<Rightarrow> (asked, obs)
           | NetOnce \<Rightarrow> (let (t', obs') = execute_with_effect_outbox w i 1 NetworkOnceRun in (asked @ t', obs'))
           | _ \<Rightarrow> (let (t', obs') = execute_with_effect_outbox w i 1 PlainRun in (asked @ t', obs')))"

section \<open>One intent\<close>

definition check_outbound_intent :: "world \<Rightarrow> tool_intent \<Rightarrow> action list \<times> observation option" where
  "check_outbound_intent w i =
     (case w_outbound w of
        None \<Rightarrow> ([], None)
      | Some reason \<Rightarrow>
          (case append_log w (PolicyRecord (Deny reason)) of
             (t, Some e) \<Rightarrow> (t, Some (obs_error (intent_id i) (''outbound denial could not be recorded: '' @ e)))
           | (t, None) \<Rightarrow> (t, Some (obs_denial (intent_id i) reason))))"

definition raw_decision :: "world \<Rightarrow> autonomy_level \<Rightarrow> tool_intent \<Rightarrow> decision" where
  "raw_decision w autonomy i =
     (if autonomy = Plan \<and> (w_radius w \<noteq> Some ReadRadius \<or> w_mutation_key w \<noteq> None)
      then Deny ''plan mode permits read-only tools; switch mode to implement''
      else w_policy w autonomy i (w_radius w))"

fun is_deny :: "decision \<Rightarrow> bool" where
  "is_deny (Deny _) = True"
| "is_deny _ = False"

text \<open>The \<open>PreTool\<close> hook: the decision after it and the reason it wants an approval for.\<close>

definition radius_json :: "blast_radius option \<Rightarrow> json" where
  "radius_json r = (case r of
     Some ReadRadius \<Rightarrow> JStr ''read''
   | Some ReversibleLocal \<Rightarrow> JStr ''reversible_local''
   | Some IrreversibleLocal \<Rightarrow> JStr ''irreversible_local''
   | Some External \<Rightarrow> JStr ''external''
   | None \<Rightarrow> JNull)"

definition pre_tool ::
  "world \<Rightarrow> tool_intent \<Rightarrow> bool \<Rightarrow> decision \<Rightarrow> action list \<times> (string + decision \<times> string option)" where
  "pre_tool w i web_tainted d =
     (if is_deny d then ([], Inr (d, None))
      else case invoke_hook w PreTool (if web_tainted then Web else System)
          (json_obj [(''intent_id'', JStr (intent_id i)), (''tool'', JStr (intent_tool i)),
             (''blast_radius'', radius_json (w_radius w)), (''args'', hook_view w (intent_args i))]) of
        (t, Inl e) \<Rightarrow> (t, Inl e)
      | (t, Inr hooks) \<Rightarrow>
          (t, Inr (case directive hooks of
                     HookContinue \<Rightarrow> (d, None)
                   | HookDeny reason \<Rightarrow> (Deny reason, None)
                   | HookRequestApproval reason \<Rightarrow> (Human, Some reason))))"

text \<open>A run that was let through, and what the hooks make of its observation.\<close>

definition then_post ::
  "world \<Rightarrow> tool_intent \<Rightarrow> bool \<Rightarrow> action list \<times> observation \<Rightarrow> action list \<times> observation" where
  "then_post w i web_tainted run =
     (let (t, obs) = run; (t', obs') = apply_post_tool_hook w i web_tainted obs in (t @ t', obs'))"

text \<open>The card for missing capabilities, which also reviews the command itself.\<close>

definition dispatch_access ::
  "world \<Rightarrow> tool_intent \<Rightarrow> bool \<Rightarrow> bool \<Rightarrow> string option \<Rightarrow> execution_access \<Rightarrow> action list \<times> observation"
where
  "dispatch_access w i web_tainted escalated hook_reason access =
     (let access_escalated =
            (escalated \<or> (acc_network access \<and> follows_web (w_radius w) web_tainted OsFsJail));
          detail = card_detail w i @ access_lines access access_escalated @ hook_line hook_reason;
          answer = w_grant_access w access detail access_escalated;
          asked = [AskedAccess access detail access_escalated]
            @ observe_decision w i ''command_access'' (case_sum (\<lambda>_. ''error'') network_decision_str answer)
      in case answer of
           Inl e \<Rightarrow> (asked, obs_error (intent_id i) e)
         | Inr NetDeny \<Rightarrow> (asked, obs_denial (intent_id i) ''requested command access was denied; command was not run'')
         | Inr _ \<Rightarrow>
             (let (t, obs) = then_post w i web_tainted (execute_with_effect_outbox w i 0 (AccessRun access))
              in (asked @ t, obs)))"

definition dispatch_gate ::
  "world \<Rightarrow> tool_intent \<Rightarrow> bool \<Rightarrow> bool \<Rightarrow> string option \<Rightarrow> action list \<times> observation" where
  "dispatch_gate w i web_tainted escalated hook_reason =
     (let key = approval_key (w_grammar w) i;
          detail = card_detail w i @ hook_line hook_reason;
          answer = w_confirm w key detail escalated;
          asked = [AskedGate key detail escalated] @ observe_decision w i ''tool'' (approval_str answer)
      in if approved answer
         then (let (t, obs) = then_post w i web_tainted (execute_with_net_retry w i web_tainted) in (asked @ t, obs))
         else (asked, obs_denial (intent_id i) (w_denial_reason w)))"

text \<open>The dispatch once the decision is recorded.\<close>

definition dispatch_decided ::
  "world \<Rightarrow> tool_intent \<Rightarrow> bool \<Rightarrow> bool \<Rightarrow> string option \<Rightarrow> decision \<Rightarrow> action list \<times> observation" where
  "dispatch_decided w i web_tainted escalated hook_reason d =
     (case d of
        Deny reason \<Rightarrow> ([], obs_denial (intent_id i) reason)
      | _ \<Rightarrow>
        (case w_preflight w of
           Some blocked \<Rightarrow> ([], blocked)
         | None \<Rightarrow>
          (case w_missing w of
             Inl e \<Rightarrow> ([], obs_error (intent_id i) e)
           | Inr access \<Rightarrow>
              if \<not> access_is_empty access then dispatch_access w i web_tainted escalated hook_reason access
              else if d = Human then dispatch_gate w i web_tainted escalated hook_reason
              else then_post w i web_tainted (execute_with_net_retry w i web_tainted))))"

definition dispatch_one :: "world \<Rightarrow> autonomy_level \<Rightarrow> tool_intent \<Rightarrow> bool \<Rightarrow> action list \<times> observation" where
  "dispatch_one w autonomy i web_tainted =
     (case check_outbound_intent w i of
        (t, Some blocked) \<Rightarrow> (t, blocked)
      | (_, None) \<Rightarrow>
        (let d = escalate_for_trust_flow (raw_decision w autonomy i) (w_radius w) web_tainted (w_containment w);
             trust_escalated = (follows_web (w_radius w) web_tainted (w_containment w) \<and> d = Human)
         in case pre_tool w i web_tainted d of
              (t, Inl e) \<Rightarrow> (t, obs_error (intent_id i)
                (''tool execution was denied because its pre-tool hook was not auditable: '' @ e))
            | (t, Inr (d', hook_reason)) \<Rightarrow>
                if w_cancelled w
                then (t, obs_error (intent_id i) ''[interrupted] cancelled while running pre-tool hooks'')
                else (case append_log w (PolicyRecord d') of
                   (t', Some e) \<Rightarrow> (t @ t', obs_error (intent_id i)
                     (''tool execution was denied because its policy decision could not be durably recorded: '' @ e))
                 | (t', None) \<Rightarrow>
                     (let (t'', obs) = dispatch_decided w i web_tainted (trust_escalated \<or> hook_reason \<noteq> None) hook_reason d'
                      in (t @ t' @ t'', obs)))))"

section \<open>Lemmas\<close>

text \<open>The runs of a list of actions.\<close>

definition is_run :: "action \<Rightarrow> bool" where
  "is_run a = (case a of Ran _ _ \<Rightarrow> True | _ \<Rightarrow> False)"

definition runs :: "action list \<Rightarrow> action list" where
  "runs = filter is_run"

lemma runs_append [simp]: "runs (xs @ ys) = runs xs @ runs ys"
  by (simp add: runs_def)

lemma runs_simps [simp]:
  "runs [] = []" "runs (Ran n s # t) = Ran n s # runs t" "runs (Appended r # t) = runs t"
  "runs (AskedAccess a m e # t) = runs t" "runs (AskedGate k m e # t) = runs t" "runs (AskedNetwork m e # t) = runs t"
  "runs (Hooked q # t) = runs t"
  by (simp_all add: runs_def is_run_def)

text \<open>Asking, logging and hooks run nothing. Each fact comes in two forms: on the pair, and on its parts.\<close>

lemma runs_append_log: "append_log w r = (t, x) \<Longrightarrow> runs t = []"
  by (auto simp: append_log_def split: option.splits)

lemma runs_append_audits: "append_audits w point as = (t, x) \<Longrightarrow> runs t = []"
  by (induction w point as arbitrary: t x rule: append_audits.induct)
    (auto dest: runs_append_log split: option.splits prod.splits)

lemma runs_invoke_hook: "invoke_hook w point trust payload = (t, x) \<Longrightarrow> runs t = []"
  by (auto simp: invoke_hook_def Let_def dest: runs_append_audits split: option.splits prod.splits if_splits)

lemma runs_invoke_hook_fst [simp]: "runs (fst (invoke_hook w point trust payload)) = []"
  by (rule runs_invoke_hook) (rule prod.collapse [symmetric])

lemma runs_observe [simp]: "runs (observe_decision w i kind answer) = []"
  by (simp add: observe_decision_def)

lemma runs_post_hooks: "post_hooks w trust payload points cs problem = (t, x) \<Longrightarrow> runs t = []"
  by (induction points arbitrary: cs problem t x)
    (auto simp: Let_def dest: runs_invoke_hook split: prod.splits)

declare post_hooks.simps [simp del]

lemma runs_apply_post: "apply_post_tool_hook w i taint obs = (t, x) \<Longrightarrow> runs t = []"
  by (auto simp: apply_post_tool_hook_def Let_def dest: runs_post_hooks split: prod.splits if_splits)

lemma runs_then_post [simp]: "runs (fst (then_post w i taint r)) = runs (fst r)"
  by (auto simp: then_post_def Let_def dest: runs_apply_post split: prod.splits)

lemma runs_pre_tool: "pre_tool w i taint d = (t, x) \<Longrightarrow> runs t = []"
  by (auto simp: pre_tool_def dest: runs_invoke_hook split: prod.splits sum.splits if_splits)

lemma runs_outbox: "runs (fst (execute_with_effect_outbox w i n s)) = [] \<or>
    runs (fst (execute_with_effect_outbox w i n s)) = [Ran n s]"
  by (auto simp: execute_with_effect_outbox_def append_log_def split: option.splits sum.splits prod.splits)

text \<open>One attempt: nothing ran, or it ran once, last, after its effect record.\<close>

lemma outbox_shape:
  "runs (fst (execute_with_effect_outbox w i n s)) = [] \<or>
   (w_mutation_key w = None \<and> fst (execute_with_effect_outbox w i n s) = [Ran n s]) \<or>
   (\<exists>k m. w_mutation_key w = Some k \<and>
      fst (execute_with_effect_outbox w i n s) = [Appended (EffectRecord k m), Ran n s])"
proof (cases "w_prepare w n")
  case (Inr p)
  show ?thesis
    by (cases "w_lane w n"; cases "w_mutation_key w";
        cases "w_append w (EffectRecord (the (w_mutation_key w)) (json_get p ''_checkpoint_manifest''))")
      (simp_all add: execute_with_effect_outbox_def append_log_def Inr)
qed (simp add: execute_with_effect_outbox_def split: option.split)

text \<open>The observation of a blocked first attempt could still say \<open>net_denied\<close>; a retry is then a first run.\<close>

definition net_asked :: "world \<Rightarrow> tool_intent \<Rightarrow> bool \<Rightarrow> string \<Rightarrow> action list" where
  "net_asked w i escalated detail = fst (execute_with_effect_outbox w i 0 PlainRun) @
     [AskedNetwork detail escalated] @
     observe_decision w i ''network_retry'' (network_decision_str (w_grant_network w detail escalated))"

lemma net_retry_shape:
  fixes w i taint
  defines "e \<equiv> follows_web (w_radius w) taint OsFsJail"
  shows "execute_with_net_retry w i taint = execute_with_effect_outbox w i 0 PlainRun \<or>
    (\<exists>d. w_grant_network w d e = NetDeny \<and> fst (execute_with_net_retry w i taint) = net_asked w i e d) \<or>
    (\<exists>d s. w_grant_network w d e \<noteq> NetDeny \<and> (s = NetworkOnceRun \<or> s = PlainRun) \<and>
       fst (execute_with_net_retry w i taint) = net_asked w i e d @ fst (execute_with_effect_outbox w i 1 s))"
proof -
  obtain t obs where first: "execute_with_effect_outbox w i 0 PlainRun = (t, obs)"
    by (cases "execute_with_effect_outbox w i 0 PlainRun")
  let ?d = "net_grant_detail (approval_key (w_grammar w) i) taint obs"
  show ?thesis
  proof (cases "\<not> net_denied obs \<or> \<not> w_retry_allowed w")
    case True
    then show ?thesis by (auto simp: execute_with_net_retry_def first)
  next
    case False
    let ?D = "w_grant_network w ?d e = NetDeny \<and> fst (execute_with_net_retry w i taint) = net_asked w i e ?d"
    let ?R = "\<lambda>s. w_grant_network w ?d e \<noteq> NetDeny \<and>
      fst (execute_with_net_retry w i taint) = net_asked w i e ?d @ fst (execute_with_effect_outbox w i 1 s)"
    have "?D \<or> ?R NetworkOnceRun \<or> ?R PlainRun"
      using False by (cases "w_grant_network w ?d e")
        (simp_all add: execute_with_net_retry_def first net_asked_def Let_def e_def case_prod_beta)
    then show ?thesis by blast
  qed
qed

lemma runs_net_asked [simp]:
  "runs (net_asked w i e d) = runs (fst (execute_with_effect_outbox w i 0 PlainRun))"
  by (simp add: net_asked_def)

lemma runs_net_retry_length: "length (runs (fst (execute_with_net_retry w i taint))) \<le> 2"
proof -
  have one: "length (runs (fst (execute_with_effect_outbox w i n s))) \<le> 1" for n s
    using runs_outbox [of w i n s] by auto
  show ?thesis
    using net_retry_shape [of w i taint] one [of 0 PlainRun] one [of 1 PlainRun] one [of 1 NetworkOnceRun]
    by (elim disjE exE conjE) simp_all
qed

text \<open>What has to be asked, and answered with a yes, before a run.\<close>

definition granted :: "world \<Rightarrow> bool \<Rightarrow> action list \<Rightarrow> bool" where
  "granted w escalated t \<longleftrightarrow>
     (\<exists>k m. AskedGate k m escalated \<in> set t \<and> approved (w_confirm w k m escalated)) \<or>
     (\<exists>a m e. AskedAccess a m e \<in> set t \<and> (escalated \<longrightarrow> e) \<and>
        (\<exists>n. w_grant_access w a m e = Inr n \<and> n \<noteq> NetDeny))"

lemma granted_gate: "AskedGate k m e \<in> set t \<Longrightarrow> approved (w_confirm w k m e) \<Longrightarrow> granted w e t"
  unfolding granted_def by blast

lemma granted_access:
  "AskedAccess a m e' \<in> set t \<Longrightarrow> (e \<longrightarrow> e') \<Longrightarrow> w_grant_access w a m e' = Inr n \<Longrightarrow> n \<noteq> NetDeny \<Longrightarrow> granted w e t"
  unfolding granted_def by blast

lemma granted_append: "granted w e t \<Longrightarrow> granted w e (t @ u)" "granted w e t \<Longrightarrow> granted w e (u @ t)"
  unfolding granted_def set_append by blast+

lemma decided_runs:
  assumes "runs (fst (dispatch_decided w i taint escalated hr d)) \<noteq> []"
  obtains "\<not> is_deny d" "w_preflight w = None"
    "d = Allow \<and> (\<exists>access. w_missing w = Inr access \<and> access_is_empty access) \<or>
     (\<exists>pre post. fst (dispatch_decided w i taint escalated hr d) = pre @ post \<and> runs pre = [] \<and>
        granted w escalated pre)"
proof -
  obtain access where open': "\<not> is_deny d" "w_preflight w = None" "w_missing w = Inr access"
    using assms by (cases d; cases "w_preflight w"; cases "w_missing w") (auto simp: dispatch_decided_def)
  have "d = Allow \<and> access_is_empty access \<or>
     (\<exists>pre post. fst (dispatch_decided w i taint escalated hr d) = pre @ post \<and> runs pre = [] \<and>
        granted w escalated pre)"
  proof (cases "access_is_empty access")
    case False
    then have dd: "dispatch_decided w i taint escalated hr d = dispatch_access w i taint escalated hr access"
      using open' by (cases d) (simp_all add: dispatch_decided_def)
    let ?e = "escalated \<or> (acc_network access \<and> follows_web (w_radius w) taint OsFsJail)"
    let ?m = "card_detail w i @ access_lines access ?e @ hook_line hr"
    let ?pre = "[AskedAccess access ?m ?e] @ observe_decision w i ''command_access''
      (case_sum (\<lambda>_. ''error'') network_decision_str (w_grant_access w access ?m ?e))"
    obtain n where n: "w_grant_access w access ?m ?e = Inr n" "n \<noteq> NetDeny"
      using assms unfolding dd
      by (cases "w_grant_access w access ?m ?e")
        (auto simp: dispatch_access_def Let_def split: network_decision.splits)
    have "fst (dispatch_decided w i taint escalated hr d) =
        ?pre @ fst (then_post w i taint (execute_with_effect_outbox w i 0 (AccessRun access)))"
      unfolding dd using n by (cases n) (auto simp: dispatch_access_def Let_def split: prod.splits)
    moreover have "granted w escalated ?pre" by (rule granted_access [OF _ _ n]) simp_all
    ultimately show ?thesis by (metis runs_append runs_observe runs_simps(1,4) append_Nil)
  next
    case True
    show ?thesis
    proof (cases d)
      case Human
      then have dd: "dispatch_decided w i taint escalated hr d = dispatch_gate w i taint escalated hr"
        using open' True by (simp add: dispatch_decided_def)
      let ?k = "approval_key (w_grammar w) i"
      let ?m = "card_detail w i @ hook_line hr"
      let ?pre = "[AskedGate ?k ?m escalated] @ observe_decision w i ''tool'' (approval_str (w_confirm w ?k ?m escalated))"
      have yes: "approved (w_confirm w ?k ?m escalated)"
        using assms unfolding dd by (auto simp: dispatch_gate_def Let_def split: if_splits)
      have "fst (dispatch_decided w i taint escalated hr d) = ?pre @ fst (then_post w i taint (execute_with_net_retry w i taint))"
        unfolding dd using yes by (auto simp: dispatch_gate_def Let_def split: prod.splits)
      moreover have "granted w escalated ?pre" by (rule granted_gate [OF _ yes]) simp
      ultimately show ?thesis by (metis runs_append runs_observe runs_simps(1,5) append_Nil)
    qed (use True open' in simp_all)
  qed
  then show thesis using that [OF open'(1,2)] open'(3) by blast
qed

text \<open>A call that ran got past every check before the card.\<close>

lemma dispatch_runs:
  assumes "runs (fst (dispatch_one w autonomy i taint)) \<noteq> []"
  obtains t d' hr where
    "w_outbound w = None" "\<not> w_cancelled w"
    "pre_tool w i taint (escalate_for_trust_flow (raw_decision w autonomy i) (w_radius w) taint (w_containment w)) = (t, Inr (d', hr))"
    "w_append w (PolicyRecord d') = None"
    "fst (dispatch_one w autonomy i taint) = t @ [Appended (PolicyRecord d')] @
       fst (dispatch_decided w i taint
         ((follows_web (w_radius w) taint (w_containment w) \<and>
           escalate_for_trust_flow (raw_decision w autonomy i) (w_radius w) taint (w_containment w) = Human)
          \<or> hr \<noteq> None) hr d')"
    "runs (fst (dispatch_decided w i taint
         ((follows_web (w_radius w) taint (w_containment w) \<and>
           escalate_for_trust_flow (raw_decision w autonomy i) (w_radius w) taint (w_containment w) = Human)
          \<or> hr \<noteq> None) hr d')) \<noteq> []" "runs t = []"
proof -
  let ?d = "escalate_for_trust_flow (raw_decision w autonomy i) (w_radius w) taint (w_containment w)"
  have out: "w_outbound w = None"
    using assms by (cases "w_outbound w")
      (auto simp: dispatch_one_def check_outbound_intent_def append_log_def split: option.splits)
  obtain t r where pre: "pre_tool w i taint ?d = (t, r)" by (cases "pre_tool w i taint ?d")
  have t: "runs t = []" by (rule runs_pre_tool [OF pre])
  obtain d' hr where r: "r = Inr (d', hr)" "\<not> w_cancelled w" "w_append w (PolicyRecord d') = None"
    using assms out pre t
    by (cases r) (auto simp: dispatch_one_def check_outbound_intent_def Let_def append_log_def split: if_splits option.splits)
  let ?e = "(follows_web (w_radius w) taint (w_containment w) \<and> ?d = Human) \<or> hr \<noteq> None"
  have tr: "fst (dispatch_one w autonomy i taint) = t @ [Appended (PolicyRecord d')] @ fst (dispatch_decided w i taint ?e hr d')"
    using out pre r
    by (auto simp: dispatch_one_def check_outbound_intent_def Let_def append_log_def split: prod.splits)
  then have "runs (fst (dispatch_decided w i taint ?e hr d')) \<noteq> []" using assms t by simp
  then show thesis using that [OF out r(2) pre [unfolded r(1)] r(3) tr _ t] by blast
qed

lemma pre_tool_stricter:
  assumes "pre_tool w i taint d = (t, Inr (d', hr))"
  shows "strictness d \<le> strictness d'" "hr \<noteq> None \<Longrightarrow> d' = Human" "is_deny d \<Longrightarrow> d' = d"
proof -
  show "strictness d \<le> strictness d'"
    using assms by (cases d) (auto simp: pre_tool_def split: prod.splits sum.splits hook_directive.splits)
  show "hr \<noteq> None \<Longrightarrow> d' = Human"
    using assms by (auto simp: pre_tool_def split: prod.splits sum.splits hook_directive.splits if_splits)
  show "is_deny d \<Longrightarrow> d' = d" using assms by (simp add: pre_tool_def)
qed

lemma dispatch_runs_granted:
  assumes "runs (fst (dispatch_one w autonomy i taint)) \<noteq> []"
  obtains d' e pre post where
    "fst (dispatch_one w autonomy i taint) = pre @ post" "runs pre = []"
    "Appended (PolicyRecord d') \<in> set pre" "\<not> is_deny d'"
    "strictness (escalate_for_trust_flow (raw_decision w autonomy i) (w_radius w) taint (w_containment w))
      \<le> strictness d'"
    "d' = Human \<longrightarrow> granted w e pre"
    "follows_web (w_radius w) taint (w_containment w) \<longrightarrow> e"
    "w_outbound w = None" "w_preflight w = None" "\<not> w_cancelled w"
proof -
  let ?d = "escalate_for_trust_flow (raw_decision w autonomy i) (w_radius w) taint (w_containment w)"
  obtain t d' hr where r: "w_outbound w = None" "\<not> w_cancelled w" "pre_tool w i taint ?d = (t, Inr (d', hr))"
    and tr: "fst (dispatch_one w autonomy i taint) = t @ [Appended (PolicyRecord d')] @
       fst (dispatch_decided w i taint ((follows_web (w_radius w) taint (w_containment w) \<and> ?d = Human) \<or> hr \<noteq> None) hr d')"
    and dec: "runs (fst (dispatch_decided w i taint
       ((follows_web (w_radius w) taint (w_containment w) \<and> ?d = Human) \<or> hr \<noteq> None) hr d')) \<noteq> []"
    and t: "runs t = []"
    by (rule dispatch_runs [OF assms])
  let ?e = "(follows_web (w_radius w) taint (w_containment w) \<and> ?d = Human) \<or> hr \<noteq> None"
  have le: "strictness ?d \<le> strictness d'" by (rule pre_tool_stricter(1) [OF r(3)])
  from decided_runs [OF dec] have nd: "\<not> is_deny d'" "w_preflight w = None"
    and fin: "d' = Allow \<or> (\<exists>pre post. fst (dispatch_decided w i taint ?e hr d') = pre @ post \<and>
      runs pre = [] \<and> granted w ?e pre)"
    by blast+
  have web: "follows_web (w_radius w) taint (w_containment w) \<longrightarrow> ?e \<or> d' = Allow"
  proof
    assume fw: "follows_web (w_radius w) taint (w_containment w)"
    then have "?d = Human \<or> is_deny ?d" by (cases "raw_decision w autonomy i") (auto simp: escalate_for_trust_flow_def)
    then show "?e \<or> d' = Allow" using fw pre_tool_stricter(3) [OF r(3)] nd by auto
  qed
  have web': "follows_web (w_radius w) taint (w_containment w) \<longrightarrow> d' = Human"
  proof
    assume fw: "follows_web (w_radius w) taint (w_containment w)"
    then have "?d \<noteq> Allow" by (auto simp: escalate_for_trust_flow_def)
    then show "d' = Human" using le nd by (cases ?d; cases d') simp_all
  qed
  show thesis
  proof (cases "d' = Human")
    case True
    then obtain pre post where p: "fst (dispatch_decided w i taint ?e hr d') = pre @ post" "runs pre = []"
      "granted w ?e pre" using fin by auto
    show thesis
    proof (rule that [of "t @ [Appended (PolicyRecord d')] @ pre" post d' ?e])
      show "d' = Human \<longrightarrow> granted w ?e (t @ [Appended (PolicyRecord d')] @ pre)"
        using granted_append(2) [OF p(3), of "t @ [Appended (PolicyRecord d')]"] by (intro impI) (simp only: append_assoc)
    qed (use tr p t nd le r web True in auto)
  next
    case False
    show thesis
      by (rule that [of "t @ [Appended (PolicyRecord d')]"
            "fst (dispatch_decided w i taint ?e hr d')" d' True])
        (use tr t nd le r web' False in auto)
  qed
qed

text \<open>Every run directly preceded by its effect record.\<close>

definition backed :: "string \<Rightarrow> action list \<Rightarrow> bool" where
  "backed k t \<longleftrightarrow> (\<forall>xs n s ys. t = xs @ Ran n s # ys \<longrightarrow> (\<exists>xs' m. xs = xs' @ [Appended (EffectRecord k m)]))"

lemma backed_no_run: "runs t = [] \<Longrightarrow> backed k t"
  by (auto simp: backed_def)

lemma backed_append:
  assumes "backed k t" "backed k u"
  shows "backed k (t @ u)"
  unfolding backed_def
proof (intro allI impI)
  fix xs n s ys assume "t @ u = xs @ Ran n s # ys"
  then consider us where "t = xs @ us" "us @ u = Ran n s # ys" "us \<noteq> []" | us where "xs = t @ us" "u = us @ Ran n s # ys"
    by (auto simp: append_eq_append_conv2) fastforce
  then show "\<exists>xs' m. xs = xs' @ [Appended (EffectRecord k m)]"
  proof cases
    case 1
    then obtain zs where "t = xs @ Ran n s # zs" by (cases us) auto
    then show ?thesis using assms(1) by (auto simp: backed_def)
  next
    case 2
    then obtain xs' m where "us = xs' @ [Appended (EffectRecord k m)]"
      using assms(2) unfolding backed_def by blast
    then show ?thesis using 2 by (metis append_assoc)
  qed
qed

lemma backed_pair: "backed k [Appended (EffectRecord k m), Ran n s]"
  by (auto simp: backed_def Cons_eq_append_conv)

lemma backed_outbox: "w_mutation_key w = Some k \<Longrightarrow> backed k (fst (execute_with_effect_outbox w i n s))"
  using outbox_shape [of w i n s] by (auto intro: backed_no_run backed_pair)

lemma backed_net_retry:
  assumes "w_mutation_key w = Some k"
  shows "backed k (fst (execute_with_net_retry w i taint))"
proof -
  have asked: "backed k (net_asked w i e d)" for e d
    unfolding net_asked_def by (intro backed_append backed_outbox assms backed_no_run) simp_all
  show ?thesis
    using net_retry_shape [of w i taint] asked backed_append [OF asked backed_outbox [OF assms]]
      backed_outbox [OF assms] by (metis (no_types, lifting))
qed

lemma backed_then_post:
  assumes "backed k (fst r)"
  shows "backed k (fst (then_post w i taint r))"
proof -
  obtain t obs where r: "r = (t, obs)" by (cases r)
  obtain t' obs' where p: "apply_post_tool_hook w i taint obs = (t', obs')" by (cases "apply_post_tool_hook w i taint obs")
  have "backed k (t @ t')" using assms r backed_append [OF _ backed_no_run [OF runs_apply_post [OF p]]] by simp
  then show ?thesis by (simp add: then_post_def r p)
qed

lemma backed_decided:
  assumes "w_mutation_key w = Some k"
  shows "backed k (fst (dispatch_decided w i taint e hr d))"
proof -
  have ask': "backed k ([a] @ observe_decision w i kind answer)" if "\<not> is_run a" for a kind answer
  proof (rule backed_no_run)
    have "runs [a] = []" using that by (simp add: runs_def)
    then show "runs ([a] @ observe_decision w i kind answer) = []" by (simp only: runs_append runs_observe append_Nil)
  qed
  have ask: "backed k (a # observe_decision w i kind answer @ t)" if "backed k t" "\<not> is_run a" for a kind answer t
    using backed_append [OF ask' [OF that(2)] that(1)] by simp
  have gate: "backed k (fst (dispatch_gate w i taint e' hr))" for e'
  proof -
    have "backed k (fst (then_post w i taint (execute_with_net_retry w i taint)))"
      by (rule backed_then_post [OF backed_net_retry [OF assms]])
    from ask [OF this] ask' show ?thesis
      by (auto simp: dispatch_gate_def Let_def is_run_def split: prod.splits)
  qed
  have acc: "backed k (fst (dispatch_access w i taint e' hr a))" for e' a
  proof -
    let ?e = "e' \<or> (acc_network a \<and> follows_web (w_radius w) taint OsFsJail)"
    have "backed k (fst (then_post w i taint (execute_with_effect_outbox w i 0 (AccessRun a))))"
      by (rule backed_then_post [OF backed_outbox [OF assms]])
    from ask [OF this] ask' show ?thesis
      by (cases "w_grant_access w a (card_detail w i @ access_lines a ?e @ hook_line hr) ?e")
        (auto simp: dispatch_access_def Let_def is_run_def split: prod.splits network_decision.splits)
  qed
  show ?thesis
    using gate acc backed_then_post [OF backed_net_retry [OF assms]]
    by (cases d) (auto simp: dispatch_decided_def backed_no_run split: option.splits sum.splits)
qed

lemma backed_dispatch:
  assumes "w_mutation_key w = Some k"
  shows "backed k (fst (dispatch_one w autonomy i taint))"
proof (cases "runs (fst (dispatch_one w autonomy i taint)) = []")
  case False
  then obtain t d' e hr where tr: "fst (dispatch_one w autonomy i taint) =
      t @ [Appended (PolicyRecord d')] @ fst (dispatch_decided w i taint e hr d')" and t: "runs t = []"
    by (rule dispatch_runs)
  have "backed k ((t @ [Appended (PolicyRecord d')]) @ fst (dispatch_decided w i taint e hr d'))"
    by (rule backed_append [OF backed_no_run backed_decided [OF assms]]) (simp add: t)
  then show ?thesis by (simp add: tr)
qed (rule backed_no_run)

lemma Ran_in_runs: "Ran n s \<in> set t \<Longrightarrow> runs t \<noteq> []"
proof -
  assume "Ran n s \<in> set t"
  then have "Ran n s \<in> set (runs t)" by (simp add: runs_def is_run_def)
  then show ?thesis by auto
qed

subsection \<open>What the hooks of a call are shown\<close>

definition hooks_clean :: "action list \<Rightarrow> bool" where
  "hooks_clean t \<longleftrightarrow> (\<forall>r. Hooked r \<in> set t \<longrightarrow> secrets_hidden (req_payload r))"

lemma hooks_clean_simps [simp]:
  "hooks_clean []"
  "hooks_clean (t @ u) \<longleftrightarrow> hooks_clean t \<and> hooks_clean u"
  "hooks_clean (Hooked q # t) \<longleftrightarrow> secrets_hidden (req_payload q) \<and> hooks_clean t"
  "hooks_clean (Appended r # t) \<longleftrightarrow> hooks_clean t"
  "hooks_clean (Ran n s # t) \<longleftrightarrow> hooks_clean t"
  "hooks_clean (AskedAccess a m e # t) \<longleftrightarrow> hooks_clean t"
  "hooks_clean (AskedGate k m e # t) \<longleftrightarrow> hooks_clean t"
  "hooks_clean (AskedNetwork m e # t) \<longleftrightarrow> hooks_clean t"
  by (auto simp: hooks_clean_def)

lemma payload_keys:
  "\<not> sensitive_hook_key ''intent_id''" "\<not> sensitive_hook_key ''tool''" "\<not> sensitive_hook_key ''status''"
  "\<not> sensitive_hook_key ''result''" "\<not> sensitive_hook_key ''args''" "\<not> sensitive_hook_key ''kind''"
  "\<not> sensitive_hook_key ''decision''" "\<not> sensitive_hook_key ''blast_radius''"
  by code_simp+

lemma hook_view_hides [simp]: "secrets_hidden (hook_view w v)"
  by (simp add: hook_view_def hook_payload_hides_secrets)

lemma radius_json_hides [simp]: "secrets_hidden (radius_json r)"
  by (simp add: radius_json_def split: option.split blast_radius.split)

lemma append_audits_clean: "append_audits w point as = (t, x) \<Longrightarrow> hooks_clean t"
  by (induction w point as arbitrary: t x rule: append_audits.induct)
    (auto simp: append_log_def split: option.splits prod.splits)

lemma invoke_hook_clean:
  "invoke_hook w point trust payload = (t, x) \<Longrightarrow> secrets_hidden payload \<Longrightarrow> hooks_clean t"
  by (auto simp: invoke_hook_def Let_def dest: append_audits_clean split: option.splits prod.splits if_splits)

lemma invoke_hook_clean_fst: "secrets_hidden payload \<Longrightarrow> hooks_clean (fst (invoke_hook w point trust payload))"
  by (rule invoke_hook_clean) (rule prod.collapse [symmetric])

lemma observe_clean [simp]: "hooks_clean (observe_decision w i kind answer)"
  unfolding observe_decision_def
  by (rule invoke_hook_clean_fst, rule secrets_hidden_obj) (simp add: payload_keys)

lemma post_hooks_clean:
  "post_hooks w trust payload points cs problem = (t, x) \<Longrightarrow> secrets_hidden payload \<Longrightarrow> hooks_clean t"
  by (induction points arbitrary: cs problem t x)
    (auto simp: post_hooks.simps Let_def dest: invoke_hook_clean split: prod.splits)

lemma then_post_clean [simp]: "hooks_clean (fst (then_post w i taint run)) \<longleftrightarrow> hooks_clean (fst run)"
proof -
  have p: "secrets_hidden (json_obj [(''intent_id'', JStr (intent_id i)), (''tool'', JStr (intent_tool i)),
      (''status'', JStr s), (''result'', hook_view w v)])" for s v
    by (rule secrets_hidden_obj) (simp add: payload_keys)
  have f: "secrets_hidden (json_obj [(''intent_id'', JStr (intent_id i)), (''tool'', JStr (intent_tool i)),
      (''args'', hook_view w (intent_args i))])"
    by (rule secrets_hidden_obj) (simp add: payload_keys)
  show ?thesis
    by (auto simp: then_post_def apply_post_tool_hook_def Let_def dest: post_hooks_clean [OF _ p]
        intro: invoke_hook_clean_fst [OF f] split: prod.splits)
qed

lemma outbox_clean [simp]: "hooks_clean (fst (execute_with_effect_outbox w i n s))"
  by (auto simp: execute_with_effect_outbox_def append_log_def split: option.splits sum.splits)

lemma net_retry_clean [simp]: "hooks_clean (fst (execute_with_net_retry w i taint))"
  using net_retry_shape [of w i taint] by (elim disjE exE conjE) (simp_all add: net_asked_def)

lemma pre_tool_clean: "pre_tool w i taint d = (t, x) \<Longrightarrow> hooks_clean t"
proof -
  have p: "secrets_hidden (json_obj [(''intent_id'', JStr (intent_id i)), (''tool'', JStr (intent_tool i)),
      (''blast_radius'', radius_json (w_radius w)), (''args'', hook_view w (intent_args i))])"
    by (rule secrets_hidden_obj) (simp add: payload_keys)
  show "pre_tool w i taint d = (t, x) \<Longrightarrow> hooks_clean t"
    by (auto simp: pre_tool_def dest: invoke_hook_clean [OF _ p] split: prod.splits sum.splits if_splits)
qed

lemma decided_clean [simp]: "hooks_clean (fst (dispatch_decided w i taint e hr d))"
  by (auto simp: dispatch_decided_def dispatch_access_def dispatch_gate_def Let_def case_prod_beta
      split: decision.splits option.splits sum.splits network_decision.splits)

subsection \<open>What a card for missing capabilities says\<close>

lemma contains_strI: "s = a @ p @ b \<Longrightarrow> contains_str s p"
  by (auto simp: contains_str_iff_sublist sublist_def)

lemma contains_str_concat: "x \<in> set xs \<Longrightarrow> contains_str x p \<Longrightarrow> contains_str (concat xs) p"
proof -
  assume "x \<in> set xs" "contains_str x p"
  then obtain ys zs a b where "xs = ys @ x # zs" "x = a @ p @ b"
    by (auto simp: contains_str_iff_sublist sublist_def dest: split_list)
  then have "concat xs = (concat ys @ a) @ p @ (b @ concat zs)" by simp
  then show ?thesis by (rule contains_strI)
qed

lemma contains_str_appendI: "contains_str s p \<Longrightarrow> contains_str (a @ s @ b) p"
  by (metis contains_str_iff_sublist sublist_appendI sublist_order.order.trans)

definition card_shows :: "execution_access \<Rightarrow> string \<Rightarrow> bool" where
  "card_shows a txt \<longleftrightarrow>
     (acc_outside_sandbox a \<longrightarrow> contains_str txt ''sandbox, this one time'') \<and>
     (acc_network a \<longrightarrow> contains_str txt ''- Network access'') \<and>
     list_all (\<lambda>p. contains_str txt (''- Read '' @ p @ '' (including subdirectories)'')) (acc_read_paths a) \<and>
     list_all (\<lambda>p. contains_str txt (''- Read/write '' @ p @ '' (including subdirectories)'')) (acc_write_paths a)"

lemma access_card_shows: "card_shows a (d @ access_lines a e @ h)"
proof -
  let ?reads = "concat (map (\<lambda>p. nl @ ''- Read '' @ p @ '' (including subdirectories)'') (acc_read_paths a))"
  let ?writes = "concat (map (\<lambda>p. nl @ ''- Read/write '' @ p @ '' (including subdirectories)'') (acc_write_paths a))"
  obtain x y where split: "d @ access_lines a e @ h = x @ (?reads @ ?writes) @ y"
    unfolding access_lines_def by (metis append_assoc)
  have item: "contains_str (nl @ s) s" for s
    by (rule contains_strI [of _ nl _ "[]"]) simp
  have r: "contains_str ?reads (''- Read '' @ p @ '' (including subdirectories)'')" if "p \<in> set (acc_read_paths a)" for p
    by (rule contains_str_concat [OF _ item]) (use that in auto)
  have w: "contains_str ?writes (''- Read/write '' @ p @ '' (including subdirectories)'')" if "p \<in> set (acc_write_paths a)" for p
    by (rule contains_str_concat [OF _ item]) (use that in auto)
  have rw: "contains_str (x @ (?reads @ ?writes) @ y) q" if "contains_str ?reads q \<or> contains_str ?writes q" for q
    using that contains_str_appendI [of ?reads q x "?writes @ y"] contains_str_appendI [of ?writes q "x @ ?reads" y]
    by auto
  have o: "contains_str (d @ access_lines a e @ h) ''sandbox, this one time''" if "acc_outside_sandbox a"
    unfolding access_lines_def using that
    by (intro contains_strI [of _ "d @ nl @ nl @ ''Additional access required before running:'' @ nl
        @ ''- Run outside Medha'' @ [CHR 0x27] @ ''s ''"]) simp
  have n: "contains_str (d @ access_lines a e @ h) ''- Network access''" if "acc_network a"
    unfolding access_lines_def using that
    by (intro contains_strI [of _ "d @ nl @ nl @ ''Additional access required before running:''
        @ (if acc_outside_sandbox a then nl @ ''- Run outside Medha'' @ [CHR 0x27]
        @ ''s sandbox, this one time: the command can read and change anything your user account can'' else []) @ nl"]) simp
  show ?thesis
    unfolding card_shows_def using o n rw r w by (auto simp: split list_all_iff)
qed

definition cards_complete :: "action list \<Rightarrow> bool" where
  "cards_complete t \<longleftrightarrow> (\<forall>a m e. AskedAccess a m e \<in> set t \<longrightarrow> card_shows a m)"

lemma cards_complete_simps [simp]:
  "cards_complete []"
  "cards_complete (t @ u) \<longleftrightarrow> cards_complete t \<and> cards_complete u"
  "cards_complete (Hooked q # t) \<longleftrightarrow> cards_complete t"
  "cards_complete (Appended r # t) \<longleftrightarrow> cards_complete t"
  "cards_complete (Ran n s # t) \<longleftrightarrow> cards_complete t"
  "cards_complete (AskedAccess a m e # t) \<longleftrightarrow> card_shows a m \<and> cards_complete t"
  "cards_complete (AskedGate k m e # t) \<longleftrightarrow> cards_complete t"
  "cards_complete (AskedNetwork m e # t) \<longleftrightarrow> cards_complete t"
  by (auto simp: cards_complete_def; blast)+

lemma append_audits_cards: "append_audits w point as = (t, x) \<Longrightarrow> cards_complete t"
  by (induction w point as arbitrary: t x rule: append_audits.induct)
    (auto simp: append_log_def split: option.splits prod.splits)

lemma invoke_hook_cards: "invoke_hook w point trust payload = (t, x) \<Longrightarrow> cards_complete t"
  by (auto simp: invoke_hook_def Let_def dest: append_audits_cards split: option.splits prod.splits if_splits)

lemma observe_cards [simp]:
  "cards_complete (fst (invoke_hook w point trust payload))" "cards_complete (observe_decision w i kind answer)"
  unfolding observe_decision_def by (rule invoke_hook_cards, rule prod.collapse [symmetric])+

lemma post_hooks_cards: "post_hooks w trust payload points cs problem = (t, x) \<Longrightarrow> cards_complete t"
  by (induction points arbitrary: cs problem t x)
    (auto simp: post_hooks.simps Let_def dest: invoke_hook_cards split: prod.splits)

lemma then_post_cards [simp]: "cards_complete (fst (then_post w i taint run)) \<longleftrightarrow> cards_complete (fst run)"
  by (auto simp: then_post_def apply_post_tool_hook_def Let_def dest: post_hooks_cards split: prod.splits)

lemma outbox_cards [simp]: "cards_complete (fst (execute_with_effect_outbox w i n s))"
  by (auto simp: execute_with_effect_outbox_def append_log_def split: option.splits sum.splits)

lemma net_retry_cards [simp]: "cards_complete (fst (execute_with_net_retry w i taint))"
  using net_retry_shape [of w i taint] by (elim disjE exE conjE) (simp_all add: net_asked_def)

lemma pre_tool_cards: "pre_tool w i taint d = (t, x) \<Longrightarrow> cards_complete t"
  by (auto simp: pre_tool_def dest: invoke_hook_cards split: prod.splits sum.splits if_splits)

lemma decided_cards [simp]: "cards_complete (fst (dispatch_decided w i taint e hr d))"
  by (auto simp: dispatch_decided_def dispatch_access_def dispatch_gate_def Let_def case_prod_beta access_card_shows
      split: decision.splits option.splits sum.splits network_decision.splits)

text \<open>A predicate of traces that holds of the parts of a dispatch holds of the whole.\<close>

lemma dispatch_parts:
  assumes "\<And>t u. P t \<Longrightarrow> P u \<Longrightarrow> P (t @ u)" "P []" "\<And>r. P [Appended r]"
    and "\<And>d t x. pre_tool w i taint d = (t, x) \<Longrightarrow> P t"
    and "\<And>e hr d. P (fst (dispatch_decided w i taint e hr d))"
  shows "P (fst (dispatch_one w autonomy i taint))"
proof -
  have log: "P (fst (append_log w r))" for r
    using assms(2,3) by (auto simp: append_log_def split: option.splits)
  have out: "P (fst (check_outbound_intent w i))"
    using assms(2) log by (auto simp: check_outbound_intent_def case_prod_beta split: option.splits)
  have pre: "P (fst (pre_tool w i taint d))" for d
    by (rule assms(4) [OF prod.collapse [symmetric]])
  show ?thesis
    using out pre log assms(1,5)
    by (auto simp: dispatch_one_def Let_def case_prod_beta split: option.splits sum.splits)
qed

section \<open>Properties\<close>

text \<open>C1. Nothing runs without clearance: when a dispatch ran a tool, then before the first run a
  decision at least as strict as the policy's, and not a denial, was durably recorded, the outbound
  and preflight checks passed, the turn was not cancelled, and a decision that needs a person was
  answered with a yes.\<close>

theorem run_needs_clearance:
  assumes "Ran n s \<in> set (fst (dispatch_one w autonomy i taint))"
  shows "\<exists>d e pre post. fst (dispatch_one w autonomy i taint) = pre @ post \<and> runs pre = [] \<and>
    Appended (PolicyRecord d) \<in> set pre \<and> \<not> is_deny d \<and>
    strictness (raw_decision w autonomy i) \<le> strictness d \<and> (d = Human \<longrightarrow> granted w e pre) \<and>
    w_outbound w = None \<and> w_preflight w = None \<and> \<not> w_cancelled w"
proof -
  have "strictness (raw_decision w autonomy i) \<le>
      strictness (escalate_for_trust_flow (raw_decision w autonomy i) (w_radius w) taint (w_containment w))"
    by (auto simp: escalate_for_trust_flow_def)
  then show ?thesis
    by (rule_tac dispatch_runs_granted [OF Ran_in_runs [OF assms]]) (metis le_trans)
qed

definition open_world :: world where
  "open_world = \<lparr>w_outbound = None, w_radius = Some External, w_mutation_key = Some ''state:*'',
     w_policy = allow_all, w_containment = OsFsJail, w_hook = (\<lambda>_. hook_batch_default), w_cancelled = False,
     w_append = (\<lambda>_. None), w_preflight = None, w_missing = Inr no_access,
     w_preview = Some ''fetch example.com'', w_grant_access = (\<lambda>_ _ _. Inr NetOnce),
     w_confirm = (\<lambda>_ _ _. Once), w_denial_reason = ''rejected by human'', w_retry_allowed = True,
     w_grant_network = (\<lambda>_ _. NetOnce), w_lane = (\<lambda>_. None), w_prepare = (\<lambda>_. Inr JNull),
     w_execute = (\<lambda>_ _. obs_ok ''1'' JNull), w_finish = (\<lambda>_ _ obs. obs), w_failed = (\<lambda>_ _. False), w_grammar = (\<lambda>_. reading_default),
     w_show = (\<lambda>_. ''{}'')\<rparr>"

definition fetch_intent :: tool_intent where
  "fetch_intent = \<lparr>intent_id = ''1'', intent_tool = ''fetch'', intent_args = JObj []\<rparr>"

lemma open_world_runs: "\<exists>p q r. fst (dispatch_one open_world Careful fetch_intent True) =
    [Hooked p, Appended (PolicyRecord Human), AskedGate ''fetch'' ''fetch example.com'' True, Hooked q,
     Appended (EffectRecord ''state:*'' None), Ran 0 PlainRun, Hooked r]"
  by (simp add: dispatch_one_def check_outbound_intent_def open_world_def raw_decision_def allow_all_def
      escalate_for_trust_flow_def follows_web_def consequential_def pre_tool_def invoke_hook_def hook_batch_default_def
      append_log_def dispatch_decided_def no_access_def access_is_empty_def dispatch_gate_def then_post_def
      execute_with_net_retry_def execute_with_effect_outbox_def apply_post_tool_hook_def post_hooks.simps Let_def
      fetch_intent_def obs_ok_def approval_key_def salient_arg_def get_str_def json_get_def
      card_detail_def hook_line_def observe_decision_def)

theorem run_needs_clearance_witness: "\<exists>d. Appended (PolicyRecord d) \<in> set (fst (dispatch_one open_world Careful fetch_intent True))"
proof -
  have "Ran 0 PlainRun \<in> set (fst (dispatch_one open_world Careful fetch_intent True))"
    using open_world_runs by auto
  from run_needs_clearance [OF this] show ?thesis by fastforce
qed

lemma tainted_run_granted:
  assumes "follows_web (w_radius w) taint (w_containment w)"
    and "Ran n s \<in> set (fst (dispatch_one w autonomy i taint))"
  shows "\<exists>pre post. fst (dispatch_one w autonomy i taint) = pre @ post \<and> runs pre = [] \<and> granted w True pre"
proof -
  obtain d' e pre post where p: "fst (dispatch_one w autonomy i taint) = pre @ post" "runs pre = []"
    and nd: "\<not> is_deny d'"
    and le: "strictness (escalate_for_trust_flow (raw_decision w autonomy i) (w_radius w) taint (w_containment w))
      \<le> strictness d'"
    and g: "d' = Human \<longrightarrow> granted w e pre"
    and e: "follows_web (w_radius w) taint (w_containment w) \<longrightarrow> e"
    by (rule dispatch_runs_granted [OF Ran_in_runs [OF assms(2)]])
  have "escalate_for_trust_flow (raw_decision w autonomy i) (w_radius w) taint (w_containment w) \<noteq> Allow"
    using assms(1) by (auto simp: escalate_for_trust_flow_def)
  then have "d' = Human" using le nd
    by (cases d'; cases "escalate_for_trust_flow (raw_decision w autonomy i) (w_radius w) taint (w_containment w)")
      simp_all
  then show ?thesis using p g e assms(1) by auto
qed

text \<open>C2. The trust-flow gate: once web text was read, an action that cannot be undone or reaches outside,
  in a box that leaves the network open, never runs before a person said yes to a card marked as
  following untrusted content; no policy, mode or remembered rule runs it unasked.\<close>

theorem tainted_action_is_gated:
  assumes "follows_web (w_radius w) taint (w_containment w)"
    and "Ran n s \<in> set (fst (dispatch_one w autonomy i taint))"
  shows "\<exists>pre post. fst (dispatch_one w autonomy i taint) = pre @ post \<and> runs pre = [] \<and> granted w True pre"
  by (rule tainted_run_granted [OF assms])

theorem tainted_action_is_gated_witness: "\<exists>pre. granted open_world True pre"
proof -
  have "follows_web (w_radius open_world) True (w_containment open_world)"
    by (simp add: open_world_def follows_web_def consequential_def)
  moreover have "Ran 0 PlainRun \<in> set (fst (dispatch_one open_world Careful fetch_intent True))"
    using open_world_runs by auto
  ultimately show ?thesis using tainted_action_is_gated by blast
qed

text \<open>C11. Plan mode never edits: a call that is not declared a read, or has a mutation key, runs nothing
  in plan mode, even under a policy that allows everything and a person who approves everything.\<close>

theorem plan_mode_never_mutates:
  assumes "w_radius w \<noteq> Some ReadRadius \<or> w_mutation_key w \<noteq> None"
  shows "Ran n s \<notin> set (fst (dispatch_one w Plan i taint))"
proof
  assume ran: "Ran n s \<in> set (fst (dispatch_one w Plan i taint))"
  obtain d' where "\<not> is_deny d'"
    "strictness (escalate_for_trust_flow (raw_decision w Plan i) (w_radius w) taint (w_containment w)) \<le> strictness d'"
    by (rule dispatch_runs_granted [OF Ran_in_runs [OF ran]])
  moreover obtain m where "raw_decision w Plan i = Deny m" using assms by (simp add: raw_decision_def)
  ultimately show False by (cases d') (simp_all add: escalate_for_trust_flow_def)
qed

theorem plan_mode_never_mutates_witness:
  "Ran 0 PlainRun \<notin> set (fst (dispatch_one open_world Plan fetch_intent False))"
  by (rule plan_mode_never_mutates) (simp add: open_world_def)

text \<open>C5. Effects are recorded first: every run of a call that changes state directly follows the durable
  record of that effect, so a crash in the middle of a change always leaves its record.\<close>

theorem effect_recorded_before_run:
  assumes "w_mutation_key w = Some k"
    and "fst (dispatch_one w autonomy i taint) = xs @ Ran n s # ys"
  shows "\<exists>xs' m. xs = xs' @ [Appended (EffectRecord k m)]"
  using backed_dispatch [OF assms(1), of autonomy i taint] assms(2) unfolding backed_def by blast

theorem effect_recorded_before_run_witness:
  "\<exists>xs m ys. fst (dispatch_one open_world Careful fetch_intent True) = xs @ Appended (EffectRecord ''state:*'' m) # ys"
proof -
  have k: "w_mutation_key open_world = Some ''state:*''" by (simp add: open_world_def)
  have "Ran 0 PlainRun \<in> set (fst (dispatch_one open_world Careful fetch_intent True))"
    using open_world_runs by auto
  then obtain xs ys where t: "fst (dispatch_one open_world Careful fetch_intent True) = xs @ Ran 0 PlainRun # ys"
    by (meson split_list)
  from effect_recorded_before_run [OF k t] show ?thesis unfolding t by fastforce
qed

text \<open>The network retry is bounded and asked for: a call runs at most twice, the second time only
  after the network grant was answered with a yes, and that card is marked whenever the call follows
  web content and leaves the machine's control, even if its first run was confined.\<close>

theorem network_retry_is_asked:
  "length (runs (fst (execute_with_net_retry w i taint))) \<le> 2 \<and>
   (\<forall>s. Ran 1 s \<in> set (fst (execute_with_net_retry w i taint)) \<longrightarrow>
      (\<exists>d. AskedNetwork d (taint \<and> consequential (w_radius w)) \<in> set (fst (execute_with_net_retry w i taint)) \<and>
         w_grant_network w d (taint \<and> consequential (w_radius w)) \<noteq> NetDeny))"
proof -
  have no1: "Ran 1 s \<notin> set (fst (execute_with_effect_outbox w i 0 PlainRun))" for s
    using outbox_shape [of w i 0 PlainRun] Ran_in_runs by fastforce
  have noh: "Ran 1 s \<notin> set (observe_decision w i k a)" for s k a
    using Ran_in_runs [of 1 s "observe_decision w i k a"] by auto
  have fw: "follows_web (w_radius w) taint OsFsJail = (taint \<and> consequential (w_radius w))"
    by (simp add: follows_web_def)
  have asked: "AskedNetwork d e \<in> set (net_asked w i e d)" "Ran 1 s \<notin> set (net_asked w i e d)" for d e s
    using no1 noh by (simp_all add: net_asked_def)
  show ?thesis
    using net_retry_shape [of w i taint] runs_net_retry_length [of w i taint] no1 asked
    unfolding fw by (elim disjE exE conjE) auto
qed

theorem network_retry_is_asked_witness: "length (runs (fst (execute_with_net_retry open_world fetch_intent True))) \<le> 2"
  using network_retry_is_asked [of open_world fetch_intent True] by blast

text \<open>C17. No hook sees a secret: whatever the call is and however its dispatch goes, in every request made
  of a hook (before the run, after it, on a failure, a changed file or an answered card) each field
  whose name says \<open>token\<close>, \<open>password\<close>, \<open>cookie\<close> and the like holds only the redaction mark, at any depth.\<close>

theorem hooks_never_see_secrets:
  assumes "Hooked q \<in> set (fst (dispatch_one w autonomy i taint))"
  shows "secrets_hidden (req_payload q)"
proof -
  have "hooks_clean (fst (dispatch_one w autonomy i taint))"
    by (rule dispatch_parts) (simp_all add: pre_tool_clean)
  then show ?thesis using assms by (auto simp: hooks_clean_def)
qed

theorem hooks_never_see_secrets_witness:
  "\<exists>q. Hooked q \<in> set (fst (dispatch_one open_world Careful fetch_intent True)) \<and> secrets_hidden (req_payload q)"
proof -
  have "\<exists>q. Hooked q \<in> set (fst (dispatch_one open_world Careful fetch_intent True))"
    using open_world_runs by fastforce
  then show ?thesis using hooks_never_see_secrets by blast
qed

text \<open>A person who is asked for missing capabilities is told all of them: every card of a dispatch names
  the run outside the sandbox, the network, each path to be read and each to be written that a yes
  to it would give the command.\<close>

theorem access_card_lists_everything:
  assumes "AskedAccess a card_text e \<in> set (fst (dispatch_one w autonomy i taint))"
  shows "card_shows a card_text"
proof -
  have "cards_complete (fst (dispatch_one w autonomy i taint))"
    by (rule dispatch_parts) (simp_all add: pre_tool_cards)
  then show ?thesis using assms by (auto simp: cards_complete_def)
qed

definition missing_write :: execution_access where
  "missing_write = \<lparr>acc_network = True, acc_read_paths = [], acc_write_paths = [''/srv/out''], acc_outside_sandbox = False\<rparr>"

lemma missing_write_asked:
  "\<exists>m e. AskedAccess missing_write m e \<in>
     set (fst (dispatch_one (open_world\<lparr>w_missing := Inr missing_write\<rparr>) Careful fetch_intent True))"
  by (simp add: dispatch_one_def check_outbound_intent_def open_world_def raw_decision_def allow_all_def
      escalate_for_trust_flow_def follows_web_def consequential_def pre_tool_def invoke_hook_def hook_batch_default_def
      append_log_def dispatch_decided_def missing_write_def access_is_empty_def dispatch_access_def Let_def
      case_prod_beta observe_decision_def) blast

theorem access_card_lists_everything_witness: "\<exists>m. card_shows missing_write m"
  using missing_write_asked access_card_lists_everything by blast

end
