(* ===== verification/Seam.thy ===== *)
theory Seam
  imports Prelude
begin

text \<open>
  \<open>crates/kernel/src/seam.rs\<close>: where a reply goes on after it stopped early, a repeat of the end of
  what was already written is held back as it streams in and never shown twice. The characters
  are a type variable; the code has \<open>char\<close>.
\<close>

definition SEAM_MIN :: nat where
  "SEAM_MIN = 32"

definition SEAM_VARIED :: nat where
  "SEAM_VARIED = 8"

definition SEAM_REACH :: nat where
  "SEAM_REACH = 8000"

record 'a seam =
  seam_before :: "'a list"
  seam_held :: "'a list"
  seam_starts :: "nat list"
  seam_repeat :: nat
  seam_cut :: nat
  seam_settled :: bool

definition seam_after :: "'a list \<Rightarrow> 'a seam" where
  "seam_after text =
     (let before = rev (take SEAM_REACH (rev text)) in
      \<lparr>seam_before = before, seam_held = [], seam_starts = [0..<length before], seam_repeat = 0, seam_cut = 0,
       seam_settled = (length before < SEAM_MIN)\<rparr>)"

text \<open>\<open>sort\<close> and \<open>dedup\<close> leave one of each character: \<open>different.len()\<close> is their number.\<close>

definition seam_settle :: "'a seam \<Rightarrow> 'a seam" where
  "seam_settle s =
     (let repeated = take (seam_repeat s) (seam_held s); s' = s\<lparr>seam_settled := True\<rparr> in
      if SEAM_MIN \<le> seam_repeat s \<and> SEAM_VARIED \<le> length (remdups repeated)
      then s'\<lparr>seam_cut := seam_repeat s, seam_held := drop (seam_repeat s) (seam_held s)\<rparr>
      else s')"

text \<open>The body of the loop of \<open>feed\<close>.\<close>

definition feed_char :: "'a \<Rightarrow> 'a seam \<Rightarrow> 'a seam" where
  "feed_char c s =
     (if seam_settled s then s\<lparr>seam_held := seam_held s @ [c]\<rparr>
      else
        let at = length (seam_held s);
            n = length (seam_before s);
            starts = filter (\<lambda>start. get_at (seam_before s) (start + at) = Some c) (seam_starts s);
            s' = s\<lparr>seam_starts := starts, seam_held := seam_held s @ [c],
                   seam_repeat := (if list_ex (\<lambda>start. start + at + 1 = n) starts then at + 1 else seam_repeat s)\<rparr>
        in if list_all (\<lambda>start. n \<le> start + at + 1) starts then seam_settle s' else s')"

definition seam_feed :: "'a list \<Rightarrow> 'a seam \<Rightarrow> 'a list \<times> 'a seam" where
  "seam_feed piece s =
     (if seam_settled s then (piece, s)
      else
        let s' = fold feed_char piece s in
        if seam_settled s' then (seam_held s', s'\<lparr>seam_held := []\<rparr>) else ([], s'))"

definition seam_finish :: "'a seam \<Rightarrow> 'a list \<times> 'a seam" where
  "seam_finish s =
     (let s' = (if \<not> seam_settled s then seam_settle s else s) in (seam_held s', s'\<lparr>seam_held := []\<rparr>))"

definition seam_hidden :: "'a seam \<Rightarrow> nat" where
  "seam_hidden s = seam_cut s + length (seam_held s)"

text \<open>A whole continuation in pieces: all that is shown, and the final state.\<close>

fun seam_pieces :: "'a list list \<Rightarrow> 'a seam \<Rightarrow> 'a list \<times> 'a seam" where
  "seam_pieces [] s = seam_finish s"
| "seam_pieces (p # ps) s =
     (let (out, s') = seam_feed p s; (out', s'') = seam_pieces ps s' in (out @ out', s''))"

section \<open>The specification\<close>

text \<open>The longest start of the continuation that is the very end of what was written.\<close>

definition repeats_end :: "'a list \<Rightarrow> 'a list \<Rightarrow> nat \<Rightarrow> bool" where
  "repeats_end b t k \<longleftrightarrow> k \<le> length t \<and> k \<le> length b \<and> take k t = drop (length b - k) b"

definition longest_repeat :: "'a list \<Rightarrow> 'a list \<Rightarrow> nat" where
  "longest_repeat b t = Max {k. repeats_end b t k}"

definition cut_spec :: "'a list \<Rightarrow> 'a list \<Rightarrow> nat" where
  "cut_spec b t =
     (let k = longest_repeat b t in
      if SEAM_MIN \<le> k \<and> SEAM_VARIED \<le> card (set (take k t)) then k else 0)"

section \<open>Lemmas\<close>

lemma repeats_end_0 [simp]: "repeats_end b t 0"
  by (simp add: repeats_end_def)

lemma finite_repeats [simp]: "finite {k. repeats_end b t k}"
  by (rule finite_subset [of _ "{..length t}"]) (auto simp: repeats_end_def)

lemma longest_repeat_is: "repeats_end b t (longest_repeat b t)"
  using Max_in [OF finite_repeats, of b t] unfolding longest_repeat_def by (auto intro: repeats_end_0)

lemma longest_repeat_ge: "repeats_end b t k \<Longrightarrow> k \<le> longest_repeat b t"
  unfolding longest_repeat_def by (rule Max_ge) simp_all

lemma longest_repeat_eqI:
  "repeats_end b t k \<Longrightarrow> (\<And>j. repeats_end b t j \<Longrightarrow> j \<le> k) \<Longrightarrow> longest_repeat b t = k"
  by (metis le_antisym longest_repeat_ge longest_repeat_is)

lemma repeats_end_append: "k \<le> length t \<Longrightarrow> repeats_end b (t @ u) k \<longleftrightarrow> repeats_end b t k"
  by (auto simp: repeats_end_def)

text \<open>The places from which all of \<open>t\<close> matches.\<close>

definition matches_from :: "'a list \<Rightarrow> 'a list \<Rightarrow> nat \<Rightarrow> bool" where
  "matches_from b t s \<longleftrightarrow> s + length t \<le> length b \<and> take (length t) (drop s b) = t"

lemma matches_from_snoc:
  "matches_from b (t @ [c]) s \<longleftrightarrow> matches_from b t s \<and> get_at b (s + length t) = Some c"
proof (cases "s + length t < length b")
  case True
  then have "take (Suc (length t)) (drop s b) = take (length t) (drop s b) @ [b ! (s + length t)]"
    by (simp add: take_Suc_conv_app_nth)
  then show ?thesis using True by (auto simp: matches_from_def get_at_def)
qed (auto simp: matches_from_def get_at_def)

lemma repeats_end_matches:
  assumes "repeats_end b (t @ u) k" "length t \<le> k"
  shows "matches_from b t (length b - k)"
proof -
  have "take (length t) (take k (t @ u)) = take (length t) (drop (length b - k) b)"
    using assms(1) by (simp add: repeats_end_def)
  then show ?thesis using assms by (simp add: matches_from_def repeats_end_def min_def)
qed

lemma matches_repeats_end: "matches_from b t s \<Longrightarrow> s + length t = length b \<Longrightarrow> repeats_end b t (length t)"
  by (auto simp: matches_from_def repeats_end_def)

lemma longest_repeat_snoc:
  "longest_repeat b (t @ [c]) =
     (if \<exists>s < length b. matches_from b (t @ [c]) s \<and> s + length t + 1 = length b then length t + 1
      else longest_repeat b t)"
proof (cases "\<exists>s < length b. matches_from b (t @ [c]) s \<and> s + length t + 1 = length b")
  case True
  then obtain s where "matches_from b (t @ [c]) s" "s + length (t @ [c]) = length b" by auto
  from matches_repeats_end [OF this] have "repeats_end b (t @ [c]) (length t + 1)" by simp
  then show ?thesis using True by (auto intro!: longest_repeat_eqI simp: repeats_end_def)
next
  case False
  have "longest_repeat b (t @ [c]) = longest_repeat b t"
  proof (rule longest_repeat_eqI)
    show "repeats_end b (t @ [c]) (longest_repeat b t)"
      using longest_repeat_is [of b t] by (auto simp: repeats_end_append repeats_end_def)
    fix j assume j: "repeats_end b (t @ [c]) j"
    have "j \<noteq> length t + 1"
    proof
      assume "j = length t + 1"
      then have "matches_from b (t @ [c]) (length b - j)" "j \<le> length b"
        using repeats_end_matches [of b "t @ [c]" "[]" j] j by (simp_all add: repeats_end_def)
      then show False using False \<open>j = length t + 1\<close> by (auto dest: spec [of _ "length b - j"])
    qed
    then have "j \<le> length t" using j by (auto simp: repeats_end_def)
    then show "j \<le> longest_repeat b t" using j by (auto simp: repeats_end_append intro: longest_repeat_ge)
  qed
  then show ?thesis using False by auto
qed

lemma longest_repeat_stable:
  assumes "\<And>s. s < length b \<Longrightarrow> matches_from b t s \<Longrightarrow> length b \<le> s + length t"
  shows "longest_repeat b (t @ u) = longest_repeat b t"
proof (rule longest_repeat_eqI)
  show "repeats_end b (t @ u) (longest_repeat b t)"
    using longest_repeat_is [of b t] by (auto simp: repeats_end_append repeats_end_def)
  fix j assume j: "repeats_end b (t @ u) j"
  have "j \<le> length t"
  proof (rule ccontr)
    assume "\<not> j \<le> length t"
    then have m: "matches_from b t (length b - j)" and j0: "0 < j" and jb: "j \<le> length b"
      using repeats_end_matches [OF j] j by (auto simp: repeats_end_def)
    then have "length b - j < length b" by linarith
    from assms [OF this m] jb \<open>\<not> j \<le> length t\<close> show False by linarith
  qed
  then show "j \<le> longest_repeat b t" using j by (auto simp: repeats_end_append intro: longest_repeat_ge)
qed

lemma cut_spec_eq: "longest_repeat b t = longest_repeat b t' \<Longrightarrow>
    take (longest_repeat b t) t = take (longest_repeat b t) t' \<Longrightarrow> cut_spec b t = cut_spec b t'"
  by (simp add: cut_spec_def)

section \<open>The invariant of the stream\<close>

text \<open>\<open>t\<close> is what arrived and \<open>out\<close> what was shown.\<close>

definition seam_inv :: "'a list \<Rightarrow> 'a list \<Rightarrow> 'a list \<Rightarrow> 'a seam \<Rightarrow> bool" where
  "seam_inv b t out s \<longleftrightarrow> seam_before s = b \<and>
     (if seam_settled s
      then out @ seam_held s = drop (seam_cut s) t \<and> seam_cut s \<le> length t \<and>
        (SEAM_MIN \<le> length b \<longrightarrow> (\<forall>u. cut_spec b (t @ u) = seam_cut s)) \<and>
        (length b < SEAM_MIN \<longrightarrow> seam_cut s = 0)
      else out = [] \<and> seam_held s = t \<and> seam_cut s = 0 \<and> SEAM_MIN \<le> length b \<and>
        seam_starts s = filter (matches_from b t) [0..<length b] \<and> seam_repeat s = longest_repeat b t)"

lemma seam_settle_inv:
  assumes inv: "seam_before s = b" "seam_held s = t" "seam_cut s = 0" "SEAM_MIN \<le> length b"
    "seam_repeat s = longest_repeat b t"
    and stable: "\<And>u. longest_repeat b (t @ u) = longest_repeat b t"
  shows "seam_inv b t [] (seam_settle s)"
proof -
  have le: "longest_repeat b t \<le> length t" using longest_repeat_is [of b t] by (simp add: repeats_end_def)
  have cs: "cut_spec b (t @ u) = cut_spec b t" for u
    by (rule cut_spec_eq) (simp_all add: stable le)
  have "card (set (take (longest_repeat b t) t)) = length (remdups (take (longest_repeat b t) t))"
    by (simp add: length_remdups_card_conv)
  then show ?thesis using inv le cs
    by (auto simp: seam_inv_def seam_settle_def Let_def cut_spec_def)
qed

lemma feed_char_inv:
  assumes inv: "seam_inv b t out s"
  shows "seam_inv b (t @ [c]) out (feed_char c s)"
proof (cases "seam_settled s")
  case True
  then have "\<And>u. SEAM_MIN \<le> length b \<Longrightarrow> cut_spec b (t @ [c] @ u) = seam_cut s"
    using inv by (simp add: seam_inv_def)
  then show ?thesis using True inv by (auto simp: seam_inv_def feed_char_def)
next
  case False
  have st: "seam_before s = b" "out = []" "seam_held s = t" "seam_cut s = 0" "SEAM_MIN \<le> length b"
    "seam_starts s = filter (matches_from b t) [0..<length b]" "seam_repeat s = longest_repeat b t"
    using inv False by (simp_all add: seam_inv_def)
  let ?starts = "filter (\<lambda>start. get_at b (start + length t) = Some c) (filter (matches_from b t) [0..<length b])"
  have starts: "?starts = filter (matches_from b (t @ [c])) [0..<length b]"
    by (auto simp: matches_from_snoc intro: filter_cong)
  let ?s = "s\<lparr>seam_starts := ?starts, seam_held := t @ [c],
      seam_repeat := (if list_ex (\<lambda>start. start + length t + 1 = length b) ?starts then length t + 1
        else longest_repeat b t)\<rparr>"
  have rep: "seam_repeat ?s = longest_repeat b (t @ [c])"
    unfolding longest_repeat_snoc starts by (auto simp: list_ex_iff)
  have fc: "feed_char c s = (if list_all (\<lambda>start. length b \<le> start + length t + 1) ?starts then seam_settle ?s else ?s)"
    using False st by (simp add: feed_char_def Let_def)
  show ?thesis
  proof (cases "list_all (\<lambda>start. length b \<le> start + length t + 1) ?starts")
    case True
    then have "\<And>u. longest_repeat b ((t @ [c]) @ u) = longest_repeat b (t @ [c])"
      unfolding starts by (intro longest_repeat_stable) (auto simp: list_all_iff)
    then have "seam_inv b (t @ [c]) [] (seam_settle ?s)"
      using st rep by (intro seam_settle_inv) simp_all
    then show ?thesis using True fc st by simp
  next
    case False
    then show ?thesis using fc st rep starts \<open>\<not> seam_settled s\<close> by (simp add: seam_inv_def)
  qed
qed

lemma fold_feed_inv: "seam_inv b t out s \<Longrightarrow> seam_inv b (t @ p) out (fold feed_char p s)"
proof (induction p arbitrary: t s)
  case (Cons c p)
  from Cons.IH [OF feed_char_inv [OF Cons.prems, of c]] show ?case by simp
qed simp

lemma seam_feed_inv:
  assumes inv: "seam_inv b t out s" and f: "seam_feed p s = (out', s')"
    and held: "seam_settled s \<Longrightarrow> seam_held s = []"
  shows "seam_inv b (t @ p) (out @ out') s' \<and> (seam_settled s' \<longrightarrow> seam_held s' = [])"
proof (cases "seam_settled s")
  case True
  then have "\<And>u. SEAM_MIN \<le> length b \<Longrightarrow> cut_spec b (t @ p @ u) = seam_cut s"
    using inv by (simp add: seam_inv_def)
  then show ?thesis using True inv f held by (auto simp: seam_inv_def seam_feed_def)
next
  case False
  have "seam_inv b (t @ p) out (fold feed_char p s)" by (rule fold_feed_inv [OF inv])
  moreover have "out = []" using inv False by (simp add: seam_inv_def)
  ultimately show ?thesis using False f
    by (auto simp: seam_feed_def Let_def seam_inv_def split: if_splits)
qed

lemma seam_finish_inv:
  assumes inv: "seam_inv b t out s" and f: "seam_finish s = (out', s')"
  shows "out @ out' = drop (seam_cut s') t \<and>
    seam_cut s' = (if length b < SEAM_MIN then 0 else cut_spec b t)"
proof (cases "seam_settled s")
  case True
  then have "SEAM_MIN \<le> length b \<Longrightarrow> cut_spec b (t @ []) = seam_cut s" using inv by (simp only: seam_inv_def if_True)
  then show ?thesis using True inv f by (auto simp: seam_inv_def seam_finish_def not_less)
next
  case False
  have st: "out = []" "seam_held s = t" "seam_cut s = 0" "SEAM_MIN \<le> length b" "seam_repeat s = longest_repeat b t"
    using inv False by (simp_all add: seam_inv_def)
  have "card (set (take (longest_repeat b t) t)) = length (remdups (take (longest_repeat b t) t))"
    by (simp add: length_remdups_card_conv)
  then show ?thesis using False st f by (auto simp: seam_finish_def seam_settle_def Let_def cut_spec_def)
qed

lemma seam_pieces_inv:
  "seam_inv b t out s \<Longrightarrow> (seam_settled s \<Longrightarrow> seam_held s = []) \<Longrightarrow> seam_pieces ps s = (out', s') \<Longrightarrow>
   out @ out' = drop (seam_cut s') (t @ concat ps) \<and>
   seam_cut s' = (if length b < SEAM_MIN then 0 else cut_spec b (t @ concat ps))"
proof (induction ps arbitrary: t out s out')
  case Nil
  then show ?case using seam_finish_inv [of b t out s] by simp
next
  case (Cons p ps)
  obtain o1 s1 where f: "seam_feed p s = (o1, s1)" by (cases "seam_feed p s")
  obtain o2 where r: "seam_pieces ps s1 = (o2, s')" "out' = o1 @ o2"
    using Cons.prems(3) f by (auto split: prod.splits)
  have "seam_inv b (t @ p) (out @ o1) s1 \<and> (seam_settled s1 \<longrightarrow> seam_held s1 = [])"
    by (rule seam_feed_inv [OF Cons.prems(1) f Cons.prems(2)])
  then have "(out @ o1) @ o2 = drop (seam_cut s') ((t @ p) @ concat ps) \<and>
      seam_cut s' = (if length b < SEAM_MIN then 0 else cut_spec b ((t @ p) @ concat ps))"
    using Cons.IH [of "t @ p" "out @ o1" s1 o2] r(1) by blast
  then show ?case using r(2) by simp
qed

lemma cut_spec_short: "length b < SEAM_MIN \<Longrightarrow> cut_spec b t = 0"
  using longest_repeat_is [of b t] by (auto simp: cut_spec_def Let_def repeats_end_def)

lemma seam_after_inv: "seam_inv (rev (take SEAM_REACH (rev text))) [] [] (seam_after text)"
proof -
  let ?b = "rev (take SEAM_REACH (rev text))"
  have "longest_repeat ?b [] = 0" using longest_repeat_is [of ?b "[]"] by (simp add: repeats_end_def)
  moreover have "filter (matches_from ?b []) [0..<length ?b] = [0..<length ?b]"
    by (rule filter_True) (auto simp: matches_from_def)
  ultimately show ?thesis by (auto simp: seam_after_def seam_inv_def Let_def not_less min_def split: if_splits)
qed

section \<open>Dropping a start\<close>

text \<open>\<open>without_start_of\<close> over the texts a message carries, in order.\<close>

fun without_start_of :: "'a list list \<Rightarrow> nat \<Rightarrow> 'a list list" where
  "without_start_of [] n = []"
| "without_start_of (t # ts) n = (if n = 0 then t # ts else drop n t # without_start_of ts (n - length t))"

lemma concat_without_start_of: "concat (without_start_of ts n) = drop n (concat ts)"
  by (induction ts n rule: without_start_of.induct) simp_all

section \<open>Properties\<close>

text \<open>The join is shown exactly once, however the stream is chopped: of a continuation that arrives in
  any pieces, everything is shown except its longest start that repeats the very end of what was
  written (when that is long and varied enough to be a repeat), and nothing of that is shown.\<close>

theorem seam_shows_join_once:
  assumes "seam_pieces ps (seam_after text) = (out, s)"
  shows "out = drop (seam_cut s) (concat ps) \<and>
    seam_cut s = cut_spec (rev (take SEAM_REACH (rev text))) (concat ps)"
proof -
  have "seam_settled (seam_after text) \<Longrightarrow> seam_held (seam_after text) = []" by (simp add: seam_after_def Let_def)
  from seam_pieces_inv [OF seam_after_inv this assms] show ?thesis
    by (auto simp: cut_spec_short)
qed

theorem seam_shows_join_once_witness: "fst (seam_pieces [''ab'', ''c''] (seam_after ''x'')) = ''abc''"
  using seam_shows_join_once [of "[''ab'', ''c'']" "''x''" "fst (seam_pieces [''ab'', ''c''] (seam_after ''x''))"
      "snd (seam_pieces [''ab'', ''c''] (seam_after ''x''))"]
  by (simp add: cut_spec_short SEAM_MIN_def SEAM_REACH_def)

text \<open>Nothing is lost at the join: what is cut is a copy of the end of what was already written, so the
  written text followed by what is shown is the written text followed by the continuation less its
  overlap with it.\<close>

theorem seam_loses_nothing:
  assumes "seam_pieces ps (seam_after text) = (out, s)"
  shows "concat ps = take (seam_cut s) (concat ps) @ out \<and>
    (\<exists>w. text = w @ take (seam_cut s) (concat ps))"
proof -
  let ?b = "rev (take SEAM_REACH (rev text))"
  let ?t = "concat ps"
  have main: "out = drop (seam_cut s) ?t" and
    cut: "seam_cut s = (if length ?b < SEAM_MIN then 0 else cut_spec ?b ?t)"
  proof -
    have "seam_settled (seam_after text) \<Longrightarrow> seam_held (seam_after text) = []" by (simp add: seam_after_def Let_def)
    from seam_pieces_inv [OF seam_after_inv this assms]
    show "out = drop (seam_cut s) ?t" "seam_cut s = (if length ?b < SEAM_MIN then 0 else cut_spec ?b ?t)"
      by simp_all
  qed
  have suffix: "\<exists>w. text = w @ ?b" by (metis append_take_drop_id rev_append rev_rev_ident)
  have "seam_cut s = 0 \<or> seam_cut s = longest_repeat ?b ?t" by (auto simp: cut cut_spec_def Let_def)
  then have "take (seam_cut s) ?t = drop (length ?b - seam_cut s) ?b"
    using longest_repeat_is [of ?b ?t] by (auto simp: repeats_end_def)
  then have "\<exists>w. ?b = w @ take (seam_cut s) ?t" by (metis append_take_drop_id)
  then have "\<exists>w. text = w @ take (seam_cut s) ?t" using suffix by (metis append_assoc)
  then show ?thesis using main by simp
qed

theorem seam_loses_nothing_witness:
  "concat [''ab'', ''c''] = take (seam_cut (snd (seam_pieces [''ab'', ''c''] (seam_after ''x'')))) ''abc'' @
     fst (seam_pieces [''ab'', ''c''] (seam_after ''x''))"
  using seam_loses_nothing [of "[''ab'', ''c'']" "''x''" "fst (seam_pieces [''ab'', ''c''] (seam_after ''x''))"
      "snd (seam_pieces [''ab'', ''c''] (seam_after ''x''))"] by simp

end
