(* ===== verification/Redact.thy ===== *)
theory Redact
  imports Prelude
begin

text \<open>
  \<open>crates/kernel/src/redact.rs\<close>: the secret values the process holds for removal, the rules that say
  what looks like a credential, and the preview of a blocked payload. The three regular expressions
  are the \<open>regex\<close> crate's; the one used here (\<open>CODE_EXPRESSION\<close>) is the parameter \<open>is_code\<close>.
\<close>

section \<open>Held values\<close>

record held_values =
  hv_values :: "string list"
  hv_order :: "string list"
  hv_bytes :: nat

definition held_default :: held_values where
  "held_default = \<lparr>hv_values = [], hv_order = [], hv_bytes = 0\<rparr>"

definition HELD_COUNT :: nat where
  "HELD_COUNT = 4096"

definition HELD_BYTES :: nat where
  "HELD_BYTES = 1024 * 1024"

text \<open>The loop that forgets the least recently seen value while the store is over its bounds.\<close>

function held_trim :: "held_values \<Rightarrow> held_values" where
  "held_trim s =
     (if HELD_COUNT < length (hv_order s) \<or> HELD_BYTES < hv_bytes s
      then (case hv_order s of
              [] \<Rightarrow> s
            | oldest # rest \<Rightarrow>
                held_trim (s\<lparr>hv_order := rest, hv_bytes := hv_bytes s - length oldest,
                             hv_values := filter (\<lambda>held. held \<noteq> oldest) (hv_values s)\<rparr>))
      else s)"
  by pat_completeness auto

termination by (relation "measure (\<lambda>s. length (hv_order s))") auto

declare held_trim.simps [simp del]

text \<open>\<open>sort_by\<close>: longest first, then by text.\<close>

definition longest_first :: "string list \<Rightarrow> string list" where
  "longest_first vs = sort_key (\<lambda>v. - int (length v)) (sort vs)"

definition hold :: "string \<Rightarrow> held_values \<Rightarrow> held_values" where
  "hold value s =
     (if value = [] then s
      else if value \<in> set (hv_order s)
      then s\<lparr>hv_order := remove1 value (hv_order s) @ [value]\<rparr>
      else
        let s' = held_trim (s\<lparr>hv_bytes := hv_bytes s + length value, hv_order := hv_order s @ [value],
                              hv_values := hv_values s @ [value]\<rparr>)
        in s'\<lparr>hv_values := longest_first (hv_values s')\<rparr>)"

definition held_inv :: "held_values \<Rightarrow> bool" where
  "held_inv s \<longleftrightarrow>
     distinct (hv_order s) \<and> set (hv_values s) = set (hv_order s) \<and> distinct (hv_values s) \<and>
     hv_bytes s = sum_list (map length (hv_order s)) \<and> [] \<notin> set (hv_order s)"

definition held_bounded :: "held_values \<Rightarrow> bool" where
  "held_bounded s \<longleftrightarrow> length (hv_order s) \<le> HELD_COUNT \<and> hv_bytes s \<le> HELD_BYTES"

lemma held_trim_inv: "held_inv s \<Longrightarrow> held_inv (held_trim s) \<and> held_bounded (held_trim s)"
proof (induction s rule: held_trim.induct)
  case (1 s)
  show ?case
  proof (cases "HELD_COUNT < length (hv_order s) \<or> HELD_BYTES < hv_bytes s")
    case False
    then show ?thesis using "1.prems" by (simp add: held_trim.simps [of s] held_bounded_def not_less)
  next
    case True
    show ?thesis
    proof (cases "hv_order s")
      case Nil
      then show ?thesis using True "1.prems" by (simp add: held_inv_def)
    next
      case (Cons oldest rest)
      let ?s = "s\<lparr>hv_order := rest, hv_bytes := hv_bytes s - length oldest,
          hv_values := filter (\<lambda>held. held \<noteq> oldest) (hv_values s)\<rparr>"
      have "held_inv ?s" using "1.prems" Cons by (auto simp: held_inv_def)
      from "1.IH" [OF True Cons this] show ?thesis using True Cons by (simp add: held_trim.simps [of s])
    qed
  qed
qed

lemma longest_first_set [simp]: "set (longest_first vs) = set vs" "distinct (longest_first vs) = distinct vs"
  by (simp_all add: longest_first_def)

lemma hold_inv:
  assumes "held_inv s"
  shows "held_inv (hold v s)"
proof -
  have rem: "sum_list (map length (remove1 v xs)) + length v = sum_list (map length xs)"
    if "v \<in> set xs" for xs :: "string list"
    using that by (induction xs) auto
  consider "v = []" | "v \<noteq> []" "v \<in> set (hv_order s)" | "v \<noteq> []" "v \<notin> set (hv_order s)" by blast
  then show ?thesis
  proof cases
    case 2
    then show ?thesis using assms rem [of "hv_order s"]
      by (auto simp: hold_def held_inv_def distinct_remove1)
  next
    case 3
    let ?s = "s\<lparr>hv_bytes := hv_bytes s + length v, hv_order := hv_order s @ [v], hv_values := hv_values s @ [v]\<rparr>"
    have "held_inv ?s" using 3 assms by (auto simp: held_inv_def)
    then have "held_inv (held_trim ?s)" by (simp add: held_trim_inv)
    then show ?thesis using 3 by (simp add: hold_def held_inv_def Let_def)
  qed (use assms in \<open>simp add: hold_def\<close>)
qed

lemma hold_bounded:
  assumes "held_inv s" "held_bounded s"
  shows "held_bounded (hold v s)"
proof -
  let ?s = "s\<lparr>hv_bytes := hv_bytes s + length v, hv_order := hv_order s @ [v], hv_values := hv_values s @ [v]\<rparr>"
  have "held_inv ?s" if "v \<noteq> []" "v \<notin> set (hv_order s)"
    using that assms by (auto simp: held_inv_def)
  then have "v \<noteq> [] \<Longrightarrow> v \<notin> set (hv_order s) \<Longrightarrow> held_bounded (held_trim ?s)" by (simp add: held_trim_inv)
  moreover have "length (remove1 v (hv_order s) @ [v]) = length (hv_order s)" if "v \<in> set (hv_order s)"
    using that by (simp add: length_remove1) (metis Suc_pred length_pos_if_in_set)
  ultimately show ?thesis using assms(2) by (auto simp: hold_def held_bounded_def Let_def)
qed

section \<open>What looks like a credential\<close>

definition secret_word :: "string \<Rightarrow> bool" where
  "secret_word w \<longleftrightarrow> w \<in> {''KEY'', ''APIKEY'', ''TOKEN'', ''SECRET'', ''PASSWORD'', ''PASSWD'', ''PASS'',
     ''CREDENTIAL'', ''CREDENTIALS''}"

definition secret_name :: "string \<Rightarrow> bool" where
  "secret_name name \<longleftrightarrow>
     list_ex (\<lambda>w. secret_word (to_uppercase w)) (split_by (\<lambda>c. c \<in> set ''_.-'') name)"

definition is_lower :: "char \<Rightarrow> bool" where
  "is_lower c \<longleftrightarrow> is_ascii_alphabetic c \<and> lower_char c = c"

definition is_upper :: "char \<Rightarrow> bool" where
  "is_upper c \<longleftrightarrow> is_ascii_alphabetic c \<and> upper_char c = c"

definition looks_like_credential :: "(string \<Rightarrow> bool) \<Rightarrow> string \<Rightarrow> bool" where
  "looks_like_credential is_code raw =
     (let quote = (\<lambda>c. c = CHR 0x22 \<or> c = CHR 0x27);
          value = trim_end_by quote (trim_start_by quote raw);
          kinds = [list_ex is_lower value, list_ex is_upper value, list_ex is_ascii_digit value,
                   list_ex (\<lambda>b. \<not> is_ascii_alphanumeric b) value]
      in 12 \<le> length value \<and> \<not> is_code value \<and> \<not> list_ex is_ws value \<and>
         \<not> (case value of c # _ \<Rightarrow> c \<in> set ''/~$.<{'' | [] \<Rightarrow> False) \<and>
         \<not> contains_str value ''://'' \<and>
         \<not> list_all (\<lambda>b. is_ascii_digit b \<or> b = CHR ''.'') value \<and>
         to_lowercase value \<notin> {''changeme'', ''placeholder''} \<and>
         2 \<le> length (filter id kinds))"

definition contains_known :: "(string \<Rightarrow> bool) \<Rightarrow> held_values \<Rightarrow> string \<Rightarrow> bool" where
  "contains_known is_code known text \<longleftrightarrow>
     list_ex (contains_str text) (filter (looks_like_credential is_code) (hv_values known))"

section \<open>The preview of a blocked payload\<close>

definition MARK :: string where
  "MARK = ''[secret removed]''"

text \<open>The longest value that starts here (\<open>max_by_key\<close> takes the last of equals, all the same length).\<close>

definition longest_at :: "string list \<Rightarrow> string \<Rightarrow> nat option" where
  "longest_at vs0 text =
     (case filter (starts_with text) vs0 of
        [] \<Rightarrow> None
      | vs \<Rightarrow> Some (foldl max 0 (map length vs)))"

lemma utf8_width_bounds: "1 \<le> utf8_width c \<and> utf8_width c \<le> 4"
  by (simp add: utf8_width_def Let_def)

text \<open>The loop, \<open>text\<close> being what is left from the offset on. A character is pushed whole.\<close>

function preview_loop :: "string list \<Rightarrow> string \<Rightarrow> string \<Rightarrow> string" where
  "preview_loop vs out text =
     (if text \<noteq> [] \<and> length out < 2048
      then (case longest_at vs text of
              Some n \<Rightarrow> preview_loop vs (out @ MARK) (drop n text)
            | None \<Rightarrow>
                let n = utf8_width (hd text) in preview_loop vs (out @ take n text) (drop n text))
      else if text \<noteq> [] then out @ '' [preview truncated]'' else out)"
  by pat_completeness auto

termination
proof (relation "measure (\<lambda>(_, out, t). 2048 - length out + length t)", goal_cases)
  case (2 vs out t n)
  then have t: "0 < length t" and n: "1 \<le> n" and o: "length out < 2048" using utf8_width_bounds by auto
  have "2048 - (length out + min (length t) n) + (length t - n) < 2048 - length out + length t"
    using t n o by (cases "length t \<le> n"; simp add: min_def; arith)
  then show ?case by simp
qed (auto simp: MARK_def)

declare preview_loop.simps [simp del]

definition outbound_preview :: "held_values \<Rightarrow> string \<Rightarrow> string list \<Rightarrow> string" where
  "outbound_preview known text file_values = preview_loop (hv_values known @ file_values) [] text"

lemma preview_length:
  "length out \<le> 2048 + length MARK \<Longrightarrow> length (preview_loop vs out t) \<le> 2048 + length MARK + 20"
proof (induction vs out t rule: preview_loop.induct)
  case (1 vs out t)
  have "utf8_width (hd t) \<le> 4" by (simp add: utf8_width_def Let_def)
  then show ?case using 1
    by (subst preview_loop.simps) (auto simp: MARK_def Let_def split: option.split)
qed

end
