(* ===== verification/Messages.thy ===== *)
theory Messages
  imports KernelTypes
begin

text \<open>
  Messages of a conversation, \<open>crates/kernel/src/types.rs\<close>: the flat message of the legacy view, the
  ordered message with its parts, the bridges between the two, and the durable instruction a plan
  turn puts before the person's words (\<open>turn_instruction.rs\<close>).
\<close>

section \<open>The two views\<close>

datatype role = SystemRole | UserRole | AssistantRole | ToolRole

record output_reference =
  artifact_id :: string
  revision_id :: string
  ref_label :: string
  ref_lead :: nat

record message =
  msg_role :: role
  msg_content :: string
  msg_prefix :: "string option"
  msg_media :: "media_part list"
  msg_calls :: "tool_intent list"
  msg_call_id :: "string option"
  msg_trust :: "trust_label option"
  msg_about :: "output_reference option"

definition message_new :: "role \<Rightarrow> string \<Rightarrow> message" where
  "message_new r content = \<lparr>msg_role = r, msg_content = content, msg_prefix = None, msg_media = [],
     msg_calls = [], msg_call_id = None, msg_trust = None, msg_about = None\<rparr>"

definition carrying :: "trust_label \<Rightarrow> message \<Rightarrow> message" where
  "carrying t m = m\<lparr>msg_trust := Some t\<rparr>"

definition assistant_calls :: "string \<Rightarrow> tool_intent list \<Rightarrow> message" where
  "assistant_calls content calls = (message_new AssistantRole content)\<lparr>msg_calls := calls\<rparr>"

definition tool_result :: "string \<Rightarrow> string \<Rightarrow> message" where
  "tool_result call_id content = (message_new ToolRole content)\<lparr>msg_call_id := Some call_id\<rparr>"

datatype content_part =
    TextPart string "provider_state list"
  | ToolCallPart string string json "provider_state list"
  | ToolResultPart string string "provider_state list"
  | ReasoningPart "string option" "provider_state list"
  | MediaContent media_part

record model_message =
  mm_role :: role
  mm_parts :: "content_part list"
  mm_trust :: "trust_label option"

fun part_state :: "content_part \<Rightarrow> provider_state list" where
  "part_state (TextPart _ s) = s"
| "part_state (ToolCallPart _ _ _ s) = s"
| "part_state (ToolResultPart _ _ s) = s"
| "part_state (ReasoningPart _ s) = s"
| "part_state (MediaContent m) = media_state m"

definition has_provider_state :: "model_message \<Rightarrow> bool" where
  "has_provider_state m = list_ex (\<lambda>p. part_state p \<noteq> []) (mm_parts m)"

section \<open>The bridges\<close>

definition media_caption :: "media_part \<Rightarrow> nat \<Rightarrow> nat \<Rightarrow> string" where
  "media_caption media index count =
     (let position = (if 1 < count then '' '' @ decimal (index + 1) else [])
      in case media_label media of
           Some l \<Rightarrow> ''[attached image'' @ position @ '': '' @ l @ '']''
         | None \<Rightarrow> ''[attached image'' @ position @ '']'')"

text \<open>Every image is announced by a caption, numbered when there are several.\<close>

fun media_parts :: "nat \<Rightarrow> nat \<Rightarrow> media_part list \<Rightarrow> content_part list" where
  "media_parts count index [] = []"
| "media_parts count index (m # ms) =
     TextPart (media_caption m index count) [] # MediaContent m # media_parts count (Suc index) ms"

definition text_parts :: "string \<Rightarrow> content_part list" where
  "text_parts s = (if s = [] then [] else [TextPart s []])"

definition ordered :: "message \<Rightarrow> model_message" where
  "ordered m = \<lparr>mm_role = msg_role m,
     mm_parts =
       (if msg_role m = ToolRole
        then (case msg_call_id m of
                Some call_id \<Rightarrow> [ToolResultPart call_id (msg_content m) []]
              | None \<Rightarrow> text_parts (msg_content m))
        else text_parts (msg_content m)
             @ map (\<lambda>c. ToolCallPart (intent_id c) (intent_tool c) (intent_args c) []) (msg_calls m))
       @ media_parts (length (msg_media m)) 0 (msg_media m),
     mm_trust = msg_trust m\<rparr>"

definition is_media :: "content_part \<Rightarrow> bool" where
  "is_media p = (case p of MediaContent _ \<Rightarrow> True | _ \<Rightarrow> False)"

text \<open>A text part is a caption if it is bare and the exact text generated for the media right after it.\<close>

definition is_caption :: "nat \<Rightarrow> nat \<Rightarrow> string \<Rightarrow> provider_state list \<Rightarrow> content_part list \<Rightarrow> bool" where
  "is_caption count index s ps rest =
     (case rest of MediaContent m # _ \<Rightarrow> ps = [] \<and> s = media_caption m index count | _ \<Rightarrow> False)"

fun legacy_text_from :: "nat \<Rightarrow> nat \<Rightarrow> content_part list \<Rightarrow> string" where
  "legacy_text_from count index [] = []"
| "legacy_text_from count index (TextPart s ps # rest) =
     (if is_caption count index s ps rest then [] else s) @ legacy_text_from count index rest"
| "legacy_text_from count index (MediaContent m # rest) = legacy_text_from count (Suc index) rest"
| "legacy_text_from count index (p # rest) = legacy_text_from count index rest"

definition legacy_text :: "model_message \<Rightarrow> string" where
  "legacy_text m = legacy_text_from (length (filter is_media (mm_parts m))) 0 (mm_parts m)"

text \<open>\<open>TryFrom<&ModelMessage>\<close>: the text so far, the calls, the call answered; \<open>None\<close> is \<open>NotRepresentable\<close>.\<close>

fun legacy_parts ::
  "role \<Rightarrow> content_part list \<Rightarrow> string \<Rightarrow> tool_intent list \<Rightarrow> string option \<Rightarrow> (string \<times> tool_intent list \<times> string option) option"
where
  "legacy_parts r [] content calls call_id = Some (content, calls, call_id)"
| "legacy_parts r (TextPart s ps # rest) content calls call_id =
     (if ps = [] \<and> (if r = ToolRole then call_id = None else calls = [])
      then legacy_parts r rest (content @ s) calls call_id else None)"
| "legacy_parts r (ToolCallPart i t a ps # rest) content calls call_id =
     (if r = AssistantRole \<and> ps = []
      then legacy_parts r rest content (calls @ [\<lparr>intent_id = i, intent_tool = t, intent_args = a\<rparr>]) call_id
      else None)"
| "legacy_parts r (ToolResultPart i s ps # rest) content calls call_id =
     (if r = ToolRole \<and> ps = [] \<and> call_id = None
      then legacy_parts r rest (content @ s) calls (Some i) else None)"
| "legacy_parts r (_ # rest) content calls call_id = None"

definition message_try_from :: "model_message \<Rightarrow> message option" where
  "message_try_from m =
     (case legacy_parts (mm_role m) (mm_parts m) [] [] None of
        None \<Rightarrow> None
      | Some (content, calls, call_id) \<Rightarrow>
          Some \<lparr>msg_role = mm_role m, msg_content = content, msg_prefix = None, msg_media = [],
            msg_calls = calls, msg_call_id = call_id, msg_trust = mm_trust m, msg_about = None\<rparr>)"

section \<open>Instructions kept out of the transcript\<close>

definition plan_text :: string where
  "plan_text = ''For this turn, Plan mode is active. Investigate using read-only tools and present an actionable plan with affected files, risks, and validation steps. Do not implement changes, execute commands, or delegate work. The user must switch to careful/normal/yolo mode before implementation.''
     @ [CHR 0x0A, CHR 0x0A]"

definition turn_apply :: "bool \<Rightarrow> message \<Rightarrow> message" where
  "turn_apply planning m =
     (if planning \<and> msg_role m = UserRole \<and> (msg_trust m = None \<or> msg_trust m = Some User) \<and> msg_prefix m = None
      then m\<lparr>msg_content := plan_text @ msg_content m, msg_prefix := Some plan_text\<rparr>
      else m)"

definition without_prefix :: "string \<Rightarrow> string option \<Rightarrow> string" where
  "without_prefix content lead_text =
     (case lead_text of
        Some p \<Rightarrow> (case strip_prefix p content of Some rest \<Rightarrow> rest | None \<Rightarrow> content)
      | None \<Rightarrow> content)"

definition shown_lead :: "string \<Rightarrow> (nat \<times> string) option \<Rightarrow> string \<times> string option" where
  "shown_lead s about =
     (case about of
        Some (lead, l) \<Rightarrow>
          if is_char_boundary s lead then (drop lead s, if l = [] then None else Some l) else (s, None)
      | None \<Rightarrow> (s, None))"

definition message_shown :: "message \<Rightarrow> string \<times> string option" where
  "message_shown m =
     (if msg_role m \<noteq> UserRole \<or> (msg_trust m \<noteq> None \<and> msg_trust m \<noteq> Some User) then (msg_content m, None)
      else shown_lead (without_prefix (msg_content m) (msg_prefix m))
             (map_option (\<lambda>a. (ref_lead a, ref_label a)) (msg_about m)))"

text \<open>\<open>usize::try_from(value.as_u64()?)\<close>, on a machine of 64 bits.\<close>

definition as_u64 :: "json \<Rightarrow> nat option" where
  "as_u64 v = (case v of JInt n \<Rightarrow> if 0 \<le> n \<and> n < 2 ^ 64 then Some (nat n) else None | _ \<Rightarrow> None)"

definition shown_payload :: "json \<Rightarrow> bool \<Rightarrow> string \<times> string option" where
  "shown_payload payload from_person =
     (let s = (case as_str (json_index payload ''text'') of Some t \<Rightarrow> t | None \<Rightarrow> [])
      in if \<not> from_person then (s, None)
         else shown_lead (without_prefix s (as_str (json_index payload ''instruction_prefix'')))
           (case json_get payload ''about'' of
              None \<Rightarrow> None
            | Some about \<Rightarrow>
                (case as_u64 (json_index about ''lead'') of
                   None \<Rightarrow> None
                 | Some lead \<Rightarrow>
                     (case as_str (json_index about ''label'') of None \<Rightarrow> None | Some l \<Rightarrow> Some (lead, l)))))"

section \<open>Lemmas\<close>

lemma message_new_simps [simp]:
  "msg_role (message_new r c) = r" "msg_content (message_new r c) = c" "msg_prefix (message_new r c) = None"
  "msg_media (message_new r c) = []" "msg_calls (message_new r c) = []" "msg_call_id (message_new r c) = None"
  "msg_trust (message_new r c) = None" "msg_about (message_new r c) = None"
  by (simp_all add: message_new_def)

lemma carrying_simps [simp]:
  "msg_role (carrying t m) = msg_role m" "msg_content (carrying t m) = msg_content m"
  "msg_calls (carrying t m) = msg_calls m" "msg_call_id (carrying t m) = msg_call_id m"
  "msg_media (carrying t m) = msg_media m" "msg_trust (carrying t m) = Some t"
  by (simp_all add: carrying_def)

lemma assistant_calls_simps [simp]:
  "msg_role (assistant_calls c ts) = AssistantRole" "msg_content (assistant_calls c ts) = c"
  "msg_calls (assistant_calls c ts) = ts" "msg_call_id (assistant_calls c ts) = None"
  "msg_media (assistant_calls c ts) = []" "msg_trust (assistant_calls c ts) = None"
  by (simp_all add: assistant_calls_def)

lemma tool_result_simps [simp]:
  "msg_role (tool_result i c) = ToolRole" "msg_content (tool_result i c) = c" "msg_calls (tool_result i c) = []"
  "msg_call_id (tool_result i c) = Some i" "msg_media (tool_result i c) = []" "msg_trust (tool_result i c) = None"
  by (simp_all add: tool_result_def)

lemma mm_role_ordered [simp]: "mm_role (ordered m) = msg_role m"
  and mm_trust_ordered [simp]: "mm_trust (ordered m) = msg_trust m"
  by (simp_all add: ordered_def)

text \<open>A message of the shape its role has: only an assistant calls, only a tool answers.\<close>

definition message_ok :: "message \<Rightarrow> bool" where
  "message_ok m \<longleftrightarrow>
     (msg_calls m \<noteq> [] \<longrightarrow> msg_role m = AssistantRole) \<and> (msg_call_id m \<noteq> None \<longrightarrow> msg_role m = ToolRole)"

lemma media_count: "length (filter is_media (media_parts n k ms)) = length ms"
  by (induction ms arbitrary: k) (auto simp: is_media_def)

lemma legacy_text_media: "legacy_text_from n k (media_parts n k ms) = []"
  by (induction ms arbitrary: k) (auto simp: is_caption_def)

lemma legacy_text_calls:
  "legacy_text_from n k (map (\<lambda>c. ToolCallPart (intent_id c) (intent_tool c) (intent_args c) []) cs @ rest) =
     legacy_text_from n k rest"
  by (induction cs) simp_all

lemma not_media_calls:
  "filter is_media (map (\<lambda>c. ToolCallPart (intent_id c) (intent_tool c) (intent_args c) []) cs) = []"
  by (induction cs) (auto simp: is_media_def)

lemma no_caption_before:
  "\<not> is_caption n k s ps (map (\<lambda>c. ToolCallPart (intent_id c) (intent_tool c) (intent_args c) []) cs @ media_parts n j ms)"
  by (cases cs; cases ms) (auto simp: is_caption_def)

lemma legacy_parts_calls:
  "legacy_parts AssistantRole (map (\<lambda>c. ToolCallPart (intent_id c) (intent_tool c) (intent_args c) []) cs) t acc None
     = Some (t, acc @ cs, None)"
  by (induction cs arbitrary: acc) auto

lemma legacy_text_of_ordered_eq: "msg_role m \<noteq> ToolRole \<Longrightarrow> legacy_text (ordered m) = msg_content m"
proof -
  assume r: "msg_role m \<noteq> ToolRole"
  have n: "length (filter is_media (mm_parts (ordered m))) = length (msg_media m)"
    using r by (simp add: ordered_def text_parts_def media_count not_media_calls) (simp add: is_media_def)
  show ?thesis
    using r unfolding legacy_text_def n
    by (simp add: ordered_def text_parts_def legacy_text_calls legacy_text_media no_caption_before)
qed

section \<open>Properties\<close>

text \<open>The bridge to ordered messages loses no words: for any message that is not a tool's, with any calls and
  any images, the legacy text read back from its ordered form is exactly its content; every caption
  the bridge made is left out, and a text that looks like a caption stays.\<close>

theorem legacy_text_of_ordered:
  assumes "msg_role m \<noteq> ToolRole"
  shows "legacy_text (ordered m) = msg_content m"
  using assms by (rule legacy_text_of_ordered_eq)

theorem legacy_text_of_ordered_witness:
  "legacy_text (ordered ((message_new UserRole ''[attached image]'')\<lparr>msg_media :=
     [\<lparr>mime_type = ''image/png'', media_src = Artifact ''h'', media_label = None, media_width = None,
       media_height = None, media_byte_size = None, media_state = []\<rparr>]\<rparr>)) = ''[attached image]''"
  by (subst legacy_text_of_ordered) simp_all

text \<open>The bridge round-trips: a message of the shape its role has, without images, prefix or reference,
  is rebuilt exactly from its ordered form.\<close>

theorem ordered_round_trip:
  assumes "message_ok m" "msg_media m = []" "msg_prefix m = None" "msg_about m = None"
  shows "message_try_from (ordered m) = Some m"
  using assms
  by (cases m; cases "msg_role m")
    (auto simp: ordered_def message_try_from_def text_parts_def message_ok_def legacy_parts_calls split: option.splits)

theorem ordered_round_trip_witness:
  "message_try_from (ordered (assistant_calls ''looking'' [\<lparr>intent_id = ''1'', intent_tool = ''read'', intent_args = JNull\<rparr>]))
     = Some (assistant_calls ''looking'' [\<lparr>intent_id = ''1'', intent_tool = ''read'', intent_args = JNull\<rparr>])"
  by (rule ordered_round_trip) (simp_all add: message_ok_def assistant_calls_def message_new_def)

text \<open>A plan turn's instruction never shows: what a surface shows of a message, and the output it names, are
  the same before and after the instruction was put in front of the person's words.\<close>

theorem plan_instruction_is_hidden: "message_shown (turn_apply planning m) = message_shown m"
  by (auto simp: message_shown_def turn_apply_def without_prefix_def)

end
