(* ===== verification/EventLog.thy ===== *)
theory EventLog
  imports Messages
begin

text \<open>
  The event log, \<open>crates/kernel/src/events.rs\<close>: the kinds of event and their names in storage, one
  event, the hash that links each event to the one before it, the in-memory log, and the check of a
  whole chain. SHA-256 is the argument \<open>sha\<close> of the definitions that use it, and \<open>show\<close> prints a
  JSON value (the \<open>sha2\<close> and \<open>serde_json\<close> crates); a ULID is the text it prints as.
\<close>

section \<open>Kinds\<close>

datatype event_kind =
    UserMessage | ModelText | ModelIntent | ModelMessage | ToolObs | PolicyDecision
  | HookDecision | ToolEffectPrepared | Compaction | ContextUsage | ToolSnapshot | SummaryFailed
  | SessionKind | ModelReasoning | InterruptKind | MemoryWrite | ContextFileLoaded | ContextFileBlocked
  | ProjectTrustNotice | AgentSpawned | AgentCompleted | AgentFailed | AgentCancelled | AgentDelivered
  | AgentPatch | AgentApplied | ProtectedApplied | TaskEnded

fun kind_as_str :: "event_kind \<Rightarrow> string" where
  "kind_as_str UserMessage = ''user.message''"
| "kind_as_str ModelText = ''model.text''"
| "kind_as_str ModelIntent = ''model.tool_intent''"
| "kind_as_str ModelMessage = ''model.message''"
| "kind_as_str ToolObs = ''tool.observation''"
| "kind_as_str PolicyDecision = ''policy.decision''"
| "kind_as_str HookDecision = ''hook.decision''"
| "kind_as_str ToolEffectPrepared = ''tool.effect_prepared''"
| "kind_as_str Compaction = ''context.compaction''"
| "kind_as_str ContextUsage = ''context.usage''"
| "kind_as_str ToolSnapshot = ''context.tools''"
| "kind_as_str SummaryFailed = ''context.summary_failed''"
| "kind_as_str SessionKind = ''session''"
| "kind_as_str ModelReasoning = ''model.reasoning''"
| "kind_as_str InterruptKind = ''interrupt''"
| "kind_as_str MemoryWrite = ''memory.write''"
| "kind_as_str ContextFileLoaded = ''context.file_loaded''"
| "kind_as_str ContextFileBlocked = ''context.file_blocked''"
| "kind_as_str ProjectTrustNotice = ''project.trust_notice''"
| "kind_as_str AgentSpawned = ''agent.spawned''"
| "kind_as_str AgentCompleted = ''agent.completed''"
| "kind_as_str AgentFailed = ''agent.failed''"
| "kind_as_str AgentCancelled = ''agent.cancelled''"
| "kind_as_str AgentDelivered = ''agent.delivered''"
| "kind_as_str AgentPatch = ''agent.patch''"
| "kind_as_str AgentApplied = ''agent.applied''"
| "kind_as_str ProtectedApplied = ''protected.applied''"
| "kind_as_str TaskEnded = ''task.ended''"

definition kind_parse :: "string \<Rightarrow> event_kind option" where
  "kind_parse s =
     (if s = ''user.message'' then Some UserMessage
      else if s = ''model.text'' then Some ModelText
      else if s = ''model.tool_intent'' then Some ModelIntent
      else if s = ''model.message'' then Some ModelMessage
      else if s = ''tool.observation'' then Some ToolObs
      else if s = ''policy.decision'' then Some PolicyDecision
      else if s = ''hook.decision'' then Some HookDecision
      else if s = ''tool.effect_prepared'' then Some ToolEffectPrepared
      else if s = ''context.compaction'' then Some Compaction
      else if s = ''context.usage'' then Some ContextUsage
      else if s = ''context.tools'' then Some ToolSnapshot
      else if s = ''context.summary_failed'' then Some SummaryFailed
      else if s = ''session'' then Some SessionKind
      else if s = ''model.reasoning'' then Some ModelReasoning
      else if s = ''interrupt'' then Some InterruptKind
      else if s = ''memory.write'' then Some MemoryWrite
      else if s = ''context.file_loaded'' then Some ContextFileLoaded
      else if s = ''context.file_blocked'' then Some ContextFileBlocked
      else if s = ''project.trust_notice'' then Some ProjectTrustNotice
      else if s = ''agent.spawned'' then Some AgentSpawned
      else if s = ''agent.completed'' then Some AgentCompleted
      else if s = ''agent.failed'' then Some AgentFailed
      else if s = ''agent.cancelled'' then Some AgentCancelled
      else if s = ''agent.delivered'' then Some AgentDelivered
      else if s = ''agent.patch'' then Some AgentPatch
      else if s = ''agent.applied'' then Some AgentApplied
      else if s = ''protected.applied'' then Some ProtectedApplied
      else if s = ''task.ended'' then Some TaskEnded
      else None)"

lemma kind_parse_as_str [simp]: "kind_parse (kind_as_str k) = Some k"
  by (cases k) (simp_all add: kind_parse_def)

lemma kind_as_str_eq [simp]: "kind_as_str a = kind_as_str b \<longleftrightarrow> a = b"
  by (metis kind_parse_as_str option.inject)

section \<open>Events\<close>

text \<open>\<open>ts\<close> is the bit pattern of the \<open>f64\<close>, which is what is stored and hashed.\<close>

record event =
  ev_id :: string
  ev_session :: string
  ev_parent :: "string option"
  ev_kind :: event_kind
  ev_payload :: json
  ev_trust :: trust_label
  ev_source :: string
  ev_prev :: string
  ev_version :: "8 word"
  ev_ts :: "64 word"

definition EVENT_HASH_VERSION :: "8 word" where
  "EVENT_HASH_VERSION = 2"

text \<open>\<open>[0u8; 32]\<close>, the hash before the first event.\<close>

definition genesis :: string where
  "genesis = replicate 32 (CHR 0x00)"

text \<open>\<open>Event::new\<close> with the ULID and the time it takes from the machine.\<close>

definition event_new ::
  "string \<Rightarrow> 64 word \<Rightarrow> string \<Rightarrow> event_kind \<Rightarrow> json \<Rightarrow> trust_label \<Rightarrow> event" where
  "event_new ulid ts session kind payload trust =
     \<lparr>ev_id = ulid, ev_session = session, ev_parent = None, ev_kind = kind, ev_payload = payload, ev_trust = trust,
      ev_source = ''kernel'', ev_prev = genesis, ev_version = EVENT_HASH_VERSION, ev_ts = ts\<rparr>"

definition is_from_person :: "event \<Rightarrow> bool" where
  "is_from_person e \<longleftrightarrow> ev_kind e = UserMessage \<and> ev_trust e = User \<and> json_get (ev_payload e) ''hook'' = None"

definition shown_text :: "event \<Rightarrow> string \<times> string option" where
  "shown_text e = shown_payload (ev_payload e) (is_from_person e)"

definition about_json :: "output_reference \<Rightarrow> json" where
  "about_json a = json_obj [(''artifact_id'', JStr (artifact_id a)), (''revision_id'', JStr (revision_id a)),
     (''label'', JStr (ref_label a)), (''lead'', JInt (int (ref_lead a)))]"

text \<open>\<open>ser\<close> is the derived serialisation of the attachments.\<close>

definition user_input_message ::
  "(media_part list \<Rightarrow> json) \<Rightarrow> string \<Rightarrow> 64 word \<Rightarrow> string \<Rightarrow> message \<Rightarrow> event" where
  "user_input_message ser ulid ts session m =
     (let trust = (case msg_trust m of Some t \<Rightarrow> t | None \<Rightarrow> User);
          p0 = json_obj [(''text'', JStr (msg_content m))];
          p1 = (if msg_media m \<noteq> [] then json_set ''attachments'' (ser (msg_media m)) p0 else p0);
          p2 = (case msg_prefix m of
                  Some lead_text \<Rightarrow> if trust = User then json_set ''instruction_prefix'' (JStr lead_text) p1 else p1
                | None \<Rightarrow> p1);
          p3 = (case msg_about m of
                  Some about \<Rightarrow> if trust = User then json_set ''about'' (about_json about) p2 else p2
                | None \<Rightarrow> p2)
      in event_new ulid ts session UserMessage p3 trust)"

definition user_input_retry ::
  "string \<Rightarrow> 64 word \<Rightarrow> string \<Rightarrow> string \<Rightarrow> trust_label \<Rightarrow> string \<Rightarrow> event" where
  "user_input_retry ulid ts session t trust retry_of =
     event_new ulid ts session UserMessage (json_obj [(''text'', JStr t), (''retry_of'', JStr retry_of)]) trust"

section \<open>The chain\<close>

text \<open>\<open>to_le_bytes\<close>: the \<open>k\<close> bytes of a number, least significant first.\<close>

definition le_bytes :: "nat \<Rightarrow> nat \<Rightarrow> string" where
  "le_bytes k n = map (\<lambda>i. char_of (n div 256 ^ i)) [0..<k]"

definition framed :: "string \<Rightarrow> string" where
  "framed bytes = le_bytes 8 (length bytes) @ bytes"

definition full_record :: "(json \<Rightarrow> string) \<Rightarrow> string \<Rightarrow> event \<Rightarrow> string" where
  "full_record show prev e =
     ''medha.event-chain.v2'' @ [CHR 0x00] @ [char_of (unat (ev_version e))] @ prev @ ev_prev e
     @ framed (ev_id e) @ framed (ev_session e)
     @ (case ev_parent e of Some p \<Rightarrow> [CHR 0x01] @ framed p | None \<Rightarrow> [CHR 0x00])
     @ framed (kind_as_str (ev_kind e)) @ framed (show (ev_payload e)) @ framed (trust_as_str (ev_trust e))
     @ framed (ev_source e) @ le_bytes 8 (unat (ev_ts e))"

definition legacy_record :: "(json \<Rightarrow> string) \<Rightarrow> string \<Rightarrow> event \<Rightarrow> string" where
  "legacy_record show prev e =
     prev @ kind_as_str (ev_kind e) @ ev_session e @ show (ev_payload e) @ le_bytes 8 (unat (ev_ts e))"

definition unsupported_record :: "string \<Rightarrow> event \<Rightarrow> string" where
  "unsupported_record prev e = ''medha.event-chain.unsupported'' @ [char_of (unat (ev_version e))] @ prev"

definition chain_record :: "(json \<Rightarrow> string) \<Rightarrow> string \<Rightarrow> event \<Rightarrow> string" where
  "chain_record show prev e =
     (if ev_version e = 1 then legacy_record show prev e
      else if ev_version e = EVENT_HASH_VERSION then full_record show prev e
      else unsupported_record prev e)"

definition chain_hash :: "(string \<Rightarrow> string) \<Rightarrow> (json \<Rightarrow> string) \<Rightarrow> string \<Rightarrow> event \<Rightarrow> string" where
  "chain_hash sha show prev e = sha (chain_record show prev e)"

text \<open>\<open>verify_chain\<close>: the index and the id of the first event whose link is broken.\<close>

fun verify_from ::
  "(string \<Rightarrow> string) \<Rightarrow> (json \<Rightarrow> string) \<Rightarrow> string \<Rightarrow> nat \<Rightarrow> event list \<Rightarrow> (nat \<times> string) option" where
  "verify_from sha show prev index [] = None"
| "verify_from sha show prev index (e # es) =
     (if ev_prev e \<noteq> prev then Some (index, ev_id e)
      else verify_from sha show (chain_hash sha show prev e) (Suc index) es)"

definition verify_chain ::
  "(string \<Rightarrow> string) \<Rightarrow> (json \<Rightarrow> string) \<Rightarrow> event list \<Rightarrow> (nat \<times> string) option" where
  "verify_chain sha show es = verify_from sha show genesis 0 es"

section \<open>The in-memory log\<close>

record memory_log =
  log_inner :: "event list"
  log_last :: string

definition log_new :: memory_log where
  "log_new = \<lparr>log_inner = [], log_last = genesis\<rparr>"

definition log_append ::
  "(string \<Rightarrow> string) \<Rightarrow> (json \<Rightarrow> string) \<Rightarrow> event \<Rightarrow> memory_log \<Rightarrow> event \<times> memory_log" where
  "log_append sha show e log =
     (let e' = e\<lparr>ev_prev := log_last log\<rparr>
      in (e', \<lparr>log_inner = log_inner log @ [e'], log_last = chain_hash sha show (log_last log) e'\<rparr>))"

definition log_events :: "string \<Rightarrow> memory_log \<Rightarrow> event list" where
  "log_events session log = filter (\<lambda>e. ev_session e = session) (log_inner log)"

definition cut_index :: "event list \<Rightarrow> string \<Rightarrow> nat option" where
  "cut_index es at_event = position (\<lambda>e. ev_id e = at_event) es"

section \<open>Lemmas\<close>

subsection \<open>The encoding is unambiguous\<close>

lemma le_bytes_length [simp]: "length (le_bytes k n) = k"
  by (simp add: le_bytes_def)

lemma le_bytes_Suc: "le_bytes (Suc k) n = char_of n # le_bytes k (n div 256)"
  by (simp add: le_bytes_def upt_conv_Cons map_Suc_upt [symmetric] div_mult2_eq del: upt_Suc)

lemma le_bytes_inj: "le_bytes k m = le_bytes k n \<Longrightarrow> m < 256 ^ k \<Longrightarrow> n < 256 ^ k \<Longrightarrow> m = n"
proof (induction k arbitrary: m n)
  case (Suc k)
  have "char_of m = (char_of n :: char)" "le_bytes k (m div 256) = le_bytes k (n div 256)"
    using Suc.prems(1) by (simp_all add: le_bytes_Suc)
  then have "m mod 256 = n mod 256" "m div 256 = n div 256"
    using Suc.IH [of "m div 256" "n div 256"] Suc.prems(2,3)
    by (simp_all add: char_of_eq_iff less_mult_imp_div_less mult.commute take_bit_eq_mod)
  then show ?case by (metis div_mult_mod_eq)
qed simp

lemma framed_inj:
  assumes "framed a @ x = framed b @ y" "length a < 2 ^ 64" "length b < 2 ^ 64"
  shows "a = b \<and> x = y"
proof -
  have "le_bytes 8 (length a) = le_bytes 8 (length b)" "a @ x = b @ y"
    using assms(1) by (simp_all add: framed_def)
  moreover have "(256 :: nat) ^ 8 = 2 ^ 64" by simp
  ultimately have "length a = length b" using le_bytes_inj assms(2,3) by metis
  then show ?thesis using \<open>a @ x = b @ y\<close> by simp
qed

text \<open>The sizes of an event: hashes of 32 bytes, and texts whose length fits \<open>u64\<close>.\<close>

definition event_ok :: "(json \<Rightarrow> string) \<Rightarrow> event \<Rightarrow> bool" where
  "event_ok show e \<longleftrightarrow> ev_version e = EVENT_HASH_VERSION \<and> length (ev_id e) < 2 ^ 64 \<and> length (ev_session e) < 2 ^ 64 \<and>
     (case ev_parent e of Some p \<Rightarrow> length p < 2 ^ 64 | None \<Rightarrow> True) \<and>
     length (show (ev_payload e)) < 2 ^ 64 \<and> length (ev_source e) < 2 ^ 64"

text \<open>Equal as stored: every field, and the payload as the bytes it is written as.\<close>

definition same_stored :: "(json \<Rightarrow> string) \<Rightarrow> event \<Rightarrow> event \<Rightarrow> bool" where
  "same_stored show a b \<longleftrightarrow> b\<lparr>ev_payload := ev_payload a\<rparr> = a \<and> show (ev_payload a) = show (ev_payload b)"

lemma kind_as_str_short: "length (kind_as_str k) < 2 ^ 64"
  by (cases k) simp_all

lemma trust_as_str_short: "length (trust_as_str t) < 2 ^ 64"
  by (cases t) simp_all

lemma trust_as_str_eq [simp]: "trust_as_str a = trust_as_str b \<longleftrightarrow> a = b"
  by (metis trust_parse_as_str option.inject)

lemma parent_inj:
  assumes "(case p of Some s \<Rightarrow> [CHR 0x01] @ framed s | None \<Rightarrow> [CHR 0x00]) @ x =
      (case q of Some s \<Rightarrow> [CHR 0x01] @ framed s | None \<Rightarrow> [CHR 0x00]) @ y"
    and "case p of Some s \<Rightarrow> length s < 2 ^ 64 | None \<Rightarrow> True" "case q of Some s \<Rightarrow> length s < 2 ^ 64 | None \<Rightarrow> True"
  shows "p = q \<and> x = y"
proof (cases p; cases q)
  fix s s' assume "p = Some s" "q = Some s'"
  then show ?thesis using assms framed_inj [of s x s' y] by simp
qed (use assms in auto)

lemma full_record_inj:
  assumes eq: "full_record show prev a = full_record show prev' b"
    and ok: "event_ok show a" "event_ok show b"
    and len: "length prev = 32" "length prev' = 32" "length (ev_prev a) = 32" "length (ev_prev b) = 32"
  shows "prev = prev' \<and> same_stored show a b"
proof -
  note small = ok [unfolded event_ok_def]
  let ?p = "\<lambda>e. case ev_parent e of Some p \<Rightarrow> [CHR 0x01] @ framed p | None \<Rightarrow> [CHR 0x00]"
  have "prev @ ev_prev a @ framed (ev_id a) @ framed (ev_session a) @ ?p a
      @ framed (kind_as_str (ev_kind a)) @ framed (show (ev_payload a)) @ framed (trust_as_str (ev_trust a))
      @ framed (ev_source a) @ le_bytes 8 (unat (ev_ts a)) =
    prev' @ ev_prev b @ framed (ev_id b) @ framed (ev_session b) @ ?p b
      @ framed (kind_as_str (ev_kind b)) @ framed (show (ev_payload b)) @ framed (trust_as_str (ev_trust b))
      @ framed (ev_source b) @ le_bytes 8 (unat (ev_ts b))"
    using eq unfolding full_record_def by simp
  then have h: "prev = prev'" "ev_prev a = ev_prev b"
    and r1: "framed (ev_id a) @ framed (ev_session a) @ ?p a
      @ framed (kind_as_str (ev_kind a)) @ framed (show (ev_payload a)) @ framed (trust_as_str (ev_trust a))
      @ framed (ev_source a) @ le_bytes 8 (unat (ev_ts a)) =
    framed (ev_id b) @ framed (ev_session b) @ ?p b
      @ framed (kind_as_str (ev_kind b)) @ framed (show (ev_payload b)) @ framed (trust_as_str (ev_trust b))
      @ framed (ev_source b) @ le_bytes 8 (unat (ev_ts b))"
    using len by simp_all
  note f1 = framed_inj [OF r1] and f2 = framed_inj [OF conjunct2 [OF framed_inj [OF r1]]]
  have i: "ev_id a = ev_id b" and r2: "framed (ev_session a) @ ?p a
      @ framed (kind_as_str (ev_kind a)) @ framed (show (ev_payload a)) @ framed (trust_as_str (ev_trust a))
      @ framed (ev_source a) @ le_bytes 8 (unat (ev_ts a)) = framed (ev_session b) @ ?p b
      @ framed (kind_as_str (ev_kind b)) @ framed (show (ev_payload b)) @ framed (trust_as_str (ev_trust b))
      @ framed (ev_source b) @ le_bytes 8 (unat (ev_ts b))"
    using f1 small by auto
  have s: "ev_session a = ev_session b" and r3: "?p a
      @ framed (kind_as_str (ev_kind a)) @ framed (show (ev_payload a)) @ framed (trust_as_str (ev_trust a))
      @ framed (ev_source a) @ le_bytes 8 (unat (ev_ts a)) = ?p b
      @ framed (kind_as_str (ev_kind b)) @ framed (show (ev_payload b)) @ framed (trust_as_str (ev_trust b))
      @ framed (ev_source b) @ le_bytes 8 (unat (ev_ts b))"
    using framed_inj [OF r2] small by auto
  from parent_inj [OF r3] small have p: "ev_parent a = ev_parent b" and
    r4: "framed (kind_as_str (ev_kind a)) @ framed (show (ev_payload a)) @ framed (trust_as_str (ev_trust a))
      @ framed (ev_source a) @ le_bytes 8 (unat (ev_ts a)) =
      framed (kind_as_str (ev_kind b)) @ framed (show (ev_payload b)) @ framed (trust_as_str (ev_trust b))
      @ framed (ev_source b) @ le_bytes 8 (unat (ev_ts b))"
    by auto
  from framed_inj [OF r4 kind_as_str_short kind_as_str_short] have k: "ev_kind a = ev_kind b" and
    r5: "framed (show (ev_payload a)) @ framed (trust_as_str (ev_trust a))
      @ framed (ev_source a) @ le_bytes 8 (unat (ev_ts a)) = framed (show (ev_payload b)) @ framed (trust_as_str (ev_trust b))
      @ framed (ev_source b) @ le_bytes 8 (unat (ev_ts b))"
    by auto
  from framed_inj [OF r5] small have w: "show (ev_payload a) = show (ev_payload b)" and
    r6: "framed (trust_as_str (ev_trust a)) @ framed (ev_source a) @ le_bytes 8 (unat (ev_ts a)) =
      framed (trust_as_str (ev_trust b)) @ framed (ev_source b) @ le_bytes 8 (unat (ev_ts b))"
    by auto
  from framed_inj [OF r6 trust_as_str_short trust_as_str_short] have t: "ev_trust a = ev_trust b" and
    r7: "framed (ev_source a) @ le_bytes 8 (unat (ev_ts a)) = framed (ev_source b) @ le_bytes 8 (unat (ev_ts b))"
    by auto
  from framed_inj [OF r7] small have src: "ev_source a = ev_source b" and
    r8: "le_bytes 8 (unat (ev_ts a)) = le_bytes 8 (unat (ev_ts b))"
    by auto
  have b64: "unat x < 256 ^ 8" for x :: "64 word" using unsigned_less [of x] by simp
  have ts: "ev_ts a = ev_ts b" by (simp add: word_unat_eq_iff le_bytes_inj [OF r8 b64 b64])
  show ?thesis
    using h i s p k w t src ts small by (cases a; cases b) (simp add: same_stored_def)
qed

subsection \<open>Appending keeps the chain whole\<close>

fun head_from :: "(string \<Rightarrow> string) \<Rightarrow> (json \<Rightarrow> string) \<Rightarrow> string \<Rightarrow> event list \<Rightarrow> string" where
  "head_from sha show prev [] = prev"
| "head_from sha show prev (e # es) = head_from sha show (chain_hash sha show prev e) es"

text \<open>The byte strings that were hashed for a log.\<close>

fun hashed_from :: "(string \<Rightarrow> string) \<Rightarrow> (json \<Rightarrow> string) \<Rightarrow> string \<Rightarrow> event list \<Rightarrow> string list" where
  "hashed_from sha show prev [] = []"
| "hashed_from sha show prev (e # es) = chain_record show prev e # hashed_from sha show (chain_hash sha show prev e) es"

lemma head_from_append: "head_from sha show prev (es @ fs) = head_from sha show (head_from sha show prev es) fs"
  by (induction es arbitrary: prev) simp_all

lemma hashed_from_append:
  "hashed_from sha show prev (es @ fs) = hashed_from sha show prev es @ hashed_from sha show (head_from sha show prev es) fs"
  by (induction es arbitrary: prev) simp_all

lemma verify_from_append:
  "verify_from sha show prev n (es @ fs) =
     (case verify_from sha show prev n es of
        Some err \<Rightarrow> Some err
      | None \<Rightarrow> verify_from sha show (head_from sha show prev es) (n + length es) fs)"
  by (induction es arbitrary: prev n) (auto split: option.split)

definition log_inv :: "(string \<Rightarrow> string) \<Rightarrow> (json \<Rightarrow> string) \<Rightarrow> memory_log \<Rightarrow> bool" where
  "log_inv sha show log \<longleftrightarrow>
     verify_chain sha show (log_inner log) = None \<and> log_last log = head_from sha show genesis (log_inner log)"

lemma log_new_inv: "log_inv sha show log_new"
  by (simp add: log_inv_def log_new_def verify_chain_def)

lemma log_append_inv: "log_inv sha show log \<Longrightarrow> log_inv sha show (snd (log_append sha show e log))"
  by (simp add: log_inv_def log_append_def verify_chain_def Let_def verify_from_append head_from_append)

lemma chain_record_current: "event_ok show e \<Longrightarrow> chain_record show prev e = full_record show prev e"
  by (simp add: chain_record_def event_ok_def EVENT_HASH_VERSION_def)

lemma head_length:
  assumes "\<And>x. length (sha x) = 32" "length prev = 32"
  shows "length (head_from sha show prev es) = 32"
  using assms(2) by (induction es arbitrary: prev) (simp_all add: chain_hash_def assms(1))

lemma verified_last:
  assumes "verify_from sha show prev n (es @ [e]) = None"
  shows "verify_from sha show prev n es = None" "ev_prev e = head_from sha show prev es"
  using assms by (auto simp: verify_from_append split: option.splits if_splits)

lemma pinned:
  assumes sha: "\<And>x. length (sha x) = 32"
    and no: "\<And>x y. x \<in> set (hashed_from sha show genesis xs) \<Longrightarrow> y \<in> set (hashed_from sha show genesis ys) \<Longrightarrow>
      sha x = sha y \<Longrightarrow> x = y"
    and zero: "\<And>x. x \<in> set (hashed_from sha show genesis xs) \<union> set (hashed_from sha show genesis ys) \<Longrightarrow> sha x \<noteq> genesis"
    and ok: "list_all (event_ok show) xs" "list_all (event_ok show) ys"
    and ver: "verify_from sha show genesis 0 xs = None" "verify_from sha show genesis 0 ys = None"
    and head: "head_from sha show genesis xs = head_from sha show genesis ys"
  shows "list_all2 (same_stored show) xs ys"
  using no zero ok ver head
proof (induction xs arbitrary: ys rule: rev_induct)
  case Nil
  show ?case
  proof (cases ys rule: rev_cases)
    case (snoc ys' b)
    have "sha (chain_record show (head_from sha show genesis ys') b) \<noteq> genesis"
      by (rule Nil.prems(2)) (simp add: snoc hashed_from_append)
    then show ?thesis using Nil.prems(7) by (simp add: snoc head_from_append chain_hash_def)
  qed simp
next
  case (snoc a xs)
  show ?case
  proof (cases ys rule: rev_cases)
    case Nil
    then show ?thesis using snoc.prems(2,7) by (auto simp: head_from_append hashed_from_append chain_hash_def)
  next
    case (snoc ys' b)
    let ?h = "head_from sha show genesis xs" and ?h' = "head_from sha show genesis ys'"
    have ok': "event_ok show a" "event_ok show b" using snoc.prems(3,4) snoc by simp_all
    have la: "verify_from sha show genesis 0 xs = None" "ev_prev a = ?h"
      and lb: "verify_from sha show genesis 0 ys' = None" "ev_prev b = ?h'"
      using verified_last snoc.prems(5,6) snoc by blast+
    have "length genesis = 32" by (simp add: genesis_def)
    note len = head_length [OF sha this]
    have "sha (chain_record show ?h a) = sha (chain_record show ?h' b)"
      using snoc.prems(7) snoc by (simp add: head_from_append chain_hash_def)
    then have "chain_record show ?h a = chain_record show ?h' b"
      by (rule snoc.prems(1) [rotated 2]) (simp_all add: snoc hashed_from_append)
    then have "?h = ?h' \<and> same_stored show a b"
      using full_record_inj [OF _ ok'] len la(2) lb(2) by (simp add: chain_record_current ok')
    moreover have "list_all2 (same_stored show) xs ys'"
    proof (rule snoc.IH)
      show "?h = ?h'" using calculation by simp
    qed (use snoc.prems(1-4) snoc la lb in \<open>auto simp: hashed_from_append\<close>)
    ultimately show ?thesis by (simp add: snoc list_all2_appendI)
  qed
qed

section \<open>Properties\<close>

text \<open>C8. The head of the chain pins the whole log: of two logs of current events that both verify and end in the same
  hash, every event is the same in every stored field and in the same place, unless the hash function
  was broken, that is two of the byte strings hashed for them collide or one hashes to the zero hash.\<close>

theorem chain_head_pins_log:
  assumes "\<And>x. length (sha x) = 32"
    and "\<And>x y. x \<in> set (hashed_from sha show genesis xs) \<Longrightarrow> y \<in> set (hashed_from sha show genesis ys) \<Longrightarrow>
      sha x = sha y \<Longrightarrow> x = y"
    and "\<And>x. x \<in> set (hashed_from sha show genesis xs) \<union> set (hashed_from sha show genesis ys) \<Longrightarrow> sha x \<noteq> genesis"
    and "list_all (event_ok show) xs" "list_all (event_ok show) ys"
    and "verify_chain sha show xs = None" "verify_chain sha show ys = None"
    and "head_from sha show genesis xs = head_from sha show genesis ys"
  shows "list_all2 (same_stored show) xs ys"
  by (rule pinned [OF assms(1-5) assms(6,7) [unfolded verify_chain_def] assms(8)])

text \<open>The in-memory log stays verifiable: after any appends, from any senders and for any sessions, the whole log
  verifies, its events are the appended ones in order with only the link filled in, and reading one
  session gives its events in that order.\<close>

theorem appended_log_verifies:
  fixes sha pr es
  defines "log \<equiv> fold (\<lambda>e l. snd (log_append sha pr e l)) es log_new"
  shows "verify_chain sha pr (log_inner log) = None \<and>
    map (\<lambda>e. e\<lparr>ev_prev := genesis\<rparr>) (log_inner log) = map (\<lambda>e. e\<lparr>ev_prev := genesis\<rparr>) es \<and>
    map ev_id (log_events s log) = map ev_id (filter (\<lambda>e. ev_session e = s) es)"
proof -
  have all: "log_inv sha pr log \<and> map (\<lambda>e. e\<lparr>ev_prev := genesis\<rparr>) (log_inner log) = map (\<lambda>e. e\<lparr>ev_prev := genesis\<rparr>) es \<and>
      map ev_id (log_events s log) = map ev_id (filter (\<lambda>e. ev_session e = s) es)"
    unfolding log_def
  proof (induction es rule: rev_induct)
    case Nil
    show ?case by (simp add: log_new_inv) (simp add: log_new_def log_events_def)
  next
    case (snoc e es)
    then show ?case
      using log_append_inv [of sha pr "fold (\<lambda>e l. snd (log_append sha pr e l)) es log_new" e]
      by (simp add: log_append_def Let_def log_events_def)
  qed
  then show ?thesis by (simp add: log_inv_def)
qed

definition flat_sha :: "string \<Rightarrow> string" where
  "flat_sha x = replicate 32 (CHR 0x01)"

definition one_event :: event where
  "one_event = event_new ''01'' 0 ''S'' UserMessage JNull User"

theorem chain_head_pins_log_witness:
  "list_all2 (same_stored (\<lambda>_. ''null'')) [one_event] [one_event\<lparr>ev_payload := JBool True\<rparr>]"
proof (rule chain_head_pins_log [where sha = flat_sha])
  show "length (flat_sha x) = 32" for x by (simp add: flat_sha_def)
  show "flat_sha x \<noteq> genesis" for x by (simp add: flat_sha_def genesis_def)
qed (simp_all add: one_event_def event_new_def chain_record_def full_record_def event_ok_def EVENT_HASH_VERSION_def
    verify_chain_def chain_hash_def flat_sha_def)

end
