(* ===== verification/Egress.thy ===== *)
theory Egress
  imports Redact EventLog "HOL-Library.Product_Lexorder" "HOL-Library.Word"
begin

text \<open>
  \<open>crates/kernel/src/egress.rs\<close>: what the model may send out after the chat has read web text. A payload
  that holds a known secret, or 256 consecutive bytes of a file read in this chat, is blocked until a
  person approves that exact payload, once.

  \<open>egress_env\<close> holds what comes from outside: the JSON text of a payload, SHA-256 (of a payload with
  its destination, and of a file), the regular expressions of \<open>redact.rs\<close>, and the process-wide values.
\<close>

section \<open>A common run of 256 bytes\<close>

definition FILE_CHUNK :: nat where
  "FILE_CHUNK = 256"

definition FILE_BYTES :: nat where
  "FILE_BYTES = 8 * 1024 * 1024"

definition BLOCKS :: nat where
  "BLOCKS = 64"

definition byte_word :: "char \<Rightarrow> 64 word" where
  "byte_word c = of_nat (of_char c)"

definition roll_step :: "64 word \<Rightarrow> char \<Rightarrow> 64 word" where
  "roll_step h c = h * 257 + byte_word c"

definition roll_power :: "64 word" where
  "roll_power = fold (\<lambda>_ v. v * 257) [1..<FILE_CHUNK] 1"

text \<open>The offsets from \<open>offset\<close> on: \<open>count\<close> of them left, \<open>hash\<close> the hash before this offset.\<close>

fun roll_from :: "string \<Rightarrow> 64 word \<Rightarrow> nat \<Rightarrow> nat \<Rightarrow> (nat \<times> 64 word) list" where
  "roll_from bytes hash offset 0 = []"
| "roll_from bytes hash offset (Suc count) =
     (let h = (if 0 < offset
               then (hash - byte_word (bytes ! (offset - 1)) * roll_power) * 257
                      + byte_word (bytes ! (offset + FILE_CHUNK - 1))
               else hash)
      in (offset, h) # roll_from bytes h (Suc offset) count)"

definition rolling :: "string \<Rightarrow> (nat \<times> 64 word) list" where
  "rolling bytes =
     roll_from bytes (foldl roll_step 0 (take FILE_CHUNK bytes)) 0 (length bytes - (FILE_CHUNK - 1))"

text \<open>\<open>windows[partition_point..]\<close> of the sorted windows is what is left after those below the hash.\<close>

definition shared_chunk :: "string \<Rightarrow> string \<Rightarrow> bool" where
  "shared_chunk payload file =
     (if length payload < FILE_CHUNK \<or> length file < FILE_CHUNK then False
      else
        let windows = sort (map (\<lambda>(offset, hash). (hash, offset)) (rolling payload)) in
        list_ex (\<lambda>(offset, hash).
            list_ex (\<lambda>(_, candidate).
                take FILE_CHUNK (drop candidate payload) = take FILE_CHUNK (drop offset file))
              (takeWhile (\<lambda>(v, _). v = hash) (dropWhile (\<lambda>(v, _). v < hash) windows)))
          (rolling file))"

subsection \<open>The rolling hash is the hash of the window\<close>

definition window_hash :: "string \<Rightarrow> 64 word" where
  "window_hash w = foldl roll_step 0 w"

definition window_at :: "string \<Rightarrow> nat \<Rightarrow> string" where
  "window_at bytes i = take FILE_CHUNK (drop i bytes)"

lemma FILE_CHUNK_pos [simp]: "0 < FILE_CHUNK"
  by (simp add: FILE_CHUNK_def)

lemma foldl_roll: "foldl roll_step h w = h * 257 ^ length w + foldl roll_step 0 w"
proof (induction w arbitrary: h)
  case (Cons c w)
  have "foldl roll_step h (c # w) = roll_step h c * 257 ^ length w + foldl roll_step 0 w"
    using Cons [of "roll_step h c"] by simp
  moreover have "foldl roll_step 0 (c # w) = roll_step 0 c * 257 ^ length w + foldl roll_step 0 w"
    using Cons [of "roll_step 0 c"] by simp
  ultimately show ?case by (simp add: roll_step_def [of h c] roll_step_def [of 0 c] algebra_simps)
qed simp

lemma fold_power: "fold (\<lambda>_ v. v * 257) xs (a :: 64 word) = a * 257 ^ length xs"
  by (induction xs arbitrary: a) (simp_all add: algebra_simps)

lemma roll_power_eq: "roll_power = 257 ^ (FILE_CHUNK - 1)"
  by (simp add: roll_power_def fold_power)

lemma window_roll:
  assumes "length w = FILE_CHUNK - 1"
  shows "(window_hash (c # w) - byte_word c * roll_power) * 257 + byte_word d = window_hash (w @ [d])"
proof -
  have "window_hash (c # w) = byte_word c * 257 ^ (FILE_CHUNK - 1) + window_hash w"
    using foldl_roll [of "roll_step 0 c" w] assms by (simp add: window_hash_def roll_step_def)
  then show ?thesis by (simp add: roll_power_eq window_hash_def roll_step_def)
qed

lemma window_next:
  assumes "Suc i + FILE_CHUNK \<le> length bytes"
  shows "\<exists>w. length w = FILE_CHUNK - 1 \<and> window_at bytes i = bytes ! i # w \<and>
    window_at bytes (Suc i) = w @ [bytes ! (i + FILE_CHUNK)]"
proof (intro exI conjI)
  let ?w = "take (FILE_CHUNK - 1) (drop (Suc i) bytes)"
  have i: "i < length bytes" using assms by simp
  show "length ?w = FILE_CHUNK - 1" using assms by simp
  have "drop i bytes = bytes ! i # drop (Suc i) bytes" using i by (simp add: Cons_nth_drop_Suc)
  then show "window_at bytes i = bytes ! i # ?w" by (simp add: window_at_def take_Cons')
  have "FILE_CHUNK - 1 < length bytes - Suc i" using assms FILE_CHUNK_pos by arith
  then have "take (Suc (FILE_CHUNK - 1)) (drop (Suc i) bytes) = ?w @ [drop (Suc i) bytes ! (FILE_CHUNK - 1)]"
    by (intro take_Suc_conv_app_nth) simp
  moreover have "Suc (i + (FILE_CHUNK - Suc 0)) = i + FILE_CHUNK" using FILE_CHUNK_pos by arith
  ultimately show "window_at bytes (Suc i) = ?w @ [bytes ! (i + FILE_CHUNK)]"
    using assms by (simp add: window_at_def)
qed

lemma roll_from_windows:
  "offset + count + (FILE_CHUNK - 1) \<le> length bytes \<Longrightarrow>
   hash = (if offset = 0 then window_hash (window_at bytes 0) else window_hash (window_at bytes (offset - 1))) \<Longrightarrow>
   roll_from bytes hash offset count = map (\<lambda>i. (i, window_hash (window_at bytes i))) [offset..<offset + count]"
proof (induction count arbitrary: offset hash)
  case (Suc count)
  let ?h = "if 0 < offset
      then (hash - byte_word (bytes ! (offset - 1)) * roll_power) * 257 + byte_word (bytes ! (offset + FILE_CHUNK - 1))
      else hash"
  have h: "?h = window_hash (window_at bytes offset)"
  proof (cases offset)
    case 0
    then show ?thesis using Suc.prems(2) by simp
  next
    case (Suc i)
    have "Suc i + FILE_CHUNK \<le> length bytes" using Suc.prems(1) Suc FILE_CHUNK_pos by linarith
    then obtain w where "length w = FILE_CHUNK - 1" "window_at bytes i = bytes ! i # w"
      "window_at bytes (Suc i) = w @ [bytes ! (i + FILE_CHUNK)]"
      using window_next by blast
    then show ?thesis using window_roll [of w "bytes ! i" "bytes ! (i + FILE_CHUNK)"] Suc Suc.prems(2) by simp
  qed
  have "roll_from bytes ?h (Suc offset) count =
      map (\<lambda>i. (i, window_hash (window_at bytes i))) [Suc offset..<Suc offset + count]"
    using Suc.prems(1) by (intro Suc.IH) (simp_all only: h diff_Suc_1 add_Suc_right add_Suc if_False nat.distinct)
  then show ?case by (simp add: Let_def h upt_rec [of offset])
qed simp

lemma rolling_windows:
  assumes "FILE_CHUNK \<le> length bytes"
  shows "rolling bytes = map (\<lambda>i. (i, window_hash (window_at bytes i))) [0..<length bytes - (FILE_CHUNK - 1)]"
proof -
  have "0 + (length bytes - (FILE_CHUNK - 1)) + (FILE_CHUNK - 1) \<le> length bytes" using assms FILE_CHUNK_pos by linarith
  from roll_from_windows [OF this, of "window_hash (window_at bytes 0)"] show ?thesis
    by (simp add: rolling_def window_hash_def window_at_def)
qed

lemma sorted_run:
  fixes xs :: "('a :: linorder \<times> 'b :: linorder) list"
  assumes "sorted xs"
  shows "set (takeWhile (\<lambda>(v, _). v = h) (dropWhile (\<lambda>(v, _). v < h) xs)) = {p \<in> set xs. fst p = h}"
  using assms
proof (induction xs)
  case (Cons p xs)
  obtain v o' where p: "p = (v, o')" by (cases p)
  have le: "v \<le> fst q" if "q \<in> set xs" for q
    using Cons.prems that p by (cases q) (auto simp: less_eq_prod_def)
  consider "v < h" | "v = h" | "h < v" by fastforce
  then show ?case
  proof cases
    case 1
    then show ?thesis using Cons p by auto
  next
    case 2
    have all: "\<not> (\<lambda>(v, _). v < h) q" if "q \<in> set xs" for q using le [OF that] 2 by (cases q) simp
    have "dropWhile (\<lambda>(v, _). v < h) xs = xs"
      by (cases xs) (use all in auto)
    then show ?thesis using Cons 2 p by auto
  next
    case 3
    then have "\<forall>q \<in> set (p # xs). fst q \<noteq> h" using le p by fastforce
    then show ?thesis using 3 p by auto
  qed
qed simp

lemma shared_chunk_iff:
  "shared_chunk payload file \<longleftrightarrow>
     (\<exists>i j. i + FILE_CHUNK \<le> length payload \<and> j + FILE_CHUNK \<le> length file \<and>
        window_at payload i = window_at file j)"
proof (cases "length payload < FILE_CHUNK \<or> length file < FILE_CHUNK")
  case True
  then show ?thesis by (auto simp: shared_chunk_def)
next
  case False
  then have lens: "FILE_CHUNK \<le> length payload" "FILE_CHUNK \<le> length file" by simp_all
  have idx: "i < length b - (FILE_CHUNK - Suc 0) \<longleftrightarrow> i + FILE_CHUNK \<le> length b" if "FILE_CHUNK \<le> length b" for i and b :: string
    using that FILE_CHUNK_pos by linarith
  let ?ws = "sort (map (\<lambda>(offset, hash). (hash, offset)) (rolling payload))"
  have run: "set (takeWhile (\<lambda>(v, _). v = h) (dropWhile (\<lambda>(v, _). v < h) ?ws)) =
      {(h, i) | i. i + FILE_CHUNK \<le> length payload \<and> window_hash (window_at payload i) = h}" for h
    by (subst sorted_run [OF sorted_sort]) (auto simp: rolling_windows [OF lens(1)] image_iff idx [OF lens(1)])
  have "shared_chunk payload file \<longleftrightarrow>
      (\<exists>j. j + FILE_CHUNK \<le> length file \<and> (\<exists>i. i + FILE_CHUNK \<le> length payload \<and>
         window_hash (window_at payload i) = window_hash (window_at file j) \<and> window_at payload i = window_at file j))"
    using False
    by (auto simp: shared_chunk_def Let_def list_ex_iff run rolling_windows [OF lens(2)] idx [OF lens(2)]
        window_at_def [symmetric])
  then show ?thesis by fastforce
qed

lemma shared_chunk_sublist:
  "shared_chunk payload file \<longleftrightarrow> (\<exists>c. length c = FILE_CHUNK \<and> sublist c payload \<and> sublist c file)"
proof -
  have window: "(\<exists>i. i + FILE_CHUNK \<le> length s \<and> window_at s i = c) \<longleftrightarrow> length c = FILE_CHUNK \<and> sublist c s"
    for s c :: string
  proof
    assume "\<exists>i. i + FILE_CHUNK \<le> length s \<and> window_at s i = c"
    then show "length c = FILE_CHUNK \<and> sublist c s"
      by (auto simp: window_at_def intro: sublist_order.order_trans [OF sublist_take sublist_drop])
  next
    assume "length c = FILE_CHUNK \<and> sublist c s"
    then obtain p q where "s = p @ c @ q" "length c = FILE_CHUNK" by (auto simp: sublist_def)
    then show "\<exists>i. i + FILE_CHUNK \<le> length s \<and> window_at s i = c"
      by (intro exI [of _ "length p"]) (simp add: window_at_def)
  qed
  show ?thesis unfolding shared_chunk_iff by (metis window)
qed

section \<open>The guard of a chat\<close>

record egress_env =
  env_encode :: "json \<Rightarrow> string + string"
  env_payload_id :: "string \<Rightarrow> string \<Rightarrow> string"
  env_file_id :: "string \<Rightarrow> string"
  env_file_values :: "string \<Rightarrow> string list"
  env_is_code :: "string \<Rightarrow> bool"
  env_known :: held_values

record blocked =
  bl_review :: json
  bl_allowed :: bool
  bl_answered :: bool

record egress =
  eg_files :: "string list"
  eg_file_ids :: "string list"
  eg_bytes :: nat
  eg_secrets :: held_values
  eg_blocked :: "(string \<times> blocked) list"

definition egress_default :: egress where
  "egress_default = \<lparr>eg_files = [], eg_file_ids = [], eg_bytes = 0, eg_secrets = held_default, eg_blocked = []\<rparr>"

text \<open>The loop that forgets the oldest files until the new one, of \<open>n\<close> bytes, fits.\<close>

function forget_files :: "egress_env \<Rightarrow> nat \<Rightarrow> egress \<Rightarrow> egress" where
  "forget_files env n s =
     (if FILE_BYTES < eg_bytes s + n \<and> eg_files s \<noteq> []
      then (let oldest = hd (eg_files s) in
            forget_files env n (s\<lparr>eg_files := tl (eg_files s), eg_bytes := eg_bytes s - length oldest,
              eg_file_ids := filter (\<lambda>i. i \<noteq> env_file_id env oldest) (eg_file_ids s)\<rparr>))
      else s)"
  by pat_completeness auto

termination by (relation "measure (\<lambda>(_, _, s). length (eg_files s))") auto

declare forget_files.simps [simp del]

definition file_read :: "egress_env \<Rightarrow> string \<Rightarrow> egress \<Rightarrow> egress" where
  "file_read env content s =
     (let fid = env_file_id env content in
      if fid \<in> set (eg_file_ids s) then s
      else
        let s1 = s\<lparr>eg_secrets := fold hold (env_file_values env content) (eg_secrets s)\<rparr> in
        if length content < FILE_CHUNK \<or> FILE_BYTES < length content then s1
        else
          let s2 = forget_files env (length content) s1 in
          s2\<lparr>eg_bytes := eg_bytes s2 + length content, eg_files := eg_files s2 @ [content],
             eg_file_ids := fid # eg_file_ids s2\<rparr>)"

text \<open>\<open>restore\<close>: what a resumed chat has already read, from its log.\<close>

definition restored_read :: "event \<Rightarrow> string option" where
  "restored_read e =
     (if ev_kind e = ToolObs \<and> json_index (ev_payload e) ''tool'' = JStr ''read'' \<and> ev_trust e \<noteq> Web
      then as_str (json_index (json_index (ev_payload e) ''payload'') ''content'') else None)"

definition egress_restore :: "egress_env \<Rightarrow> event list \<Rightarrow> egress \<Rightarrow> egress" where
  "egress_restore env es s =
     fold (\<lambda>e s. case restored_read e of Some content \<Rightarrow> file_read env content s | None \<Rightarrow> s) es s"

text \<open>\<open>collect\<close>: every string of the payload, keys too.\<close>

fun collect :: "json \<Rightarrow> string list" where
  "collect (JStr t) = [t]"
| "collect (JArr items) = concat (map collect items)"
| "collect (JObj fs) = concat (map (\<lambda>f. fst f # collect (snd f)) fs)"
| "collect _ = []"

text \<open>Why a payload may not go out, if there is a reason.\<close>

definition outbound_reason :: "egress_env \<Rightarrow> egress \<Rightarrow> json \<Rightarrow> string \<Rightarrow> bool \<Rightarrow> string option" where
  "outbound_reason env s payload encoded files =
     (let strings = collect payload in
      if 1024 * 1024 < length encoded then Some ''exceeds the 1 MiB outbound inspection limit''
      else if contains_known (env_is_code env) (env_known env) encoded
        \<or> list_ex (contains_known (env_is_code env) (env_known env)) strings
        \<or> list_ex (\<lambda>v. contains_str encoded v \<or> list_ex (\<lambda>t. contains_str t v) strings) (hv_values (eg_secrets s))
      then Some ''contains a known secret value''
      else if files \<and> list_ex (\<lambda>t. list_ex (shared_chunk t) (eg_files s)) strings
      then Some ''contains at least 256 consecutive bytes from a file read in this chat''
      else None)"

definition egress_inspect ::
  "egress_env \<Rightarrow> string \<Rightarrow> json \<Rightarrow> bool \<Rightarrow> bool \<Rightarrow> egress \<Rightarrow> (string + unit) \<times> egress \<times> json option" where
  "egress_inspect env destination payload consume files s =
     (case env_encode env payload of
        Inl e \<Rightarrow> (Inl e, s, None)
      | Inr encoded \<Rightarrow>
          let pid = env_payload_id env destination encoded in
          (case map_of (eg_blocked s) pid of
             Some b \<Rightarrow>
               if bl_allowed b
               then (Inr (), (if consume then s\<lparr>eg_blocked := bt_insert pid (b\<lparr>bl_allowed := False\<rparr>) (eg_blocked s)\<rparr>
                              else s), None)
               else (Inl (''Outbound payload blocked. Approve this exact payload with /outbound allow '' @ pid), s, None)
           | None \<Rightarrow>
               (case outbound_reason env s payload encoded files of
                  None \<Rightarrow> (Inr (), s, None)
                | Some reason \<Rightarrow>
                    if BLOCKS \<le> length (eg_blocked s)
                    then (Inl ''Outbound payload blocked; the chat has reached its limit of 64 blocked payload reviews'',
                          s, None)
                    else
                      let clean = outbound_preview (env_known env) encoded (hv_values (eg_secrets s));
                          review = json_obj [(''id'', JStr pid),
                            (''destination'', JStr (outbound_preview (env_known env) destination (hv_values (eg_secrets s)))),
                            (''reason'', JStr reason), (''preview'', JStr (take_chars 2048 clean))]
                      in (Inl (''Outbound payload blocked: '' @ reason
                               @ ''. Approve this exact payload with /outbound allow '' @ pid),
                          s\<lparr>eg_blocked := bt_insert pid \<lparr>bl_review = review, bl_allowed = False, bl_answered = False\<rparr>
                              (eg_blocked s)\<rparr>,
                          Some review))))"

text \<open>\<open>check\<close>, \<open>check_tool\<close>, \<open>peek\<close> and \<open>peek_tool\<close>: only a chat that has read web text is inspected.\<close>

definition egress_looked ::
  "bool \<Rightarrow> egress_env \<Rightarrow> string \<Rightarrow> json \<Rightarrow> bool \<Rightarrow> bool \<Rightarrow> egress \<Rightarrow> (string + unit) \<times> egress \<times> json option" where
  "egress_looked tainted env destination payload consume files s =
     (if \<not> tainted then (Inr (), s, None) else egress_inspect env destination payload consume files s)"

definition egress_reviews :: "egress \<Rightarrow> json list" where
  "egress_reviews s = map (bl_review \<circ> snd) (filter (\<lambda>e. \<not> bl_answered (snd e)) (eg_blocked s))"

definition egress_redact :: "egress \<Rightarrow> string \<Rightarrow> string" where
  "egress_redact s text =
     fold (\<lambda>v out. if contains_str out v then replace_all v MARK out else out) (hv_values (eg_secrets s)) text"

definition egress_answer :: "bool \<Rightarrow> string \<Rightarrow> egress \<Rightarrow> (string + unit) \<times> egress" where
  "egress_answer allow pid s =
     (case map_of (eg_blocked s) pid of
        None \<Rightarrow> (Inl ''This blocked payload is no longer available in this chat'', s)
      | Some b \<Rightarrow> (Inr (), s\<lparr>eg_blocked := bt_insert pid (b\<lparr>bl_allowed := allow, bl_answered := True\<rparr>) (eg_blocked s)\<rparr>))"

definition egress_approve :: "string \<Rightarrow> egress \<Rightarrow> (string + unit) \<times> egress" where
  "egress_approve = egress_answer True"

definition egress_dismiss :: "string \<Rightarrow> egress \<Rightarrow> (string + unit) \<times> egress" where
  "egress_dismiss = egress_answer False"

section \<open>Invariant\<close>

definition egress_inv :: "egress \<Rightarrow> bool" where
  "egress_inv s \<longleftrightarrow>
     eg_bytes s = sum_list (map length (eg_files s)) \<and> eg_bytes s \<le> FILE_BYTES \<and>
     held_inv (eg_secrets s) \<and> held_bounded (eg_secrets s) \<and>
     bt_ok (eg_blocked s) \<and> length (eg_blocked s) \<le> BLOCKS"

lemma fold_hold_inv: "held_inv s \<Longrightarrow> held_bounded s \<Longrightarrow> held_inv (fold hold vs s) \<and> held_bounded (fold hold vs s)"
  by (induction vs arbitrary: s) (simp_all add: hold_inv hold_bounded)

lemma forget_files_inv:
  "eg_bytes s = sum_list (map length (eg_files s)) \<Longrightarrow> t = forget_files env n s \<Longrightarrow>
   eg_bytes t = sum_list (map length (eg_files t)) \<and> (n \<le> FILE_BYTES \<longrightarrow> eg_bytes t + n \<le> FILE_BYTES) \<and>
   eg_secrets t = eg_secrets s \<and> eg_blocked t = eg_blocked s"
proof (induction env n s rule: forget_files.induct)
  case (1 env n s)
  show ?case
  proof (cases "FILE_BYTES < eg_bytes s + n \<and> eg_files s \<noteq> []")
    case True
    then obtain f fs where f: "eg_files s = f # fs" by (cases "eg_files s") auto
    let ?s = "s\<lparr>eg_files := tl (eg_files s), eg_bytes := eg_bytes s - length (hd (eg_files s)),
        eg_file_ids := filter (\<lambda>i. i \<noteq> env_file_id env (hd (eg_files s))) (eg_file_ids s)\<rparr>"
    have "forget_files env n s = forget_files env n ?s"
      using True by (subst forget_files.simps) (simp add: Let_def)
    then have t: "t = forget_files env n ?s" using "1.prems"(2) by (rule trans [rotated])
    have "eg_bytes ?s = sum_list (map length (eg_files ?s))" using "1.prems"(1) f by simp
    note ih = "1.IH" [OF True refl this t]
    have "eg_secrets ?s = eg_secrets s" "eg_blocked ?s = eg_blocked s" by simp_all
    with ih show ?thesis by argo
  next
    case False
    then have "forget_files env n s = s" by (subst forget_files.simps) auto
    then show ?thesis using "1.prems" False by auto
  qed
qed

lemma file_read_inv:
  assumes inv: "egress_inv s"
  shows "egress_inv (file_read env content s)"
proof -
  define s1 where "s1 = s\<lparr>eg_secrets := fold hold (env_file_values env content) (eg_secrets s)\<rparr>"
  have s1: "egress_inv s1" using inv fold_hold_inv by (simp add: egress_inv_def s1_def)
  define t where "t = forget_files env (length content) s1"
  have t: "eg_bytes t = sum_list (map length (eg_files t))"
    "length content \<le> FILE_BYTES \<Longrightarrow> eg_bytes t + length content \<le> FILE_BYTES"
    "eg_secrets t = eg_secrets s1" "eg_blocked t = eg_blocked s1"
    using forget_files_inv [of s1 t env "length content"] s1 by (auto simp: egress_inv_def t_def)
  show ?thesis
    using inv s1 t unfolding file_read_def s1_def [symmetric] Let_def t_def [symmetric]
    by (auto simp: egress_inv_def)
qed

lemma egress_inspect_inv:
  assumes inv: "egress_inv s"
  shows "egress_inv (fst (snd (egress_inspect env d p c f s)))"
proof (cases "env_encode env p")
  case (Inr encoded)
  let ?pid = "env_payload_id env d encoded"
  show ?thesis
  proof (cases "map_of (eg_blocked s) ?pid")
    case None
    then have "?pid \<notin> fst ` set (eg_blocked s)" by (simp add: map_of_eq_None_iff)
    then show ?thesis using inv Inr None
      by (auto simp: egress_inspect_def egress_inv_def Let_def bt_ok_insert length_bt_insert_new BLOCKS_def split: option.split)
  next
    case (Some b)
    then have "?pid \<in> fst ` set (eg_blocked s)" by (metis map_of_eq_None_iff option.distinct(1))
    then show ?thesis using inv Inr Some
      by (auto simp: egress_inspect_def egress_inv_def Let_def bt_ok_insert length_bt_insert_old)
  qed
qed (simp add: egress_inspect_def inv)

lemma egress_answer_inv:
  assumes inv: "egress_inv s"
  shows "egress_inv (snd (egress_answer a pid s))"
proof (cases "map_of (eg_blocked s) pid")
  case (Some b)
  then have "pid \<in> fst ` set (eg_blocked s)" by (metis map_of_eq_None_iff option.distinct(1))
  then show ?thesis using inv Some
    by (simp add: egress_answer_def egress_inv_def bt_ok_insert length_bt_insert_old)
qed (simp add: egress_answer_def inv)

section \<open>A chat as a sequence of operations\<close>

datatype egress_op =
    OpSend string json bool bool
  | OpApprove string
  | OpDismiss string
  | OpFileRead string
  | OpRestore "event list"

text \<open>The state after one operation, and whether it let a payload out for good (a check that consumes).\<close>

fun egress_exec :: "egress_env \<Rightarrow> egress_op \<Rightarrow> egress \<Rightarrow> egress" where
  "egress_exec env (OpSend d p consume files) s = fst (snd (egress_inspect env d p consume files s))"
| "egress_exec env (OpApprove pid) s = snd (egress_approve pid s)"
| "egress_exec env (OpDismiss pid) s = snd (egress_dismiss pid s)"
| "egress_exec env (OpFileRead content) s = file_read env content s"
| "egress_exec env (OpRestore es) s = egress_restore env es s"

definition op_payload :: "egress_env \<Rightarrow> egress_op \<Rightarrow> string option" where
  "op_payload env op = (case op of
     OpSend d p True files \<Rightarrow> (case env_encode env p of Inr e \<Rightarrow> Some (env_payload_id env d e) | Inl _ \<Rightarrow> None)
   | _ \<Rightarrow> None)"

definition sent_out :: "egress_env \<Rightarrow> string \<Rightarrow> egress_op \<Rightarrow> egress \<Rightarrow> bool" where
  "sent_out env pid op s = (case op of
     OpSend d p True files \<Rightarrow>
       op_payload env op = Some pid \<and> fst (egress_inspect env d p True files s) = Inr ()
   | _ \<Rightarrow> False)"

fun sends :: "egress_env \<Rightarrow> string \<Rightarrow> egress_op list \<Rightarrow> egress \<Rightarrow> nat" where
  "sends env pid [] s = 0"
| "sends env pid (op # ops) s = (if sent_out env pid op s then 1 else 0) + sends env pid ops (egress_exec env op s)"

definition approvals :: "string \<Rightarrow> egress_op list \<Rightarrow> nat" where
  "approvals pid ops = length (filter (\<lambda>op. op = OpApprove pid) ops)"

definition is_allowed :: "string \<Rightarrow> egress \<Rightarrow> bool" where
  "is_allowed pid s = (case map_of (eg_blocked s) pid of Some b \<Rightarrow> bl_allowed b | None \<Rightarrow> False)"

definition is_blocked :: "string \<Rightarrow> egress \<Rightarrow> bool" where
  "is_blocked pid s \<longleftrightarrow> map_of (eg_blocked s) pid \<noteq> None"

lemma forget_files_blocked: "eg_blocked (forget_files env n s) = eg_blocked s"
proof (induction env n s rule: forget_files.induct)
  case (1 env n s)
  then show ?case by (subst forget_files.simps) (simp add: Let_def)
qed

lemma file_read_blocked: "eg_blocked (file_read env content s) = eg_blocked s"
  by (simp add: file_read_def Let_def forget_files_blocked)

lemma egress_restore_blocked: "eg_blocked (egress_restore env es s) = eg_blocked s"
  unfolding egress_restore_def
  by (induction es arbitrary: s) (simp_all add: file_read_blocked split: option.split)

lemma egress_restore_inv: "egress_inv s \<Longrightarrow> egress_inv (egress_restore env es s)"
  unfolding egress_restore_def
  by (induction es arbitrary: s) (simp_all add: file_read_inv split: option.split)

lemma egress_exec_blocked: "is_blocked pid s \<Longrightarrow> is_blocked pid (egress_exec env op s)"
  by (cases op)
    (auto simp: is_blocked_def egress_approve_def egress_dismiss_def egress_answer_def file_read_blocked egress_restore_blocked
      egress_inspect_def Let_def split: sum.splits option.splits)

text \<open>What one operation can do to the permission of a blocked payload.\<close>

lemma egress_exec_allowed:
  assumes "is_blocked pid s"
  shows "(if sent_out env pid op s then 1 else 0) + (if is_allowed pid (egress_exec env op s) then 1 else 0)
    \<le> (if is_allowed pid s then 1 else 0) + (if op = OpApprove pid then 1 else (0 :: nat))"
proof (cases op)
  case (OpSend d p consume files)
  show ?thesis
  proof (cases "env_encode env p")
    case (Inr e)
    then show ?thesis using assms OpSend
      by (cases consume; cases "env_payload_id env d e = pid"; cases "map_of (eg_blocked s) (env_payload_id env d e)")
        (auto simp: sent_out_def op_payload_def egress_inspect_def is_allowed_def is_blocked_def Let_def split: option.splits)
  qed (auto simp: OpSend sent_out_def op_payload_def egress_inspect_def split: bool.splits)
qed (auto simp: sent_out_def is_allowed_def egress_approve_def egress_dismiss_def egress_answer_def file_read_blocked egress_restore_blocked
    split: option.splits)

lemma sends_bounded:
  "is_blocked pid s \<Longrightarrow> sends env pid ops s \<le> (if is_allowed pid s then 1 else 0) + approvals pid ops"
proof (induction ops arbitrary: s)
  case (Cons op ops)
  have "sends env pid ops (egress_exec env op s) \<le>
      (if is_allowed pid (egress_exec env op s) then 1 else 0) + approvals pid ops"
    by (rule Cons.IH [OF egress_exec_blocked [OF Cons.prems]])
  moreover have "approvals pid (op # ops) = (if op = OpApprove pid then 1 else 0) + approvals pid ops"
    by (simp add: approvals_def)
  ultimately show ?case using egress_exec_allowed [OF Cons.prems, of env op]
    unfolding sends.simps by linarith
qed (simp add: approvals_def)

section \<open>Properties\<close>

text \<open>The file check is exact: \<open>shared_chunk\<close> with its rolling 64-bit hash, which wraps, answers yes
  precisely when payload and file have 256 consecutive bytes in common; no hash collision and no
  wrap-around makes it miss one or invent one.\<close>

theorem shared_chunk_exact:
  "shared_chunk payload file \<longleftrightarrow> (\<exists>c. length c = FILE_CHUNK \<and> sublist c payload \<and> sublist c file)"
  by (rule shared_chunk_sublist)

text \<open>C10. A blocked payload goes out at most once per approval of that very payload: over any sequence of
  checks, peeks, approvals, dismissals, file reads and resumes, a payload that is blocked and not approved is
  let out no more often than a person approves it.\<close>

theorem blocked_payload_needs_approval:
  assumes "is_blocked pid s" "\<not> is_allowed pid s"
  shows "sends env pid ops s \<le> approvals pid ops"
  using sends_bounded [OF assms(1), of env ops] assms(2) by simp

definition plain_env :: egress_env where
  "plain_env = \<lparr>env_encode = (\<lambda>p. Inr ''{}''), env_payload_id = (\<lambda>d e. d @ e), env_file_id = id,
     env_file_values = (\<lambda>_. []), env_is_code = (\<lambda>_. False), env_known = held_default\<rparr>"

definition held_up :: egress where
  "held_up = egress_default\<lparr>eg_blocked := [(''x{}'', \<lparr>bl_review = JNull, bl_allowed = False, bl_answered = False\<rparr>)]\<rparr>"

theorem blocked_payload_needs_approval_witness:
  "sends plain_env ''x{}'' [OpSend ''x'' JNull True True, OpApprove ''x{}'', OpSend ''x'' JNull True True,
     OpSend ''x'' JNull True True] held_up \<le> 1"
  using blocked_payload_needs_approval [of "''x{}''" held_up plain_env
      "[OpSend ''x'' JNull True True, OpApprove ''x{}'', OpSend ''x'' JNull True True, OpSend ''x'' JNull True True]"]
  by (simp add: is_blocked_def is_allowed_def held_up_def approvals_def)

text \<open>What passes unseen is clean: when a tainted chat's payload is let out and was never approved, it
  holds no known or file secret, is at most 1 MiB, and (for a destination the person did not set up)
  no string of it shares 256 bytes with a file the guard remembers.\<close>

theorem unapproved_payload_is_clean:
  assumes "egress_looked True env d p consume files s = (Inr (), s', notice)"
    and "env_encode env p = Inr encoded" "\<not> is_allowed (env_payload_id env d encoded) s"
  shows "length encoded \<le> 1024 * 1024 \<and> \<not> contains_known (env_is_code env) (env_known env) encoded \<and>
    (\<forall>v \<in> set (hv_values (eg_secrets s)). \<not> sublist v encoded) \<and>
    (files \<longrightarrow> (\<forall>t \<in> set (collect p). \<forall>f \<in> set (eg_files s).
       \<not> (\<exists>c. length c = FILE_CHUNK \<and> sublist c t \<and> sublist c f)))"
proof -
  have "outbound_reason env s p encoded files = None"
    using assms by (auto simp: egress_looked_def egress_inspect_def is_allowed_def Let_def split: option.splits if_splits)
  then show ?thesis
    by (auto simp: outbound_reason_def Let_def list_ex_iff contains_str_iff_sublist shared_chunk_sublist [symmetric]
        split: if_splits)
qed

theorem unapproved_payload_is_clean_witness: "length ''{}'' \<le> 1024 * 1024"
  using unapproved_payload_is_clean [of plain_env "''x''" JNull True True egress_default egress_default None "''{}''"]
  by (simp add: egress_looked_def egress_inspect_def plain_env_def egress_default_def outbound_reason_def
      contains_known_def held_default_def is_allowed_def)

text \<open>The guard's memory is bounded: over any operations the remembered files stay within 8 MiB with
  an exact byte count, the held values within 4096 and 1 MiB, and at most 64 payloads are blocked.\<close>

theorem egress_memory_bounded: "egress_inv (fold (egress_exec env) ops egress_default)"
proof -
  have "egress_inv s \<Longrightarrow> egress_inv (fold (egress_exec env) ops s)" for s
  proof (induction ops arbitrary: s)
    case (Cons op ops)
    have "egress_inv (egress_exec env op s)" using Cons.prems
      by (cases op) (simp_all add: egress_inspect_inv egress_approve_def egress_dismiss_def egress_answer_inv file_read_inv egress_restore_inv)
    then show ?case using Cons.IH by simp
  qed simp
  moreover have "egress_inv egress_default"
    by (simp add: egress_inv_def egress_default_def held_inv_def held_bounded_def held_default_def)
  ultimately show ?thesis by blast
qed

end
