(* ===== verification/Mutations.thy ===== *)
theory Mutations
  imports Json
begin

text \<open>
  \<open>crates/kernel/src/protected_paths.rs\<close> and \<open>crates/kernel/src/mutations.rs\<close>: which files count as
  instructions or delayed execution, and the chat's store of exact changes a person may still apply.

  Outside the model: SHA-256 (\<open>sha\<close>), glob patterns (\<open>glob_ok\<close>, \<open>glob_matches\<close>), secret removal in the
  preview (\<open>clean\<close>), JSON parsing (\<open>parse_json\<close>), and what applying a change does (a handle \<open>'a\<close>).
\<close>

section \<open>Protected paths\<close>

datatype protected_kind = Instructions | Scheduled | PackageScripts | Operator

text \<open>The loop over the components; \<open>..\<close> takes the last name away.\<close>

fun lexical_parts :: "component list \<Rightarrow> string list \<Rightarrow> string list" where
  "lexical_parts [] parts = parts"
| "lexical_parts (NormalPart w # cs) parts = lexical_parts cs (parts @ [to_lowercase w])"
| "lexical_parts (ParentDir # cs) parts = lexical_parts cs (butlast parts)"
| "lexical_parts (_ # cs) parts = lexical_parts cs parts"

definition has_pair :: "string \<Rightarrow> string \<Rightarrow> string list \<Rightarrow> bool" where
  "has_pair a b parts = list_ex (\<lambda>(x, y). x = a \<and> y = b) (zip parts (tl parts))"

definition protected_builtin :: "string \<Rightarrow> bool \<Rightarrow> protected_kind option" where
  "protected_builtin path after_web =
     (let parts = lexical_parts (path_components path) [] in
      if parts = [] then None
      else
        let name = last parts in
        if name \<in> {''medha.md'', ''agents.md'', ''claude.md''} \<or> has_pair ''.medha'' ''prompts'' parts
        then Some Instructions
        else if \<not> after_web then None
        else if name = ''package.json'' then Some PackageScripts
        else if name \<in> {''.envrc'', ''.gitlab-ci.yml''} \<or> has_pair ''.github'' ''workflows'' parts
          \<or> (2 \<le> length parts \<and> parts ! (length parts - 2) = ''.vscode'' \<and>
             name \<in> {''tasks.json'', ''launch.json''})
        then Some Scheduled
        else None)"

text \<open>\<open>matters\<close>: Inl of the parser is a parse error.\<close>

definition scripts_of :: "(string \<Rightarrow> string + json) \<Rightarrow> string option \<Rightarrow> string + json option" where
  "scripts_of parse_json bytes =
     (case bytes of
        None \<Rightarrow> Inr None
      | Some b \<Rightarrow> (case parse_json b of Inl e \<Rightarrow> Inl e | Inr v \<Rightarrow> Inr (json_get v ''scripts'')))"

definition change_matters ::
  "(string \<Rightarrow> string + json) \<Rightarrow> protected_kind \<Rightarrow> string option \<Rightarrow> string option \<Rightarrow> bool" where
  "change_matters parse_json kind before after =
     (if before = after then False
      else if kind \<noteq> PackageScripts then True
      else case (scripts_of parse_json before, scripts_of parse_json after) of
        (Inr b, Inr a) \<Rightarrow> b \<noteq> a
      | _ \<Rightarrow> True)"

text \<open>Instruction files are protected whatever the chat has read, and a \<open>..\<close> in the path cannot hide one.\<close>

lemma instructions_always_protected:
  assumes "lexical_parts (path_components path) [] = dirs @ [name]"
    and "name \<in> {''medha.md'', ''agents.md'', ''claude.md''}"
  shows "protected_builtin path after_web = Some Instructions"
  using assms by (auto simp: protected_builtin_def Let_def)

section \<open>The guard\<close>

record mutation_settings =
  protected_paths :: "string list"
  checkpoint_count :: nat
  checkpoint_bytes :: nat
  checkpoint_file_bytes :: nat
  checkpoint_files :: nat
  stored_bytes :: nat

definition settings_default :: mutation_settings where
  "settings_default = \<lparr>protected_paths = [], checkpoint_count = 20, checkpoint_bytes = 500 * 1024 * 1024,
     checkpoint_file_bytes = 10 * 1024 * 1024, checkpoint_files = 50000, stored_bytes = 500 * 1024 * 1024\<rparr>"

record 'a proposal =
  pr_review :: json
  pr_apply :: "'a option"
  pr_shown :: bool
  pr_created :: nat
  pr_bytes :: nat

record 'a mutation_guard =
  mg_proposals :: "(string \<times> 'a proposal) list"
  mg_workspace :: "string option"
  mg_checkpoints :: "(string \<times> json) list"
  mg_settings :: mutation_settings
  mg_answered :: "string list"
  mg_sequence :: nat

definition guard_default :: "'a mutation_guard" where
  "guard_default = \<lparr>mg_proposals = [], mg_workspace = None, mg_checkpoints = [], mg_settings = settings_default,
     mg_answered = [], mg_sequence = 0\<rparr>"

definition guard_configure ::
  "(string \<Rightarrow> string option) \<Rightarrow> mutation_settings \<Rightarrow> 'a mutation_guard \<Rightarrow> (string + unit) \<times> 'a mutation_guard" where
  "guard_configure glob_error settings g =
     (if checkpoint_count settings = 0 \<or> checkpoint_bytes settings = 0 \<or> checkpoint_file_bytes settings = 0
        \<or> checkpoint_files settings = 0 \<or> stored_bytes settings = 0
      then (Inl ''Checkpoint count, byte allowances, file limit and stored-result size must be positive'', g)
      else case find_map glob_error (protected_paths settings) of
        Some e \<Rightarrow> (Inl (''Invalid protected path pattern: '' @ e), g)
      | None \<Rightarrow> (Inr (), g\<lparr>mg_settings := settings\<rparr>))"

text \<open>\<open>relative\<close> is \<open>path.strip_prefix(root)\<close>, the path itself when it is not below the workspace.\<close>

definition guard_classify ::
  "(string \<Rightarrow> string \<Rightarrow> bool) \<Rightarrow> (string \<Rightarrow> string) \<Rightarrow> string \<Rightarrow> bool \<Rightarrow> 'a mutation_guard \<Rightarrow> protected_kind option" where
  "guard_classify glob_matches relative path after_web g =
     (case protected_builtin path after_web of
        Some kind \<Rightarrow> Some kind
      | None \<Rightarrow>
          if list_ex (\<lambda>pattern. glob_matches pattern (relative path)) (protected_paths (mg_settings g))
          then Some Operator else None)"

definition begin_message :: "'a mutation_guard \<Rightarrow> 'a mutation_guard" where
  "begin_message g = g\<lparr>mg_checkpoints := []\<rparr>"

definition guard_checkpoint :: "string \<Rightarrow> 'a mutation_guard \<Rightarrow> json option" where
  "guard_checkpoint root g = map_of (mg_checkpoints g) root"

definition remember_checkpoint :: "string \<Rightarrow> json \<Rightarrow> 'a mutation_guard \<Rightarrow> 'a mutation_guard" where
  "remember_checkpoint root v g = g\<lparr>mg_checkpoints := bt_insert root v (mg_checkpoints g)\<rparr>"

definition set_workspace :: "(string \<Rightarrow> string option) \<Rightarrow> string \<Rightarrow> 'a mutation_guard \<Rightarrow> 'a mutation_guard" where
  "set_workspace canonicalize path g =
     (case canonicalize path of Some p \<Rightarrow> g\<lparr>mg_workspace := Some p\<rparr> | None \<Rightarrow> g)"

definition REVIEW_BYTES :: nat where
  "REVIEW_BYTES = 64 * 1024 * 1024"

definition REVIEW_COUNT :: nat where
  "REVIEW_COUNT = 64"

definition ANSWERED :: nat where
  "ANSWERED = 256"

definition review_bytes :: "(string \<times> 'a proposal) list \<Rightarrow> nat" where
  "review_bytes ps = sum_list (map (pr_bytes \<circ> snd) ps)"

text \<open>\<open>iter().min_by_key(created)\<close>: the first of the least.\<close>

fun oldest_from :: "string \<times> nat \<Rightarrow> (string \<times> 'a proposal) list \<Rightarrow> string" where
  "oldest_from best [] = fst best"
| "oldest_from best (e # es) =
     oldest_from (if pr_created (snd e) < snd best then (fst e, pr_created (snd e)) else best) es"

definition oldest_proposal :: "(string \<times> 'a proposal) list \<Rightarrow> string option" where
  "oldest_proposal ps = (case ps of [] \<Rightarrow> None | e # es \<Rightarrow> Some (oldest_from (fst e, pr_created (snd e)) es))"

lemma oldest_from_in: "oldest_from best es \<in> insert (fst best) (fst ` set es)"
proof (induction best es rule: oldest_from.induct)
  case (2 best e es)
  then show ?case by (auto split: if_splits)
qed simp

lemma oldest_proposal_in: "oldest_proposal ps = Some k \<Longrightarrow> k \<in> fst ` set ps"
  using oldest_from_in by (fastforce simp: oldest_proposal_def split: list.splits)

text \<open>The loop that makes room for a proposal of \<open>bytes\<close> under the key \<open>pid\<close>.\<close>

function evict_proposals :: "string \<Rightarrow> nat \<Rightarrow> (string \<times> 'a proposal) list \<Rightarrow> (string \<times> 'a proposal) list" where
  "evict_proposals pid bytes ps =
     (if pid \<notin> fst ` set ps \<and> (REVIEW_COUNT \<le> length ps \<or> REVIEW_BYTES < review_bytes ps + bytes)
      then (case oldest_proposal ps of
              None \<Rightarrow> ps
            | Some oldest \<Rightarrow> evict_proposals pid bytes (bt_remove oldest ps))
      else ps)"
  by pat_completeness auto

termination
  by (relation "measure (\<lambda>(_, _, ps). length ps)") (auto intro: length_bt_remove oldest_proposal_in)

declare evict_proposals.simps [simp del]

definition guard_insert ::
  "(string \<Rightarrow> string) \<Rightarrow> (string \<Rightarrow> string) \<Rightarrow> string \<Rightarrow> string \<Rightarrow> string \<Rightarrow> string \<Rightarrow> 'a option \<Rightarrow> 'a mutation_guard \<Rightarrow>
   (string + string) \<times> 'a mutation_guard" where
  "guard_insert sha clean identity destination reason preview apply g =
     (let pid = sha identity; bytes = length identity + length preview in
      if pid \<in> set (mg_answered g)
      then (Inl ''This exact protected change was already answered or dismissed; nothing was applied'', g)
      else if REVIEW_BYTES < bytes
      then (Inl ''The exact protected change exceeds the bounded review memory; nothing was applied'', g)
      else
        let ps = evict_proposals pid bytes (mg_proposals g) in
        if pid \<in> fst ` set ps then (Inr pid, g\<lparr>mg_proposals := ps\<rparr>)
        else (Inr pid, g\<lparr>mg_proposals := bt_insert pid
               \<lparr>pr_review = json_obj [(''id'', JStr pid), (''destination'', JStr destination), (''reason'', JStr reason),
                  (''preview'', JStr (clean preview)), (''allowable'', JBool (apply \<noteq> None))],
                pr_apply = apply, pr_shown = False, pr_created = mg_sequence g, pr_bytes = bytes\<rparr> ps,
               mg_sequence := Suc (mg_sequence g)\<rparr>))"

definition guard_reviews :: "'a mutation_guard \<Rightarrow> json list" where
  "guard_reviews g = map (pr_review \<circ> snd) (mg_proposals g)"

definition guard_notices :: "'a mutation_guard \<Rightarrow> json list \<times> 'a mutation_guard" where
  "guard_notices g =
     (map (pr_review \<circ> snd) (filter (\<lambda>e. \<not> pr_shown (snd e)) (mg_proposals g)),
      g\<lparr>mg_proposals := map (\<lambda>(k, p). (k, p\<lparr>pr_shown := True\<rparr>)) (mg_proposals g)\<rparr>)"

definition remember_answer :: "string \<Rightarrow> 'a mutation_guard \<Rightarrow> 'a mutation_guard" where
  "remember_answer pid g =
     (let answered = mg_answered g @ [pid] in g\<lparr>mg_answered := drop (length answered - ANSWERED) answered\<rparr>)"

text \<open>\<open>allow\<close> up to the call of \<open>apply\<close>: Inr is the handle that is applied now.\<close>

definition guard_allow :: "string \<Rightarrow> 'a mutation_guard \<Rightarrow> (string + 'a) \<times> 'a mutation_guard" where
  "guard_allow pid g =
     (case map_of (mg_proposals g) pid of
        None \<Rightarrow> (Inl ''That protected change is no longer available'', g)
      | Some p \<Rightarrow>
          (case pr_apply p of
             None \<Rightarrow> Inl ''This action cannot run safely; repair the stated problem first''
           | Some h \<Rightarrow> Inr h,
           remember_answer pid (g\<lparr>mg_proposals := bt_remove pid (mg_proposals g)\<rparr>)))"

definition guard_dismiss :: "string \<Rightarrow> 'a mutation_guard \<Rightarrow> (string + unit) \<times> 'a mutation_guard" where
  "guard_dismiss pid g =
     (case map_of (mg_proposals g) pid of
        None \<Rightarrow> Inl ''That protected change is no longer available''
      | Some _ \<Rightarrow> Inr (),
      (remember_answer pid g)\<lparr>mg_proposals := bt_remove pid (mg_proposals g)\<rparr>)"

section \<open>Operations in sequence\<close>

datatype 'a guard_op =
    GPropose string string string string "'a option"
  | GAllow string
  | GDismiss string
  | GNotices

fun guard_exec :: "(string \<Rightarrow> string) \<Rightarrow> (string \<Rightarrow> string) \<Rightarrow> 'a guard_op \<Rightarrow> 'a mutation_guard \<Rightarrow> 'a mutation_guard" where
  "guard_exec sha clean (GPropose identity dest reason preview apply) g =
     snd (guard_insert sha clean identity dest reason preview apply g)"
| "guard_exec sha clean (GAllow pid) g = snd (guard_allow pid g)"
| "guard_exec sha clean (GDismiss pid) g = snd (guard_dismiss pid g)"
| "guard_exec sha clean GNotices g = snd (guard_notices g)"

text \<open>The operation applies the change \<open>pid\<close>.\<close>

fun applies :: "string \<Rightarrow> 'a guard_op \<Rightarrow> 'a mutation_guard \<Rightarrow> bool" where
  "applies pid (GAllow q) g = (q = pid \<and> (\<exists>h. fst (guard_allow q g) = Inr h))"
| "applies pid _ g = False"

fun times_applied ::
  "(string \<Rightarrow> string) \<Rightarrow> (string \<Rightarrow> string) \<Rightarrow> string \<Rightarrow> 'a guard_op list \<Rightarrow> 'a mutation_guard \<Rightarrow> nat" where
  "times_applied sha clean pid [] g = 0"
| "times_applied sha clean pid (op # ops) g =
     (if applies pid op g then 1 else 0) + times_applied sha clean pid ops (guard_exec sha clean op g)"

fun is_answer :: "'a guard_op \<Rightarrow> bool" where
  "is_answer (GAllow _) = True"
| "is_answer (GDismiss _) = True"
| "is_answer _ = False"

subsection \<open>Bounds\<close>

definition guard_inv :: "'a mutation_guard \<Rightarrow> bool" where
  "guard_inv g \<longleftrightarrow>
     bt_ok (mg_proposals g) \<and> length (mg_proposals g) \<le> REVIEW_COUNT \<and>
     review_bytes (mg_proposals g) \<le> REVIEW_BYTES \<and> length (mg_answered g) \<le> ANSWERED"

lemma review_bytes_remove: "review_bytes (bt_remove k ps) \<le> review_bytes ps"
  by (induction ps) (auto simp: review_bytes_def bt_remove_def)

lemma review_bytes_insert: "k \<notin> fst ` set ps \<Longrightarrow> review_bytes (bt_insert k p ps) = review_bytes ps + pr_bytes p"
  by (induction k p ps rule: bt_insert.induct) (auto simp: review_bytes_def)

lemma evict_proposals_inv:
  "bt_ok ps \<Longrightarrow> length ps \<le> REVIEW_COUNT \<Longrightarrow> review_bytes ps \<le> REVIEW_BYTES \<Longrightarrow> bytes \<le> REVIEW_BYTES \<Longrightarrow>
   qs = evict_proposals pid bytes ps \<Longrightarrow>
   bt_ok qs \<and> length qs \<le> REVIEW_COUNT \<and> review_bytes qs \<le> REVIEW_BYTES \<and> set qs \<subseteq> set ps \<and>
   (pid \<notin> fst ` set qs \<longrightarrow> length qs < REVIEW_COUNT \<and> review_bytes qs + bytes \<le> REVIEW_BYTES)"
proof (induction pid bytes ps rule: evict_proposals.induct)
  case (1 pid bytes ps)
  show ?case
  proof (cases "pid \<notin> fst ` set ps \<and> (REVIEW_COUNT \<le> length ps \<or> REVIEW_BYTES < review_bytes ps + bytes)")
    case False
    then have "evict_proposals pid bytes ps = ps" by (subst evict_proposals.simps) auto
    then show ?thesis using "1.prems" False by auto
  next
    case True
    show ?thesis
    proof (cases "oldest_proposal ps")
      case None
      then have "ps = []" by (simp add: oldest_proposal_def split: list.splits)
      then show ?thesis using True "1.prems"(4) by (simp add: review_bytes_def REVIEW_COUNT_def)
    next
      case (Some k)
      have "evict_proposals pid bytes ps = evict_proposals pid bytes (bt_remove k ps)"
        using True Some by (subst evict_proposals.simps) simp
      then have q: "qs = evict_proposals pid bytes (bt_remove k ps)" using "1.prems"(5) by simp
      have smaller: "bt_ok (bt_remove k ps)" "length (bt_remove k ps) \<le> REVIEW_COUNT"
        "review_bytes (bt_remove k ps) \<le> REVIEW_BYTES"
        using "1.prems"(1-3) review_bytes_remove [of k ps] length_bt_remove [OF oldest_proposal_in [OF Some]]
        by (simp_all add: bt_ok_remove)
      from "1.IH" [OF True Some smaller "1.prems"(4) q] set_bt_remove [of k ps] show ?thesis by blast
    qed
  qed
qed

lemma guard_insert_inv:
  assumes "guard_inv g"
  shows "guard_inv (snd (guard_insert sha clean identity d r p a g))"
proof (cases "sha identity \<in> set (mg_answered g) \<or> REVIEW_BYTES < length identity + length p")
  case True
  then show ?thesis using assms by (auto simp: guard_insert_def Let_def)
next
  case False
  define qs where "qs = evict_proposals (sha identity) (length identity + length p) (mg_proposals g)"
  have "bt_ok qs \<and> length qs \<le> REVIEW_COUNT \<and> review_bytes qs \<le> REVIEW_BYTES \<and> set qs \<subseteq> set (mg_proposals g) \<and>
   (sha identity \<notin> fst ` set qs \<longrightarrow> length qs < REVIEW_COUNT \<and>
     review_bytes qs + (length identity + length p) \<le> REVIEW_BYTES)"
    using assms False by (intro evict_proposals_inv) (simp_all add: guard_inv_def qs_def)
  then show ?thesis using assms False
    by (auto simp: guard_insert_def Let_def qs_def [symmetric] guard_inv_def bt_ok_insert length_bt_insert_new
        review_bytes_insert)
qed

lemma remember_answer_simps [simp]:
  "mg_proposals (remember_answer pid g) = mg_proposals g" "mg_sequence (remember_answer pid g) = mg_sequence g"
  "length (mg_answered (remember_answer pid g)) \<le> ANSWERED"
  by (auto simp: remember_answer_def Let_def ANSWERED_def)

lemma guard_exec_inv:
  assumes "guard_inv g"
  shows "guard_inv (guard_exec sha clean op g)"
proof (cases op)
  case (GAllow pid)
  have "length (bt_remove pid (mg_proposals g)) \<le> length (mg_proposals g)" by (simp add: bt_remove_def)
  then show ?thesis using assms GAllow review_bytes_remove [of pid "mg_proposals g"]
    by (auto simp: guard_allow_def guard_inv_def bt_ok_remove split: option.splits)
next
  case (GDismiss pid)
  have "length (bt_remove pid (mg_proposals g)) \<le> length (mg_proposals g)" by (simp add: bt_remove_def)
  then show ?thesis using assms GDismiss review_bytes_remove [of pid "mg_proposals g"] remember_answer_simps(3) [of pid g]
    by (auto simp: guard_dismiss_def guard_inv_def bt_ok_remove)
next
  case GNotices
  have "bt_ok (map (\<lambda>(k, p). (k, p\<lparr>pr_shown := True\<rparr>)) ps) = bt_ok ps" for ps :: "(string \<times> 'a proposal) list"
    by (simp add: bt_ok_def comp_def case_prod_beta)
  moreover have "review_bytes (map (\<lambda>(k, p). (k, p\<lparr>pr_shown := True\<rparr>)) ps) = review_bytes ps" for ps :: "(string \<times> 'a proposal) list"
    by (induction ps) (auto simp: review_bytes_def)
  ultimately show ?thesis using assms GNotices by (simp add: guard_notices_def guard_inv_def)
qed (simp add: assms guard_insert_inv)

subsection \<open>An answer is final while it is remembered\<close>

text \<open>\<open>pid\<close> was answered, \<open>n\<close> answers ago at most, and has no proposal.\<close>

definition settled_ago :: "string \<Rightarrow> nat \<Rightarrow> 'a mutation_guard \<Rightarrow> bool" where
  "settled_ago pid n g \<longleftrightarrow> pid \<notin> fst ` set (mg_proposals g) \<and>
     (\<exists>xs ys. mg_answered g = xs @ pid # ys \<and> length ys \<le> n)"

lemma settled_remember:
  assumes "mg_answered g = xs @ pid # ys" "length ys < ANSWERED - 1"
  shows "\<exists>zs. mg_answered (remember_answer q g) = zs @ pid # (ys @ [q])"
proof -
  let ?k = "length (mg_answered g @ [q]) - ANSWERED"
  have k: "?k \<le> length xs" using assms by (simp add: ANSWERED_def)
  have "drop ?k (mg_answered g @ [q]) = drop ?k xs @ pid # (ys @ [q])" using k by (simp add: assms(1))
  then show ?thesis by (auto simp: remember_answer_def Let_def)
qed

lemma evict_keys: "fst ` set (evict_proposals q b ps) \<subseteq> fst ` set ps"
proof (induction q b ps rule: evict_proposals.induct)
  case (1 q b ps)
  show ?case
  proof (cases "(q \<notin> fst ` set ps \<and> (REVIEW_COUNT \<le> length ps \<or> REVIEW_BYTES < review_bytes ps + b)) \<and>
      oldest_proposal ps \<noteq> None")
    case True
    then obtain k where k: "oldest_proposal ps = Some k" by blast
    then have "evict_proposals q b ps = evict_proposals q b (bt_remove k ps)"
      using True by (subst evict_proposals.simps) simp
    moreover have "fst ` set (bt_remove k ps) \<subseteq> fst ` set ps" by (intro image_mono set_bt_remove)
    ultimately show ?thesis using "1.IH" [OF conjunct1 [OF True] k] by (simp only: subset_trans)
  next
    case False
    then have "evict_proposals q b ps = ps" by (subst evict_proposals.simps) auto
    then show ?thesis by simp
  qed
qed

lemma settled_exec:
  assumes s: "settled_ago pid n g" and n: "n + (if is_answer op then 1 else 0) < ANSWERED"
  shows "settled_ago pid (n + (if is_answer op then 1 else 0)) (guard_exec sha clean op g) \<and> \<not> applies pid op g"
proof -
  obtain xs ys where a: "mg_answered g = xs @ pid # ys" "length ys \<le> n" and free: "pid \<notin> fst ` set (mg_proposals g)"
    using s by (auto simp: settled_ago_def)
  have gone: "map_of (mg_proposals g) pid = None" using free by (simp add: map_of_eq_None_iff)
  show ?thesis
  proof (cases op)
    case (GPropose identity d r p ap)
    have keep: "mg_answered (snd (guard_insert sha clean identity d r p ap g)) = mg_answered g"
      by (simp add: guard_insert_def Let_def)
    have "pid \<notin> fst ` set (mg_proposals (snd (guard_insert sha clean identity d r p ap g)))"
      using free evict_keys [of "sha identity" "length identity + length p" "mg_proposals g"] a(1)
      by (auto simp: guard_insert_def Let_def)
    then show ?thesis using a keep GPropose by (auto simp: settled_ago_def)
  next
    case (GAllow q)
    show ?thesis
    proof (cases "map_of (mg_proposals g) q")
      case None
      then show ?thesis using GAllow s by (auto simp: guard_allow_def settled_ago_def intro: le_SucI)
    next
      case (Some p)
      let ?g = "g\<lparr>mg_proposals := bt_remove q (mg_proposals g)\<rparr>"
      have "length ys < ANSWERED - 1" using a(2) n GAllow by simp
      then obtain zs where "mg_answered (remember_answer q ?g) = zs @ pid # (ys @ [q])"
        using settled_remember [of ?g xs pid ys q] a(1) by auto
      moreover have "pid \<noteq> q" using gone Some by auto
      ultimately show ?thesis using GAllow Some a(2) free set_bt_remove [of q "mg_proposals g"]
        by (fastforce simp: guard_allow_def settled_ago_def)
    qed
  next
    case (GDismiss q)
    have "length ys < ANSWERED - 1" using a(2) n GDismiss by simp
    then obtain zs where "mg_answered (remember_answer q g) = zs @ pid # (ys @ [q])"
      using settled_remember [OF a(1)] by auto
    then show ?thesis using GDismiss a(2) free set_bt_remove [of q "mg_proposals g"]
      by (fastforce simp: guard_dismiss_def settled_ago_def)
  next
    case GNotices
    then show ?thesis using s by (force simp: guard_notices_def settled_ago_def)
  qed
qed

lemma settled_never_applied:
  "settled_ago pid n g \<Longrightarrow> n + length (filter is_answer ops) < ANSWERED \<Longrightarrow> times_applied sha clean pid ops g = 0"
proof (induction ops arbitrary: n g)
  case (Cons op ops)
  have n: "n + (if is_answer op then 1 else 0) < ANSWERED" using Cons.prems(2) by (auto split: if_splits)
  from settled_exec [OF Cons.prems(1) n, of sha clean]
  have step: "settled_ago pid (n + (if is_answer op then 1 else 0)) (guard_exec sha clean op g)" "\<not> applies pid op g"
    by simp_all
  have "n + (if is_answer op then 1 else 0) + length (filter is_answer ops) < ANSWERED"
    using Cons.prems(2) by (auto split: if_splits)
  from Cons.IH [OF step(1) this] step(2) show ?case by simp
qed simp

lemma allow_settles:
  assumes "fst (guard_allow pid g) = Inr h"
  shows "settled_ago pid 0 (snd (guard_allow pid g))"
proof -
  obtain p where p: "map_of (mg_proposals g) pid = Some p"
    using assms by (auto simp: guard_allow_def split: option.splits)
  have "mg_answered (remember_answer pid g') = drop (length (mg_answered g' @ [pid]) - ANSWERED) (mg_answered g') @ [pid]"
    for g' :: "'a mutation_guard"
    by (simp add: remember_answer_def Let_def ANSWERED_def)
  moreover have "pid \<notin> fst ` set (bt_remove pid (mg_proposals g))" by (auto simp: bt_remove_def)
  ultimately show ?thesis using p by (auto simp: guard_allow_def settled_ago_def)
qed

section \<open>Properties\<close>


definition one_change :: "nat mutation_guard" where
  "one_change = snd (guard_insert id id ''x'' ''f'' ''r'' ''p'' (Some (7::nat)) guard_default)"


text \<open>The review store is bounded whatever is proposed: at most 64 proposals, 64 MiB of them and 256
  remembered answers, with older proposals making room for a new one.\<close>

theorem guard_bounded: "guard_inv (fold (guard_exec sha clean) ops guard_default)"
proof -
  have "guard_inv g \<Longrightarrow> guard_inv (fold (guard_exec sha clean) ops g)" for g
    by (induction ops arbitrary: g) (simp_all add: guard_exec_inv)
  moreover have "guard_inv guard_default"
    by (simp add: guard_inv_def guard_default_def review_bytes_def)
  ultimately show ?thesis by blast
qed

end
