(* ===== verification/Replay.thy ===== *)
theory Replay
  imports EventLog
begin

text \<open>
  Rebuilding a conversation from its log: the projections of \<open>crates/kernel/src/events.rs\<close>
  (\<open>project_messages\<close>, \<open>project_ordered_messages\<close> and what they call), the trust a replay carries
  (\<open>event_trust.rs\<close>), checkpoints of a compacted context, and the closing of interrupted calls.

  The derived \<open>serde\<close> readers, the printer of JSON and the ULID parser are the record \<open>codec\<close>.
\<close>

record codec =
  de_media :: "json \<Rightarrow> media_part list option"
  de_model :: "json \<Rightarrow> model_message option"
  de_snapshot :: "json \<Rightarrow> (nat \<times> message list \<times> model_message list) option"
  de_about :: "json \<Rightarrow> output_reference option"
  cx_show :: "json \<Rightarrow> string"
  ulid_parse :: "string \<Rightarrow> string option"

section \<open>Observations as the model reads them\<close>

definition private_fields :: "string list" where
  "private_fields = [''_agent_report_dispatches'', ''_tool_screen'', ''generated_output'', ''_checkpoint_files'']"

definition strip_private_observation_fields :: "json \<Rightarrow> json" where
  "strip_private_observation_fields v =
     (case v of JObj fs \<Rightarrow> JObj (fold obj_remove private_fields fs) | _ \<Rightarrow> v)"

definition tool_media_message :: "string \<Rightarrow> media_part list \<Rightarrow> message" where
  "tool_media_message call_id media =
     (message_new UserRole (''['' @ decimal (length media) @ '' image(s) returned by tool call '' @ call_id @ '']''))
       \<lparr>msg_media := media\<rparr>"

definition str_or_empty :: "string option \<Rightarrow> string" where
  "str_or_empty s = (case s of Some t \<Rightarrow> t | None \<Rightarrow> [])"

definition replayed_tool_media :: "codec \<Rightarrow> json \<Rightarrow> trust_label \<Rightarrow> message option" where
  "replayed_tool_media cx payload trust =
     (case json_get payload ''media'' of
        None \<Rightarrow> None
      | Some v \<Rightarrow>
          (case de_media cx v of
             None \<Rightarrow> None
           | Some media \<Rightarrow>
               if media = [] then None
               else Some (carrying trust (tool_media_message (str_or_empty (get_str payload ''intent_id'')) media))))"

definition visible_observation_payload :: "json \<Rightarrow> json" where
  "visible_observation_payload event_payload =
     strip_private_observation_fields (json_index event_payload ''payload'')"

definition observation_for_model :: "codec \<Rightarrow> json \<Rightarrow> string" where
  "observation_for_model cx event_payload =
     (case get_str event_payload ''model_text'' of
        Some t \<Rightarrow> t
      | None \<Rightarrow> cx_show cx (visible_observation_payload event_payload))"

section \<open>Closing interrupted calls\<close>

text \<open>
  Both views are closed by the same loop: after a message that calls, its run of tool messages is kept
  and an \<open>[interrupted]\<close> result is added for each call the run does not answer.
\<close>

function close_with ::
  "('m \<Rightarrow> string list) \<Rightarrow> ('m \<Rightarrow> string list) \<Rightarrow> ('m \<Rightarrow> bool) \<Rightarrow> (string \<Rightarrow> 'm) \<Rightarrow> 'm list \<Rightarrow> 'm list"
where
  "close_with calls answers is_tool interrupted [] = []"
| "close_with calls answers is_tool interrupted (m # ms) =
     (if calls m = [] then m # close_with calls answers is_tool interrupted ms
      else
        let run = takeWhile is_tool ms;
            answered = concat (map answers run)
        in m # run @ map interrupted (filter (\<lambda>i. i \<notin> set answered) (calls m))
           @ close_with calls answers is_tool interrupted (dropWhile is_tool ms))"
  by pat_completeness auto

termination
  by (relation "measure (\<lambda>(_, _, _, _, ms). length ms)") (simp_all add: le_imp_less_Suc length_dropWhile_le)

definition legacy_calls :: "message \<Rightarrow> string list" where
  "legacy_calls m = (if msg_role m = AssistantRole then map intent_id (msg_calls m) else [])"

definition legacy_answers :: "message \<Rightarrow> string list" where
  "legacy_answers m = (case msg_call_id m of Some i \<Rightarrow> [i] | None \<Rightarrow> [])"

definition is_tool_message :: "message \<Rightarrow> bool" where
  "is_tool_message m \<longleftrightarrow> msg_role m = ToolRole"

definition close_dangling_tool_calls :: "message list \<Rightarrow> message list" where
  "close_dangling_tool_calls ms =
     close_with legacy_calls legacy_answers is_tool_message (\<lambda>i. tool_result i ''[interrupted]'') ms"

definition part_calls :: "content_part list \<Rightarrow> string list" where
  "part_calls ps = concat (map (\<lambda>p. case p of ToolCallPart i _ _ _ \<Rightarrow> [i] | _ \<Rightarrow> []) ps)"

definition part_answers :: "content_part list \<Rightarrow> string list" where
  "part_answers ps = concat (map (\<lambda>p. case p of ToolResultPart i _ _ \<Rightarrow> [i] | _ \<Rightarrow> []) ps)"

definition ordered_calls :: "model_message \<Rightarrow> string list" where
  "ordered_calls m = (if mm_role m = AssistantRole then part_calls (mm_parts m) else [])"

definition ordered_answers :: "model_message \<Rightarrow> string list" where
  "ordered_answers m = part_answers (mm_parts m)"

definition is_tool_ordered :: "model_message \<Rightarrow> bool" where
  "is_tool_ordered m \<longleftrightarrow> mm_role m = ToolRole"

definition interrupted_result :: "string \<Rightarrow> model_message" where
  "interrupted_result i = \<lparr>mm_role = ToolRole, mm_parts = [ToolResultPart i ''[interrupted]'' []], mm_trust = None\<rparr>"

definition close_dangling_ordered_tool_calls :: "model_message list \<Rightarrow> model_message list" where
  "close_dangling_ordered_tool_calls ms =
     close_with ordered_calls ordered_answers is_tool_ordered interrupted_result ms"

section \<open>Trust of a replay\<close>

record replay_trust =
  rt_web :: bool
  rt_web_calls :: "string list"

definition replay_trust_default :: replay_trust where
  "replay_trust_default = \<lparr>rt_web = False, rt_web_calls = []\<rparr>"

definition trust_observe :: "event \<Rightarrow> replay_trust \<Rightarrow> replay_trust" where
  "trust_observe e t =
     (let t' = t\<lparr>rt_web := rt_web t \<or> ev_trust e = Web\<rparr>
      in if ev_kind e = ToolObs \<and> ev_trust e = Web
         then (case as_str (json_index (ev_payload e) ''intent_id'') of
                 Some i \<Rightarrow> t'\<lparr>rt_web_calls := List.insert i (rt_web_calls t')\<rparr>
               | None \<Rightarrow> t')
         else t')"

definition trust_summary :: "replay_trust \<Rightarrow> message \<Rightarrow> message" where
  "trust_summary t m = (if rt_web t then m\<lparr>msg_trust := Some Web\<rparr> else m)"

definition trust_legacy :: "replay_trust \<Rightarrow> string option \<Rightarrow> message \<Rightarrow> message" where
  "trust_legacy t summary m =
     (let web_result = (case msg_call_id m of Some i \<Rightarrow> i \<in> set (rt_web_calls t) | None \<Rightarrow> False);
          web_summary = (rt_web t \<and> msg_role m = AssistantRole \<and> summary = Some (msg_content m))
      in if web_result \<or> web_summary then m\<lparr>msg_trust := Some Web\<rparr> else m)"

definition part_texts :: "content_part list \<Rightarrow> string" where
  "part_texts ps = concat (map (\<lambda>p. case p of TextPart s _ \<Rightarrow> s | _ \<Rightarrow> []) ps)"

definition trust_ordered :: "replay_trust \<Rightarrow> string option \<Rightarrow> model_message \<Rightarrow> model_message" where
  "trust_ordered t summary m =
     (let web_result = list_ex (\<lambda>i. i \<in> set (rt_web_calls t)) (part_answers (mm_parts m));
          web_summary = (rt_web t \<and> mm_role m = AssistantRole \<and> summary = Some (part_texts (mm_parts m)))
      in if web_result \<or> web_summary then m\<lparr>mm_trust := Some Web\<rparr> else m)"

section \<open>Checkpoints\<close>

definition same_snapshot_message :: "message \<Rightarrow> message \<Rightarrow> bool" where
  "same_snapshot_message l r \<longleftrightarrow>
     msg_role l = msg_role r \<and> msg_media l = msg_media r \<and> msg_content l = msg_content r
     \<and> msg_call_id l = msg_call_id r \<and> msg_trust l = msg_trust r
     \<and> list_all2 (\<lambda>a b. intent_id a = intent_id b \<and> intent_tool a = intent_tool b \<and> intent_args a = intent_args b)
         (msg_calls l) (msg_calls r)"

fun tool_views :: "trust_label option \<Rightarrow> content_part list \<Rightarrow> message list" where
  "tool_views t [] = []"
| "tool_views t (ToolResultPart i s _ # ps) = (tool_result i s)\<lparr>msg_trust := t\<rparr> # tool_views t ps"
| "tool_views t (_ # ps) = tool_views t ps"

fun calls_of_parts :: "content_part list \<Rightarrow> tool_intent list" where
  "calls_of_parts [] = []"
| "calls_of_parts (ToolCallPart i t a _ # ps) = \<lparr>intent_id = i, intent_tool = t, intent_args = a\<rparr> # calls_of_parts ps"
| "calls_of_parts (_ # ps) = calls_of_parts ps"

fun media_of_parts :: "content_part list \<Rightarrow> media_part list" where
  "media_of_parts [] = []"
| "media_of_parts (MediaContent m # ps) = m # media_of_parts ps"
| "media_of_parts (_ # ps) = media_of_parts ps"

definition snapshot_legacy_views :: "model_message \<Rightarrow> message list" where
  "snapshot_legacy_views m =
     (if mm_role m = ToolRole
      then (let results = tool_views (mm_trust m) (mm_parts m)
            in if results = [] then [(message_new ToolRole (part_texts (mm_parts m)))\<lparr>msg_trust := mm_trust m\<rparr>]
               else results)
      else
        (let legacy = (if mm_role m = AssistantRole
                       then assistant_calls (legacy_text m) (calls_of_parts (mm_parts m))
                       else message_new (mm_role m) (legacy_text m))
         in [legacy\<lparr>msg_trust := mm_trust m, msg_media := media_of_parts (mm_parts m)\<rparr>]))"

text \<open>\<open>snapshot_tool_grammar_is_closed\<close>: whether the system prefix is over, and the calls still to be answered.\<close>

fun grammar_from :: "bool \<Rightarrow> string list \<Rightarrow> message list \<Rightarrow> bool" where
  "grammar_from passed pending [] = (pending = [])"
| "grammar_from passed pending (m # ms) =
     (if msg_role m = SystemRole then \<not> passed \<and> pending = [] \<and> grammar_from passed pending ms
      else case pending of
        expected # rest \<Rightarrow>
          msg_role m = ToolRole \<and> msg_call_id m = Some expected \<and> msg_calls m = [] \<and> grammar_from True rest ms
      | [] \<Rightarrow>
          msg_role m \<noteq> ToolRole \<and>
          (if msg_calls m = [] then grammar_from True [] ms
           else msg_role m = AssistantRole \<and> list_all (\<lambda>c. intent_id c \<noteq> []) (msg_calls m)
                \<and> distinct (map intent_id (msg_calls m)) \<and> grammar_from True (map intent_id (msg_calls m)) ms))"

definition snapshot_tool_grammar_is_closed :: "message list \<Rightarrow> bool" where
  "snapshot_tool_grammar_is_closed ms = grammar_from False [] ms"

definition compaction_snapshot :: "codec \<Rightarrow> json \<Rightarrow> (message list \<times> model_message list) option" where
  "compaction_snapshot cx payload =
     (case json_get payload ''snapshot'' of
        None \<Rightarrow> None
      | Some v \<Rightarrow>
          (case de_snapshot cx v of
             None \<Rightarrow> None
           | Some (version, messages, canonical) \<Rightarrow>
               if version \<noteq> 1 \<or> length messages \<noteq> length canonical
                  \<or> \<not> snapshot_tool_grammar_is_closed messages
                  \<or> \<not> list_all (\<lambda>(legacy, c). case snapshot_legacy_views c of
                         [candidate] \<Rightarrow> same_snapshot_message candidate legacy
                       | _ \<Rightarrow> False) (zip messages canonical)
               then None else Some (messages, canonical)))"

definition has_valid_compaction_snapshot :: "codec \<Rightarrow> json \<Rightarrow> bool" where
  "has_valid_compaction_snapshot cx payload = (compaction_snapshot cx payload \<noteq> None)"

section \<open>Admissions of user input\<close>

record user_admission =
  adm_session :: string
  adm_text :: string
  adm_trust :: trust_label
  adm_source :: string
  adm_attachments :: json

definition attachments_json :: "json \<Rightarrow> json" where
  "attachments_json payload = (case json_get payload ''attachments'' of Some a \<Rightarrow> a | None \<Rightarrow> JArr [])"

definition payload_text :: "event \<Rightarrow> string" where
  "payload_text e = str_or_empty (get_str (ev_payload e) ''text'')"

definition admission_of :: "event \<Rightarrow> user_admission" where
  "admission_of e = \<lparr>adm_session = ev_session e, adm_text = payload_text e, adm_trust = ev_trust e,
     adm_source = ev_source e, adm_attachments = attachments_json (ev_payload e)\<rparr>"

definition is_new_user_admission ::
  "codec \<Rightarrow> event \<Rightarrow> (string \<rightharpoonup> user_admission) \<Rightarrow> bool \<times> (string \<rightharpoonup> user_admission)" where
  "is_new_user_admission cx e admissions =
     (let is_exact_retry =
            (case Option.bind (Option.bind (get_str (ev_payload e) ''retry_of'') (ulid_parse cx)) admissions of
               Some original \<Rightarrow> original = admission_of e
             | None \<Rightarrow> False)
      in (\<not> is_exact_retry, admissions(ev_id e \<mapsto> admission_of e)))"

section \<open>Lemmas\<close>

subsection \<open>Closed conversations\<close>

text \<open>Every call of a message is answered in the run of tool messages right after it.\<close>

fun closed_with :: "('m \<Rightarrow> string list) \<Rightarrow> ('m \<Rightarrow> string list) \<Rightarrow> ('m \<Rightarrow> bool) \<Rightarrow> 'm list \<Rightarrow> bool" where
  "closed_with calls answers is_tool [] = True"
| "closed_with calls answers is_tool (m # ms) =
     (list_all (\<lambda>i. list_ex (\<lambda>t. i \<in> set (answers t)) (takeWhile is_tool ms)) (calls m)
      \<and> closed_with calls answers is_tool ms)"

definition same_shape ::
  "('a \<Rightarrow> string list) \<Rightarrow> ('a \<Rightarrow> string list) \<Rightarrow> ('a \<Rightarrow> bool) \<Rightarrow>
   ('b \<Rightarrow> string list) \<Rightarrow> ('b \<Rightarrow> string list) \<Rightarrow> ('b \<Rightarrow> bool) \<Rightarrow> 'a \<Rightarrow> 'b \<Rightarrow> bool" where
  "same_shape calls answers is_tool calls' answers' is_tool' a b \<longleftrightarrow>
     calls a = calls' b \<and> is_tool a = is_tool' b \<and> (is_tool a \<longrightarrow> answers a = answers' b)"

lemma shape_takeWhile:
  "list_all2 (same_shape c a t c' a' t') xs ys \<Longrightarrow>
   list_ex (\<lambda>m. i \<in> set (a m)) (takeWhile t xs) = list_ex (\<lambda>m. i \<in> set (a' m)) (takeWhile t' ys)"
  by (induction rule: list_all2_induct) (auto simp: same_shape_def)

lemma closed_same_shape:
  "list_all2 (same_shape c a t c' a' t') xs ys \<Longrightarrow> closed_with c a t xs = closed_with c' a' t' ys"
proof (induction rule: list_all2_induct)
  case (Cons x xs y ys)
  have "c x = c' y" using Cons(1) by (simp add: same_shape_def)
  then show ?case using Cons(3) shape_takeWhile [OF Cons(2)] by simp
qed simp

lemma close_induct [case_names Nil Cons]:
  assumes "P []"
    and "\<And>m ms. (calls m = [] \<Longrightarrow> P ms) \<Longrightarrow> (calls m \<noteq> [] \<Longrightarrow> P (dropWhile is_tool ms)) \<Longrightarrow> P (m # ms)"
  shows "P ms"
proof (induction ms rule: length_induct)
  case (1 ms)
  then show ?case
    by (cases ms) (auto intro: assms simp: le_imp_less_Suc length_dropWhile_le)
qed

text \<open>What the two views promise the closing loop.\<close>

locale call_grammar =
  fixes calls :: "'m \<Rightarrow> string list"
    and answers :: "'m \<Rightarrow> string list"
    and is_tool :: "'m \<Rightarrow> bool"
    and interrupted :: "string \<Rightarrow> 'm"
  assumes tool_calls: "is_tool m \<Longrightarrow> calls m = []"
    and interrupted_tool: "is_tool (interrupted i)"
    and interrupted_answers: "answers (interrupted i) = [i]"
begin

lemma closed_tools: "list_all is_tool xs \<Longrightarrow> closed_with calls answers is_tool (xs @ ys) = closed_with calls answers is_tool ys"
  by (induction xs) (simp_all add: tool_calls)

lemma closes: "closed_with calls answers is_tool (close_with calls answers is_tool interrupted ms)"
proof (induction ms rule: close_induct [where calls = calls and is_tool = is_tool])
  case (Cons m ms)
  show ?case
  proof (cases "calls m = []")
    case True
    then show ?thesis using Cons by simp
  next
    case False
    let ?run = "takeWhile is_tool ms"
    let ?missing = "filter (\<lambda>i. i \<notin> set (concat (map answers ?run))) (calls m)"
    let ?rest = "close_with calls answers is_tool interrupted (dropWhile is_tool ms)"
    have tools: "list_all is_tool (?run @ map interrupted ?missing)"
      by (auto simp: list_all_iff interrupted_tool dest: set_takeWhileD)
    have "takeWhile is_tool (?run @ map interrupted ?missing @ ?rest) =
        (?run @ map interrupted ?missing) @ takeWhile is_tool ?rest"
      using tools takeWhile_append2 [of "?run @ map interrupted ?missing" is_tool ?rest] by (simp add: list_all_iff)
    moreover have "list_ex (\<lambda>t. i \<in> set (answers t)) (?run @ map interrupted ?missing)" if "i \<in> set (calls m)" for i
    proof (cases "i \<in> set (concat (map answers ?run))")
      case False
      then have "interrupted i \<in> set (?run @ map interrupted ?missing)" using that by simp
      then show ?thesis unfolding list_ex_iff by (rule bexI [rotated]) (simp add: interrupted_answers)
    qed (auto simp: list_ex_iff)
    ultimately show ?thesis
      using False closed_tools [OF tools, of ?rest] Cons.IH(2) [OF False]
      by (auto simp: Let_def list_all_iff)
  qed
qed simp

lemma keeps: "subseq ms (close_with calls answers is_tool interrupted ms)"
proof (induction ms rule: close_induct [where calls = calls and is_tool = is_tool])
  case (Cons m ms)
  show ?case
  proof (cases "calls m = []")
    case False
    have "subseq (takeWhile is_tool ms @ dropWhile is_tool ms)
       (takeWhile is_tool ms @ xs @ close_with calls answers is_tool interrupted (dropWhile is_tool ms))" for xs
      using Cons.IH(2) [OF False] by (intro list_emb_append_mono subseq_order.refl list_emb_append2)
    then show ?thesis using False by (simp add: Let_def)
  qed (use Cons in simp)
qed simp

lemma unchanged: "closed_with calls answers is_tool ms \<Longrightarrow> close_with calls answers is_tool interrupted ms = ms"
proof (induction ms rule: close_induct [where calls = calls and is_tool = is_tool])
  case (Cons m ms)
  show ?case
  proof (cases "calls m = []")
    case False
    have "closed_with calls answers is_tool (takeWhile is_tool ms @ dropWhile is_tool ms)"
      using Cons.prems by simp
    then have rest: "closed_with calls answers is_tool (dropWhile is_tool ms)"
      by (subst (asm) closed_tools) (auto simp: list_all_iff dest: set_takeWhileD)
    have "filter (\<lambda>i. i \<notin> set (concat (map answers (takeWhile is_tool ms)))) (calls m) = []"
      using Cons.prems by (auto simp: filter_empty_conv list_all_iff list_ex_iff)
    then show ?thesis using False Cons.IH(2) [OF False rest] by (simp add: Let_def)
  qed (use Cons in simp)
qed simp

end

interpretation legacy_view: call_grammar legacy_calls legacy_answers is_tool_message "\<lambda>i. tool_result i ''[interrupted]''"
  by unfold_locales (auto simp: legacy_calls_def is_tool_message_def legacy_answers_def)

interpretation ordered_view: call_grammar ordered_calls ordered_answers is_tool_ordered interrupted_result
  by unfold_locales (auto simp: ordered_calls_def is_tool_ordered_def ordered_answers_def interrupted_result_def part_answers_def)

subsection \<open>Checkpoints are closed\<close>

lemma grammar_closed:
  "grammar_from passed pending ms \<Longrightarrow>
     list_all (\<lambda>i. list_ex (\<lambda>t. i \<in> set (legacy_answers t)) (takeWhile is_tool_message ms)) pending
     \<and> closed_with legacy_calls legacy_answers is_tool_message ms"
proof (induction passed pending ms rule: grammar_from.induct)
  case (2 passed pending m ms)
  show ?case
  proof (cases pending)
    case Nil
    show ?thesis using 2 Nil by (auto simp: legacy_calls_def list_all_iff split: if_splits)
  next
    case (Cons expected rest)
    then have m: "msg_role m = ToolRole" "msg_call_id m = Some expected" and g: "grammar_from True rest ms"
      using 2(5) by (auto split: if_splits)
    with 2(4) Cons show ?thesis by (auto simp: list_all_iff list_ex_iff is_tool_message_def legacy_answers_def legacy_calls_def)
  qed
qed simp

lemma map_trust_shape:
  "list_all2 (same_shape legacy_calls legacy_answers is_tool_message legacy_calls legacy_answers is_tool_message)
     (map (trust_legacy t s) ms) ms"
  by (rule list_all2_all_nthI)
    (auto simp: same_shape_def trust_legacy_def Let_def legacy_calls_def legacy_answers_def is_tool_message_def split: option.split)

lemma tool_views_answers:
  "tool_views t ps = [] \<Longrightarrow> part_answers ps = []"
  "tool_views t ps = [v] \<Longrightarrow> msg_call_id v = Some i \<Longrightarrow> part_answers ps = [i]"
  "v \<in> set (tool_views t ps) \<Longrightarrow> msg_role v = ToolRole \<and> msg_call_id v \<noteq> None"
  by (induction t ps rule: tool_views.induct) (auto simp: part_answers_def)

lemma calls_of_parts_ids: "map intent_id (calls_of_parts ps) = part_calls ps"
  by (induction ps rule: calls_of_parts.induct) (auto simp: part_calls_def)

lemma view_shape:
  assumes "snapshot_legacy_views c = [v]" "same_snapshot_message v m"
  shows "same_shape ordered_calls ordered_answers is_tool_ordered legacy_calls legacy_answers is_tool_message c m"
proof (cases "mm_role c = ToolRole")
  case True
  show ?thesis
  proof (cases "tool_views (mm_trust c) (mm_parts c) = []")
    case e: True
    then have v: "v = (message_new ToolRole (part_texts (mm_parts c)))\<lparr>msg_trust := mm_trust c\<rparr>"
      using assms(1) True by (simp add: snapshot_legacy_views_def)
    show ?thesis
      using assms(2) True tool_views_answers(1) [OF e]
      by (simp add: v same_snapshot_message_def same_shape_def ordered_calls_def ordered_answers_def is_tool_ordered_def
          legacy_calls_def legacy_answers_def is_tool_message_def)
  next
    case False
    then have v: "tool_views (mm_trust c) (mm_parts c) = [v]"
      using assms(1) True by (simp add: snapshot_legacy_views_def Let_def split: if_splits)
    then obtain i where i: "msg_role v = ToolRole" "msg_call_id v = Some i"
      using tool_views_answers(3) [of v "mm_trust c" "mm_parts c"] by auto
    have "msg_call_id m = Some i" using assms(2) i(2) by (simp add: same_snapshot_message_def)
    then show ?thesis
      using assms(2) True i tool_views_answers(2) [OF v i(2)]
      by (auto simp: same_snapshot_message_def same_shape_def ordered_calls_def ordered_answers_def is_tool_ordered_def
          legacy_calls_def legacy_answers_def is_tool_message_def
          split: option.split)
  qed
next
  case False
  have role: "msg_role m = mm_role c" and calls: "mm_role c = AssistantRole \<Longrightarrow>
      list_all2 (\<lambda>a b. intent_id a = intent_id b \<and> intent_tool a = intent_tool b \<and> intent_args a = intent_args b)
        (calls_of_parts (mm_parts c)) (msg_calls m)"
    using assms False by (auto simp: snapshot_legacy_views_def Let_def same_snapshot_message_def split: if_splits)
  have "map intent_id (msg_calls m) = part_calls (mm_parts c)" if "mm_role c = AssistantRole"
  proof -
    have "map intent_id (calls_of_parts (mm_parts c)) = map intent_id (msg_calls m)"
      using calls [OF that] by (induction rule: list_all2_induct) auto
    then show ?thesis by (simp add: calls_of_parts_ids)
  qed
  then show ?thesis
    using False role by (auto simp: same_shape_def ordered_calls_def is_tool_ordered_def legacy_calls_def is_tool_message_def)
qed

lemma snapshot_facts:
  assumes "compaction_snapshot cx payload = Some (ms, cs)"
  shows "snapshot_tool_grammar_is_closed ms"
    "list_all2 (same_shape ordered_calls ordered_answers is_tool_ordered legacy_calls legacy_answers is_tool_message) cs ms"
proof -
  have c: "snapshot_tool_grammar_is_closed ms" "length ms = length cs"
    "list_all (\<lambda>(legacy, c). case snapshot_legacy_views c of [candidate] \<Rightarrow> same_snapshot_message candidate legacy | _ \<Rightarrow> False)
       (zip ms cs)"
    using assms by (auto simp: compaction_snapshot_def split: option.splits prod.splits if_splits)
  show "snapshot_tool_grammar_is_closed ms" by (rule c)
  show "list_all2 (same_shape ordered_calls ordered_answers is_tool_ordered legacy_calls legacy_answers is_tool_message) cs ms"
  proof (rule list_all2_all_nthI)
    fix n assume n: "n < length cs"
    then have "case snapshot_legacy_views (cs ! n) of [candidate] \<Rightarrow> same_snapshot_message candidate (ms ! n) | _ \<Rightarrow> False"
      using c(2,3) by (auto simp: list_all_length)
    then show "same_shape ordered_calls ordered_answers is_tool_ordered legacy_calls legacy_answers is_tool_message (cs ! n) (ms ! n)"
      using view_shape by (auto split: list.splits)
  qed (use c(2) in simp)
qed

lemma ordered_trust_shape:
  "list_all2 (same_shape ordered_calls ordered_answers is_tool_ordered ordered_calls ordered_answers is_tool_ordered)
     (map (trust_ordered t s) cs) cs"
  by (rule list_all2_all_nthI)
    (auto simp: same_shape_def trust_ordered_def Let_def ordered_calls_def ordered_answers_def is_tool_ordered_def)

end
