(* ===== verification/Projection.thy ===== *)
theory Projection
  imports Replay
begin

text \<open>
  \<open>project_messages\<close> and \<open>project_ordered_messages\<close> of \<open>crates/kernel/src/events.rs\<close>: each is a fold of one
  step over the events of a session, followed by the closing of interrupted calls. The theorems say
  what a resumed session keeps: the labels of what came from outside, exactly the messages of a
  checkpoint, and an answer to every call.
\<close>

section \<open>The legacy view\<close>

record replay =
  rp_trust :: replay_trust
  rp_out :: "message list"
  rp_text :: string
  rp_intents :: "tool_intent list"
  rp_open :: bool
  rp_canonical :: "string list"
  rp_admissions :: "string \<rightharpoonup> user_admission"

definition replay_start :: replay where
  "replay_start = \<lparr>rp_trust = replay_trust_default, rp_out = [], rp_text = [], rp_intents = [], rp_open = False,
     rp_canonical = [], rp_admissions = Map.empty\<rparr>"

definition replay_flush :: "replay \<Rightarrow> replay" where
  "replay_flush r =
     (if rp_open r
      then r\<lparr>rp_out := rp_out r @ [assistant_calls (rp_text r) (rp_intents r)], rp_text := [], rp_intents := [],
             rp_open := False\<rparr>
      else r)"

definition replayed_media :: "codec \<Rightarrow> event \<Rightarrow> media_part list" where
  "replayed_media cx e = (case de_media cx (attachments_json (ev_payload e)) of Some ms \<Rightarrow> ms | None \<Rightarrow> [])"

definition replayed_user :: "codec \<Rightarrow> event \<Rightarrow> message" where
  "replayed_user cx e =
     (let m0 = message_new UserRole (payload_text e);
          m1 = (if is_from_person e
                then m0\<lparr>msg_prefix := as_str (json_index (ev_payload e) ''instruction_prefix'')\<rparr> else m0);
          m2 = m1\<lparr>msg_media := replayed_media cx e\<rparr>
      in if ev_trust e \<noteq> User then m2\<lparr>msg_trust := Some (ev_trust e)\<rparr>
         else (case json_get (ev_payload e) ''about'' of
                 Some about \<Rightarrow> m2\<lparr>msg_about := de_about cx about\<rparr>
               | None \<Rightarrow> m2))"

definition replay_user :: "codec \<Rightarrow> event \<Rightarrow> replay \<Rightarrow> replay" where
  "replay_user cx e r =
     (let r = (replay_flush r)\<lparr>rp_canonical := []\<rparr>;
          (fresh, admissions) = is_new_user_admission cx e (rp_admissions r);
          r = r\<lparr>rp_admissions := admissions\<rparr>
      in if fresh then r\<lparr>rp_out := rp_out r @ [replayed_user cx e]\<rparr> else r)"

definition replay_intent :: "event \<Rightarrow> replay \<Rightarrow> replay" where
  "replay_intent e r =
     (case (get_str (ev_payload e) ''id'', get_str (ev_payload e) ''tool'') of
        (Some i, Some t) \<Rightarrow>
          if i \<in> set (rp_canonical r) then r
          else r\<lparr>rp_intents := rp_intents r @ [\<lparr>intent_id = i, intent_tool = t, intent_args = json_index (ev_payload e) ''args''\<rparr>],
                 rp_open := True\<rparr>
      | _ \<Rightarrow> r)"

definition replay_model :: "codec \<Rightarrow> event \<Rightarrow> replay \<Rightarrow> replay" where
  "replay_model cx e r =
     (case de_model cx (ev_payload e) of
        None \<Rightarrow> r
      | Some m \<Rightarrow>
          (let content = part_texts (mm_parts m);
               calls = calls_of_parts (mm_parts m);
               r = (if rp_open r \<and> rp_intents r = [] \<and> rp_text r = content
                    then r\<lparr>rp_text := [], rp_open := False\<rparr> else replay_flush r);
               legacy = (if mm_role m = AssistantRole then assistant_calls content calls
                         else message_new (mm_role m) content)
           in r\<lparr>rp_canonical := map intent_id calls, rp_out := rp_out r @ [legacy\<lparr>msg_trust := mm_trust m\<rparr>]\<rparr>))"

definition replay_observation :: "codec \<Rightarrow> event \<Rightarrow> replay \<Rightarrow> replay" where
  "replay_observation cx e r =
     (let r = replay_flush r;
          result = carrying (ev_trust e)
            (tool_result (str_or_empty (get_str (ev_payload e) ''intent_id'')) (observation_for_model cx (ev_payload e)));
          carrier = (case replayed_tool_media cx (ev_payload e) (ev_trust e) of Some m \<Rightarrow> [m] | None \<Rightarrow> [])
      in r\<lparr>rp_out := rp_out r @ [result] @ carrier\<rparr>)"

definition replay_compaction :: "codec \<Rightarrow> bool \<Rightarrow> event \<Rightarrow> replay \<Rightarrow> replay" where
  "replay_compaction cx retain e r =
     (case compaction_snapshot cx (ev_payload e) of
        Some (messages, _) \<Rightarrow>
          (let snapshot = map (trust_legacy (rp_trust r) (as_str (json_index (ev_payload e) ''summary''))) messages;
               kept = (if retain then snapshot else filter (\<lambda>m. msg_role m \<noteq> SystemRole) snapshot)
           in r\<lparr>rp_canonical := [], rp_out := kept, rp_text := [], rp_intents := [], rp_open := False\<rparr>)
      | None \<Rightarrow>
          if json_get (ev_payload e) ''snapshot'' \<noteq> None then r
          else (case get_str (ev_payload e) ''summary'' of
                  None \<Rightarrow> r
                | Some summary \<Rightarrow>
                    if trim summary = [] then r
                    else
                      (let kept = (if retain then filter (\<lambda>m. msg_role m = SystemRole) (rp_out r) else [])
                       in r\<lparr>rp_canonical := [], rp_text := [], rp_intents := [], rp_open := False,
                            rp_out := kept @ [trust_summary (rp_trust r) (message_new AssistantRole summary)]\<rparr>)))"

definition replay_step :: "codec \<Rightarrow> bool \<Rightarrow> event \<Rightarrow> replay \<Rightarrow> replay" where
  "replay_step cx retain e r =
     (let r = r\<lparr>rp_trust := trust_observe e (rp_trust r)\<rparr> in
      case ev_kind e of
        UserMessage \<Rightarrow> replay_user cx e r
      | ModelText \<Rightarrow> r\<lparr>rp_text := payload_text e, rp_open := True\<rparr>
      | ModelIntent \<Rightarrow> replay_intent e r
      | ModelMessage \<Rightarrow> replay_model cx e r
      | ToolObs \<Rightarrow> replay_observation cx e r
      | Compaction \<Rightarrow> replay_compaction cx retain e r
      | _ \<Rightarrow> r)"

definition project_messages_impl :: "codec \<Rightarrow> bool \<Rightarrow> event list \<Rightarrow> message list" where
  "project_messages_impl cx retain es =
     close_dangling_tool_calls (rp_out (replay_flush (fold (replay_step cx retain) es replay_start)))"

definition project_messages :: "codec \<Rightarrow> event list \<Rightarrow> message list" where
  "project_messages cx es = project_messages_impl cx False es"

definition project_request_messages :: "codec \<Rightarrow> event list \<Rightarrow> message list" where
  "project_request_messages cx es = project_messages_impl cx True es"

section \<open>The ordered view\<close>

record ordered_replay =
  ro_trust :: replay_trust
  ro_out :: "model_message list"
  ro_parts :: "content_part list"
  ro_canonical :: "string list"
  ro_admissions :: "string \<rightharpoonup> user_admission"

definition ordered_start :: ordered_replay where
  "ordered_start = \<lparr>ro_trust = replay_trust_default, ro_out = [], ro_parts = [], ro_canonical = [],
     ro_admissions = Map.empty\<rparr>"

definition ordered_flush :: "ordered_replay \<Rightarrow> ordered_replay" where
  "ordered_flush r =
     (if ro_parts r \<noteq> []
      then r\<lparr>ro_out := ro_out r @ [\<lparr>mm_role = AssistantRole, mm_parts = ro_parts r, mm_trust = None\<rparr>], ro_parts := []\<rparr>
      else r)"

definition ordered_user :: "codec \<Rightarrow> event \<Rightarrow> ordered_replay \<Rightarrow> ordered_replay" where
  "ordered_user cx e r =
     (let r = (ordered_flush r)\<lparr>ro_canonical := []\<rparr>;
          (fresh, admissions) = is_new_user_admission cx e (ro_admissions r);
          r = r\<lparr>ro_admissions := admissions\<rparr>;
          m = (message_new UserRole (payload_text e))\<lparr>msg_media := replayed_media cx e\<rparr>;
          m = (if ev_trust e \<noteq> User then m\<lparr>msg_trust := Some (ev_trust e)\<rparr> else m)
      in if fresh then r\<lparr>ro_out := ro_out r @ [ordered m]\<rparr> else r)"

definition ordered_intent :: "event \<Rightarrow> ordered_replay \<Rightarrow> ordered_replay" where
  "ordered_intent e r =
     (case (get_str (ev_payload e) ''id'', get_str (ev_payload e) ''tool'') of
        (Some i, Some t) \<Rightarrow>
          if i \<in> set (ro_canonical r) then r
          else r\<lparr>ro_parts := ro_parts r @ [ToolCallPart i t (json_index (ev_payload e) ''args'') []]\<rparr>
      | _ \<Rightarrow> r)"

definition is_text_part :: "content_part \<Rightarrow> bool" where
  "is_text_part p = (case p of TextPart _ _ \<Rightarrow> True | _ \<Rightarrow> False)"

definition ordered_model :: "codec \<Rightarrow> event \<Rightarrow> ordered_replay \<Rightarrow> ordered_replay" where
  "ordered_model cx e r =
     (case de_model cx (ev_payload e) of
        None \<Rightarrow> r
      | Some m \<Rightarrow>
          (let only_pending_text = list_all is_text_part (ro_parts r);
               r = (if only_pending_text \<and> part_texts (ro_parts r) = part_texts (mm_parts m)
                    then r\<lparr>ro_parts := []\<rparr> else ordered_flush r)
           in r\<lparr>ro_canonical := part_calls (mm_parts m), ro_out := ro_out r @ [m]\<rparr>))"

definition ordered_observation :: "codec \<Rightarrow> event \<Rightarrow> ordered_replay \<Rightarrow> ordered_replay" where
  "ordered_observation cx e r =
     (let r = ordered_flush r;
          result = \<lparr>mm_role = ToolRole,
            mm_parts = [ToolResultPart (str_or_empty (get_str (ev_payload e) ''intent_id''))
              (observation_for_model cx (ev_payload e)) []],
            mm_trust = Some (ev_trust e)\<rparr>;
          carrier = (case replayed_tool_media cx (ev_payload e) (ev_trust e) of Some m \<Rightarrow> [ordered m] | None \<Rightarrow> [])
      in r\<lparr>ro_out := ro_out r @ [result] @ carrier\<rparr>)"

definition ordered_compaction :: "codec \<Rightarrow> bool \<Rightarrow> event \<Rightarrow> ordered_replay \<Rightarrow> ordered_replay" where
  "ordered_compaction cx retain e r =
     (case compaction_snapshot cx (ev_payload e) of
        Some (_, canonical) \<Rightarrow>
          (let snapshot = map (trust_ordered (ro_trust r) (as_str (json_index (ev_payload e) ''summary''))) canonical;
               kept = (if retain then snapshot else filter (\<lambda>m. mm_role m \<noteq> SystemRole) snapshot)
           in r\<lparr>ro_canonical := [], ro_out := kept, ro_parts := []\<rparr>)
      | None \<Rightarrow>
          if json_get (ev_payload e) ''snapshot'' \<noteq> None then r
          else (case get_str (ev_payload e) ''summary'' of
                  None \<Rightarrow> r
                | Some summary \<Rightarrow>
                    if trim summary = [] then r
                    else
                      (let kept = (if retain then filter (\<lambda>m. mm_role m = SystemRole) (ro_out r) else [])
                       in r\<lparr>ro_canonical := [], ro_parts := [],
                            ro_out := kept @ [ordered (trust_summary (ro_trust r) (message_new AssistantRole summary))]\<rparr>)))"

definition ordered_step :: "codec \<Rightarrow> bool \<Rightarrow> event \<Rightarrow> ordered_replay \<Rightarrow> ordered_replay" where
  "ordered_step cx retain e r =
     (let r = r\<lparr>ro_trust := trust_observe e (ro_trust r)\<rparr> in
      case ev_kind e of
        UserMessage \<Rightarrow> ordered_user cx e r
      | ModelText \<Rightarrow> r\<lparr>ro_parts := ro_parts r @ [TextPart (payload_text e) []]\<rparr>
      | ModelIntent \<Rightarrow> ordered_intent e r
      | ModelMessage \<Rightarrow> ordered_model cx e r
      | ToolObs \<Rightarrow> ordered_observation cx e r
      | Compaction \<Rightarrow> ordered_compaction cx retain e r
      | _ \<Rightarrow> r)"

definition project_ordered_messages_impl :: "codec \<Rightarrow> bool \<Rightarrow> event list \<Rightarrow> model_message list" where
  "project_ordered_messages_impl cx retain es =
     close_dangling_ordered_tool_calls (ro_out (ordered_flush (fold (ordered_step cx retain) es ordered_start)))"

definition project_ordered_messages :: "codec \<Rightarrow> event list \<Rightarrow> model_message list" where
  "project_ordered_messages cx es = project_ordered_messages_impl cx False es"

definition project_request_ordered_messages :: "codec \<Rightarrow> event list \<Rightarrow> model_message list" where
  "project_request_ordered_messages cx es = project_ordered_messages_impl cx True es"

section \<open>Lemmas\<close>

lemma flush_closed [simp]: "\<not> rp_open r \<Longrightarrow> replay_flush r = r"
  by (simp add: replay_flush_def)

lemma flush_admissions [simp]: "rp_admissions (replay_flush r) = rp_admissions r"
  by (simp add: replay_flush_def)

lemma flush_keeps: "set (rp_out r) \<subseteq> set (rp_out (replay_flush r))"
  by (auto simp: replay_flush_def)

lemma replay_step_snapshot:
  assumes "ev_kind e = Compaction" "compaction_snapshot cx (ev_payload e) = Some (ms, cs)"
  shows "rp_out (replay_flush (replay_step cx True e r)) =
    map (trust_legacy (trust_observe e (rp_trust r)) (as_str (json_index (ev_payload e) ''summary''))) ms"
  using assms by (simp add: replay_step_def replay_compaction_def)

lemma ordered_step_snapshot:
  assumes "ev_kind e = Compaction" "compaction_snapshot cx (ev_payload e) = Some (ms, cs)"
  shows "ro_out (ordered_flush (ordered_step cx True e r)) =
    map (trust_ordered (trust_observe e (ro_trust r)) (as_str (json_index (ev_payload e) ''summary''))) cs"
  using assms by (simp add: ordered_step_def ordered_compaction_def ordered_flush_def)

lemma trust_legacy_plain: "(trust_legacy t s m)\<lparr>msg_trust := None\<rparr> = m\<lparr>msg_trust := None\<rparr>"
  by (simp add: trust_legacy_def Let_def)

lemma trust_ordered_plain: "(trust_ordered t s m)\<lparr>mm_trust := None\<rparr> = m\<lparr>mm_trust := None\<rparr>"
  by (simp add: trust_ordered_def Let_def)

lemma step_keeps:
  assumes "ev_kind e \<noteq> Compaction"
  shows "set (rp_out r) \<subseteq> set (rp_out (replay_step cx retain e r))"
proof -
  let ?r = "r\<lparr>rp_trust := trust_observe e (rp_trust r)\<rparr>"
  have "set (rp_out r) \<subseteq> set (rp_out (replay_user cx e ?r))"
    using flush_keeps [of ?r] by (auto simp: replay_user_def Let_def split: prod.splits)
  moreover have "set (rp_out r) \<subseteq> set (rp_out (replay_intent e ?r))"
    by (auto simp: replay_intent_def split: option.splits)
  moreover have "set (rp_out r) \<subseteq> set (rp_out (replay_model cx e ?r))"
    using flush_keeps [of ?r] by (auto simp: replay_model_def Let_def split: option.splits)
  moreover have "set (rp_out r) \<subseteq> set (rp_out (replay_observation cx e ?r))"
    using flush_keeps [of ?r] by (auto simp: replay_observation_def Let_def)
  ultimately show ?thesis
    using assms by (cases "ev_kind e") (auto simp: replay_step_def Let_def)
qed

text \<open>An input from outside shows in the projection with its words and its label.\<close>

definition outside_shown :: "string \<Rightarrow> trust_label \<Rightarrow> message list \<Rightarrow> bool" where
  "outside_shown words t ms \<longleftrightarrow>
     (\<exists>m\<in>set ms. msg_role m = UserRole \<and> msg_content m = words \<and> msg_trust m = Some t)"

definition result_shown :: "codec \<Rightarrow> event \<Rightarrow> message list \<Rightarrow> bool" where
  "result_shown cx e ms \<longleftrightarrow>
     carrying (ev_trust e) (tool_result (str_or_empty (get_str (ev_payload e) ''intent_id''))
       (observation_for_model cx (ev_payload e))) \<in> set ms"

definition label_kept :: "codec \<Rightarrow> message list \<Rightarrow> event \<Rightarrow> bool" where
  "label_kept cx ms e \<longleftrightarrow>
     (ev_kind e = UserMessage \<and> ev_trust e \<noteq> User \<longrightarrow> outside_shown (payload_text e) (ev_trust e) ms) \<and>
     (ev_kind e = ToolObs \<longrightarrow> result_shown cx e ms)"

definition labels_inv :: "codec \<Rightarrow> event list \<Rightarrow> replay \<Rightarrow> bool" where
  "labels_inv cx es r \<longleftrightarrow>
     list_all (label_kept cx (rp_out r)) es \<and>
     (\<forall>i a. rp_admissions r i = Some a \<and> adm_trust a \<noteq> User \<longrightarrow> outside_shown (adm_text a) (adm_trust a) (rp_out r))"

lemma outside_shown_mono: "set xs \<subseteq> set ys \<Longrightarrow> outside_shown w t xs \<Longrightarrow> outside_shown w t ys"
  by (auto simp: outside_shown_def)

lemma label_kept_mono: "set xs \<subseteq> set ys \<Longrightarrow> label_kept cx xs e \<Longrightarrow> label_kept cx ys e"
  by (auto simp: label_kept_def result_shown_def intro: outside_shown_mono)

lemma user_step_shown:
  assumes inv: "labels_inv cx es r" and k: "ev_kind e = UserMessage" and t: "ev_trust e \<noteq> User"
  shows "outside_shown (payload_text e) (ev_trust e) (rp_out (replay_step cx retain e r))"
proof (cases "fst (is_new_user_admission cx e (rp_admissions r))")
  case True
  have "replayed_user cx e \<in> set (rp_out (replay_step cx retain e r))"
    using True k by (auto simp: replay_step_def replay_user_def Let_def split: prod.splits)
  moreover have "msg_role (replayed_user cx e) = UserRole" "msg_content (replayed_user cx e) = payload_text e"
    "msg_trust (replayed_user cx e) = Some (ev_trust e)"
    using t by (simp_all add: replayed_user_def Let_def)
  ultimately show ?thesis by (auto simp: outside_shown_def)
next
  case False
  then obtain i where "rp_admissions r i = Some (admission_of e)"
    by (auto simp: is_new_user_admission_def bind_eq_Some_conv split: option.splits)
  then have "outside_shown (payload_text e) (ev_trust e) (rp_out r)"
    using inv t by (fastforce simp: labels_inv_def admission_of_def)
  then show ?thesis using step_keeps [of e r cx retain] k by (auto intro: outside_shown_mono)
qed

lemma step_admissions:
  "rp_admissions (replay_step cx retain e r) =
     (if ev_kind e = UserMessage then (rp_admissions r)(ev_id e \<mapsto> admission_of e) else rp_admissions r)"
  by (cases "ev_kind e")
    (auto simp: replay_step_def Let_def replay_user_def replay_intent_def replay_model_def replay_observation_def
      replay_compaction_def is_new_user_admission_def split: option.splits)

lemma labels_step:
  assumes inv: "labels_inv cx es r" and k: "ev_kind e \<noteq> Compaction"
  shows "labels_inv cx (es @ [e]) (replay_step cx retain e r)"
proof -
  note mono = step_keeps [OF k, of r cx retain]
  have "list_all (label_kept cx (rp_out (replay_step cx retain e r))) es"
    using inv mono by (auto simp: labels_inv_def list_all_iff intro: label_kept_mono)
  moreover have "label_kept cx (rp_out (replay_step cx retain e r)) e"
    using user_step_shown [OF inv]
    by (auto simp: label_kept_def result_shown_def replay_step_def replay_observation_def Let_def)
  moreover have "outside_shown (adm_text a) (adm_trust a) (rp_out (replay_step cx retain e r))"
    if "rp_admissions (replay_step cx retain e r) i = Some a" "adm_trust a \<noteq> User" for i a
  proof (cases "ev_kind e = UserMessage \<and> i = ev_id e")
    case True
    then have "a = admission_of e" using that by (simp add: step_admissions)
    then show ?thesis using user_step_shown [OF inv] True that by (simp add: admission_of_def)
  next
    case False
    then have "rp_admissions r i = Some a" using that by (auto simp: step_admissions split: if_splits)
    then have "outside_shown (adm_text a) (adm_trust a) (rp_out r)" using inv that by (auto simp: labels_inv_def)
    then show ?thesis by (rule outside_shown_mono [OF mono])
  qed
  ultimately show ?thesis by (auto simp: labels_inv_def)
qed

lemma labels_fold:
  "list_all (\<lambda>e. ev_kind e \<noteq> Compaction) es \<Longrightarrow> labels_inv cx es (fold (replay_step cx retain) es replay_start)"
proof (induction es rule: rev_induct)
  case Nil
  show ?case by (simp add: labels_inv_def replay_start_def)
next
  case (snoc e es)
  then show ?case using labels_step by simp
qed

section \<open>Properties\<close>

text \<open>A resumed session never sends a call without its answer: whatever the log holds, however it was cut off, and
  with or without a checkpoint, in both rebuilt views each call of an assistant message is answered
  within the run of tool messages right after it.\<close>

theorem replay_answers_every_call:
  "closed_with legacy_calls legacy_answers is_tool_message (project_messages_impl cx retain es) \<and>
   closed_with ordered_calls ordered_answers is_tool_ordered (project_ordered_messages_impl cx retain es)"
  unfolding project_messages_impl_def project_ordered_messages_impl_def close_dangling_tool_calls_def
    close_dangling_ordered_tool_calls_def
  by (rule conjI [OF legacy_view.closes ordered_view.closes])

text \<open>C15. A valid checkpoint is replayed exactly: after any history, a log that ends with a compaction whose snapshot is
  accepted rebuilds both request views message for message as the snapshot holds them; only a trust
  label may be lowered, and nothing is repaired, dropped or added.\<close>

theorem checkpoint_replays_exactly:
  assumes "ev_kind e = Compaction" "compaction_snapshot cx (ev_payload e) = Some (ms, cs)"
  shows "map (\<lambda>m. m\<lparr>msg_trust := None\<rparr>) (project_request_messages cx (es @ [e])) = map (\<lambda>m. m\<lparr>msg_trust := None\<rparr>) ms \<and>
    map (\<lambda>m. m\<lparr>mm_trust := None\<rparr>) (project_request_ordered_messages cx (es @ [e])) = map (\<lambda>m. m\<lparr>mm_trust := None\<rparr>) cs"
proof
  note facts = snapshot_facts [OF assms(2)]
  have closed: "closed_with legacy_calls legacy_answers is_tool_message ms"
    using facts(1) grammar_closed by (auto simp: snapshot_tool_grammar_is_closed_def)
  then have "closed_with legacy_calls legacy_answers is_tool_message (map (trust_legacy t s) ms)" for t s
    using closed_same_shape [OF map_trust_shape] by metis
  then show "map (\<lambda>m. m\<lparr>msg_trust := None\<rparr>) (project_request_messages cx (es @ [e])) = map (\<lambda>m. m\<lparr>msg_trust := None\<rparr>) ms"
    by (simp add: project_request_messages_def project_messages_impl_def close_dangling_tool_calls_def
        replay_step_snapshot [OF assms] legacy_view.unchanged trust_legacy_plain)
  have "closed_with ordered_calls ordered_answers is_tool_ordered cs"
    using closed closed_same_shape [OF facts(2)] by simp
  then have "closed_with ordered_calls ordered_answers is_tool_ordered (map (trust_ordered t s) cs)" for t s
    using closed_same_shape [OF ordered_trust_shape] by metis
  then show "map (\<lambda>m. m\<lparr>mm_trust := None\<rparr>) (project_request_ordered_messages cx (es @ [e])) = map (\<lambda>m. m\<lparr>mm_trust := None\<rparr>) cs"
    by (simp add: project_request_ordered_messages_def project_ordered_messages_impl_def close_dangling_ordered_tool_calls_def
        ordered_step_snapshot [OF assms] ordered_view.unchanged trust_ordered_plain)
qed

text \<open>C16. Labels survive a resume: in a log without compaction, every input that came from outside (a fetched page, a
  report, hook text) is in the rebuilt conversation with its words and its label, even when it names
  another event as the one it retries, and every tool result is there with the label it was stored with.\<close>

theorem replay_keeps_labels:
  assumes "list_all (\<lambda>e. ev_kind e \<noteq> Compaction) es"
  shows "list_all (label_kept cx (project_messages_impl cx retain es)) es"
proof -
  let ?r = "fold (replay_step cx retain) es replay_start"
  have "set (rp_out (replay_flush ?r)) \<subseteq> set (project_messages_impl cx retain es)"
    unfolding project_messages_impl_def close_dangling_tool_calls_def
    by (rule subsetI, erule list_emb_set [OF legacy_view.keeps]) simp
  then have "set (rp_out ?r) \<subseteq> set (project_messages_impl cx retain es)"
    using flush_keeps [of ?r] by blast
  then show ?thesis
    using labels_fold [OF assms, of cx retain] by (auto simp: labels_inv_def list_all_iff intro: label_kept_mono)
qed

text \<open>The two views of a live context always make a valid checkpoint entry: for a message of the shape its role
  has (a tool's without images), the legacy view read back from its ordered form is one message that
  the checkpoint's own comparison accepts as the same.\<close>

theorem ordered_view_matches:
  assumes "message_ok m" "msg_role m = ToolRole \<longrightarrow> msg_media m = []"
  shows "\<exists>v. snapshot_legacy_views (ordered m) = [v] \<and> same_snapshot_message v m"
proof -
  have same: "list_all2 (\<lambda>a b. intent_id a = intent_id b \<and> intent_tool a = intent_tool b \<and> intent_args a = intent_args b) cs cs"
    for cs :: "tool_intent list"
    by (simp add: list.rel_refl)
  have calls: "calls_of_parts (text_parts s @ map (\<lambda>c. ToolCallPart (intent_id c) (intent_tool c) (intent_args c) []) cs
      @ media_parts n k ms) = cs" for s cs n k ms
  proof -
    have "calls_of_parts (media_parts n k ms) = []" by (induction ms arbitrary: k) simp_all
    then have "calls_of_parts (map (\<lambda>c. ToolCallPart (intent_id c) (intent_tool c) (intent_args c) []) cs
      @ media_parts n k ms) = cs" by (induction cs) simp_all
    then show ?thesis by (simp add: text_parts_def)
  qed
  have media: "media_of_parts (text_parts s @ map (\<lambda>c. ToolCallPart (intent_id c) (intent_tool c) (intent_args c) []) cs
      @ media_parts n k ms) = ms" for s cs n k ms
  proof -
    have "media_of_parts (media_parts n k ms) = ms" by (induction ms arbitrary: k) simp_all
    then have "media_of_parts (map (\<lambda>c. ToolCallPart (intent_id c) (intent_tool c) (intent_args c) []) cs
      @ media_parts n k ms) = ms" by (induction cs) simp_all
    then show ?thesis by (simp add: text_parts_def)
  qed
  show ?thesis
  proof (cases "msg_role m = ToolRole")
    case True
    then show ?thesis
      using assms same
      by (cases "msg_call_id m")
        (auto simp: snapshot_legacy_views_def ordered_def text_parts_def same_snapshot_message_def message_ok_def part_texts_def)
  next
    case False
    have parts: "mm_parts (ordered m) = text_parts (msg_content m)
        @ map (\<lambda>c. ToolCallPart (intent_id c) (intent_tool c) (intent_args c) []) (msg_calls m)
        @ media_parts (length (msg_media m)) 0 (msg_media m)"
      using False by (simp add: ordered_def)
    show ?thesis
      using assms False same
      by (auto simp: snapshot_legacy_views_def legacy_text_of_ordered_eq parts calls media same_snapshot_message_def message_ok_def)
  qed
qed

text \<open>A log on which the properties speak: a page's words, then a forged retry of them under a stronger label.\<close>

definition checkpoint_codec :: codec where
  "checkpoint_codec = \<lparr>de_media = (\<lambda>_. Some []), de_model = (\<lambda>_. None),
     de_snapshot = (\<lambda>_. Some (1, [message_new UserRole ''hi''], [ordered (message_new UserRole ''hi'')])),
     de_about = (\<lambda>_. None), cx_show = (\<lambda>_. ''{}''), ulid_parse = Some\<rparr>"

definition page_event :: event where
  "page_event = event_new ''01'' 0 ''S'' UserMessage (JObj [(''text'', JStr ''words'')]) Web"

definition checkpoint_event :: event where
  "checkpoint_event = event_new ''02'' 0 ''S'' Compaction (JObj [(''snapshot'', JNull)]) System"

theorem replay_keeps_labels_witness:
  "outside_shown ''words'' Web (project_messages_impl checkpoint_codec False
     [page_event, page_event\<lparr>ev_id := ''02'', ev_trust := User\<rparr>])"
proof -
  have "list_all (label_kept checkpoint_codec (project_messages_impl checkpoint_codec False
     [page_event, page_event\<lparr>ev_id := ''02'', ev_trust := User\<rparr>])) [page_event, page_event\<lparr>ev_id := ''02'', ev_trust := User\<rparr>]"
    by (rule replay_keeps_labels) (simp add: page_event_def event_new_def)
  then show ?thesis
    by (simp add: label_kept_def page_event_def event_new_def payload_text_def get_str_def json_get_def as_str_def str_or_empty_def)
qed

lemma checkpoint_accepted:
  "compaction_snapshot checkpoint_codec (ev_payload checkpoint_event) =
     Some ([message_new UserRole ''hi''], [ordered (message_new UserRole ''hi'')])"
  by (simp add: compaction_snapshot_def checkpoint_codec_def checkpoint_event_def event_new_def json_get_def
      snapshot_tool_grammar_is_closed_def snapshot_legacy_views_def legacy_text_of_ordered_eq same_snapshot_message_def)
    (simp add: ordered_def text_parts_def)

theorem checkpoint_replays_exactly_witness:
  "map (\<lambda>m. m\<lparr>msg_trust := None\<rparr>) (project_request_messages checkpoint_codec [page_event, checkpoint_event])
     = [message_new UserRole ''hi'']"
proof -
  have "ev_kind checkpoint_event = Compaction" by (simp add: checkpoint_event_def event_new_def)
  from checkpoint_replays_exactly [OF this checkpoint_accepted, of "[page_event]"]
  show ?thesis by (simp add: message_new_def)
qed

theorem ordered_view_matches_witness:
  "\<exists>v. snapshot_legacy_views (ordered (tool_result ''1'' ''done'')) = [v] \<and> msg_content v = ''done''"
  using ordered_view_matches [of "tool_result ''1'' ''done''"] by (auto simp: message_ok_def same_snapshot_message_def)

end
