(* ===== verification/Refusals.thy ===== *)
theory Refusals
  imports KernelTypes
begin

text \<open>
  Repeats that go nowhere, \<open>crates/kernel/src/refusals.rs\<close>: refusals counted by tool and reason, and
  failures counted by exact call, across one run of a session. A call that failed four times is
  settled without running. \<open>show\<close> prints a JSON value as \<open>serde_json\<close> does.
\<close>

section \<open>The texts and the counters\<close>

definition TWICE :: string where
  "TWICE = ''This was refused twice for the same reason. Do not try another variation of it: change the approach, or tell the person what is blocked and why.''"

definition THRICE :: string where
  "THRICE = ''Refused three times for the same reason. Stop using this tool for it and tell the person what was blocked, why, and what they can do about it.''"

definition FAILED_TWICE :: string where
  "FAILED_TWICE = ''This exact call failed twice. Do not repeat it unchanged: read the error, then change the arguments or the approach.''"

definition LAST_TRY :: string where
  "LAST_TRY = ''This exact call has now failed four times. Medha will not run it again until the person'' @ [CHR 0x27]
     @ ''s next message: change the approach, or tell the person what is blocking it.''"

definition NOT_RUN :: string where
  "NOT_RUN = ''Not run: this exact call already failed four times since the person'' @ [CHR 0x27]
     @ ''s last message. Change the approach, or tell the person what is blocking it and why.''"

definition BLOCK_AT :: nat where
  "BLOCK_AT = 5"

definition NOT_RUN_CODE :: string where
  "NOT_RUN_CODE = ''repeated_failure''"

record refusals =
  reasons :: "string \<Rightarrow> nat"
  failures :: "string \<Rightarrow> nat"

definition refusals_default :: refusals where
  "refusals_default = \<lparr>reasons = (\<lambda>_. 0), failures = (\<lambda>_. 0)\<rparr>"

definition nl1 :: string where
  "nl1 = [CHR 0x0A]"

text \<open>One call by tool and arguments.\<close>

definition signature :: "(json \<Rightarrow> string) \<Rightarrow> tool_intent \<Rightarrow> string" where
  "signature sj i = intent_tool i @ nl1 @ sj (intent_args i)"

section \<open>Operations\<close>

definition refusal_blocked :: "(json \<Rightarrow> string) \<Rightarrow> tool_intent \<Rightarrow> refusals \<Rightarrow> observation option" where
  "refusal_blocked sj i r =
     (if BLOCK_AT \<le> failures r (signature sj i) + 1
      then (let obs = obs_denial (intent_id i) NOT_RUN
            in Some (obs\<lparr>obs_payload := json_set ''error_code'' (JStr NOT_RUN_CODE) (obs_payload obs)\<rparr>))
      else None)"

text \<open>The reason a denied observation gives.\<close>

definition refusal_reason :: "observation \<Rightarrow> string option" where
  "refusal_reason obs =
     (if obs_status obs \<noteq> StatusDenied then None
      else Option.bind
        (case json_get (obs_payload obs) ''reason'' of Some v \<Rightarrow> Some v | None \<Rightarrow> json_get (obs_payload obs) ''error'')
        as_str)"

definition refused :: "string \<Rightarrow> observation \<Rightarrow> refusals \<Rightarrow> (string \<times> string option) option \<times> refusals" where
  "refused tool obs r =
     (case refusal_reason obs of
        None \<Rightarrow> (None, r)
      | Some reason \<Rightarrow>
          let key = tool @ nl1 @ reason;
              n = reasons r key + 1;
              r' = r\<lparr>reasons := (reasons r)(key := n)\<rparr>
          in (if n = 1 then None
              else if n = 2 then Some (TWICE, None)
              else Some (THRICE,
                if n = 3
                then Some (tool @ '' was refused three times ('' @ reason @ ''); the model was told to stop.'')
                else None), r'))"

text \<open>The failures counter after a settled call, and the advice of the count.\<close>

definition count_failure :: "(json \<Rightarrow> string) \<Rightarrow> tool_intent \<Rightarrow> bool \<Rightarrow> obs_status \<Rightarrow> refusals \<Rightarrow> string option \<times> refusals" where
  "count_failure sj i failed status r =
     (let call = signature sj i in
      if failed
      then (let n = failures r call + 1
            in (if n = 2 then Some FAILED_TWICE else if n + 1 = BLOCK_AT then Some LAST_TRY else None,
                r\<lparr>failures := (failures r)(call := n)\<rparr>))
      else (None, if status = StatusOk then r\<lparr>failures := (failures r)(call := 0)\<rparr> else r))"

text \<open>The advice is written into the payload and the text; writing into a payload that is not an object
  panics, which is None.\<close>

definition advise :: "string \<Rightarrow> observation \<Rightarrow> observation option" where
  "advise note obs =
     (if is_object (obs_payload obs) \<or> obs_payload obs = JNull
      then Some (obs\<lparr>obs_payload := json_set ''repeated'' (JStr note) (obs_payload obs),
                     model_text := map_option (\<lambda>t. t @ nl1 @ nl1 @ note) (model_text obs)\<rparr>)
      else None)"

definition not_run_notice :: "string \<Rightarrow> string" where
  "not_run_notice tool = ''Medha did not run '' @ tool @ '' again: the same call failed '' @ decimal (BLOCK_AT - 1) @ '' times.''"

definition refusal_note ::
  "(json \<Rightarrow> string) \<Rightarrow> tool_intent \<Rightarrow> bool \<Rightarrow> observation \<Rightarrow> refusals \<Rightarrow> (string option \<times> observation \<times> refusals) option" where
  "refusal_note sj i failed obs r =
     (if json_index (obs_payload obs) ''error_code'' = JStr NOT_RUN_CODE
      then Some (Some (not_run_notice (intent_tool i)), obs, r)
      else
        let (advice, r1) = count_failure sj i failed (obs_status obs) r;
            (notice, r2) = refused (intent_tool i) obs r1;
            person = (case notice of Some (_, p) \<Rightarrow> p | None \<Rightarrow> None)
        in case (case advice of Some a \<Rightarrow> Some a | None \<Rightarrow> map_option fst notice) of
             None \<Rightarrow> Some (person, obs, r2)
           | Some note \<Rightarrow> map_option (\<lambda>obs'. (person, obs', r2)) (advise note obs))"

section \<open>Lemmas\<close>

lemma refused_failures [simp]: "failures (snd (refused tool obs r)) = failures r"
  by (simp add: refused_def Let_def split: option.splits)

lemma refusal_blocked_iff: "refusal_blocked sj i r \<noteq> None \<longleftrightarrow> 4 \<le> failures r (signature sj i)"
  by (simp add: refusal_blocked_def BLOCK_AT_def Let_def)

lemma refusal_blocked_code:
  "refusal_blocked sj i r = Some obs \<Longrightarrow> json_index (obs_payload obs) ''error_code'' = JStr NOT_RUN_CODE"
  by (auto simp: refusal_blocked_def obs_denial_def Let_def json_index_def json_obj_def is_object_def split: if_splits)

lemma refusal_note_blocked:
  "refusal_blocked sj i r = Some obs \<Longrightarrow> refusal_note sj i failed obs r = Some (Some (not_run_notice (intent_tool i)), obs, r)"
  by (simp add: refusal_note_def refusal_blocked_code)

text \<open>What a settled call does to the count of every exact call.\<close>

definition counted :: "(json \<Rightarrow> string) \<Rightarrow> tool_intent \<Rightarrow> bool \<Rightarrow> observation \<Rightarrow> (string \<Rightarrow> nat) \<Rightarrow> string \<Rightarrow> nat" where
  "counted sj i failed obs f =
     (if json_index (obs_payload obs) ''error_code'' = JStr NOT_RUN_CODE then f
      else if failed then f(signature sj i := f (signature sj i) + 1)
      else if obs_status obs = StatusOk then f(signature sj i := 0) else f)"

lemma refusal_note_failures:
  "refusal_note sj i failed obs r = Some (p, obs', r') \<Longrightarrow> failures r' = counted sj i failed obs (failures r)"
  by (auto simp: refusal_note_def counted_def count_failure_def Let_def dest: arg_cong [where f = "failures \<circ> snd"]
      split: if_splits prod.splits option.splits)

end
