(* ===== verification/ArgRepair.thy ===== *)
theory ArgRepair
  imports KernelTypes
begin

text \<open>
  Tool arguments repaired against the tool's own schema, \<open>crates/kernel/src/arg_repair.rs\<close>. Parsing JSON
  text, parsing a finite decimal number to its \<open>f64\<close> bits and printing a value are parameters
  (\<open>parse\<close>, \<open>real\<close>, \<open>sj\<close>). The depth of nested arguments is counted down from the code's limit.
\<close>

section \<open>Whole numbers among the doubles\<close>

definition f64_exponent :: "64 word \<Rightarrow> nat" where
  "f64_exponent w = unat w div 2 ^ 52 mod 2 ^ 11"

definition f64_mantissa :: "64 word \<Rightarrow> nat" where
  "f64_mantissa w = unat w mod 2 ^ 52"

text \<open>\<open>n.fract() == 0.0\<close>.\<close>

definition f64_whole :: "64 word \<Rightarrow> bool" where
  "f64_whole w =
     (let e = f64_exponent w; m = f64_mantissa w in
      if e = 2047 then False
      else if e < 1023 then e = 0 \<and> m = 0
      else 1075 \<le> e \<or> (2 ^ 52 + m) mod 2 ^ (1075 - e) = 0)"

text \<open>The integer a whole number is.\<close>

definition f64_to_int :: "64 word \<Rightarrow> int" where
  "f64_to_int w =
     (let e = f64_exponent w; m = f64_mantissa w;
          a = (if e < 1023 then 0 else if 1075 \<le> e then (2 ^ 52 + m) * 2 ^ (e - 1075) else (2 ^ 52 + m) div 2 ^ (1075 - e))
      in if unat w < 2 ^ 63 then int a else - int a)"

section \<open>Kinds and schemas\<close>

fun json_kind :: "json \<Rightarrow> string" where
  "json_kind JNull = ''null''"
| "json_kind (JBool _) = ''boolean''"
| "json_kind (JInt _) = ''integer''"
| "json_kind (JFloat _) = ''number''"
| "json_kind (JStr _) = ''string''"
| "json_kind (JArr _) = ''array''"
| "json_kind (JObj _) = ''object''"

definition array_at :: "json \<Rightarrow> string \<Rightarrow> json list" where
  "array_at v k = (case json_get v k of Some (JArr xs) \<Rightarrow> xs | _ \<Rightarrow> [])"

definition own_types :: "json \<Rightarrow> string list" where
  "own_types schema = (case json_get schema ''type'' of
     Some (JStr k) \<Rightarrow> [k]
   | Some (JArr ks) \<Rightarrow> List.map_filter as_str ks
   | _ \<Rightarrow> [])"

lemma map_of_size: "map_of flds k = Some v \<Longrightarrow> size v < Suc (size_list (size_prod (\<lambda>_. 0) size) flds)"
  by (induction flds) (auto split: if_splits)

lemma array_at_size: "b \<in> set (array_at v k) \<Longrightarrow> size b < size v"
proof -
  assume "b \<in> set (array_at v k)"
  then obtain xs where get: "json_get v k = Some (JArr xs)" "b \<in> set xs"
    by (cases "json_get v k"; cases "the (json_get v k)") (auto simp: array_at_def)
  then obtain flds where v: "v = JObj flds" "map_of flds k = Some (JArr xs)"
    by (auto simp: json_get_def split: json.splits)
  have "size b < size (JArr xs)" using get(2) by (simp add: size_list_estimation' less_Suc_eq_le)
  also have "size (JArr xs) < size v" using map_of_size [OF v(2)] v(1) by simp
  finally show "size b < size v" .
qed

text \<open>The JSON types a schema declares, through \<open>type\<close> or a union of branches.\<close>

function declared :: "json \<Rightarrow> string list" where
  "declared schema =
     own_types schema @ concat (map declared (array_at schema ''anyOf'')) @ concat (map declared (array_at schema ''oneOf''))
     @ (if json_get schema ''nullable'' = Some (JBool True) then [''null''] else [])"
  by pat_completeness auto

termination
  by (relation "measure size") (auto dest: array_at_size)

declare declared.simps [simp del]

definition fits_type :: "json \<Rightarrow> string \<Rightarrow> bool" where
  "fits_type v k =
     (case v of
        JInt _ \<Rightarrow> k = ''number'' \<or> k = ''integer''
      | JFloat w \<Rightarrow> k = ''number'' \<or> (k = ''integer'' \<and> f64_whole w)
      | _ \<Rightarrow> k = json_kind v)"

definition json_fits :: "json \<Rightarrow> json \<Rightarrow> bool" where
  "json_fits v schema = (let types = declared schema in types = [] \<or> list_ex (fits_type v) types)"

section \<open>Conversion\<close>

text \<open>\<open>text.parse::<i64>()\<close>.\<close>

definition parse_i64 :: "string \<Rightarrow> int option" where
  "parse_i64 s =
     (let (neg, ds) = (case s of CHR ''-'' # r \<Rightarrow> (True, r) | CHR ''+'' # r \<Rightarrow> (False, r) | _ \<Rightarrow> (False, s)) in
      if ds = [] \<or> \<not> list_all is_ascii_digit ds then None
      else
        let n = int (digits_value ds); v = (if neg then - n else n)
        in if - (2 ^ 63) \<le> v \<and> v < 2 ^ 63 then Some v else None)"

definition json_number :: "(string \<Rightarrow> 64 word option) \<Rightarrow> string \<Rightarrow> bool \<Rightarrow> json option" where
  "json_number real s whole =
     (if s = [] then None
      else case parse_i64 s of
        Some n \<Rightarrow> Some (JInt n)
      | None \<Rightarrow>
          (case real s of
             None \<Rightarrow> None
           | Some w \<Rightarrow>
               if \<not> whole then Some (JFloat w)
               else if f64_whole w \<and> \<bar>f64_to_int w\<bar> < 9000000000000000 then Some (JInt (f64_to_int w)) else None))"

definition convert_text ::
  "(string \<Rightarrow> json option) \<Rightarrow> (string \<Rightarrow> 64 word option) \<Rightarrow> string \<Rightarrow> string \<Rightarrow> json option" where
  "convert_text parse real target s =
     (let t = trim s in
      if target = ''integer'' \<or> target = ''number'' then json_number real t (target = ''integer'')
      else if target = ''boolean''
      then (if t = ''true'' then Some (JBool True) else if t = ''false'' then Some (JBool False) else None)
      else if target = ''array'' \<or> target = ''object''
      then (case parse t of
              Some v \<Rightarrow> if json_kind v = target then Some v
                        else if target = ''array'' \<and> \<not> starts_with t ''['' \<and> \<not> starts_with t ''{''
                        then Some (JArr [JStr s]) else None
            | None \<Rightarrow> if target = ''array'' \<and> \<not> starts_with t ''['' \<and> \<not> starts_with t ''{''
                      then Some (JArr [JStr s]) else None)
      else None)"

definition json_convert ::
  "(string \<Rightarrow> json option) \<Rightarrow> (string \<Rightarrow> 64 word option) \<Rightarrow> (json \<Rightarrow> string) \<Rightarrow> json \<Rightarrow> json \<Rightarrow> json option" where
  "json_convert parse real sj v schema =
     (let types = declared schema in
      if (case v of JStr s \<Rightarrow> ''null'' \<in> set types \<and> trim s = ''null'' | _ \<Rightarrow> False) then Some JNull
      else case filter (\<lambda>k. k \<noteq> ''null'') types of
        [target] \<Rightarrow>
          (case v of
             JStr s \<Rightarrow> convert_text parse real target s
           | _ \<Rightarrow>
             if target = ''array'' \<and> v \<noteq> JNull then Some (JArr [v])
             else if target = ''string'' \<and> (json_kind v = ''array'' \<or> json_kind v = ''object'')
                  \<and> json_get schema ''enum'' = None \<and> json_get schema ''const'' = None \<and> json_get schema ''pattern'' = None
             then Some (JStr (sj v))
             else None)
      | _ \<Rightarrow> None)"

section \<open>The walk\<close>

record repair =
  rp_path :: string
  rp_sent :: string
  rp_passed :: string

definition MAX_DEPTH :: nat where "MAX_DEPTH = 16"

definition field_path :: "string \<Rightarrow> string \<Rightarrow> string" where
  "field_path path key = (if path = [] then key else path @ ''.'' @ key)"

definition item_path :: "string \<Rightarrow> nat \<Rightarrow> string" where
  "item_path path i = path @ ''['' @ decimal i @ '']''"

text \<open>Parts changed one after the other, with all that was changed.\<close>

fun walk_each :: "('a \<Rightarrow> 'a \<times> repair list) \<Rightarrow> 'a list \<Rightarrow> 'a list \<times> repair list" where
  "walk_each f [] = ([], [])"
| "walk_each f (x # xs) = (let (y, a) = f x; (ys, b) = walk_each f xs in (y # ys, a @ b))"

text \<open>One value: its own repair first, then its parts, with \<open>deeper\<close> for the next depth.\<close>

definition repair_top ::
  "(string \<Rightarrow> json option) \<Rightarrow> (string \<Rightarrow> 64 word option) \<Rightarrow> (json \<Rightarrow> string) \<Rightarrow> json \<Rightarrow> json \<Rightarrow> string \<Rightarrow> json \<times> repair list" where
  "repair_top parse real sj v schema path =
     (if json_fits v schema then (v, [])
      else case json_convert parse real sj v schema of
        None \<Rightarrow> (v, [])
      | Some v' \<Rightarrow> (v', [\<lparr>rp_path = path, rp_sent = json_kind v, rp_passed = json_kind v'\<rparr>]))"

definition walk_parts :: "(json \<Rightarrow> json \<Rightarrow> string \<Rightarrow> json \<times> repair list) \<Rightarrow> json \<Rightarrow> json \<Rightarrow> string \<Rightarrow> json \<times> repair list" where
  "walk_parts deeper v schema path =
     (case v of
        JObj flds \<Rightarrow>
          (case Option.bind (json_get schema ''properties'') as_object of
             None \<Rightarrow> (v, [])
           | Some properties \<Rightarrow>
               (let (fs, out) = walk_each (\<lambda>(key, item).
                      case map_of properties key of
                        None \<Rightarrow> ((key, item), [])
                      | Some field \<Rightarrow> (let (item', rs) = deeper item field (field_path path key) in ((key, item'), rs))) flds
                in (JObj fs, out)))
      | JArr items \<Rightarrow>
          (case json_get schema ''items'' of
             Some item_schema \<Rightarrow>
               if is_object item_schema
               then (let (xs, out) = walk_each (\<lambda>(i, item).
                            let (item', rs) = deeper item item_schema (item_path path i) in ((i, item'), rs)) (enumerate 0 items)
                     in (JArr (map snd xs), out))
               else (v, [])
           | None \<Rightarrow> (v, []))
      | _ \<Rightarrow> (v, []))"

primrec repair_walk ::
  "(string \<Rightarrow> json option) \<Rightarrow> (string \<Rightarrow> 64 word option) \<Rightarrow> (json \<Rightarrow> string) \<Rightarrow> nat \<Rightarrow> json \<Rightarrow> json \<Rightarrow> string \<Rightarrow>
   json \<times> repair list" where
  "repair_walk parse real sj 0 = (\<lambda>v schema path. (v, []))"
| "repair_walk parse real sj (Suc n) = (\<lambda>v schema path.
     if \<not> is_object schema then (v, [])
     else
       let (v1, own) = repair_top parse real sj v schema path;
           (v2, out) = walk_parts (repair_walk parse real sj n) v1 schema path
       in (v2, own @ out))"

definition arg_repair ::
  "(string \<Rightarrow> json option) \<Rightarrow> (string \<Rightarrow> 64 word option) \<Rightarrow> (json \<Rightarrow> string) \<Rightarrow> json \<Rightarrow> json \<Rightarrow> json \<times> repair list" where
  "arg_repair parse real sj args schema = repair_walk parse real sj (Suc MAX_DEPTH) args schema []"

section \<open>What the model is told\<close>

definition article :: "string \<Rightarrow> string" where
  "article k =
     (if k \<in> {''array'', ''object'', ''integer''} then ''an '' @ k else if k = ''null'' then ''null'' else ''a '' @ k)"

definition backquoted :: "string \<Rightarrow> string" where
  "backquoted s = ''`'' @ s @ ''`''"

definition repair_note :: "repair list \<Rightarrow> string option" where
  "repair_note repairs =
     (if repairs = [] then None
      else Some (''Medha adjusted this call to match the tool's schema: ''
        @ join_with ''; '' (map (\<lambda>r. backquoted (rp_path r) @ '' was sent as '' @ article (rp_sent r) @ '' and passed as ''
            @ article (rp_passed r)) repairs)
        @ ''. Send these types directly next time.''))"

definition unknown_fields :: "string \<Rightarrow> json \<Rightarrow> json \<Rightarrow> string option" where
  "unknown_fields tool args schema =
     (if (case json_get schema ''additionalProperties'' of Some v \<Rightarrow> v \<noteq> JBool False | None \<Rightarrow> False) then None
      else case (Option.bind (json_get schema ''properties'') as_object, as_object args) of
        (Some flds, Some given) \<Rightarrow>
          (let unknown = filter (\<lambda>k. \<not> starts_with k ''_'' \<and> map_of flds k = None) (map fst given);
               named = (\<lambda>names. join_with '', '' (map backquoted names))
           in if unknown = [] then None
              else Some (named unknown @ '' '' @ (if length unknown = 1 then ''is not a field'' else ''are not fields'')
                     @ '' of '' @ tool @ ''; its fields are '' @ named (map fst flds) @ ''.''))
      | _ \<Rightarrow> None)"

text \<open>\<open>text_fields\<close>: arguments a list sent in their place would be passed as JSON text.\<close>

definition text_fields ::
  "(string \<Rightarrow> json option) \<Rightarrow> (string \<Rightarrow> 64 word option) \<Rightarrow> (json \<Rightarrow> string) \<Rightarrow> json \<Rightarrow> string list" where
  "text_fields parse real sj schema =
     (case Option.bind (json_get schema ''properties'') as_object of
        None \<Rightarrow> []
      | Some flds \<Rightarrow> map fst (filter (\<lambda>(_, field). is_object field \<and> \<not> json_fits (JArr []) field
          \<and> json_convert parse real sj (JArr []) field \<noteq> None) flds))"

section \<open>Lemmas\<close>

lemma declared_in_fits: "k \<in> set (declared schema) \<Longrightarrow> fits_type v k \<Longrightarrow> json_fits v schema"
  by (auto simp: json_fits_def Let_def list_ex_iff)

lemma json_number_fits: "json_number real t (target = ''integer'') = Some v \<Longrightarrow>
    target = ''integer'' \<or> target = ''number'' \<Longrightarrow> fits_type v target"
  by (auto simp: json_number_def fits_type_def split: option.splits if_splits)

lemma convert_text_fits: "convert_text parse real target s = Some v \<Longrightarrow> fits_type v target"
  unfolding convert_text_def Let_def
  by (auto dest: json_number_fits simp: fits_type_def split: if_splits option.splits json.splits)

text \<open>What a conversion gives fits the schema it was made for.\<close>

lemma convert_fits:
  assumes "json_convert parse real sj v schema = Some v'"
  shows "json_fits v' schema"
proof (cases "case v of JStr s \<Rightarrow> ''null'' \<in> set (declared schema) \<and> trim s = ''null'' | _ \<Rightarrow> False")
  case True
  then have "''null'' \<in> set (declared schema)" "v' = JNull"
    using assms by (auto simp: json_convert_def Let_def split: json.splits)
  then show ?thesis by (auto intro: declared_in_fits simp: fits_type_def)
next
  case False
  then obtain target where t: "filter (\<lambda>k. k \<noteq> ''null'') (declared schema) = [target]"
    using assms by (auto simp: json_convert_def Let_def split: list.splits)
  then have mem: "target \<in> set (declared schema)" by (metis filter_is_subset list.set_intros(1) subsetD)
  have "fits_type v' target"
  proof (cases v)
    case (JStr s)
    then have "convert_text parse real target s = Some v'"
      using assms False t by (auto simp: json_convert_def Let_def)
    then show ?thesis by (rule convert_text_fits)
  qed (use assms t in \<open>auto simp: json_convert_def Let_def fits_type_def split: if_splits\<close>)
  with mem show ?thesis by (rule declared_in_fits)
qed

text \<open>Changing the parts of a list or an object changes neither whether it fits nor whether it can be converted.\<close>

fun same_top :: "json \<Rightarrow> json \<Rightarrow> bool" where
  "same_top (JArr _) (JArr _) = True"
| "same_top (JObj _) (JObj _) = True"
| "same_top v w = (v = w)"

lemma same_top_fits: "same_top v w \<Longrightarrow> json_fits v schema = json_fits w schema"
proof -
  assume "same_top v w"
  then have "fits_type v = fits_type w" by (cases v; cases w; simp add: fits_type_def fun_eq_iff)
  then show ?thesis by (simp add: json_fits_def)
qed

lemma same_top_convert:
  "same_top v w \<Longrightarrow> json_convert parse real sj v schema = None \<longleftrightarrow> json_convert parse real sj w schema = None"
  by (cases v; cases w; auto simp: json_convert_def Let_def split: list.splits)

lemma walk_parts_top: "walk_parts deeper v schema path = (w, out) \<Longrightarrow> same_top v w"
  by (cases v) (auto simp: walk_parts_def Let_def split: option.splits prod.splits if_splits)

definition stable_step :: "('a \<Rightarrow> 'a \<times> repair list) \<Rightarrow> bool" where
  "stable_step f \<longleftrightarrow> (\<forall>x y rs. f x = (y, rs) \<longrightarrow> f y = (y, []) \<and> (rs = [] \<longleftrightarrow> y = x))"

lemma walk_each_stable:
  assumes "stable_step f"
  shows "stable_step (walk_each f)"
proof -
  have "walk_each f xs = (ys, out) \<Longrightarrow> walk_each f ys = (ys, []) \<and> (out = [] \<longleftrightarrow> ys = xs)" for xs ys out
  proof (induction xs arbitrary: ys out)
    case Nil
    then show ?case by simp
  next
    case (Cons x xs)
    obtain y a where y: "f x = (y, a)" by force
    obtain zs b where zs: "walk_each f xs = (zs, b)" by force
    have "ys = y # zs" "out = a @ b" using Cons.prems y zs by auto
    moreover have "f y = (y, [])" "a = [] \<longleftrightarrow> y = x" using assms y unfolding stable_step_def by blast+
    ultimately show ?case using Cons.IH [OF zs] by simp
  qed
  then show ?thesis unfolding stable_step_def by blast
qed

lemma walk_each_keys:
  assumes "\<And>x. fst (fst (f x)) = fst x"
  shows "map fst (fst (walk_each f xs)) = map fst xs"
  using assms by (induction xs) (auto split: prod.splits, metis fst_conv)

lemma walk_parts_stable:
  assumes d: "\<And>s p. stable_step (\<lambda>v. deeper v s p)"
  shows "stable_step (\<lambda>v. walk_parts deeper v schema path)"
proof -
  have "walk_parts deeper w schema path = (w, []) \<and> (out = [] \<longleftrightarrow> w = v)"
    if w: "walk_parts deeper v schema path = (w, out)" for v w out
  proof (cases v)
    case (JObj flds)
    show ?thesis
    proof (cases "Option.bind (json_get schema ''properties'') as_object")
      case None
      then show ?thesis using w unfolding JObj by (auto simp: walk_parts_def)
    next
      case (Some props)
      define f where "f = (\<lambda>(key, item). case map_of props key of None \<Rightarrow> ((key, item), [])
          | Some field \<Rightarrow> (let (item', rs) = deeper item field (field_path path key) in ((key, item'), rs)))"
      have "stable_step f"
        unfolding stable_step_def f_def using d [unfolded stable_step_def]
        by (auto split: option.splits prod.splits simp: Let_def)
      from walk_each_stable [OF this] have st: "stable_step (walk_each f)" .
      obtain fs where fs: "walk_each f flds = (fs, out)" "w = JObj fs"
        using w JObj Some by (auto simp: walk_parts_def f_def [symmetric] Let_def split: prod.splits)
      show ?thesis using st fs JObj Some
        by (simp add: walk_parts_def f_def [symmetric] stable_step_def)
    qed
  next
    case (JArr items)
    show ?thesis
    proof (cases "\<exists>is. json_get schema ''items'' = Some is \<and> is_object is")
      case False
      then show ?thesis using w unfolding JArr by (auto simp: walk_parts_def split: option.splits if_splits)
    next
      case True
      then obtain its where its: "json_get schema ''items'' = Some its" "is_object its" by blast
      define f where "f = (\<lambda>(i, item). case deeper item its (item_path path i) of (item', rs) \<Rightarrow> ((i, item'), rs))"
      have "stable_step f"
        unfolding stable_step_def f_def using d [unfolded stable_step_def] by (auto split: prod.splits simp: Let_def)
      from walk_each_stable [OF this] have st: "stable_step (walk_each f)" .
      obtain xs where xs: "walk_each f (enumerate 0 items) = (xs, out)" "w = JArr (map snd xs)"
        using w JArr its by (auto simp: walk_parts_def f_def [symmetric] Let_def split: prod.splits)
      have "map fst xs = [0..<length items]"
        using walk_each_keys [of f "enumerate 0 items"] xs(1) by (auto simp: f_def split: prod.splits)
      then have en: "enumerate 0 (map snd xs) = xs"
        by (metis enumerate_eq_zip length_map length_upt minus_nat.diff_0 add_0 zip_map_fst_snd)
      have "map snd xs = items \<longleftrightarrow> xs = enumerate 0 items" using en by auto
      then show ?thesis using st xs en JArr its
        by (simp add: walk_parts_def f_def [symmetric] stable_step_def)
    qed
  qed (use w in \<open>auto simp: walk_parts_def split: json.splits\<close>)
  then show ?thesis unfolding stable_step_def by blast
qed

lemma repair_walk_stable: "stable_step (\<lambda>v. repair_walk parse real sj n v schema path)"
proof (induction n arbitrary: schema path)
  case 0
  then show ?case by (simp add: stable_step_def)
next
  case (Suc n)
  let ?deeper = "repair_walk parse real sj n"
  have parts: "stable_step (\<lambda>v. walk_parts ?deeper v schema path)" by (rule walk_parts_stable) (rule Suc.IH)
  have "repair_walk parse real sj (Suc n) w schema path = (w, []) \<and> (rs = [] \<longleftrightarrow> w = v)"
    if r: "repair_walk parse real sj (Suc n) v schema path = (w, rs)" for v w rs
  proof (cases "is_object schema")
    case False
    then show ?thesis using r by simp
  next
    case True
    obtain v1 own where top: "repair_top parse real sj v schema path = (v1, own)" by force
    obtain out where out: "walk_parts ?deeper v1 schema path = (w, out)" "rs = own @ out"
      using r True top by (auto simp: Let_def split: prod.splits)
    have same: "same_top v1 w" by (rule walk_parts_top [OF out(1)])
    have again: "walk_parts ?deeper w schema path = (w, [])" and whole: "out = [] \<longleftrightarrow> w = v1"
      using parts out(1) unfolding stable_step_def by blast+
    have settled: "json_fits v1 schema \<or> json_convert parse real sj v1 schema = None"
      using top convert_fits by (auto simp: repair_top_def split: if_splits option.splits)
    then have "repair_top parse real sj w schema path = (w, [])"
      using same_top_fits [OF same] same_top_convert [OF same, of parse real sj schema] by (auto simp: repair_top_def)
    moreover have "rs = [] \<longleftrightarrow> w = v"
    proof (cases "own = []")
      case True
      then have "v1 = v" using top by (auto simp: repair_top_def split: if_splits option.splits)
      then show ?thesis using True out(2) whole by simp
    next
      case False
      then have "\<not> json_fits v schema" "json_fits v1 schema"
        using top convert_fits by (auto simp: repair_top_def split: if_splits option.splits)
      then have "w \<noteq> v" using same_top_fits [OF same] by auto
      then show ?thesis using False out(2) by simp
    qed
    ultimately show ?thesis using again True by simp
  qed
  then show ?case unfolding stable_step_def by blast
qed

section \<open>Properties\<close>

text \<open>Repairing arguments is a projection that reports all it does: repaired arguments are repaired no
  further, arguments are changed exactly when a change is reported, and the value a conversion passes on
  always fits the type the schema declares for it.\<close>

theorem arg_repair_is_projection:
  assumes "arg_repair parse real sj args schema = (args', rs)"
  shows "arg_repair parse real sj args' schema = (args', []) \<and> (rs = [] \<longleftrightarrow> args' = args) \<and>
    (json_convert parse real sj v schema = Some v' \<longrightarrow> json_fits v' schema)"
  using repair_walk_stable [of parse real sj "Suc MAX_DEPTH" schema "[]"] assms convert_fits
  unfolding arg_repair_def stable_step_def by blast

definition step_schema :: json where
  "step_schema = json_obj [(''type'', JStr ''object''),
     (''properties'', json_obj [(''n'', json_obj [(''type'', JStr ''integer'')])])]"

theorem arg_repair_is_projection_witness:
  "arg_repair (\<lambda>_. None) (\<lambda>_. None) (\<lambda>_. []) (json_obj [(''n'', JInt 42)]) step_schema = (json_obj [(''n'', JInt 42)], [])"
proof -
  have "arg_repair (\<lambda>_. None) (\<lambda>_. None) (\<lambda>_. []) (json_obj [(''n'', JStr ''42'')]) step_schema
     = (json_obj [(''n'', JInt 42)], [\<lparr>rp_path = ''n'', rp_sent = ''string'', rp_passed = ''integer''\<rparr>])"
    by code_simp
  from arg_repair_is_projection [OF this] show ?thesis by blast
qed

end
