(* ===== verification/ToolNames.thy ===== *)
theory ToolNames
  imports Json
begin

text \<open>
  Tool names on the wire and patterns over them: \<open>portable_tool_name_map\<close>, \<open>suggested_tool\<close> and
  \<open>canonical_tool_names\<close> of \<open>crates/kernel/src/types.rs\<close>, and the filters of
  \<open>crates/kernel/src/tool_pattern.rs\<close>. The SHA-256 digest is the parameter \<open>sha\<close>. A map from wire
  names is the list of its entries, in any order a hash map may show them.
\<close>

section \<open>The wire spelling\<close>

definition MAX_WIRE_NAME :: nat where "MAX_WIRE_NAME = 64"

definition wire_char :: "char \<Rightarrow> bool" where
  "wire_char c \<longleftrightarrow> is_ascii_alphanumeric c \<or> c = CHR ''_'' \<or> c = CHR ''-''"

text \<open>One character for each character of the name: the bytes that continue one are no characters.\<close>

definition portable_tool_name :: "string \<Rightarrow> string" where
  "portable_tool_name s =
     map (\<lambda>c. if wire_char c then c else CHR ''_'') (filter (\<lambda>c. \<not> is_continuation c) s)"

definition hex_digit :: "nat \<Rightarrow> char" where
  "hex_digit n = (if n < 10 then char_of (48 + n) else char_of (87 + n))"

definition hex_byte :: "char \<Rightarrow> string" where
  "hex_byte c = (let n = (of_char c :: nat) in [hex_digit (n div 16), hex_digit (n mod 16)])"

definition shortened_wire_name :: "(string \<Rightarrow> string) \<Rightarrow> string \<Rightarrow> nat \<Rightarrow> string" where
  "shortened_wire_name sha canonical attempt =
     (let hex = concat (map hex_byte (take 6 (sha (canonical @ [CHR 0x00] @ decimal attempt))))
      in take (MAX_WIRE_NAME - length hex - 1) (portable_tool_name canonical) @ ''_'' @ hex)"

definition wire_safe :: "string \<Rightarrow> bool" where
  "wire_safe canonical \<longleftrightarrow> portable_tool_name canonical = canonical \<and> length canonical \<le> MAX_WIRE_NAME"

lemma length_filter_le_filter: "(\<And>x. P x \<Longrightarrow> Q x) \<Longrightarrow> length (filter P xs) \<le> length (filter Q xs)"
  by (induction xs) auto

lemma length_filter_less_filter:
  assumes "\<And>x. P x \<Longrightarrow> Q x" "w \<in> set xs" "Q w" "\<not> P w"
  shows "length (filter P xs) < length (filter Q xs)"
  using assms(2)
proof (induction xs)
  case (Cons x xs)
  then show ?case using assms(1,3,4) length_filter_le_filter [of P Q xs, OF assms(1)] by (cases "x = w") auto
qed simp

text \<open>\<open>while map.contains_key(&wire) { wire.push('_') }\<close>.\<close>

function underscored :: "string list \<Rightarrow> string \<Rightarrow> string" where
  "underscored taken wire = (if wire \<in> set taken then underscored taken (wire @ ''_'') else wire)"
  by pat_completeness auto

termination
  by (relation "measure (\<lambda>(taken, wire). length (filter (\<lambda>w. length wire \<le> length w) taken))")
    (auto intro!: length_filter_less_filter)

declare underscored.simps [simp del]

text \<open>\<open>while wire.len() > MAX_WIRE_NAME || map.contains_key(&wire)\<close>: None when no attempt is ever free.\<close>

partial_function (option) shorten_loop ::
  "(string \<Rightarrow> string) \<Rightarrow> string list \<Rightarrow> string \<Rightarrow> nat \<Rightarrow> string \<Rightarrow> string option" where
  "shorten_loop sha taken canonical attempt wire =
     (if MAX_WIRE_NAME < length wire \<or> wire \<in> set taken
      then shorten_loop sha taken canonical (Suc attempt) (shortened_wire_name sha canonical attempt)
      else Some wire)"

fun name_unsafe :: "(string \<Rightarrow> string) \<Rightarrow> string list \<Rightarrow> (string \<times> string) list \<Rightarrow> (string \<times> string) list option" where
  "name_unsafe sha [] m = Some m"
| "name_unsafe sha (canonical # rest) m =
     (if wire_safe canonical then name_unsafe sha rest m
      else case shorten_loop sha (map fst m) canonical 0 (underscored (map fst m) (portable_tool_name canonical)) of
        None \<Rightarrow> None
      | Some wire \<Rightarrow> name_unsafe sha rest (m @ [(wire, canonical)]))"

definition portable_tool_name_map :: "(string \<Rightarrow> string) \<Rightarrow> string list \<Rightarrow> (string \<times> string) list option" where
  "portable_tool_name_map sha available =
     (let ordered = remdups (sort available)
      in name_unsafe sha ordered (map (\<lambda>c. (c, c)) (filter wire_safe ordered)))"

section \<open>What a refused name most likely meant\<close>

definition spelled :: "string \<Rightarrow> string" where
  "spelled name =
     (let low = map (\<lambda>c. if c = CHR ''-'' \<or> c = CHR '' '' \<or> c = CHR ''.'' then CHR ''_'' else c) (to_lowercase name)
      in case strip_suffix ''_tool'' low of Some s \<Rightarrow> s | None \<Rightarrow> low)"

definition FOREIGN_TOOL_NAMES :: "(string \<times> string) list" where
  "FOREIGN_TOOL_NAMES = [(''write_file'', ''write''), (''create_file'', ''write''), (''file_write'', ''write''),
     (''str_replace_editor'', ''edit''), (''str_replace'', ''edit''), (''replace'', ''edit''), (''multiedit'', ''edit''),
     (''edit_file'', ''edit''), (''apply_patch'', ''edit''), (''bash'', ''shell.exec''), (''shell'', ''shell.exec''),
     (''run_command'', ''shell.exec''), (''run_terminal_cmd'', ''shell.exec''), (''execute_command'', ''shell.exec''),
     (''read_file'', ''read''), (''view'', ''read''), (''list_dir'', ''ls''), (''list_files'', ''ls''),
     (''grep_search'', ''grep''), (''find_files'', ''glob''), (''webfetch'', ''web''), (''websearch'', ''web''),
     (''web_search'', ''web''), (''todowrite'', ''update_plan'')]"

definition lead_word :: "string \<Rightarrow> string" where
  "lead_word name = hd (split_by (\<lambda>c. c = CHR ''_'') (spelled name))"

definition suggested_tool :: "string \<Rightarrow> (string \<times> string) list \<Rightarrow> string option" where
  "suggested_tool requested wires =
     (let wanted = spelled requested in
      case find (\<lambda>(w, c). spelled w = wanted \<or> spelled c = wanted) wires of
        Some (w, _) \<Rightarrow> Some w
      | None \<Rightarrow>
          (case Option.bind (map_of FOREIGN_TOOL_NAMES wanted) (\<lambda>canonical. find (\<lambda>(_, c). c = canonical) wires) of
             Some (w, _) \<Rightarrow> Some w
           | None \<Rightarrow>
               (case filter (\<lambda>w. lead_word w = lead_word requested) (map fst wires) of
                  [only] \<Rightarrow> Some only
                | _ \<Rightarrow> None)))"

section \<open>Canonical names\<close>

datatype tool_name_error = UnknownName string | AmbiguousName string "string list"

definition canonical_name :: "(string \<times> string) list \<Rightarrow> string list \<Rightarrow> string \<Rightarrow> tool_name_error + string" where
  "canonical_name wires available name =
     (case (name \<in> set available, map_of wires name) of
        (True, Some wire) \<Rightarrow>
          if name \<noteq> wire then Inl (AmbiguousName name (remdups (sort [name, wire]))) else Inr name
      | (True, None) \<Rightarrow> Inr name
      | (False, Some wire) \<Rightarrow> Inr wire
      | (False, None) \<Rightarrow> Inl (UnknownName name))"

fun resolve_names :: "(string \<times> string) list \<Rightarrow> string list \<Rightarrow> string list \<Rightarrow> string list \<Rightarrow> tool_name_error + string list" where
  "resolve_names wires available [] resolved = Inr resolved"
| "resolve_names wires available (name # rest) resolved =
     (case canonical_name wires available name of
        Inl e \<Rightarrow> Inl e
      | Inr c \<Rightarrow> resolve_names wires available rest (if c \<in> set resolved then resolved else resolved @ [c]))"

definition canonical_tool_names ::
  "(string \<Rightarrow> string) \<Rightarrow> string list \<Rightarrow> string list \<Rightarrow> (tool_name_error + string list) option" where
  "canonical_tool_names sha requested available =
     map_option (\<lambda>wires. resolve_names wires available requested []) (portable_tool_name_map sha available)"

section \<open>Filters\<close>

record tool_filter =
  filter_allow :: "string list"
  filter_deny :: "string list"

definition pattern_matches :: "string \<Rightarrow> string \<Rightarrow> bool" where
  "pattern_matches pattern name =
     (case strip_suffix ''*'' pattern of Some p \<Rightarrow> starts_with name p | None \<Rightarrow> pattern = name)"

definition leaves_out :: "tool_filter \<Rightarrow> string \<Rightarrow> bool" where
  "leaves_out f tool \<longleftrightarrow> filter_allow f \<noteq> [] \<and> \<not> list_ex (\<lambda>p. pattern_matches p tool) (filter_allow f)"

definition filter_denies :: "tool_filter \<Rightarrow> string \<Rightarrow> bool" where
  "filter_denies f tool = list_ex (\<lambda>p. pattern_matches p tool) (filter_deny f)"

definition filter_admits :: "tool_filter \<Rightarrow> string \<Rightarrow> bool" where
  "filter_admits f tool \<longleftrightarrow> \<not> leaves_out f tool \<and> \<not> filter_denies f tool"

definition filter_is_empty :: "tool_filter \<Rightarrow> bool" where
  "filter_is_empty f \<longleftrightarrow> filter_allow f = [] \<and> filter_deny f = []"

definition pattern_flaw :: "string \<Rightarrow> string option" where
  "pattern_flaw pattern =
     (if pattern = [] then Some ''is empty''
      else if list_ex is_ws pattern then Some ''contains a space''
      else case position (\<lambda>c. c = CHR ''*'') pattern of
        Some at \<Rightarrow> if at + 1 < length pattern then Some ''has a * before its end; only a trailing * is supported'' else None
      | None \<Rightarrow> None)"

text \<open>\<open>validate\<close>: the list, the pattern and what is wrong with it, for the first flaw.\<close>

definition filter_validate :: "tool_filter \<Rightarrow> (string \<times> string \<times> string) option" where
  "filter_validate f =
     find_map (\<lambda>(name, patterns). find_map (\<lambda>p. map_option (\<lambda>why. (name, p, why)) (pattern_flaw p)) patterns)
       [(''allow'', filter_allow f), (''deny'', filter_deny f)]"

definition exact_names :: "tool_filter \<Rightarrow> string list" where
  "exact_names f = filter (\<lambda>n. CHR ''*'' \<notin> set n) (filter_allow f @ filter_deny f)"

section \<open>Lemmas\<close>

lemma underscored_free: "underscored taken wire \<notin> set taken"
  by (induction taken wire rule: underscored.induct) (subst underscored.simps, auto)

lemma wire_char_underscore [simp]: "wire_char (CHR ''_'')"
  by (simp add: wire_char_def)

lemma underscored_chars: "list_all wire_char wire \<Longrightarrow> list_all wire_char (underscored taken wire)"
proof (induction taken wire rule: underscored.induct)
  case (1 taken wire)
  then show ?case by (subst underscored.simps) simp
qed

lemma portable_chars: "list_all wire_char (portable_tool_name s)"
  by (auto simp: portable_tool_name_def list_all_iff wire_char_def)

lemma hex_digit_char: "n < 16 \<Longrightarrow> wire_char (hex_digit n)"
  by (auto simp: hex_digit_def wire_char_def is_ascii_alphanumeric_def is_ascii_alphabetic_def is_ascii_digit_def
      less_eq_char_def)

lemma hex_byte_chars: "list_all wire_char (hex_byte c)"
proof -
  have "(of_char c :: nat) < 256" by simp
  then have "(of_char c :: nat) div 16 < 16" by (simp add: less_mult_imp_div_less)
  then show ?thesis by (simp add: hex_byte_def Let_def hex_digit_char)
qed

lemma shortened_chars: "list_all wire_char (shortened_wire_name sha c n)"
proof -
  have "list_all wire_char (concat (map hex_byte xs))" for xs
    using hex_byte_chars by (induction xs) auto
  moreover have "list_all wire_char (take k (portable_tool_name c))" for k
    using portable_chars [of c] by (auto simp: list_all_iff dest: in_set_takeD)
  ultimately show ?thesis by (simp add: shortened_wire_name_def Let_def wire_char_def)
qed

lemma length_concat_hex: "length (concat (map hex_byte xs)) = 2 * length xs"
  by (induction xs) (simp_all add: hex_byte_def Let_def)

lemma shortened_length: "length (shortened_wire_name sha c n) \<le> MAX_WIRE_NAME"
proof -
  have "length (take 6 (sha (c @ [CHR 0x00] @ decimal n))) \<le> 6" by simp
  then show ?thesis unfolding shortened_wire_name_def Let_def MAX_WIRE_NAME_def
    by (simp add: length_concat_hex)
qed

lemma shorten_loop_spec:
  assumes "shorten_loop sha taken c n wire = Some w" "list_all wire_char wire"
  shows "w \<notin> set taken \<and> length w \<le> MAX_WIRE_NAME \<and> list_all wire_char w"
proof -
  have "list_all wire_char wire \<longrightarrow> w \<notin> set taken \<and> length w \<le> MAX_WIRE_NAME \<and> list_all wire_char w"
  proof (rule shorten_loop.raw_induct [OF _ assms(1)], goal_cases)
    case (1 loop sha taken c n wire w)
    then show ?case by (auto split: if_splits simp: shortened_chars)
  qed
  then show ?thesis using assms(2) by blast
qed

text \<open>The loop ends as soon as an attempt is free.\<close>

lemma shorten_loop_ends:
  assumes "shortened_wire_name sha c m \<notin> set taken" "n \<le> m"
  shows "\<exists>w. shorten_loop sha taken c n wire = Some w"
  using assms(2)
proof (induction "m - n" arbitrary: n wire)
  case 0
  then have nm: "n = m" by simp
  have "shorten_loop sha taken c (Suc m) (shortened_wire_name sha c m) = Some (shortened_wire_name sha c m)"
    using assms(1) shortened_length [of sha c m] by (subst shorten_loop.simps) (simp add: not_less [symmetric])
  then show ?case unfolding nm by (subst shorten_loop.simps) simp
next
  case (Suc k)
  show ?case
  proof (cases "MAX_WIRE_NAME < length wire \<or> wire \<in> set taken")
    case True
    have "k = m - Suc n" "Suc n \<le> m" using Suc.hyps(2) by arith+
    then obtain w where "shorten_loop sha taken c (Suc n) (shortened_wire_name sha c n) = Some w"
      using Suc.hyps(1) by blast
    then show ?thesis using True by (subst shorten_loop.simps) auto
  next
    case False
    then show ?thesis by (subst shorten_loop.simps) auto
  qed
qed

definition wires_ok :: "(string \<times> string) list \<Rightarrow> bool" where
  "wires_ok m \<longleftrightarrow> distinct (map fst m) \<and> (\<forall>w \<in> fst ` set m. length w \<le> MAX_WIRE_NAME \<and> list_all wire_char w)"

lemma name_unsafe_spec:
  assumes "name_unsafe sha cs m = Some m'" "wires_ok m"
  shows "wires_ok m' \<and> map snd m' = map snd m @ filter (\<lambda>c. \<not> wire_safe c) cs \<and> set m \<subseteq> set m'"
  using assms
proof (induction sha cs m rule: name_unsafe.induct)
  case (1 sha m)
  then show ?case by simp
next
  case (2 sha c cs m)
  show ?case
  proof (cases "wire_safe c")
    case True
    then show ?thesis using 2 by simp
  next
    case False
    then obtain w where w: "shorten_loop sha (map fst m) c 0 (underscored (map fst m) (portable_tool_name c)) = Some w"
      "name_unsafe sha cs (m @ [(w, c)]) = Some m'"
      using "2.prems"(1) by (auto split: option.splits)
    have "w \<notin> set (map fst m) \<and> length w \<le> MAX_WIRE_NAME \<and> list_all wire_char w"
      by (rule shorten_loop_spec [OF w(1)]) (rule underscored_chars [OF portable_chars])
    then have "wires_ok (m @ [(w, c)])" using "2.prems"(2) by (auto simp: wires_ok_def)
    from "2.IH"(2) [OF False w(1,2) this] show ?thesis using False by auto
  qed
qed

lemma safe_entries_ok: "distinct cs \<Longrightarrow> wires_ok (map (\<lambda>c. (c, c)) (filter wire_safe cs))"
proof -
  assume "distinct cs"
  moreover have "wire_safe c \<Longrightarrow> length c \<le> MAX_WIRE_NAME \<and> list_all wire_char c" for c
    using portable_chars [of c] by (auto simp: wire_safe_def)
  ultimately show ?thesis by (auto simp: wires_ok_def comp_def)
qed

lemma name_unsafe_ends:
  assumes "\<And>c taken. c \<in> set (filter (\<lambda>c. \<not> wire_safe c) cs) \<Longrightarrow> length taken \<le> k \<Longrightarrow>
      \<exists>n. shortened_wire_name sha c n \<notin> set taken"
    and "length m + length (filter (\<lambda>c. \<not> wire_safe c) cs) \<le> k"
  shows "\<exists>m'. name_unsafe sha cs m = Some m'"
  using assms
proof (induction sha cs m rule: name_unsafe.induct)
  case (1 sha m)
  then show ?case by simp
next
  case (2 sha c cs m)
  show ?case
  proof (cases "wire_safe c")
    case True
    then show ?thesis using 2 by simp
  next
    case False
    obtain n where "shortened_wire_name sha c n \<notin> set (map fst m)"
      using "2.prems"(1) [of c "map fst m"] "2.prems"(2) False by auto
    then obtain w where w: "shorten_loop sha (map fst m) c 0 (underscored (map fst m) (portable_tool_name c)) = Some w"
      using shorten_loop_ends by blast
    then show ?thesis using "2.IH"(2) [OF False w] "2.prems" False by simp
  qed
qed

text \<open>The digests of one name's first attempts differ: enough of them for any list of tools.\<close>

definition attempts_differ :: "(string \<Rightarrow> string) \<Rightarrow> string \<Rightarrow> nat \<Rightarrow> bool" where
  "attempts_differ sha c k \<longleftrightarrow> inj_on (shortened_wire_name sha c) {..k}"

lemma attempts_differ_free:
  assumes "attempts_differ sha c k" "length taken \<le> k"
  shows "\<exists>n. shortened_wire_name sha c n \<notin> set taken"
proof (rule ccontr)
  assume "\<not> ?thesis"
  then have "shortened_wire_name sha c ` {..k} \<subseteq> set taken" by auto
  then have "card (shortened_wire_name sha c ` {..k}) \<le> card (set taken)" by (intro card_mono) simp_all
  then have "Suc k \<le> length taken"
    using assms(1) card_length [of taken] by (simp add: attempts_differ_def card_image)
  then show False using assms(2) by simp
qed

section \<open>Properties\<close>

text \<open>The names sent to a provider are a one-to-one renaming: for any list of tools whose name hashes do
  not repeat, the map is found, it names each tool exactly once, no two tools share a wire name, every
  wire name is at most 64 letters, digits, underscores and dashes, and a name that is already so is kept.\<close>

theorem wire_names_are_one_to_one:
  assumes "\<forall>c \<in> set available. attempts_differ sha c (length available)"
  shows "\<exists>m. portable_tool_name_map sha available = Some m \<and> distinct (map fst m) \<and> distinct (map snd m) \<and>
    set (map snd m) = set available \<and> (\<forall>w \<in> fst ` set m. length w \<le> 64 \<and> list_all wire_char w) \<and>
    (\<forall>c \<in> set available. wire_safe c \<longrightarrow> map_of m c = Some c)"
proof -
  define cs where "cs = remdups (sort available)"
  define m0 where "m0 = map (\<lambda>c. (c, c)) (filter wire_safe cs)"
  have cs: "distinct cs" "set cs = set available" "length cs \<le> length available"
    using length_remdups_leq [of "sort available"] by (simp_all add: cs_def)
  have "\<exists>n. shortened_wire_name sha c n \<notin> set taken"
    if "c \<in> set (filter (\<lambda>c. \<not> wire_safe c) cs)" "length taken \<le> length available" for c taken
    using attempts_differ_free [OF _ that(2)] that(1) assms cs(2) by auto
  then obtain m where m: "name_unsafe sha cs m0 = Some m"
    using name_unsafe_ends [where cs = cs and m = m0 and sha = sha and k = "length available"] cs(3) by (auto simp: m0_def sum_length_filter_compl)
  have ok0: "wires_ok m0" unfolding m0_def by (rule safe_entries_ok) (rule cs(1))
  note spec = name_unsafe_spec [OF m ok0]
  have snds: "map snd m = filter wire_safe cs @ filter (\<lambda>c. \<not> wire_safe c) cs"
    using spec by (simp add: m0_def comp_def)
  have "map_of m c = Some c" if "c \<in> set available" "wire_safe c" for c
  proof -
    have "(c, c) \<in> set m" using spec that cs(2) by (auto simp: m0_def)
    then show ?thesis using spec by (intro map_of_is_SomeI) (simp_all add: wires_ok_def)
  qed
  moreover have "distinct (map snd m)" "set (map snd m) = set available"
    using cs(1,2) unfolding snds by auto
  ultimately show ?thesis
    using spec m by (intro exI [of _ m]) (auto simp: portable_tool_name_map_def cs_def m0_def wires_ok_def MAX_WIRE_NAME_def Let_def)
qed

definition last_byte_digest :: "string \<Rightarrow> string" where
  "last_byte_digest s = ''abcde'' @ [last s]"

lemma inj_on_three:
  assumes "f 0 \<noteq> f 1 \<and> f 0 \<noteq> f 2 \<and> f 1 \<noteq> f 2"
  shows "inj_on f {..2 :: nat}"
proof -
  have three: "{..2 :: nat} = {0, 1, 2}" by auto
  show ?thesis unfolding three using assms by (auto simp: inj_on_def)
qed

lemma last_byte_attempts:
  "attempts_differ last_byte_digest ''web.search'' 2" "attempts_differ last_byte_digest ''read'' 2"
  unfolding attempts_differ_def by (rule inj_on_three, code_simp)+

theorem wire_names_are_one_to_one_witness:
  "\<exists>m. portable_tool_name_map last_byte_digest [''web.search'', ''read''] = Some m \<and> distinct (map fst m) \<and>
    set (map snd m) = {''web.search'', ''read''}"
  using wire_names_are_one_to_one [of "[''web.search'', ''read'']" last_byte_digest] last_byte_attempts
  by (simp add: numeral_2_eq_2) blast

end
