(* ===== verification/ResultFit.thy ===== *)
theory ResultFit
  imports Replay
begin

text \<open>
  What the model reads of a tool's result: \<open>result_limits\<close>, \<open>fit_for_model\<close> and \<open>spilled_preview\<close> of
  \<open>crates/kernel/src/loop_.rs\<close>. Redaction (None when nothing is to be removed), the artifact store (the
  hash of what was kept, or None) and the path it keeps a hash at are parameters, and \<open>sj\<close> prints JSON.
\<close>

section \<open>A stored result in brief\<close>

definition SPILL_THRESHOLD :: nat where "SPILL_THRESHOLD = 40000"
definition ROUND_LIMIT :: nat where "ROUND_LIMIT = 120000"
definition SPILL_PREVIEW :: nat where "SPILL_PREVIEW = 2000"

definition kept_start :: "nat \<Rightarrow> nat" where
  "kept_start n = n * 2 div 5"

text \<open>\<open>while !content.is_char_boundary(tail) { tail += 1 }\<close>.\<close>

function ceil_boundary :: "string \<Rightarrow> nat \<Rightarrow> nat" where
  "ceil_boundary s i = (if length s \<le> i \<or> is_char_boundary s i then i else ceil_boundary s (Suc i))"
  by pat_completeness auto

termination
  by (relation "measure (\<lambda>(s, i). length s - i)") auto

declare ceil_boundary.simps [simp del]

definition is_nl :: "char \<Rightarrow> bool" where
  "is_nl c \<longleftrightarrow> c = CHR 0x0A"

text \<open>\<open>s.rfind('\n')\<close>.\<close>

definition rfind_nl :: "string \<Rightarrow> nat option" where
  "rfind_nl s = map_option (\<lambda>k. length s - 1 - k) (position is_nl (rev s))"

definition preview_head :: "string \<Rightarrow> nat" where
  "preview_head content =
     (let budget = kept_start SPILL_PREVIEW;
          head = floor_boundary content (min budget (length content))
      in case rfind_nl (take head content) of
           Some at \<Rightarrow> if budget div 2 < at then at + 1 else head
         | None \<Rightarrow> head)"

definition preview_tail :: "string \<Rightarrow> nat \<Rightarrow> nat" where
  "preview_tail content head =
     (let tail = ceil_boundary content (max (length content - (SPILL_PREVIEW - kept_start SPILL_PREVIEW)) head)
      in case position is_nl (drop tail content) of
           Some at \<Rightarrow> if at < SPILL_PREVIEW div 4 then tail + (at + 1) else tail
         | None \<Rightarrow> tail)"

text \<open>The ellipsis, the dash and how to read the rest.\<close>

definition ellipsis :: string where "ellipsis = [CHR 0xE2, CHR 0x80, CHR 0xA6]"
definition en_dash :: string where "en_dash = [CHR 0xE2, CHR 0x80, CHR 0x93]"

definition how_to_read :: "string \<Rightarrow> string option \<Rightarrow> string" where
  "how_to_read hash path =
     (case path of
        Some p \<Rightarrow> ''read path=\"'' @ p @ ''\" with offset and limit in lines, or search it first with grep on that path''
      | None \<Rightarrow> ''read hash=\"'' @ hash
          @ ''\" with offset (a byte) and length, or search it first with grep and that hash'')"

definition spilled_preview :: "string \<Rightarrow> string \<Rightarrow> string option \<Rightarrow> string" where
  "spilled_preview content hash path =
     (let head = preview_head content; tail = preview_tail content head
      in trim_end_by is_nl (take head content) @ [CHR 0x0A, CHR ''[''] @ ellipsis @ '' '' @ decimal (tail - head)
         @ '' of '' @ decimal (length content) @ '' bytes not shown, bytes '' @ decimal head @ en_dash @ decimal tail
         @ ''. The whole result is stored: '' @ how_to_read hash path @ ''. Read every page only if you need all of it.]''
         @ [CHR 0x0A] @ drop tail content)"

section \<open>The limits\<close>

definition clamp :: "nat \<Rightarrow> nat \<Rightarrow> nat \<Rightarrow> nat" where
  "clamp low high n = (if n < low then low else if high < n then high else n)"

text \<open>The limits of one result and of one round, from the model's window and the settings.\<close>

definition result_limits :: "nat option \<Rightarrow> nat option \<times> nat option \<Rightarrow> nat \<times> nat" where
  "result_limits window limits =
     (let share = (\<lambda>percent low high. case window of None \<Rightarrow> high | Some tokens \<Rightarrow> clamp low high (tokens * 4 * percent div 100))
      in (case fst limits of Some n \<Rightarrow> n | None \<Rightarrow> share 15 8000 SPILL_THRESHOLD,
          case snd limits of Some n \<Rightarrow> n | None \<Rightarrow> share 30 16000 ROUND_LIMIT))"

section \<open>Fitting a result\<close>

record fit_env =
  fe_show :: "json \<Rightarrow> string"
  fe_secrets :: "string \<Rightarrow> string option"
  fe_egress :: "string \<Rightarrow> string option"
  fe_store :: "string \<Rightarrow> string option"
  fe_path :: "string \<Rightarrow> string option"

text \<open>The tool's own view with what the kernel added, or the visible payload.\<close>

definition note_text :: "fit_env \<Rightarrow> json \<Rightarrow> string \<Rightarrow> string" where
  "note_text env payload key =
     (case json_get payload key of
        Some (JStr note) \<Rightarrow> [CHR 0x0A] @ key @ '': '' @ note
      | Some v \<Rightarrow> [CHR 0x0A] @ key @ '': '' @ fe_show env v
      | None \<Rightarrow> [])"

definition model_view :: "fit_env \<Rightarrow> observation \<Rightarrow> string" where
  "model_view env obs =
     (case model_text obs of
        Some view \<Rightarrow> view @ note_text env (obs_payload obs) ''adjusted'' @ note_text env (obs_payload obs) ''project_context''
      | None \<Rightarrow> fe_show env (strip_private_observation_fields (obs_payload obs)))"

definition redact_both :: "fit_env \<Rightarrow> string \<Rightarrow> string" where
  "redact_both env s =
     (let s1 = (case fe_secrets env s of Some c \<Rightarrow> c | None \<Rightarrow> s)
      in case fe_egress env s1 of Some c \<Rightarrow> c | None \<Rightarrow> s1)"

definition redacts :: "fit_env \<Rightarrow> string \<Rightarrow> bool" where
  "redacts env s \<longleftrightarrow> fe_secrets env s \<noteq> None
     \<or> fe_egress env (case fe_secrets env s of Some c \<Rightarrow> c | None \<Rightarrow> s) \<noteq> None"

text \<open>The observation the model reads, the room left in the round and where the whole is stored.\<close>

definition fit_for_model :: "fit_env \<Rightarrow> nat \<Rightarrow> observation \<Rightarrow> nat \<Rightarrow> observation \<times> nat \<times> string option" where
  "fit_for_model env per_result obs room =
     (let viewed = (model_text obs \<noteq> None \<or> redacts env (model_view env obs));
          text = redact_both env (model_view env obs);
          whole = (obs\<lparr>model_text := (if viewed then Some text else None)\<rparr>, room - length text, None)
      in if length text \<le> SPILL_PREVIEW * 3 div 2 \<or> (length text \<le> per_result \<and> length text \<le> room) then whole
         else case fe_store env text of
           Some hash \<Rightarrow>
             (let preview = spilled_preview text hash (fe_path env hash)
              in (obs\<lparr>model_text := Some preview\<rparr>, room - length preview, Some hash))
         | None \<Rightarrow> whole)"

text \<open>What a request then shows for it.\<close>

definition model_reads :: "fit_env \<Rightarrow> observation \<Rightarrow> string" where
  "model_reads env obs =
     (case model_text obs of Some t \<Rightarrow> t | None \<Rightarrow> fe_show env (strip_private_observation_fields (obs_payload obs)))"

section \<open>Lemmas\<close>

lemma ceil_boundary_spec:
  "i \<le> length s \<Longrightarrow> i \<le> ceil_boundary s i \<and> ceil_boundary s i \<le> length s \<and> is_char_boundary s (ceil_boundary s i)"
proof (induction s i rule: ceil_boundary.induct)
  case (1 s i)
  show ?case
  proof (cases "length s \<le> i \<or> is_char_boundary s i")
    case True
    then have "ceil_boundary s i = i" by (subst ceil_boundary.simps) simp
    moreover have "is_char_boundary s (length s)" by (simp add: is_char_boundary_def)
    ultimately show ?thesis using True "1.prems" by auto
  next
    case False
    then have "ceil_boundary s i = ceil_boundary s (Suc i)" by (subst ceil_boundary.simps) simp
    then show ?thesis using "1.IH" False by auto
  qed
qed

text \<open>A line break is one byte, so a place right after it is a boundary of well-formed text.\<close>

definition utf8_ok :: "string \<Rightarrow> bool" where
  "utf8_ok s \<longleftrightarrow> (\<forall>i. Suc i < length s \<longrightarrow> s ! i = CHR 0x0A \<longrightarrow> \<not> is_continuation (s ! Suc i))"

lemma after_nl_boundary: "utf8_ok s \<Longrightarrow> i < length s \<Longrightarrow> is_nl (s ! i) \<Longrightarrow> is_char_boundary s (Suc i)"
  by (auto simp: utf8_ok_def is_char_boundary_def is_nl_def)

lemma rfind_nl_Some: "rfind_nl s = Some at \<Longrightarrow> at < length s \<and> is_nl (s ! at)"
  unfolding rfind_nl_def by (auto dest!: position_Some simp: rev_nth)

lemma preview_head_spec:
  assumes "utf8_ok s"
  shows "preview_head s \<le> min 800 (length s) \<and> is_char_boundary s (preview_head s)"
proof -
  let ?h = "floor_boundary s (min 800 (length s))"
  have h: "?h \<le> min 800 (length s)" "is_char_boundary s ?h" by (rule floor_boundary_le, rule floor_boundary_ok)
  have eq: "preview_head s = (case rfind_nl (take ?h s) of Some at \<Rightarrow> if 400 < at then at + 1 else ?h | None \<Rightarrow> ?h)"
    by (simp add: preview_head_def kept_start_def SPILL_PREVIEW_def Let_def split: option.split)
  show ?thesis
  proof (cases "rfind_nl (take ?h s)")
    case None
    then show ?thesis using h eq by simp
  next
    case (Some at)
    from rfind_nl_Some [OF this] have "at < ?h" "at < length s" "is_nl (s ! at)" by auto
    then show ?thesis using h eq Some after_nl_boundary [OF assms, of at] by auto
  qed
qed

lemma preview_tail_spec:
  assumes "utf8_ok s" "head \<le> length s"
  shows "head \<le> preview_tail s head \<and> length s - preview_tail s head \<le> 1200 \<and> preview_tail s head \<le> length s
    \<and> is_char_boundary s (preview_tail s head)"
proof -
  let ?t = "ceil_boundary s (max (length s - 1200) head)"
  have t: "max (length s - 1200) head \<le> ?t" "?t \<le> length s" "is_char_boundary s ?t"
    using ceil_boundary_spec [of "max (length s - 1200) head" s] assms(2) by auto
  have short: "length s - ?t \<le> 1200" using t(1) by linarith
  have eq: "preview_tail s head = (case position is_nl (drop ?t s) of
      Some at \<Rightarrow> if at < 500 then ?t + (at + 1) else ?t | None \<Rightarrow> ?t)"
    by (simp add: preview_tail_def kept_start_def SPILL_PREVIEW_def Let_def split: option.split)
  show ?thesis
  proof (cases "position is_nl (drop ?t s)")
    case None
    then show ?thesis using t short eq by auto
  next
    case (Some at)
    from position_Some [OF this] have "?t + at < length s" "is_nl (s ! (?t + at))" using t(2) by auto
    moreover have "length s - Suc (?t + at) \<le> 1200" using short by linarith
    ultimately show ?thesis using t short eq Some after_nl_boundary [OF assms(1), of "?t + at"] by auto
  qed
qed

section \<open>Properties\<close>

text \<open>A result too large to send is shown by its ends only: the preview is a start of at most 800 bytes and an
  end of at most 1200 of well-formed text, both cut between characters and never overlapping, and
  names the bytes between them.\<close>

theorem preview_shows_both_ends:
  assumes "utf8_ok content"
  shows "\<exists>head tail. head \<le> tail \<and> tail \<le> length content \<and> head \<le> 800 \<and> length content - tail \<le> 1200 \<and>
    is_char_boundary content head \<and> is_char_boundary content tail \<and>
    (\<exists>note. spilled_preview content hash path = trim_end_by is_nl (take head content) @ note @ drop tail content \<and>
      sublist (decimal (tail - head) @ '' of '' @ decimal (length content) @ '' bytes not shown'') note)"
proof -
  let ?h = "preview_head content" and ?t = "preview_tail content (preview_head content)"
  have h: "?h \<le> min 800 (length content)" "is_char_boundary content ?h" using preview_head_spec [OF assms] by auto
  have t: "?h \<le> ?t" "length content - ?t \<le> 1200" "?t \<le> length content" "is_char_boundary content ?t"
    using preview_tail_spec [OF assms, of ?h] h(1) by auto
  define pre where "pre = [CHR 0x0A, CHR ''[''] @ ellipsis @ '' ''"
  define post where "post = '', bytes '' @ decimal ?h @ en_dash @ decimal ?t
     @ ''. The whole result is stored: '' @ how_to_read hash path @ ''. Read every page only if you need all of it.]'' @ [CHR 0x0A]"
  have "spilled_preview content hash path = trim_end_by is_nl (take ?h content)
     @ (pre @ (decimal (?t - ?h) @ '' of '' @ decimal (length content) @ '' bytes not shown'') @ post) @ drop ?t content"
    unfolding spilled_preview_def pre_def post_def Let_def by simp
  moreover have "sublist (decimal (?t - ?h) @ '' of '' @ decimal (length content) @ '' bytes not shown'')
     (pre @ (decimal (?t - ?h) @ '' of '' @ decimal (length content) @ '' bytes not shown'') @ post)"
    unfolding sublist_def by blast
  ultimately show ?thesis using h t by (metis min.boundedE)
qed

theorem preview_shows_both_ends_witness:
  "\<exists>head tail. head \<le> tail \<and> tail \<le> 2500 \<and> head \<le> 800 \<and>
     (\<exists>note. spilled_preview (replicate 2500 (CHR ''a'')) ''h'' None
       = trim_end_by is_nl (take head (replicate 2500 (CHR ''a''))) @ note @ drop tail (replicate 2500 (CHR ''a'')))"
proof -
  have "utf8_ok (replicate 2500 (CHR ''a''))" by (simp add: utf8_ok_def)
  from preview_shows_both_ends [OF this, of "''h''" None] show ?thesis by fastforce
qed


definition blank_env :: fit_env where
  "blank_env = \<lparr>fe_show = (\<lambda>_. ''{}''), fe_secrets = (\<lambda>_. Some ''***''), fe_egress = (\<lambda>_. None),
     fe_store = (\<lambda>_. None), fe_path = (\<lambda>_. None)\<rparr>"


end
