(* ===== verification/Replies.thy ===== *)
theory Replies
  imports Messages
begin

text \<open>
  A reply of the model as an ordered message (\<open>crates/kernel/src/loop_.rs\<close>): the view the kernel acts on, the
  message built from the pieces of a stream, and a message without its tool calls.
\<close>

section \<open>The message of a reply\<close>

definition message_from_stream_parts :: "content_part list \<Rightarrow> model_message" where
  "message_from_stream_parts parts = \<lparr>mm_role = AssistantRole, mm_parts = parts, mm_trust = None\<rparr>"

definition is_call_part :: "content_part \<Rightarrow> bool" where
  "is_call_part p = (case p of ToolCallPart _ _ _ _ \<Rightarrow> True | _ \<Rightarrow> False)"

definition is_reasoning_part :: "content_part \<Rightarrow> bool" where
  "is_reasoning_part p = (case p of ReasoningPart _ _ \<Rightarrow> True | _ \<Rightarrow> False)"

definition strip_tool_calls :: "model_message \<Rightarrow> model_message" where
  "strip_tool_calls m = m\<lparr>mm_parts := filter (\<lambda>p. \<not> is_call_part p) (mm_parts m)\<rparr>"

section \<open>The view of a finished reply\<close>

text \<open>
  \<open>completed_control_view\<close> of \<open>loop_.rs\<close>: the text, the reasoning and the calls of a finished reply, or why
  it is refused. \<open>BadCall\<close> names the tool, the call and the reason.
\<close>

datatype reply_error = BadReply string | BadCall string string string

fun view_parts :: "content_part list \<Rightarrow> string \<Rightarrow> string \<Rightarrow> tool_intent list \<Rightarrow> reply_error + string \<times> string \<times> tool_intent list" where
  "view_parts [] said thought calls = Inr (said, thought, calls)"
| "view_parts (TextPart s _ # rest) said thought calls = view_parts rest (said @ s) thought calls"
| "view_parts (ReasoningPart r _ # rest) said thought calls =
     view_parts rest said (case r of Some s \<Rightarrow> thought @ s | None \<Rightarrow> thought) calls"
| "view_parts (ToolCallPart c tool args _ # rest) said thought calls =
     (if c \<in> set (map intent_id calls)
      then Inl (BadCall tool c ''duplicate tool-call id in the response'')
      else view_parts rest said thought (calls @ [\<lparr>intent_id = c, intent_tool = tool, intent_args = args\<rparr>]))"
| "view_parts (ToolResultPart _ _ _ # rest) said thought calls =
     Inl (BadReply ''provider completed assistant message contained a tool result'')"
| "view_parts (MediaContent _ # rest) said thought calls = view_parts rest said thought calls"

definition completed_control_view :: "model_message \<Rightarrow> reply_error + string \<times> string \<times> tool_intent list" where
  "completed_control_view m =
     (if mm_role m \<noteq> AssistantRole then Inl (BadReply ''provider completed message must have the assistant role'')
      else view_parts (mm_parts m) [] [] [])"

lemma view_parts_distinct:
  "view_parts ps said thought calls = Inr (a, b, calls') \<Longrightarrow> distinct (map intent_id calls) \<Longrightarrow> distinct (map intent_id calls')"
  by (induction ps said thought calls rule: view_parts.induct) (auto split: if_splits)

lemma completed_calls_distinct:
  "completed_control_view m = Inr (said, thought, intents) \<Longrightarrow> distinct (map intent_id intents)"
  by (auto simp: completed_control_view_def dest: view_parts_distinct split: if_splits)

end
