(* ===== verification/TurnDispatch.thy ===== *)
theory TurnDispatch
  imports Dispatch Refusals ArgRepair ToolNames ResultFit Replies
begin

text \<open>
  One round of tool calls: \<open>dispatch_turn\<close> of \<open>crates/kernel/src/session/dispatch.rs\<close> with
  \<open>execute_admitted\<close>, \<open>settle_reads\<close> and \<open>persist_admitted\<close> of \<open>admitted.rs\<close> and the helpers of
  \<open>loop_.rs\<close> they use. A round composes the single dispatch (\<open>dispatch_one\<close>), the repair of arguments, the
  tool names of the request, the count of refusals and the fitting of results.

  What is outside the kernel is the record \<open>round_env\<close>. Its functions take the place of the call in the
  reply, so that each call meets a world, a timing and a store of its own. Reads of one batch run together; a world
  that depends on the place stands for whatever their interleaving showed each of them.
\<close>

section \<open>What a round is given\<close>

datatype tool_category =
    ReadCat | WriteCat | SearchCat | WebCat | ShellCat | VcsCat | DiagnosticCat | PlanCat | OtherCat

record discovered_context =
  dc_path :: string
  dc_content :: string
  dc_blocked :: bool
  dc_trust :: trust_label

text \<open>When the deadline or the person's stop met a call; a call cut off had taken the given number of actions.\<close>

datatype timing = WallElapsed | CancelledFirst | WallCut nat | Settles | GraceCut nat

datatype logged =
    LoggedIntent tool_intent "string option"
  | LoggedContext discovered_context
  | LoggedMemory json
  | LoggedResult string observation trust_label "string option"

record round_env =
  re_autonomy :: autonomy_level
  re_session :: string
  re_schemas :: "string \<Rightarrow> json option"
  re_request_tools :: "string list"
  re_mutation_key :: "tool_intent \<Rightarrow> string option"
  re_changed :: "string \<Rightarrow> observation \<Rightarrow> bool"
  re_failed :: "string \<Rightarrow> observation \<Rightarrow> bool"
  re_category :: "string \<Rightarrow> tool_category option"
  re_radius :: "string \<Rightarrow> blast_radius option"
  re_call_radius :: "tool_intent \<Rightarrow> blast_radius option"
  re_world :: "nat \<Rightarrow> world"
  re_timing :: "nat \<Rightarrow> timing"
  re_review :: "nat \<Rightarrow> json option"
  re_notices :: "nat \<Rightarrow> json list"
  re_discover :: "nat \<Rightarrow> string \<Rightarrow> discovered_context option"
  re_append :: "logged list \<Rightarrow> logged \<Rightarrow> string + string"
  re_fit :: "nat \<Rightarrow> fit_env"
  re_window :: "nat option"
  re_limits :: "nat option \<times> nat option"
  re_parse :: "string \<Rightarrow> json option"
  re_real :: "string \<Rightarrow> 64 word option"
  re_show :: "json \<Rightarrow> string"
  re_sha :: "string \<Rightarrow> string"

text \<open>What a round did, in order: reads that ran together, a change alone, a result saved.\<close>

datatype turn_step = ReadBatch "(nat \<times> action list) list" | Change nat "action list" | Saved nat

record turn_state =
  ts_window :: "string list"
  ts_taint :: trust_label
  ts_web :: bool
  ts_ordered :: "model_message list"
  ts_messages :: "message list"
  ts_refusals :: refusals
  ts_outside :: "string \<Rightarrow> trust_label option"
  ts_room :: nat
  ts_modified :: bool
  ts_unavailable :: "string \<Rightarrow> observation option"
  ts_log :: "logged list"
  ts_trace :: "turn_step list"

text \<open>Errors that end the turn: a failed append, a panic, and names that cannot be told apart.\<close>

datatype turn_fault = LogFailed string | Panicked | Diverged

definition then_ok :: "'e + 'a \<Rightarrow> ('a \<Rightarrow> 'e + 'b) \<Rightarrow> 'e + 'b" where
  "then_ok r f = (case r of Inl e \<Rightarrow> Inl e | Inr x \<Rightarrow> f x)"

definition or_panic :: "'a option \<Rightarrow> turn_fault + 'a" where
  "or_panic x = (case x of Some y \<Rightarrow> Inr y | None \<Rightarrow> Inl Panicked)"

definition log_it :: "round_env \<Rightarrow> logged \<Rightarrow> turn_state \<Rightarrow> turn_fault + string \<times> turn_state" where
  "log_it env r st =
     (case re_append env (ts_log st) r of
        Inl e \<Rightarrow> Inl (LogFailed e)
      | Inr eid \<Rightarrow> Inr (eid, st\<lparr>ts_log := ts_log st @ [r]\<rparr>))"

section \<open>Helpers of the loop\<close>

definition is_memory_tool :: "string \<Rightarrow> bool" where
  "is_memory_tool tool \<longleftrightarrow> tool = ''memory'' \<or> starts_with tool ''memory.''"

definition forged_fields :: "string list" where
  "forged_fields = [''trust'', ''confidence'', ''provenance'', ''sessions'', ''_trust'', ''_provenance'', ''_session'',
     ''_user_stated'']"

definition enrich_memory_intent :: "trust_label \<Rightarrow> string list \<Rightarrow> string \<Rightarrow> json \<Rightarrow> json" where
  "enrich_memory_intent taint window session args =
     (let own = (case args of JObj fs \<Rightarrow> fs | _ \<Rightarrow> []);
          kept = fold obj_remove forged_fields own
      in JObj (fold (\<lambda>(k, v). obj_insert k v)
           [(''_trust'', JStr (trust_as_str taint)), (''_provenance'', JArr (map JStr window)),
            (''_session'', JStr session), (''_user_stated'', JBool (taint = User))] kept))"

definition attach_discovered_context :: "discovered_context \<Rightarrow> observation \<Rightarrow> observation" where
  "attach_discovered_context d obs =
     (let attachment = json_obj [(''path'', JStr (dc_path d)), (''trust'', JStr (trust_as_str (dc_trust d))),
            (''blocked'', JBool (dc_blocked d)), (''content'', JStr (dc_content d))]
      in obs\<lparr>obs_payload := (case obs_payload obs of
           JObj fs \<Rightarrow> JObj (obj_insert ''project_context'' attachment fs)
         | other \<Rightarrow> json_obj [(''result'', other), (''project_context'', attachment)])\<rparr>)"

definition relayed_source :: "trust_label \<Rightarrow> trust_label \<Rightarrow> trust_label" where
  "relayed_source base source = (if base = Tool \<and> source = Skill then source else trust_min base source)"

definition successful_observed_path :: "observation \<Rightarrow> string option" where
  "successful_observed_path obs = (if obs_status obs = StatusOk then get_str (obs_payload obs) ''path'' else None)"

section \<open>One admitted call\<close>

definition round_world :: "round_env \<Rightarrow> nat \<Rightarrow> tool_intent \<Rightarrow> world" where
  "round_world env n i = (re_world env n)\<lparr>w_radius := re_call_radius env i,
     w_mutation_key := re_mutation_key env i, w_failed := re_failed env\<rparr>"

text \<open>\<open>obs.payload[key] = value\<close>, which panics unless the payload is an object or null.\<close>

definition set_field :: "string \<Rightarrow> json \<Rightarrow> observation \<Rightarrow> observation option" where
  "set_field k v obs =
     (if is_object (obs_payload obs) \<or> obs_payload obs = JNull
      then Some (obs\<lparr>obs_payload := json_set k v (obs_payload obs)\<rparr>) else None)"

definition review_id :: "json \<Rightarrow> json" where
  "review_id held = json_obj [(''id'', json_index held ''id'')]"

definition with_reviews :: "json option \<Rightarrow> json list \<Rightarrow> observation \<Rightarrow> observation option" where
  "with_reviews outbound held obs =
     Option.bind (case outbound of None \<Rightarrow> Some obs | Some r \<Rightarrow> set_field ''outbound'' (review_id r) obs)
       (\<lambda>obs1. case held of
          [] \<Rightarrow> Some obs1
        | first # _ \<Rightarrow>
            Option.bind
              (if json_get (obs_payload obs1) ''mutation'' = None then set_field ''mutation'' (review_id first) obs1 else Some obs1)
              (set_field ''mutations'' (JArr (map review_id held))))"

definition interrupted :: "tool_intent \<Rightarrow> string \<Rightarrow> observation" where
  "interrupted i why = obs_error (intent_id i) (''[interrupted] '' @ why)"

definition admitted_run :: "round_env \<Rightarrow> bool \<Rightarrow> nat \<Rightarrow> tool_intent \<Rightarrow> (action list \<times> observation) option" where
  "admitted_run env taint n i =
     (let (acts, raw) = dispatch_one (round_world env n i) (re_autonomy env) i taint;
          full = map_option (\<lambda>obs. (acts, obs)) (with_reviews (re_review env n) (re_notices env n) raw);
          memory = is_memory_tool (intent_tool i)
      in case re_timing env n of
           WallElapsed \<Rightarrow> Some ([], interrupted i ''task wall-clock deadline elapsed before tool execution started'')
         | CancelledFirst \<Rightarrow> Some ([], interrupted i ''cancelled by user before tool execution started'')
         | Settles \<Rightarrow> full
         | WallCut k \<Rightarrow> if memory then full
             else Some (take k acts, interrupted i ''task wall-clock deadline elapsed during tool execution'')
         | GraceCut k \<Rightarrow> if memory then full
             else Some (take k acts, interrupted i ''cancelled by user; tool did not settle within the grace window''))"

text \<open>A settled call: its place, its intent, its observation and the context its path brought.\<close>

type_synonym settled = "nat \<times> tool_intent \<times> observation \<times> discovered_context option"

definition execute_admitted ::
  "round_env \<Rightarrow> bool \<Rightarrow> nat \<Rightarrow> tool_intent \<Rightarrow> (action list \<times> settled) option" where
  "execute_admitted env taint n i =
     map_option (\<lambda>(acts, obs). (acts, n, i, obs, Option.bind (successful_observed_path obs) (re_discover env n)))
       (admitted_run env taint n i)"

text \<open>A batch of reads: what is already settled keeps its slot. \<open>buffered\<close> hands results back in call order.\<close>

fun settle_reads ::
  "round_env \<Rightarrow> bool \<Rightarrow> (nat \<times> tool_intent) list \<Rightarrow> (string \<Rightarrow> observation option) \<Rightarrow>
   ((nat \<times> action list) list \<times> settled list \<times> (string \<Rightarrow> observation option)) option" where
  "settle_reads env taint [] un = Some ([], [], un)"
| "settle_reads env taint ((n, i) # rest) un =
     Option.bind (case un (intent_id i) of
          Some obs \<Rightarrow> Some ([], n, i, obs, None)
        | None \<Rightarrow> execute_admitted env taint n i)
       (\<lambda>(acts, one). map_option (\<lambda>(rn, settled, un'). ((n, acts) # rn, one # settled, un'))
          (settle_reads env taint rest (un(intent_id i := None))))"

section \<open>Making a result durable\<close>

definition result_trust :: "round_env \<Rightarrow> (string \<Rightarrow> trust_label option) \<Rightarrow> string \<Rightarrow> observation \<Rightarrow> trust_label" where
  "result_trust env outside tool obs =
     (let base = (if re_category env tool = Some WebCat \<or> re_radius env tool = Some External then Web else Tool);
          own = (case relayed_trust obs of Some r \<Rightarrow> relayed_source base r | None \<Rightarrow> base)
      in case Option.bind (get_str (obs_payload obs) ''hash'') outside of
           Some r \<Rightarrow> relayed_source own r
         | None \<Rightarrow> own)"

definition note_adjusted :: "string option \<Rightarrow> observation \<Rightarrow> observation" where
  "note_adjusted note obs =
     (case (note, obs_payload obs) of
        (Some t, JObj fs) \<Rightarrow> obs\<lparr>obs_payload := JObj (obj_insert ''adjusted'' (JStr t) fs)\<rparr>
      | _ \<Rightarrow> obs)"

text \<open>The context a path brought: logged, in the window, and attached.\<close>

definition persist_context ::
  "round_env \<Rightarrow> discovered_context option \<Rightarrow> trust_label \<Rightarrow> observation \<Rightarrow> turn_state \<Rightarrow>
   turn_fault + trust_label \<times> observation \<times> turn_state" where
  "persist_context env disc trust obs st =
     (case disc of
        None \<Rightarrow> Inr (trust, obs, st)
      | Some d \<Rightarrow> then_ok (log_it env (LoggedContext d) st) (\<lambda>(eid, st').
          Inr (trust_min trust (dc_trust d), attach_discovered_context d obs,
            st'\<lparr>ts_window := ts_window st' @ [eid], ts_taint := trust_min (ts_taint st') (dc_trust d)\<rparr>)))"

text \<open>A memory operation is logged before the observation that reports it.\<close>

definition persist_memory :: "round_env \<Rightarrow> string \<Rightarrow> observation \<Rightarrow> turn_state \<Rightarrow> turn_fault + observation \<times> turn_state" where
  "persist_memory env tool obs st =
     (case (obs_status obs = StatusOk \<and> is_memory_tool tool, obs_payload obs) of
        (True, JObj fs) \<Rightarrow>
          (let obs' = obs\<lparr>obs_payload := JObj (obj_remove ''applied'' fs)\<rparr>
           in case map_of fs ''applied'' of
                Some (JObj op) \<Rightarrow> then_ok (log_it env (LoggedMemory (JObj op)) st) (\<lambda>(_, st'). Inr (obs', st'))
              | _ \<Rightarrow> Inr (obs', st))
      | _ \<Rightarrow> Inr (obs, st))"

definition keep_outside :: "string option \<Rightarrow> trust_label \<Rightarrow> (string \<Rightarrow> trust_label option) \<Rightarrow> string \<Rightarrow> trust_label option" where
  "keep_outside stored trust outside =
     (case stored of
        Some hash \<Rightarrow>
          if trust = Skill \<or> trust_rank trust < trust_rank Tool
          then outside(hash \<mapsto> (case outside hash of Some l \<Rightarrow> trust_min l trust | None \<Rightarrow> trust))
          else outside
      | None \<Rightarrow> outside)"

text \<open>The messages of a result: the text the model reads, and its images after it.\<close>

definition result_messages :: "fit_env \<Rightarrow> string \<Rightarrow> trust_label \<Rightarrow> observation \<Rightarrow> message list" where
  "result_messages fe call_id trust obs =
     carrying trust (tool_result call_id (model_reads fe obs))
     # (if obs_media obs = [] then [] else [carrying trust (tool_media_message call_id (obs_media obs))])"

definition persist_admitted ::
  "round_env \<Rightarrow> (string \<Rightarrow> string option) \<Rightarrow> settled \<Rightarrow> turn_state \<Rightarrow> turn_fault + turn_state" where
  "persist_admitted env adjusted one st =
     (let (n, i, obs, disc) = one; tool = intent_tool i; call_id = intent_id i;
          trust0 = result_trust env (ts_outside st) tool obs
      in then_ok (persist_context env disc trust0 (note_adjusted (adjusted call_id) obs) st) (\<lambda>(trust, obs1, st1).
         then_ok (persist_memory env tool obs1 st1) (\<lambda>(obs2, st2).
         (let (obs3, room, stored) = fit_for_model (re_fit env n) (fst (result_limits (re_window env) (re_limits env))) obs2 (ts_room st2);
              st3 = st2\<lparr>ts_room := room, ts_outside := keep_outside stored trust (ts_outside st2)\<rparr>
          in then_ok (log_it env (LoggedResult tool obs3 trust stored) st3) (\<lambda>(eid, st4).
            Inr (st4\<lparr>ts_window := ts_window st4 @ [eid], ts_taint := trust_min (ts_taint st4) trust,
                   ts_web := (ts_web st4 \<or> trust = Web),
                   ts_messages := ts_messages st4 @ result_messages (re_fit env n) call_id trust obs3,
                   ts_ordered := ts_ordered st4 @ map ordered (result_messages (re_fit env n) call_id trust obs3),
                   ts_trace := ts_trace st4 @ [Saved n]\<rparr>))))))"

text \<open>What every settled call goes through: the change flag, the count of refusals, and saving.\<close>

definition settle_one ::
  "round_env \<Rightarrow> (string \<Rightarrow> string option) \<Rightarrow> (string \<Rightarrow> tool_intent option) \<Rightarrow> settled \<Rightarrow> turn_state \<Rightarrow>
   turn_fault + turn_state" where
  "settle_one env adjusted calls one st =
     (let (n, i, obs, disc) = one; tool = intent_tool i;
          st1 = st\<lparr>ts_modified := (ts_modified st \<or> re_changed env tool obs)\<rparr>
      in case calls (intent_id i) of
           None \<Rightarrow> persist_admitted env adjusted one st1
         | Some call \<Rightarrow>
             then_ok (or_panic (refusal_note (re_show env) call (re_failed env tool obs) obs (ts_refusals st1)))
               (\<lambda>(_, obs', r). persist_admitted env adjusted (n, i, obs', disc) (st1\<lparr>ts_refusals := r\<rparr>)))"

fun settle_all ::
  "round_env \<Rightarrow> (string \<Rightarrow> string option) \<Rightarrow> (string \<Rightarrow> tool_intent option) \<Rightarrow> settled list \<Rightarrow> turn_state \<Rightarrow>
   turn_fault + turn_state" where
  "settle_all env adjusted calls [] st = Inr st"
| "settle_all env adjusted calls (one # rest) st =
     then_ok (settle_one env adjusted calls one st) (settle_all env adjusted calls rest)"

section \<open>The round\<close>

definition flush_reads ::
  "round_env \<Rightarrow> (string \<Rightarrow> string option) \<Rightarrow> (string \<Rightarrow> tool_intent option) \<Rightarrow> bool \<Rightarrow> (nat \<times> tool_intent) list \<Rightarrow>
   turn_state \<Rightarrow> turn_fault + turn_state" where
  "flush_reads env adjusted calls taint batch st =
     (if batch = [] then Inr st
      else then_ok (or_panic (settle_reads env taint batch (ts_unavailable st))) (\<lambda>(rn, settled, un).
        settle_all env adjusted calls settled (st\<lparr>ts_unavailable := un, ts_trace := ts_trace st @ [ReadBatch rn]\<rparr>)))"

definition run_change ::
  "round_env \<Rightarrow> (string \<Rightarrow> string option) \<Rightarrow> (string \<Rightarrow> tool_intent option) \<Rightarrow> bool \<Rightarrow> nat \<Rightarrow> tool_intent \<Rightarrow>
   turn_state \<Rightarrow> turn_fault + turn_state" where
  "run_change env adjusted calls taint n i st =
     then_ok (or_panic (execute_admitted env taint n i)) (\<lambda>(acts, one).
       settle_one env adjusted calls one (st\<lparr>ts_trace := ts_trace st @ [Change n acts]\<rparr>))"

text \<open>Reads run together; a change first waits for the reads before it, then runs alone and is saved.\<close>

fun run_round ::
  "round_env \<Rightarrow> (string \<Rightarrow> string option) \<Rightarrow> (string \<Rightarrow> tool_intent option) \<Rightarrow> bool \<Rightarrow> (nat \<times> tool_intent) list \<Rightarrow>
   (nat \<times> tool_intent) list \<Rightarrow> turn_state \<Rightarrow> turn_fault + turn_state" where
  "run_round env adjusted calls taint [] batch st = flush_reads env adjusted calls taint batch st"
| "run_round env adjusted calls taint ((n, i) # rest) batch st =
     (if ts_unavailable st (intent_id i) = None \<and> re_mutation_key env i \<noteq> None
      then then_ok (flush_reads env adjusted calls taint batch st) (\<lambda>st1.
           then_ok (run_change env adjusted calls taint n i st1) (run_round env adjusted calls taint rest []))
      else run_round env adjusted calls taint rest (batch @ [(n, i)]) st)"

text \<open>The arguments a call is run with, and the map of what the results will say was adjusted. A call whose id an
  earlier call had would add its unknown fields to that note.\<close>

definition repaired_call :: "round_env \<Rightarrow> tool_intent \<Rightarrow> tool_intent" where
  "repaired_call env i =
     (case re_schemas env (intent_tool i) of
        None \<Rightarrow> i
      | Some schema \<Rightarrow> i\<lparr>intent_args := fst (arg_repair (re_parse env) (re_real env) (re_show env) (intent_args i) schema)\<rparr>)"

definition note_call :: "round_env \<Rightarrow> tool_intent \<Rightarrow> (string \<Rightarrow> string option) \<Rightarrow> string \<Rightarrow> string option" where
  "note_call env i adjusted =
     (case re_schemas env (intent_tool i) of
        None \<Rightarrow> adjusted
      | Some schema \<Rightarrow>
          (let (args, repairs) = arg_repair (re_parse env) (re_real env) (re_show env) (intent_args i) schema;
               noted = (case repair_note repairs of Some t \<Rightarrow> adjusted(intent_id i \<mapsto> t) | None \<Rightarrow> adjusted)
           in case (if starts_with (intent_tool i) ''mcp__'' then None else unknown_fields (intent_tool i) args schema) of
                None \<Rightarrow> noted
              | Some u \<Rightarrow> noted(intent_id i \<mapsto> (case noted (intent_id i) of Some t \<Rightarrow> t @ '' '' @ u | None \<Rightarrow> u))))"

definition prepared_call :: "round_env \<Rightarrow> turn_state \<Rightarrow> tool_intent \<Rightarrow> tool_intent" where
  "prepared_call env st i =
     (let j = repaired_call env i
      in if is_memory_tool (intent_tool j)
         then j\<lparr>intent_args := enrich_memory_intent (if ts_web st then Web else ts_taint st) (ts_window st)
                (re_session env) (intent_args j)\<rparr>
         else j)"

text \<open>Every call is logged, with its note, before any of them runs.\<close>

fun log_intents :: "round_env \<Rightarrow> (string \<Rightarrow> string option) \<Rightarrow> tool_intent list \<Rightarrow> turn_state \<Rightarrow> turn_fault + turn_state" where
  "log_intents env adjusted [] st = Inr st"
| "log_intents env adjusted (i # rest) st =
     then_ok (log_it env (LoggedIntent i (adjusted (intent_id i))) st) (\<lambda>(_, st'). log_intents env adjusted rest st')"

definition unavailable_text :: "string \<Rightarrow> string option \<Rightarrow> string" where
  "unavailable_text tool hint =
     ''Tool '' @ [CHR 0x27] @ tool @ [CHR 0x27] @ '' is unavailable in this request. ''
     @ (case hint of Some t \<Rightarrow> ''Use `'' @ t @ ''` for this instead.'' | None \<Rightarrow> ''Choose an available tool.'')
     @ '' Approval cannot enable this tool; do not retry this name.''"

definition unavailable_call :: "(string \<times> string) list \<Rightarrow> tool_intent \<Rightarrow> observation" where
  "unavailable_call wires i =
     (let obs = obs_error (intent_id i) (unavailable_text (intent_tool i) (suggested_tool (intent_tool i) wires))
      in obs\<lparr>obs_payload := json_set ''available_tools'' (JArr (map JStr (sort (map fst wires))))
           (json_set ''requested_tool'' (JStr (intent_tool i))
             (json_set ''error_code'' (JStr ''tool_unavailable'') (obs_payload obs)))\<rparr>)"

text \<open>Calls settled without running: tools the request did not offer, then calls that kept failing.\<close>

definition mark_unavailable :: "round_env \<Rightarrow> tool_intent list \<Rightarrow> turn_fault + (string \<Rightarrow> observation option)" where
  "mark_unavailable env intents =
     (if list_all (\<lambda>i. intent_tool i \<in> set (re_request_tools env)) intents then Inr (\<lambda>_. None)
      else case portable_tool_name_map (re_sha env) (re_request_tools env) of
        None \<Rightarrow> Inl Diverged
      | Some wires \<Rightarrow> Inr (fold (\<lambda>i un. if intent_tool i \<in> set (re_request_tools env) then un
            else un(intent_id i \<mapsto> unavailable_call wires i)) intents (\<lambda>_. None)))"

definition mark_refused :: "round_env \<Rightarrow> refusals \<Rightarrow> tool_intent list \<Rightarrow> (string \<Rightarrow> observation option) \<Rightarrow> string \<Rightarrow> observation option" where
  "mark_refused env r intents un =
     fold (\<lambda>i un. case un (intent_id i) of
         Some _ \<Rightarrow> un
       | None \<Rightarrow> (case refusal_blocked (re_show env) i r of Some obs \<Rightarrow> un(intent_id i \<mapsto> obs) | None \<Rightarrow> un)) intents un"

definition calls_of :: "tool_intent list \<Rightarrow> string \<Rightarrow> tool_intent option" where
  "calls_of intents = map_of (rev (map (\<lambda>i. (intent_id i, i)) intents))"

definition dispatch_turn :: "round_env \<Rightarrow> tool_intent list \<Rightarrow> turn_state \<Rightarrow> turn_fault + turn_state" where
  "dispatch_turn env intents st =
     (let adjusted = fold (note_call env) intents (\<lambda>_. None);
          calls = map (prepared_call env st) intents;
          st0 = st\<lparr>ts_room := snd (result_limits (re_window env) (re_limits env)), ts_modified := False,
                   ts_trace := []\<rparr>
      in then_ok (log_intents env adjusted calls st0) (\<lambda>st1.
         then_ok (mark_unavailable env calls) (\<lambda>un.
         run_round env adjusted (calls_of calls) (ts_web st1) (enumerate 0 calls) []
           (st1\<lparr>ts_unavailable := mark_refused env (ts_refusals st1) calls un\<rparr>))))"

section \<open>Lemmas\<close>

lemma then_ok_Inr [simp]: "then_ok r f = Inr y \<longleftrightarrow> (\<exists>x. r = Inr x \<and> f x = Inr y)"
  by (cases r) (simp_all add: then_ok_def)

lemma or_panic_Inr [simp]: "or_panic x = Inr y \<longleftrightarrow> x = Some y"
  by (cases x) (simp_all add: or_panic_def)

lemma log_it_Inr [simp]:
  "log_it env r st = Inr (eid, st') \<longleftrightarrow> re_append env (ts_log st) r = Inr eid \<and> st' = st\<lparr>ts_log := ts_log st @ [r]\<rparr>"
  by (auto simp: log_it_def split: sum.splits)

text \<open>A tool whose answer comes from outside this machine.\<close>

definition answers_from_outside :: "round_env \<Rightarrow> string \<Rightarrow> bool" where
  "answers_from_outside env tool \<longleftrightarrow> re_category env tool = Some WebCat \<or> re_radius env tool = Some External"

lemma trust_min_Web_eq [simp]: "trust_min Web t = Web" "trust_min t Web = Web"
  by (cases t; simp add: trust_min_def)+

lemma relayed_source_Web [simp]: "relayed_source Web t = Web" "relayed_source t Web = Web"
  by (simp_all add: relayed_source_def)

lemma result_trust_outside: "answers_from_outside env tool \<Longrightarrow> result_trust env outside tool obs = Web"
  by (auto simp: answers_from_outside_def result_trust_def Let_def split: option.splits)

lemma map_of_obj_remove [simp]: "map_of (obj_remove k fs) = (map_of fs)(k := None)"
  by (induction fs) (auto simp: obj_remove_def)

lemma map_of_fold_remove: "map_of (fold obj_remove ks fs) k = (if k \<in> set ks then None else map_of fs k)"
  by (induction ks arbitrary: fs) auto

text \<open>What a memory call carries, field by field.\<close>

lemma enriched_field:
  "json_get (enrich_memory_intent taint window session args) k =
     (if k = ''_user_stated'' then Some (JBool (taint = User)) else if k = ''_session'' then Some (JStr session)
      else if k = ''_provenance'' then Some (JArr (map JStr window)) else if k = ''_trust'' then Some (JStr (trust_as_str taint))
      else if k \<in> set forged_fields then None else map_of (case args of JObj fs \<Rightarrow> fs | _ \<Rightarrow> []) k)"
  by (simp only: enrich_memory_intent_def Let_def json_get_def json.case fold.simps prod.case comp_apply id_apply
      map_of_obj_insert fun_upd_apply map_of_fold_remove)

subsection \<open>What saving adds\<close>

definition result_of :: "logged \<Rightarrow> string list" where
  "result_of r = (case r of LoggedResult tool _ _ _ \<Rightarrow> [tool] | _ \<Rightarrow> [])"

definition is_intent_record :: "logged \<Rightarrow> bool" where
  "is_intent_record r = (case r of LoggedIntent _ _ \<Rightarrow> True | _ \<Rightarrow> False)"

lemmas record_kinds = result_of_def is_intent_record_def

definition advances :: "round_env \<Rightarrow> tool_intent list \<Rightarrow> turn_state \<Rightarrow> turn_state \<Rightarrow> bool" where
  "advances env is st st' \<longleftrightarrow>
     (\<exists>ms. ts_messages st' = ts_messages st @ ms \<and> ts_ordered st' = ts_ordered st @ map ordered ms \<and>
        concat (map legacy_answers ms) = map intent_id is \<and> list_all (\<lambda>m. msg_calls m = []) ms) \<and>
     (\<exists>l. ts_log st' = ts_log st @ l \<and> concat (map result_of l) = map intent_tool is \<and> list_all (\<lambda>r. \<not> is_intent_record r) l) \<and>
     (ts_web st \<or> (\<exists>i \<in> set is. answers_from_outside env (intent_tool i)) \<longrightarrow> ts_web st')"

lemma advances_refl [simp]: "advances env [] st st"
  by (simp add: advances_def)

lemma advances_trans: "advances env is st st1 \<Longrightarrow> advances env js st1 st2 \<Longrightarrow> advances env (is @ js) st st2"
  unfolding advances_def by (elim conjE exE, intro conjI) (force, force, force)

text \<open>Fields the schedule owns do not matter to what saving adds.\<close>

lemma advances_schedule [simp]:
  "advances env is (st\<lparr>ts_trace := a\<rparr>) st' = advances env is st st'"
  "advances env is (st\<lparr>ts_unavailable := b\<rparr>) st' = advances env is st st'"
  "advances env is (st\<lparr>ts_modified := c\<rparr>) st' = advances env is st st'"
  "advances env is (st\<lparr>ts_refusals := d\<rparr>) st' = advances env is st st'"
  by (simp_all add: advances_def)

lemma result_messages_answers [simp]: "concat (map legacy_answers (result_messages fe c t obs)) = [c]"
  by (simp add: result_messages_def legacy_answers_def carrying_def tool_result_def tool_media_message_def message_new_def)

lemma result_messages_no_calls [simp]: "list_all (\<lambda>m. msg_calls m = []) (result_messages fe c t obs)"
  by (simp add: result_messages_def carrying_def tool_result_def tool_media_message_def message_new_def)

lemma persist_context_ok:
  assumes "persist_context env disc trust obs st = Inr (trust', obs', st')"
  shows "(trust = Web \<longrightarrow> trust' = Web) \<and> ts_trace st' = ts_trace st \<and> ts_unavailable st' = ts_unavailable st \<and> advances env [] st st'"
  using assms by (cases disc) (auto simp: persist_context_def advances_def record_kinds)

lemma persist_memory_ok:
  assumes "persist_memory env tool obs st = Inr (obs', st')"
  shows "ts_trace st' = ts_trace st \<and> ts_unavailable st' = ts_unavailable st \<and> advances env [] st st'"
  using assms unfolding persist_memory_def Let_def
  by (auto simp: advances_def record_kinds split: bool.splits json.splits option.splits)

lemma persist_ok:
  assumes "persist_admitted env adjusted (n, i, obs, disc) st = Inr st'"
  shows "ts_trace st' = ts_trace st @ [Saved n] \<and> ts_unavailable st' = ts_unavailable st \<and> advances env [i] st st'"
proof -
  define trust0 where "trust0 = result_trust env (ts_outside st) (intent_tool i) obs"
  obtain trust obs1 st1 where c: "persist_context env disc trust0 (note_adjusted (adjusted (intent_id i)) obs) st = Inr (trust, obs1, st1)"
    and r1: "then_ok (persist_memory env (intent_tool i) obs1 st1) (\<lambda>(obs2, st2).
         (let (obs3, room, stored) = fit_for_model (re_fit env n) (fst (result_limits (re_window env) (re_limits env))) obs2 (ts_room st2);
              st3 = st2\<lparr>ts_room := room, ts_outside := keep_outside stored trust (ts_outside st2)\<rparr>
          in then_ok (log_it env (LoggedResult (intent_tool i) obs3 trust stored) st3) (\<lambda>(eid, st4).
            Inr (st4\<lparr>ts_window := ts_window st4 @ [eid], ts_taint := trust_min (ts_taint st4) trust,
                   ts_web := (ts_web st4 \<or> trust = Web),
                   ts_messages := ts_messages st4 @ result_messages (re_fit env n) (intent_id i) trust obs3,
                   ts_ordered := ts_ordered st4 @ map ordered (result_messages (re_fit env n) (intent_id i) trust obs3),
                   ts_trace := ts_trace st4 @ [Saved n]\<rparr>)))) = Inr st'"
    using assms unfolding persist_admitted_def Let_def trust0_def by auto
  then obtain obs2 st2 where m: "persist_memory env (intent_tool i) obs1 st1 = Inr (obs2, st2)"
    and r2: "(let (obs3, room, stored) = fit_for_model (re_fit env n) (fst (result_limits (re_window env) (re_limits env))) obs2 (ts_room st2);
              st3 = st2\<lparr>ts_room := room, ts_outside := keep_outside stored trust (ts_outside st2)\<rparr>
          in then_ok (log_it env (LoggedResult (intent_tool i) obs3 trust stored) st3) (\<lambda>(eid, st4).
            Inr (st4\<lparr>ts_window := ts_window st4 @ [eid], ts_taint := trust_min (ts_taint st4) trust,
                   ts_web := (ts_web st4 \<or> trust = Web),
                   ts_messages := ts_messages st4 @ result_messages (re_fit env n) (intent_id i) trust obs3,
                   ts_ordered := ts_ordered st4 @ map ordered (result_messages (re_fit env n) (intent_id i) trust obs3),
                   ts_trace := ts_trace st4 @ [Saved n]\<rparr>))) = Inr st'"
    by auto
  have web: "answers_from_outside env (intent_tool i) \<Longrightarrow> trust = Web"
    using persist_context_ok [OF c] result_trust_outside [of env "intent_tool i" "ts_outside st" obs] by (simp add: trust0_def)
  obtain obs3 room stored where f: "fit_for_model (re_fit env n) (fst (result_limits (re_window env) (re_limits env))) obs2 (ts_room st2)
      = (obs3, room, stored)" by (cases "fit_for_model (re_fit env n) (fst (result_limits (re_window env) (re_limits env))) obs2 (ts_room st2)")
  have "ts_trace st' = ts_trace st2 @ [Saved n] \<and> ts_unavailable st' = ts_unavailable st2 \<and> advances env [i] st2 st'"
    using r2 web unfolding f by (auto simp: Let_def advances_def record_kinds)
  moreover have "advances env [] st st2"
    using persist_context_ok [OF c] persist_memory_ok [OF m] advances_trans by fastforce
  ultimately show ?thesis using persist_context_ok [OF c] persist_memory_ok [OF m] advances_trans by fastforce
qed

lemma settle_one_ok:
  assumes "settle_one env adjusted calls (n, i, obs, disc) st = Inr st'"
  shows "ts_trace st' = ts_trace st @ [Saved n] \<and> ts_unavailable st' = ts_unavailable st \<and> advances env [i] st st'"
  using assms by (auto simp: settle_one_def Let_def dest!: persist_ok split: option.splits)

lemma settle_all_ok:
  assumes "settle_all env adjusted calls settled st = Inr st'"
  shows "ts_trace st' = ts_trace st @ map (\<lambda>s. Saved (fst s)) settled \<and> ts_unavailable st' = ts_unavailable st \<and>
    advances env (map (\<lambda>s. fst (snd s)) settled) st st'"
  using assms
proof (induction settled arbitrary: st)
  case (Cons s rest)
  obtain n i obs disc where s: "s = (n, i, obs, disc)" by (cases s)
  from Cons.prems obtain st1 where 1: "settle_one env adjusted calls (n, i, obs, disc) st = Inr st1"
    and 2: "settle_all env adjusted calls rest st1 = Inr st'" by (auto simp: s)
  show ?case using settle_one_ok [OF 1] Cons.IH [OF 2] advances_trans [of env "[i]" st st1] by (auto simp: s)
qed simp

subsection \<open>The schedule of a round\<close>

text \<open>
  The abstract schedule: calls are taken in order from \<open>k\<close> to \<open>m\<close>; a change is alone between what was
  saved before it and its own saved result; reads that stand together run in one batch and are all
  saved before anything else starts. \<open>P\<close> and \<open>Q\<close> say what is known of a change and of a read.
\<close>

inductive round_trace ::
  "(nat \<times> action list \<Rightarrow> bool) \<Rightarrow> (nat \<times> action list \<Rightarrow> bool) \<Rightarrow> nat \<Rightarrow> nat \<Rightarrow> turn_step list \<Rightarrow> bool" for P Q where
  round_done: "round_trace P Q k k []"
| round_change: "P (k, acts) \<Longrightarrow> round_trace P Q (Suc k) m t \<Longrightarrow> round_trace P Q k m (Change k acts # Saved k # t)"
| round_reads: "b \<noteq> [] \<Longrightarrow> map fst b = [k..<k + length b] \<Longrightarrow> list_all Q b \<Longrightarrow> round_trace P Q (k + length b) m t \<Longrightarrow>
    round_trace P Q k m (ReadBatch b # map Saved [k..<k + length b] @ t)"

lemma round_trace_append: "round_trace P Q k j t \<Longrightarrow> round_trace P Q j m t' \<Longrightarrow> round_trace P Q k m (t @ t')"
  by (induction rule: round_trace.induct) (auto intro: round_trace.intros)

lemma round_trace_mono:
  "round_trace P Q k m t \<Longrightarrow> (\<And>x. P x \<Longrightarrow> P' x) \<Longrightarrow> (\<And>x. Q x \<Longrightarrow> Q' x) \<Longrightarrow> round_trace P' Q' k m t"
  by (induction rule: round_trace.induct) (auto intro!: round_trace.intros simp: list_all_iff)

definition started :: "turn_step \<Rightarrow> (nat \<times> action list) list" where
  "started s = (case s of ReadBatch b \<Rightarrow> b | Change n acts \<Rightarrow> [(n, acts)] | Saved _ \<Rightarrow> [])"

lemma started_map_Saved [simp]: "concat (map (started \<circ> Saved) ns) = []"
  by (induction ns) (simp_all add: started_def)

lemma round_trace_le: "round_trace P Q k m t \<Longrightarrow> k \<le> m"
  by (induction rule: round_trace.induct) auto

lemma round_trace_started:
  "round_trace P Q k m t \<Longrightarrow> x \<in> set (concat (map started t)) \<Longrightarrow> k \<le> fst x \<and> fst x < m \<and> (P x \<or> Q x)"
proof (induction rule: round_trace.induct)
  case (round_change k acts m t)
  then have "x = (k, acts) \<or> x \<in> set (concat (map started t))" by (simp add: started_def)
  then show ?case
  proof
    assume "x \<in> set (concat (map started t))"
    from round_change.IH [OF this] show ?thesis by simp
  qed (use round_change.hyps(1) round_trace_le [OF round_change.hyps(2)] in simp)
next
  case (round_reads b k m t)
  have in_b: "k \<le> fst x \<and> fst x < k + length b \<and> Q x" if "x \<in> set b"
  proof -
    have "fst x \<in> set [k..<k + length b]" using that round_reads.hyps(2) by (metis image_eqI list.set_map)
    then show ?thesis using that round_reads.hyps(3) by (auto simp: list_all_iff)
  qed
  have "x \<in> set b \<or> x \<in> set (concat (map started t))" using round_reads.prems by (auto simp: started_def)
  then show ?case
  proof
    assume "x \<in> set (concat (map started t))"
    from round_reads.IH [OF this] show ?thesis by simp
  next
    assume "x \<in> set b"
    from in_b [OF this] show ?thesis using round_trace_le [OF round_reads.hyps(4)] by simp
  qed
qed simp

text \<open>A started call did what its dispatch does, up to where it was cut off.\<close>

definition ran_as :: "round_env \<Rightarrow> bool \<Rightarrow> tool_intent list \<Rightarrow> nat \<times> action list \<Rightarrow> bool" where
  "ran_as env taint cs x \<longleftrightarrow> snd x = [] \<or> (\<exists>obs. admitted_run env taint (fst x) (cs ! fst x) = Some (snd x, obs))"

text \<open>Nothing of a call that is already settled runs; only reads run in a batch.\<close>

definition kept_out :: "(string \<Rightarrow> observation option) \<Rightarrow> tool_intent list \<Rightarrow> nat \<times> action list \<Rightarrow> bool" where
  "kept_out un cs x \<longleftrightarrow> (un (intent_id (cs ! fst x)) \<noteq> None \<longrightarrow> snd x = [])"

definition batch_reads :: "round_env \<Rightarrow> tool_intent list \<Rightarrow> nat \<times> action list \<Rightarrow> bool" where
  "batch_reads env cs x \<longleftrightarrow> (re_mutation_key env (cs ! fst x) \<noteq> None \<longrightarrow> snd x = [])"

lemmas call_facts = ran_as_def kept_out_def batch_reads_def

lemma execute_admitted_Some:
  "execute_admitted env taint n i = Some (acts, s) \<Longrightarrow>
     (\<exists>obs disc. s = (n, i, obs, disc) \<and> admitted_run env taint n i = Some (acts, obs))"
  by (auto simp: execute_admitted_def)

lemma settle_reads_ok:
  assumes "settle_reads env taint (map (\<lambda>n. (n, cs ! n)) ns) un = Some (rn, settled, un')"
    and "distinct (map (\<lambda>n. intent_id (cs ! n)) ns)"
  shows "map fst rn = ns \<and> map (\<lambda>s. (fst s, fst (snd s))) settled = map (\<lambda>n. (n, cs ! n)) ns \<and>
    list_all (\<lambda>x. ran_as env taint cs x \<and> kept_out un cs x) rn \<and>
    (\<forall>c. c \<notin> set (map (\<lambda>n. intent_id (cs ! n)) ns) \<longrightarrow> un' c = un c)"
  using assms
proof (induction ns arbitrary: un rn settled)
  case (Cons n ns)
  define un1 where "un1 = un(intent_id (cs ! n) := None)"
  obtain acts one where first: "(case un (intent_id (cs ! n)) of
        Some obs \<Rightarrow> Some ([], n, cs ! n, obs, None) | None \<Rightarrow> execute_admitted env taint n (cs ! n)) = Some (acts, one)"
    and rest: "map_option (\<lambda>(rn, settled, un'). ((n, acts) # rn, one # settled, un'))
        (settle_reads env taint (map (\<lambda>n. (n, cs ! n)) ns) un1) = Some (rn, settled, un')"
    using Cons.prems(1) by (auto simp: un1_def elim!: bind_eq_Some_conv [THEN iffD1, elim_format])
  then obtain rn1 settled1 where r: "settle_reads env taint (map (\<lambda>n. (n, cs ! n)) ns) un1 = Some (rn1, settled1, un')"
    and s: "rn = (n, acts) # rn1" "settled = one # settled1" by auto
  have o: "fst one = n \<and> fst (snd one) = cs ! n \<and> ran_as env taint cs (n, acts) \<and> kept_out un cs (n, acts)"
    using first by (auto simp: call_facts dest!: execute_admitted_Some split: option.splits)
  have d: "intent_id (cs ! n) \<notin> set (map (\<lambda>n. intent_id (cs ! n)) ns)" "distinct (map (\<lambda>n. intent_id (cs ! n)) ns)"
    using Cons.prems(2) by auto
  note ih = Cons.IH [OF r d(2)]
  have "kept_out un cs x" if "x \<in> set rn1" for x
  proof -
    have "fst x \<in> set ns" using ih that by (metis image_eqI list.set_map)
    then have "intent_id (cs ! fst x) \<in> set (map (\<lambda>n. intent_id (cs ! n)) ns)" by simp
    then have "intent_id (cs ! fst x) \<noteq> intent_id (cs ! n)" using d(1) by metis
    then have "un1 (intent_id (cs ! fst x)) = un (intent_id (cs ! fst x))" by (simp add: un1_def)
    moreover have "kept_out un1 cs x" using ih that by (simp add: list_all_iff)
    ultimately show ?thesis by (simp add: kept_out_def)
  qed
  then show ?case using ih o s by (auto simp: list_all_iff un1_def)
qed simp

lemma flush_ok:
  assumes "flush_reads env adjusted calls taint (map (\<lambda>n. (n, cs ! n)) [k..<j]) st = Inr st'" "k \<le> j"
    and "distinct (map intent_id cs)" "j \<le> length cs"
    and "\<forall>n \<in> {k..<j}. ts_unavailable st (intent_id (cs ! n)) = un (intent_id (cs ! n))"
    and "\<forall>n \<in> {k..<j}. un (intent_id (cs ! n)) = None \<longrightarrow> re_mutation_key env (cs ! n) = None"
  shows "(\<exists>t. ts_trace st' = ts_trace st @ t \<and>
      round_trace P (\<lambda>x. ran_as env taint cs x \<and> kept_out un cs x \<and> batch_reads env cs x) k j t) \<and>
    (\<forall>n. n < length cs \<longrightarrow> n \<notin> {k..<j} \<longrightarrow> ts_unavailable st' (intent_id (cs ! n)) = ts_unavailable st (intent_id (cs ! n))) \<and>
    advances env (map ((!) cs) [k..<j]) st st'"
proof (cases "k = j")
  case True
  then show ?thesis using assms(1) by (auto simp: flush_reads_def intro: round_done)
next
  case False
  then have ne: "map (\<lambda>n. (n, cs ! n)) [k..<j] \<noteq> []" using assms(2) by simp
  obtain rn settled un' where r: "settle_reads env taint (map (\<lambda>n. (n, cs ! n)) [k..<j]) (ts_unavailable st) = Some (rn, settled, un')"
    and a: "settle_all env adjusted calls settled (st\<lparr>ts_unavailable := un', ts_trace := ts_trace st @ [ReadBatch rn]\<rparr>) = Inr st'"
    using assms(1) ne by (auto simp: flush_reads_def split: if_splits)
  have ids: "distinct (map (\<lambda>n. intent_id (cs ! n)) [k..<j])"
    using assms(3,4) by (auto simp: distinct_map inj_on_def distinct_conv_nth)
  note reads = settle_reads_ok [OF r ids]
  have len: "length rn = j - k" using reads by (metis length_map length_upt)
  then have b: "map fst rn = [k..<k + length rn]" "k + length rn = j" using reads assms(2) by auto
  have set: "map fst settled = [k..<j]" "map (\<lambda>s. fst (snd s)) settled = map ((!) cs) [k..<j]"
    using reads by (metis (no_types, lifting) comp_apply fst_conv list.map_comp list.map_cong0 map_idI)
      (metis (no_types, lifting) comp_apply snd_conv list.map_comp list.map_cong0 reads)
  have q: "list_all (\<lambda>x. ran_as env taint cs x \<and> kept_out un cs x \<and> batch_reads env cs x) rn"
    unfolding list_all_iff
  proof
    fix x assume x: "x \<in> set rn"
    then have "fst x \<in> set (map fst rn)" by simp
    then have n: "fst x \<in> {k..<j}" unfolding reads [THEN conjunct1] by simp
    have "ran_as env taint cs x" "kept_out (ts_unavailable st) cs x" using reads x by (auto simp: list_all_iff)
    then show "ran_as env taint cs x \<and> kept_out un cs x \<and> batch_reads env cs x"
      using n assms(5,6) by (auto simp: kept_out_def batch_reads_def)
  qed
  have rn: "rn \<noteq> []" using len False assms(2) by auto
  have "round_trace P (\<lambda>x. ran_as env taint cs x \<and> kept_out un cs x \<and> batch_reads env cs x) k j
      (ReadBatch rn # map Saved [k..<k + length rn] @ [])"
    by (rule round_reads [OF rn b(1) q]) (simp add: b(2) round_done)
  moreover have "map (\<lambda>s. Saved (fst s)) settled = map Saved [k..<k + length rn]"
    using set(1) b(2) by (metis comp_apply list.map_comp list.map_cong0)
  ultimately have "\<exists>t. ts_trace st' = ts_trace st @ t \<and>
      round_trace P (\<lambda>x. ran_as env taint cs x \<and> kept_out un cs x \<and> batch_reads env cs x) k j t"
    using settle_all_ok [OF a] by auto
  moreover have "un' (intent_id (cs ! n)) = ts_unavailable st (intent_id (cs ! n))"
    if "n < length cs" "n \<notin> {k..<j}" for n
  proof -
    have "intent_id (cs ! n) \<notin> set (map (\<lambda>n. intent_id (cs ! n)) [k..<j])"
      using that assms(3,4) by (auto simp: distinct_conv_nth)
    then show ?thesis using reads by blast
  qed
  ultimately show ?thesis using settle_all_ok [OF a] set(2) by auto
qed

text \<open>A change alone.\<close>

lemma run_change_ok:
  assumes "run_change env adjusted calls taint n (cs ! n) st = Inr st'"
    and "un (intent_id (cs ! n)) = None"
  shows "(\<exists>acts. ts_trace st' = ts_trace st @ [Change n acts, Saved n] \<and> ran_as env taint cs (n, acts) \<and> kept_out un cs (n, acts)) \<and>
    ts_unavailable st' = ts_unavailable st \<and> advances env [cs ! n] st st'"
proof -
  obtain acts obs disc where e: "admitted_run env taint n (cs ! n) = Some (acts, obs)"
    and s: "settle_one env adjusted calls (n, cs ! n, obs, disc) (st\<lparr>ts_trace := ts_trace st @ [Change n acts]\<rparr>) = Inr st'"
    using assms(1) by (auto simp: run_change_def dest!: execute_admitted_Some)
  then have "ran_as env taint cs (n, acts) \<and> kept_out un cs (n, acts)" using assms(2) by (simp add: call_facts)
  then show ?thesis using settle_one_ok [OF s] by auto
qed

lemma run_round_ok:
  assumes "run_round env adjusted calls taint (map (\<lambda>n. (n, cs ! n)) [j..<m]) (map (\<lambda>n. (n, cs ! n)) [k..<j]) st = Inr st'"
    and "k \<le> j" "j \<le> m" "m = length cs" "distinct (map intent_id cs)"
    and "\<forall>n \<in> {k..<m}. ts_unavailable st (intent_id (cs ! n)) = un (intent_id (cs ! n))"
    and "\<forall>n \<in> {k..<j}. un (intent_id (cs ! n)) = None \<longrightarrow> re_mutation_key env (cs ! n) = None"
  shows "(\<exists>t. ts_trace st' = ts_trace st @ t \<and>
      round_trace (\<lambda>x. ran_as env taint cs x \<and> kept_out un cs x)
        (\<lambda>x. ran_as env taint cs x \<and> kept_out un cs x \<and> batch_reads env cs x) k m t) \<and>
    advances env (map ((!) cs) [k..<m]) st st'"
  using assms
proof (induction "m - j" arbitrary: j k st)
  case 0
  then have "j = m" by simp
  then have f: "flush_reads env adjusted calls taint (map (\<lambda>n. (n, cs ! n)) [k..<m]) st = Inr st'"
    using "0.prems"(1) by simp
  have "(\<forall>n \<in> {k..<m}. un (intent_id (cs ! n)) = None \<longrightarrow> re_mutation_key env (cs ! n) = None)" "k \<le> m" "m \<le> length cs"
    using "0.prems" \<open>j = m\<close> by simp_all
  from flush_ok [OF f this(2) "0.prems"(5) this(3) "0.prems"(6) this(1)] show ?case by blast
next
  case (Suc d)
  let ?P = "\<lambda>x. ran_as env taint cs x \<and> kept_out un cs x"
  let ?Q = "\<lambda>x. ran_as env taint cs x \<and> kept_out un cs x \<and> batch_reads env cs x"
  have jm: "j < m" using Suc.hyps(2) by simp
  then have upt: "[j..<m] = j # [Suc j..<m]" by (rule upt_conv_Cons)
  show ?case
  proof (cases "ts_unavailable st (intent_id (cs ! j)) = None \<and> re_mutation_key env (cs ! j) \<noteq> None")
    case True
    obtain st1 st2 where f: "flush_reads env adjusted calls taint (map (\<lambda>n. (n, cs ! n)) [k..<j]) st = Inr st1"
      and c: "run_change env adjusted calls taint j (cs ! j) st1 = Inr st2"
      and r: "run_round env adjusted calls taint (map (\<lambda>n. (n, cs ! n)) [Suc j..<m]) (map (\<lambda>n. (n, cs ! n)) [Suc j..<Suc j]) st2 = Inr st'"
      using Suc.prems(1) True unfolding upt by auto
    have jl: "j \<le> length cs" using jm Suc.prems(4) by simp
    have u1: "\<forall>n \<in> {k..<j}. ts_unavailable st (intent_id (cs ! n)) = un (intent_id (cs ! n))"
      using Suc.prems(6) jm by auto
    note fl = flush_ok [OF f Suc.prems(2) Suc.prems(5) jl u1 Suc.prems(7), of ?P]
    have uj: "un (intent_id (cs ! j)) = None" using True Suc.prems(2,6) jm by auto
    note ch = run_change_ok [of env adjusted calls taint j cs st1 st2 un, OF c uj]
    have u2: "\<forall>n \<in> {Suc j..<m}. ts_unavailable st2 (intent_id (cs ! n)) = un (intent_id (cs ! n))"
      using fl ch Suc.prems(2,4,6) by auto
    have "d = m - Suc j" using Suc.hyps(2) by simp
    from Suc.hyps(1) [OF this r _ _ Suc.prems(4,5) u2] jm
    obtain t2 where t2: "ts_trace st' = ts_trace st2 @ t2" "round_trace ?P ?Q (Suc j) m t2"
      and a2: "advances env (map ((!) cs) [Suc j..<m]) st2 st'" by auto
    obtain t1 where t1: "ts_trace st1 = ts_trace st @ t1" "round_trace ?P ?Q k j t1" using fl by blast
    obtain acts where acts: "ts_trace st2 = ts_trace st1 @ [Change j acts, Saved j]" "?P (j, acts)" using ch by blast
    have tr: "round_trace ?P ?Q k m (t1 @ Change j acts # Saved j # t2)"
      by (rule round_trace_append [OF t1(2)], rule round_change [OF acts(2) t2(2)])
    have eq: "ts_trace st' = ts_trace st @ (t1 @ Change j acts # Saved j # t2)" using t1 t2 acts by simp
    have adv: "advances env (map ((!) cs) [k..<j] @ [cs ! j] @ map ((!) cs) [Suc j..<m]) st st'"
      using advances_trans [OF _ advances_trans [OF _ a2]] fl ch by blast
    have "[k..<m] = [k..<j] @ [j] @ [Suc j..<m]"
      using Suc.prems(2) jm upt by (metis append_Cons append_Nil le_add_diff_inverse less_imp_le upt_add_eq_append)
    then have up: "map ((!) cs) [k..<m] = map ((!) cs) [k..<j] @ [cs ! j] @ map ((!) cs) [Suc j..<m]" by simp
    show ?thesis unfolding up
      by (intro conjI exI [of _ "t1 @ Change j acts # Saved j # t2"]) (rule eq, rule tr, rule adv)
  next
    case False
    have bq: "map (\<lambda>n. (n, cs ! n)) [k..<j] @ [(j, cs ! j)] = map (\<lambda>n. (n, cs ! n)) [k..<Suc j]"
      using Suc.prems(2) by simp
    have "run_round env adjusted calls taint (map (\<lambda>n. (n, cs ! n)) [Suc j..<m]) (map (\<lambda>n. (n, cs ! n)) [k..<j] @ [(j, cs ! j)]) st = Inr st'"
      using Suc.prems(1) False unfolding upt list.map run_round.simps by (simp only: if_False)
    then have r: "run_round env adjusted calls taint (map (\<lambda>n. (n, cs ! n)) [Suc j..<m]) (map (\<lambda>n. (n, cs ! n)) [k..<Suc j]) st = Inr st'"
      unfolding bq .
    have u: "\<forall>n \<in> {k..<Suc j}. un (intent_id (cs ! n)) = None \<longrightarrow> re_mutation_key env (cs ! n) = None"
      using False Suc.prems(2,6,7) jm by (auto simp: less_Suc_eq)
    have "d = m - Suc j" using Suc.hyps(2) by simp
    from Suc.hyps(1) [OF this r _ _ Suc.prems(4,5,6) u] Suc.prems(2) jm show ?thesis by simp
  qed
qed

subsection \<open>Before the round\<close>

lemma log_intents_ok:
  assumes "log_intents env adjusted is st = Inr st'"
  shows "ts_log st' = ts_log st @ map (\<lambda>i. LoggedIntent i (adjusted (intent_id i))) is \<and> ts_messages st' = ts_messages st \<and>
    ts_ordered st' = ts_ordered st \<and> ts_web st' = ts_web st \<and> ts_trace st' = ts_trace st \<and> ts_refusals st' = ts_refusals st"
  using assms
proof (induction "is" arbitrary: st)
  case (Cons i rest)
  then obtain st1 where 1: "st1 = st\<lparr>ts_log := ts_log st @ [LoggedIntent i (adjusted (intent_id i))]\<rparr>"
    and 2: "log_intents env adjusted rest st1 = Inr st'" by auto
  show ?case using Cons.IH [OF 2] 1 by simp
qed simp

lemma mark_refused_keeps: "un c \<noteq> None \<Longrightarrow> mark_refused env r is un c \<noteq> None"
  unfolding mark_refused_def by (induction "is" arbitrary: un) (auto split: option.split)

lemma mark_refused_blocks:
  "i \<in> set is \<Longrightarrow> refusal_blocked (re_show env) i r \<noteq> None \<Longrightarrow> mark_refused env r is un (intent_id i) \<noteq> None"
proof (induction "is" arbitrary: un)
  case (Cons j js)
  show ?case
  proof (cases "i = j")
    case True
    then have "mark_refused env r (j # js) un = mark_refused env r js (mark_refused env r [j] un)"
      "mark_refused env r [j] un (intent_id i) \<noteq> None"
      using Cons.prems(2) by (auto simp: mark_refused_def split: option.split)
    then show ?thesis using mark_refused_keeps by simp
  next
    case False
    then show ?thesis using Cons by (auto simp: mark_refused_def)
  qed
qed simp

lemma fold_marks_keep: "un c \<noteq> None \<Longrightarrow> fold (\<lambda>i un. if P i then un else un(intent_id i \<mapsto> f i)) is un c \<noteq> None"
  by (induction "is" arbitrary: un) (auto simp del: not_None_eq)

lemma fold_marks:
  "i \<in> set is \<Longrightarrow> \<not> P i \<Longrightarrow> fold (\<lambda>i un. if P i then un else un(intent_id i \<mapsto> f i)) is un (intent_id i) \<noteq> None"
proof (induction "is" arbitrary: un)
  case (Cons j js)
  show ?case
  proof (cases "i = j")
    case True
    then show ?thesis using Cons.prems(2) fold_marks_keep [of "un(intent_id j \<mapsto> f j)" "intent_id j"] by simp
  next
    case False
    then show ?thesis using Cons by simp
  qed
qed simp

lemma mark_unavailable_blocks:
  assumes "mark_unavailable env is = Inr un" "i \<in> set is" "intent_tool i \<notin> set (re_request_tools env)"
  shows "un (intent_id i) \<noteq> None"
proof -
  have "\<not> list_all (\<lambda>i. intent_tool i \<in> set (re_request_tools env)) is" using assms(2,3) by (auto simp: list_all_iff)
  then obtain wires where "un = fold (\<lambda>i un. if intent_tool i \<in> set (re_request_tools env) then un
            else un(intent_id i \<mapsto> unavailable_call wires i)) is (\<lambda>_. None)"
    using assms(1) unfolding mark_unavailable_def by (cases "portable_tool_name_map (re_sha env) (re_request_tools env)") auto
  then show ?thesis using assms(3)
    fold_marks [where P = "\<lambda>i. intent_tool i \<in> set (re_request_tools env)" and f = "unavailable_call wires" and un = "\<lambda>_. None", OF assms(2)]
    by simp
qed

lemma prepared_call_id [simp]: "intent_id (prepared_call env st i) = intent_id i"
  "intent_tool (prepared_call env st i) = intent_tool i"
  by (auto simp: prepared_call_def repaired_call_def Let_def split: option.split)

text \<open>One round, from the state before it to the state after.\<close>

lemma dispatch_turn_ok:
  assumes "dispatch_turn env intents st = Inr st'" "distinct (map intent_id intents)"
  shows "\<exists>un adjusted. let cs = map (prepared_call env st) intents in
    round_trace (\<lambda>x. ran_as env (ts_web st) cs x \<and> kept_out un cs x)
      (\<lambda>x. ran_as env (ts_web st) cs x \<and> kept_out un cs x \<and> batch_reads env cs x) 0 (length intents) (ts_trace st') \<and>
    (\<exists>ms. ts_messages st' = ts_messages st @ ms \<and> ts_ordered st' = ts_ordered st @ map ordered ms \<and>
      concat (map legacy_answers ms) = map intent_id intents \<and> list_all (\<lambda>m. msg_calls m = []) ms) \<and>
    (\<exists>l. ts_log st' = ts_log st @ map (\<lambda>c. LoggedIntent c (adjusted (intent_id c))) cs @ l \<and>
      concat (map result_of l) = map intent_tool intents \<and> list_all (\<lambda>r. \<not> is_intent_record r) l) \<and>
    (ts_web st \<or> (\<exists>i \<in> set intents. answers_from_outside env (intent_tool i)) \<longrightarrow> ts_web st') \<and>
    (\<forall>c \<in> set cs. intent_tool c \<notin> set (re_request_tools env) \<or> 4 \<le> failures (ts_refusals st) (signature (re_show env) c)
      \<longrightarrow> un (intent_id c) \<noteq> None)"
proof -
  let ?cs = "map (prepared_call env st) intents" and ?adj = "fold (note_call env) intents (\<lambda>_. None)"
  let ?st0 = "st\<lparr>ts_room := snd (result_limits (re_window env) (re_limits env)), ts_modified := False, ts_trace := []\<rparr>"
  obtain st1 un0 where l: "log_intents env ?adj ?cs ?st0 = Inr st1" and u: "mark_unavailable env ?cs = Inr un0"
    and r: "run_round env ?adj (calls_of ?cs) (ts_web st1) (enumerate 0 ?cs) []
      (st1\<lparr>ts_unavailable := mark_refused env (ts_refusals st1) ?cs un0\<rparr>) = Inr st'"
    using assms(1) by (auto simp: dispatch_turn_def Let_def)
  define un where "un = mark_refused env (ts_refusals st1) ?cs un0"
  note log = log_intents_ok [OF l]
  have web: "ts_web st1 = ts_web st" and ref: "ts_refusals st1 = ts_refusals st" using log by simp_all
  have enum: "enumerate 0 ?cs = map (\<lambda>n. (n, ?cs ! n)) [0..<length ?cs]"
    by (rule nth_equalityI) (simp_all add: nth_enumerate_eq)
  have ids: "map intent_id ?cs = map intent_id intents" "map intent_tool ?cs = map intent_tool intents" by simp_all
  have r': "run_round env ?adj (calls_of ?cs) (ts_web st1) (map (\<lambda>n. (n, ?cs ! n)) [0..<length ?cs])
      (map (\<lambda>n. (n, ?cs ! n)) [0..<0]) (st1\<lparr>ts_unavailable := un\<rparr>) = Inr st'"
    using r unfolding enum un_def by simp
  have dist: "distinct (map intent_id ?cs)" unfolding ids(1) by (rule assms(2))
  have upt: "map ((!) ?cs) [0..<length ?cs] = ?cs" by (rule map_nth)
  from run_round_ok [OF r' _ _ refl dist, of un] upt
  have run: "(\<exists>t. ts_trace st' = ts_trace st1 @ t \<and>
      round_trace (\<lambda>x. ran_as env (ts_web st1) ?cs x \<and> kept_out un ?cs x)
        (\<lambda>x. ran_as env (ts_web st1) ?cs x \<and> kept_out un ?cs x \<and> batch_reads env ?cs x) 0 (length ?cs) t)"
    and adv: "advances env ?cs st1 st'" by simp_all
  have blocked: "un (intent_id c) \<noteq> None" if c: "c \<in> set ?cs"
    and why: "intent_tool c \<notin> set (re_request_tools env) \<or> 4 \<le> failures (ts_refusals st) (signature (re_show env) c)" for c
    using why
  proof
    assume "intent_tool c \<notin> set (re_request_tools env)"
    from mark_unavailable_blocks [OF u c this] show ?thesis unfolding un_def by (rule mark_refused_keeps)
  next
    assume "4 \<le> failures (ts_refusals st) (signature (re_show env) c)"
    then have "refusal_blocked (re_show env) c (ts_refusals st1) \<noteq> None" using ref by (simp only: refusal_blocked_iff)
    from mark_refused_blocks [OF c this] show ?thesis unfolding un_def .
  qed
  have 1: "round_trace (\<lambda>x. ran_as env (ts_web st) ?cs x \<and> kept_out un ?cs x)
        (\<lambda>x. ran_as env (ts_web st) ?cs x \<and> kept_out un ?cs x \<and> batch_reads env ?cs x) 0 (length intents) (ts_trace st')"
    using run log web by simp
  have 2: "\<exists>ms. ts_messages st' = ts_messages st @ ms \<and> ts_ordered st' = ts_ordered st @ map ordered ms \<and>
      concat (map legacy_answers ms) = map intent_id intents \<and> list_all (\<lambda>m. msg_calls m = []) ms"
    using adv log ids(1) unfolding advances_def by auto
  have 3: "\<exists>l. ts_log st' = ts_log st @ map (\<lambda>c. LoggedIntent c (?adj (intent_id c))) ?cs @ l \<and>
      concat (map result_of l) = map intent_tool intents \<and> list_all (\<lambda>r. \<not> is_intent_record r) l"
    using adv log ids(2) unfolding advances_def by auto
  have 4: "ts_web st \<or> (\<exists>i \<in> set intents. answers_from_outside env (intent_tool i)) \<longrightarrow> ts_web st'"
    using adv web unfolding advances_def by auto
  show ?thesis unfolding Let_def using 1 2 3 4 blocked by blast
qed

text \<open>The schedule of a round, and what it saves, each on its own.\<close>

lemma dispatch_turn_trace:
  assumes "dispatch_turn env intents st = Inr st'" "distinct (map intent_id intents)"
  obtains un where "round_trace (\<lambda>x. ran_as env (ts_web st) (map (prepared_call env st) intents) x
        \<and> kept_out un (map (prepared_call env st) intents) x)
      (\<lambda>x. ran_as env (ts_web st) (map (prepared_call env st) intents) x
        \<and> kept_out un (map (prepared_call env st) intents) x
        \<and> batch_reads env (map (prepared_call env st) intents) x) 0 (length intents) (ts_trace st')"
    "\<forall>c \<in> set (map (prepared_call env st) intents). intent_tool c \<notin> set (re_request_tools env) \<or>
      4 \<le> failures (ts_refusals st) (signature (re_show env) c) \<longrightarrow> un (intent_id c) \<noteq> None"
  using dispatch_turn_ok [OF assms] unfolding Let_def by (elim exE conjE) (rule that)

lemma dispatch_turn_saved:
  assumes "dispatch_turn env intents st = Inr st'" "distinct (map intent_id intents)"
  shows "\<exists>ms. ts_messages st' = ts_messages st @ ms \<and> ts_ordered st' = ts_ordered st @ map ordered ms \<and>
      concat (map legacy_answers ms) = map intent_id intents \<and> list_all (\<lambda>m. msg_calls m = []) ms"
    and "ts_web st \<or> (\<exists>i \<in> set intents. answers_from_outside env (intent_tool i)) \<Longrightarrow> ts_web st'"
    and "\<exists>adjusted l. ts_log st' = ts_log st @ map (\<lambda>c. LoggedIntent c (adjusted (intent_id c))) (map (prepared_call env st) intents) @ l \<and>
      concat (map result_of l) = map intent_tool intents \<and> list_all (\<lambda>r. \<not> is_intent_record r) l"
proof -
  obtain un adjusted where "let cs = map (prepared_call env st) intents in
    round_trace (\<lambda>x. ran_as env (ts_web st) cs x \<and> kept_out un cs x)
      (\<lambda>x. ran_as env (ts_web st) cs x \<and> kept_out un cs x \<and> batch_reads env cs x) 0 (length intents) (ts_trace st') \<and>
    (\<exists>ms. ts_messages st' = ts_messages st @ ms \<and> ts_ordered st' = ts_ordered st @ map ordered ms \<and>
      concat (map legacy_answers ms) = map intent_id intents \<and> list_all (\<lambda>m. msg_calls m = []) ms) \<and>
    (\<exists>l. ts_log st' = ts_log st @ map (\<lambda>c. LoggedIntent c (adjusted (intent_id c))) cs @ l \<and>
      concat (map result_of l) = map intent_tool intents \<and> list_all (\<lambda>r. \<not> is_intent_record r) l) \<and>
    (ts_web st \<or> (\<exists>i \<in> set intents. answers_from_outside env (intent_tool i)) \<longrightarrow> ts_web st') \<and>
    (\<forall>c \<in> set cs. intent_tool c \<notin> set (re_request_tools env) \<or> 4 \<le> failures (ts_refusals st) (signature (re_show env) c)
      \<longrightarrow> un (intent_id c) \<noteq> None)" using dispatch_turn_ok [OF assms] by (elim exE)
  note all = this [unfolded Let_def]
  from all show "\<exists>ms. ts_messages st' = ts_messages st @ ms \<and> ts_ordered st' = ts_ordered st @ map ordered ms \<and>
      concat (map legacy_answers ms) = map intent_id intents \<and> list_all (\<lambda>m. msg_calls m = []) ms" by (elim conjE)
  from all have "ts_web st \<or> (\<exists>i \<in> set intents. answers_from_outside env (intent_tool i)) \<longrightarrow> ts_web st'" by (elim conjE)
  then show "ts_web st \<or> (\<exists>i \<in> set intents. answers_from_outside env (intent_tool i)) \<Longrightarrow> ts_web st'" by (rule mp)
  from all show "\<exists>adjusted l. ts_log st' = ts_log st @ map (\<lambda>c. LoggedIntent c (adjusted (intent_id c))) (map (prepared_call env st) intents) @ l \<and>
      concat (map result_of l) = map intent_tool intents \<and> list_all (\<lambda>r. \<not> is_intent_record r) l"
    by (elim conjE) (rule exI)
qed

text \<open>The end of a cut-off run is missing, not its beginning.\<close>

lemma admitted_run_prefix:
  "admitted_run env taint n i = Some (acts, obs) \<Longrightarrow>
     \<exists>k. acts = take k (fst (dispatch_one (round_world env n i) (re_autonomy env) i taint))"
proof -
  assume a: "admitted_run env taint n i = Some (acts, obs)"
  obtain full raw where d: "dispatch_one (round_world env n i) (re_autonomy env) i taint = (full, raw)"
    by (cases "dispatch_one (round_world env n i) (re_autonomy env) i taint")
  have "acts = [] \<or> acts = full \<or> (\<exists>k. acts = take k full)"
    using a unfolding admitted_run_def d by (auto simp: Let_def split: timing.splits if_splits)
  then show ?thesis unfolding d by (metis fst_conv order_refl take0 take_all)
qed

lemma cut_run_granted:
  assumes "follows_web (w_radius w) taint (w_containment w)"
    and "acts = take k (fst (dispatch_one w autonomy i taint))" "Ran a s \<in> set acts"
  shows "\<exists>pre post. acts = pre @ post \<and> runs pre = [] \<and> granted w True pre"
proof -
  have "Ran a s \<in> set (fst (dispatch_one w autonomy i taint))" using assms(2,3) by (auto dest: in_set_takeD)
  from tainted_run_granted [OF assms(1) this] obtain pre post
    where p: "fst (dispatch_one w autonomy i taint) = pre @ post" "runs pre = []" "granted w True pre" by blast
  have "length pre < k"
  proof (rule ccontr)
    assume "\<not> length pre < k"
    then have "acts = take k pre" using assms(2) p(1) by simp
    then have "Ran a s \<in> set pre" using assms(3) by (auto dest: in_set_takeD)
    then have "Ran a s \<in> set (runs pre)" by (simp add: runs_def is_run_def)
    then show False using p(2) by simp
  qed
  then show ?thesis using assms(2) p by auto
qed

section \<open>Properties\<close>


text \<open>C7. Every call is answered exactly once, in call order: a finished round logs all its calls before any
  result, then one result for each call in their order, and adds to both histories one answer for each, so
  a request never holds a call without its result.\<close>

theorem round_answers_every_call:
  assumes "completed_control_view reply = Inr (said, thought, intents)" "dispatch_turn env intents st = Inr st'"
  shows "(\<exists>ms. ts_messages st' = ts_messages st @ ms \<and> ts_ordered st' = ts_ordered st @ map ordered ms \<and>
       concat (map legacy_answers ms) = map intent_id intents) \<and>
     (\<exists>cs l. ts_log st' = ts_log st @ cs @ l \<and> list_all is_intent_record cs \<and> length cs = length intents \<and>
       list_all (\<lambda>r. \<not> is_intent_record r) l \<and> concat (map result_of l) = map intent_tool intents)"
proof -
  note saved = dispatch_turn_saved [OF assms(2) completed_calls_distinct [OF assms(1)]]
  obtain adjusted l where l: "ts_log st' = ts_log st @
        map (\<lambda>c. LoggedIntent c (adjusted (intent_id c))) (map (prepared_call env st) intents) @ l"
      "concat (map result_of l) = map intent_tool intents" "list_all (\<lambda>r. \<not> is_intent_record r) l"
    using saved(3) by (elim exE conjE) (rule that)
  have m: "\<exists>ms. ts_messages st' = ts_messages st @ ms \<and> ts_ordered st' = ts_ordered st @ map ordered ms \<and>
      concat (map legacy_answers ms) = map intent_id intents"
    using saved(1) by (elim exE conjE) (intro exI conjI)
  have "list_all is_intent_record (map (\<lambda>c. LoggedIntent c (adjusted (intent_id c))) (map (prepared_call env st) intents))"
    by (simp add: list_all_iff is_intent_record_def)
  with l show ?thesis
    by (intro conjI [OF m] exI [of _ "map (\<lambda>c. LoggedIntent c (adjusted (intent_id c))) (map (prepared_call env st) intents)"]
        exI [of _ l]) simp_all
qed

text \<open>A settled call never runs: a call of a tool the request did not offer, or that already failed four
  times unchanged, takes no action at all, whatever the other calls of its round do.\<close>

theorem settled_call_never_runs:
  assumes "completed_control_view reply = Inr (said, thought, intents)" "dispatch_turn env intents st = Inr st'"
    and "(n, acts) \<in> set (concat (map started (ts_trace st')))"
    and "intent_tool (intents ! n) \<notin> set (re_request_tools env) \<or>
      4 \<le> failures (ts_refusals st) (signature (re_show env) (prepared_call env st (intents ! n)))"
  shows "acts = []"
proof -
  let ?cs = "map (prepared_call env st) intents"
  obtain un where r: "round_trace (\<lambda>x. ran_as env (ts_web st) ?cs x \<and> kept_out un ?cs x)
      (\<lambda>x. ran_as env (ts_web st) ?cs x \<and> kept_out un ?cs x \<and> batch_reads env ?cs x) 0 (length intents) (ts_trace st')"
    and b: "\<forall>c \<in> set ?cs. intent_tool c \<notin> set (re_request_tools env) \<or>
      4 \<le> failures (ts_refusals st) (signature (re_show env) c) \<longrightarrow> un (intent_id c) \<noteq> None"
    by (rule dispatch_turn_trace [OF assms(2) completed_calls_distinct [OF assms(1)]])
  from round_trace_started [OF r assms(3)] have n: "n < length intents" and k: "kept_out un ?cs (n, acts)" by auto
  have "prepared_call env st (intents ! n) \<in> set ?cs" using n by simp
  with b assms(4) have "un (intent_id (prepared_call env st (intents ! n))) \<noteq> None" by (metis prepared_call_id(2))
  then show ?thesis using k n by (simp add: kept_out_def)
qed


text \<open>A memory write cannot forge its source: whatever trust, confidence or provenance the model wrote into
  a memory call, what runs and is logged carries the source of the chat's window, which after web text
  was read is the web, and never claims to be the person's own words then.\<close>

theorem memory_source_is_not_forged:
  assumes "is_memory_tool (intent_tool i)"
  shows "(let args = intent_args (prepared_call env st i); source = (if ts_web st then Web else ts_taint st) in
     json_get args ''_trust'' = Some (JStr (trust_as_str source)) \<and>
     json_get args ''_user_stated'' = Some (JBool (source = User)) \<and>
     json_get args ''_provenance'' = Some (JArr (map JStr (ts_window st))) \<and>
     json_get args ''_session'' = Some (JStr (re_session env)) \<and>
     (\<forall>k \<in> {''trust'', ''confidence'', ''provenance'', ''sessions''}. json_get args k = None))"
proof -
  have "is_memory_tool (intent_tool (repaired_call env i))" using assms by (simp add: repaired_call_def split: option.split)
  then have "intent_args (prepared_call env st i) = enrich_memory_intent (if ts_web st then Web else ts_taint st)
      (ts_window st) (re_session env) (intent_args (repaired_call env i))"
    by (simp add: prepared_call_def Let_def)
  then show ?thesis by (simp add: enriched_field forged_fields_def)
qed

section \<open>A round at a concrete input\<close>

text \<open>A fetch that a person approves, in a chat that has read the web before.\<close>

definition fetch_env :: round_env where
  "fetch_env = \<lparr>re_autonomy = Careful, re_session = ''s'', re_schemas = (\<lambda>_. None), re_request_tools = [''fetch''],
     re_mutation_key = (\<lambda>_. Some ''state:*''), re_changed = (\<lambda>_ _. True), re_failed = (\<lambda>_ _. False),
     re_category = (\<lambda>_. Some WebCat), re_radius = (\<lambda>_. Some External), re_call_radius = (\<lambda>_. Some External), re_world = (\<lambda>_. open_world),
     re_timing = (\<lambda>_. Settles), re_review = (\<lambda>_. None), re_notices = (\<lambda>_. []), re_discover = (\<lambda>_ _. None),
     re_append = (\<lambda>_ _. Inr ''e''), re_fit = (\<lambda>_. \<lparr>fe_show = (\<lambda>_. ''{}''), fe_secrets = (\<lambda>_. None),
       fe_egress = (\<lambda>_. None), fe_store = (\<lambda>_. None), fe_path = (\<lambda>_. None)\<rparr>),
     re_window = None, re_limits = (None, None), re_parse = (\<lambda>_. None), re_real = (\<lambda>_. None),
     re_show = (\<lambda>_. ''{}''), re_sha = (\<lambda>_. ''d'')\<rparr>"

definition fetch_state :: turn_state where
  "fetch_state = \<lparr>ts_window = [''m''], ts_taint = User, ts_web = True, ts_ordered = [], ts_messages = [],
     ts_refusals = refusals_default, ts_outside = (\<lambda>_. None), ts_room = 0, ts_modified = False,
     ts_unavailable = (\<lambda>_. None), ts_log = [], ts_trace = []\<rparr>"

definition fetch_reply :: model_message where
  "fetch_reply = \<lparr>mm_role = AssistantRole, mm_parts = [ToolCallPart ''1'' ''fetch'' (JObj []) []], mm_trust = None\<rparr>"

lemma fetch_reply_view: "completed_control_view fetch_reply = Inr ([], [], [fetch_intent])"
  by (simp add: completed_control_view_def fetch_reply_def fetch_intent_def)

lemma fetch_world: "round_world fetch_env n i = open_world"
  by (simp add: round_world_def fetch_env_def open_world_def)

lemma open_world_result: "snd (dispatch_one open_world Careful fetch_intent True) = obs_ok ''1'' JNull"
  by (simp add: dispatch_one_def check_outbound_intent_def open_world_def raw_decision_def allow_all_def
      escalate_for_trust_flow_def follows_web_def consequential_def pre_tool_def invoke_hook_def hook_batch_default_def
      append_log_def dispatch_decided_def no_access_def access_is_empty_def dispatch_gate_def then_post_def
      execute_with_net_retry_def execute_with_effect_outbox_def apply_post_tool_hook_def post_hooks.simps Let_def
      fetch_intent_def obs_ok_def approval_key_def salient_arg_def get_str_def json_get_def
      card_detail_def hook_line_def observe_decision_def attach_hook_contexts_def)

lemma fetch_runs: "\<exists>acts. Ran 0 PlainRun \<in> set acts \<and> admitted_run fetch_env True 0 fetch_intent = Some (acts, obs_ok ''1'' JNull)"
proof -
  have "Ran 0 PlainRun \<in> set (fst (dispatch_one open_world Careful fetch_intent True))" using open_world_runs by auto
  moreover have "dispatch_one open_world Careful fetch_intent True =
      (fst (dispatch_one open_world Careful fetch_intent True), obs_ok ''1'' JNull)"
    using open_world_result by (metis prod.collapse)
  then have "admitted_run fetch_env True 0 fetch_intent =
      Some (fst (dispatch_one open_world Careful fetch_intent True), obs_ok ''1'' JNull)"
    unfolding admitted_run_def fetch_world by (simp add: fetch_env_def with_reviews_def)
  ultimately show ?thesis by blast
qed

lemma fetch_round: "\<exists>acts st'. Ran 0 PlainRun \<in> set acts \<and> dispatch_turn fetch_env [fetch_intent] fetch_state = Inr st' \<and>
    ts_trace st' = [Change 0 acts, Saved 0] \<and> ts_web st'"
proof -
  obtain acts where ran: "Ran 0 PlainRun \<in> set acts" "admitted_run fetch_env True 0 fetch_intent = Some (acts, obs_ok ''1'' JNull)"
    using fetch_runs by blast
  have p: "prepared_call fetch_env fetch_state fetch_intent = fetch_intent"
    by (simp add: prepared_call_def repaired_call_def fetch_env_def fetch_intent_def is_memory_tool_def starts_with_def Let_def)
  have b: "refusal_blocked (re_show fetch_env) fetch_intent refusals_default = None"
    by (simp add: refusal_blocked_def refusals_default_def BLOCK_AT_def)
  have e: "execute_admitted fetch_env True 0 fetch_intent = Some (acts, 0, fetch_intent, obs_ok ''1'' JNull, None)"
    using ran(2) by (simp add: execute_admitted_def successful_observed_path_def obs_ok_def get_str_def json_get_def)
  have s: "ts_web fetch_state" "ts_refusals fetch_state = refusals_default" by (simp_all add: fetch_state_def)
  have tool: "intent_tool fetch_intent = ''fetch''" "intent_id fetch_intent = ''1''" by (simp_all add: fetch_intent_def)
  have k: "re_mutation_key fetch_env i = Some ''state:*''" "re_append fetch_env l r = Inr ''e''"
    "re_schemas fetch_env t = None" "re_request_tools fetch_env = [''fetch'']" "re_failed fetch_env t obs = False"
    "re_changed fetch_env t obs = True" "re_category fetch_env t = Some WebCat" for i l r t obs
    by (simp_all add: fetch_env_def)
  have "\<exists>st'. dispatch_turn fetch_env [fetch_intent] fetch_state = Inr st' \<and> ts_trace st' = [Change 0 acts, Saved 0] \<and> ts_web st'"
    using b
    by (simp add: dispatch_turn_def p mark_unavailable_def mark_refused_def run_change_def e tool k note_call_def
        log_it_def then_ok_def or_panic_def s flush_reads_def settle_one_def calls_of_def
        refusal_note_def count_failure_def refused_def refusal_reason_def obs_ok_def json_index_def json_get_def
        persist_admitted_def persist_context_def persist_memory_def note_adjusted_def is_memory_tool_def starts_with_def
        result_trust_def get_str_def Let_def split: prod.split)
  with ran(1) show ?thesis by blast
qed


theorem round_answers_every_call_witness:
  "\<exists>st' ms. dispatch_turn fetch_env [fetch_intent] fetch_state = Inr st' \<and> ts_messages st' = ms \<and>
     concat (map legacy_answers ms) = [''1'']"
proof -
  obtain st' where d: "dispatch_turn fetch_env [fetch_intent] fetch_state = Inr st'" using fetch_round by blast
  from round_answers_every_call [OF fetch_reply_view d] d show ?thesis
    by (auto simp: fetch_state_def fetch_intent_def)
qed

text \<open>The same call in a state that has counted four failures of it.\<close>

definition tired_state :: turn_state where
  "tired_state = fetch_state\<lparr>ts_refusals := \<lparr>reasons = (\<lambda>_. 0), failures = (\<lambda>_. 4)\<rparr>\<rparr>"

lemma tired_round: "\<exists>st'. dispatch_turn fetch_env [fetch_intent] tired_state = Inr st'"
proof -
  have p: "prepared_call fetch_env tired_state fetch_intent = fetch_intent"
    by (simp add: prepared_call_def repaired_call_def fetch_env_def fetch_intent_def is_memory_tool_def starts_with_def Let_def)
  define obs where "obs = obs_denial ''1'' NOT_RUN\<lparr>obs_payload := json_set ''error_code'' (JStr NOT_RUN_CODE) (obs_payload (obs_denial ''1'' NOT_RUN))\<rparr>"
  have tool: "intent_tool fetch_intent = ''fetch''" "intent_id fetch_intent = ''1''" by (simp_all add: fetch_intent_def)
  have b: "refusal_blocked (re_show fetch_env) fetch_intent (ts_refusals tired_state) = Some obs"
    by (simp add: refusal_blocked_def tired_state_def BLOCK_AT_def tool obs_def Let_def)
  have k: "re_mutation_key fetch_env i = Some ''state:*''" "re_append fetch_env l r = Inr ''e''"
    "re_schemas fetch_env t = None" "re_request_tools fetch_env = [''fetch'']" for i l r t
    by (simp_all add: fetch_env_def)
  have st: "obs_status obs = StatusDenied" by (simp add: obs_def obs_denial_def)
  show ?thesis
    by (simp add: dispatch_turn_def p mark_unavailable_def mark_refused_def b tool k note_call_def
        log_it_def then_ok_def or_panic_def flush_reads_def settle_one_def calls_of_def
        refusal_note_blocked [OF b] persist_admitted_def persist_context_def persist_memory_def
        note_adjusted_def st Let_def split: prod.split)
qed

theorem settled_call_never_runs_witness:
  "\<exists>st'. dispatch_turn fetch_env [fetch_intent] tired_state = Inr st' \<and>
     (0, [Ran 0 PlainRun]) \<notin> set (concat (map started (ts_trace st')))"
proof -
  obtain st' where d: "dispatch_turn fetch_env [fetch_intent] tired_state = Inr st'" using tired_round by blast
  have "4 \<le> failures (ts_refusals tired_state) c" for c by (simp add: tired_state_def)
  then show ?thesis using d settled_call_never_runs [OF fetch_reply_view d, of 0 "[Ran 0 PlainRun]"] by auto
qed


theorem memory_source_is_not_forged_witness:
  "json_get (intent_args (prepared_call fetch_env fetch_state
      \<lparr>intent_id = ''2'', intent_tool = ''memory'', intent_args = JObj [(''_trust'', JStr ''user'')]\<rparr>)) ''_trust'' = Some (JStr ''web'')"
  using memory_source_is_not_forged [of "\<lparr>intent_id = ''2'', intent_tool = ''memory'', intent_args = JObj [(''_trust'', JStr ''user'')]\<rparr>"
      fetch_env fetch_state]
  by (simp add: is_memory_tool_def fetch_state_def Let_def)

end
