(* ===== verification/Rejections.thy ===== *)
theory Rejections
  imports Json
begin

text \<open>
  What a server's refusal of a request is about, read from its own words
  (\<open>crates/kernel/src/rejections.rs\<close>), and the class of a provider's failure
  (\<open>crates/kernel/src/provider.rs\<close>). A message is its UTF-8 bytes; whether a character beyond ASCII
  is a letter or digit is the parameter \<open>alnum\<close>, and parsing JSON text is the parameter \<open>parse\<close>.
\<close>

section \<open>Search in text\<close>

text \<open>\<open>s.find(needle)\<close>, \<open>s.split_once(needle)\<close> and \<open>s.match_indices(needle)\<close> for a non-empty needle.\<close>

fun find_str :: "'a list \<Rightarrow> 'a list \<Rightarrow> nat option" where
  "find_str p [] = (if p = [] then Some 0 else None)"
| "find_str p (c # cs) = (if starts_with (c # cs) p then Some 0 else map_option Suc (find_str p cs))"

definition split_once_str :: "'a list \<Rightarrow> 'a list \<Rightarrow> ('a list \<times> 'a list) option" where
  "split_once_str p s = map_option (\<lambda>i. (take i s, drop (i + length p) s)) (find_str p s)"

function match_indices :: "'a list \<Rightarrow> 'a list \<Rightarrow> nat \<Rightarrow> nat list" where
  "match_indices p s at =
     (case find_str p (drop at s) of
        None \<Rightarrow> []
      | Some i \<Rightarrow> if length p = 0 \<or> length s < at then [] else (at + i) # match_indices p s (at + i + length p))"
  by pat_completeness auto

termination
  by (relation "measure (\<lambda>(p, s, at). Suc (length s) - at)") (auto simp: neq_Nil_conv)

declare match_indices.simps [simp del]

definition says_any :: "string list \<Rightarrow> string \<Rightarrow> bool" where
  "says_any words text = list_ex (contains_str text) words"

text \<open>The last character before a place and the first one after it, as their bytes.\<close>

definition next_back :: "string \<Rightarrow> string option" where
  "next_back s =
     (if s = [] then None
      else (let n = length (takeWhile is_continuation (rev s)) in Some (drop (length s - Suc n) s)))"

definition next_char :: "string \<Rightarrow> string option" where
  "next_char s = (case s of [] \<Rightarrow> None | c # cs \<Rightarrow> Some (c # takeWhile is_continuation cs))"

section \<open>Refusals by what they say\<close>

definition REASONING_FIELDS :: "string list" where
  "REASONING_FIELDS = [''reasoning_effort'', ''thinking_config'', ''thinking_budget'', ''enable_thinking'', ''reasoning'',
     ''thinking'']"

definition REQUIRED :: "string list" where
  "REQUIRED = [''mandatory'', ''cannot be disabled'', ''can't be disabled'', ''must be enabled'', ''is required'',
     ''always enabled'', ''cannot be turned off'']"

definition UNSUPPORTED :: "string list" where
  "UNSUPPORTED = [''unsupported parameter'', ''unsupported_parameter'', ''not supported'', ''does not support'',
     ''doesn't support'', ''is deprecated for this model'', ''unknown parameter'', ''unrecognized request argument'',
     ''unrecognized parameter'', ''invalid parameter'', ''extra inputs are not permitted'',
     ''invalid option: expected one of'']"

definition POLICY :: "string list" where
  "POLICY = [''flagged for possible cybersecurity risk'', ''trusted access for cyber'', ''violates our usage policies'',
     ''violates openai's usage policies'', ''your request was flagged by'', ''prompt was flagged by our safety'',
     ''responses cannot be generated due to safety'', ''content_filter'', ''responsibleaipolicyviolation'',
     ''new_sensitive'', ''content exists risk'']"

definition name_part :: "(string \<Rightarrow> bool) \<Rightarrow> string \<Rightarrow> bool" where
  "name_part alnum c =
     (case c of [b] \<Rightarrow> is_ascii_alphanumeric b \<or> b = CHR ''_'' \<or> b = CHR ''-'' \<or> b = CHR ''/'' | _ \<Rightarrow> alnum c)"

definition names_alone :: "(string \<Rightarrow> bool) \<Rightarrow> string \<Rightarrow> string \<Rightarrow> nat \<Rightarrow> (nat \<times> nat) option" where
  "names_alone alnum lower field at =
     (let stop = at + length field;
          before = next_back (take at lower);
          after = drop stop lower;
          alone = (\<not> (case before of Some c \<Rightarrow> name_part alnum c | None \<Rightarrow> False)
                   \<and> \<not> (case next_char after of Some c \<Rightarrow> name_part alnum c | None \<Rightarrow> False))
      in if alone \<and> \<not> starts_with (trim_start after) ''model'' then Some (at, stop) else None)"

definition names_reasoning_setting :: "(string \<Rightarrow> bool) \<Rightarrow> string \<Rightarrow> (nat \<times> nat) option" where
  "names_reasoning_setting alnum lower =
     find_map (\<lambda>field. find_map (names_alone alnum lower field) (match_indices field lower 0)) REASONING_FIELDS"

text \<open>The slice around the name, each end moved to a character boundary.\<close>

definition near_name :: "string \<Rightarrow> nat \<Rightarrow> nat \<Rightarrow> string" where
  "near_name lower start stop =
     (let from_at = (case find (is_char_boundary lower) [start - 48..<Suc start] of Some i \<Rightarrow> i | None \<Rightarrow> 0);
          to_at = (case find (is_char_boundary lower) (rev [stop..<Suc (min (stop + 96) (length lower))]) of
                     Some i \<Rightarrow> i | None \<Rightarrow> length lower)
      in drop from_at (take to_at lower))"

definition reasoning_setting :: "(string \<Rightarrow> bool) \<Rightarrow> string \<Rightarrow> bool" where
  "reasoning_setting alnum lower =
     (case names_reasoning_setting alnum lower of
        None \<Rightarrow> False
      | Some (start, stop) \<Rightarrow>
          let near = near_name lower start stop
          in says_any REQUIRED near \<or> contains_str near ''unsupported'' \<or> says_any UNSUPPORTED lower)"

definition stale_reasoning :: "string \<Rightarrow> bool" where
  "stale_reasoning lower \<longleftrightarrow>
     contains_str lower ''invalid_encrypted_content''
     \<or> contains_str lower ''could not decrypt the provided encrypted_content''
     \<or> contains_str lower ''encrypted content could not be decrypted or parsed''
     \<or> (contains_str lower ''encrypted content for item'' \<and> contains_str lower ''could not be verified'')
     \<or> (contains_str lower ''encrypted_content'' \<and> contains_str lower ''was not issued to this caller'')"

definition tool_grammar :: "string \<Rightarrow> bool" where
  "tool_grammar lower \<longleftrightarrow>
     \<not> contains_str lower ''no user query found'' \<and>
     (contains_str lower ''error parsing grammar''
      \<or> contains_str lower ''json-schema-to-grammar''
      \<or> (contains_str lower ''unable to generate parser'' \<and> contains_str lower ''template'')
      \<or> (contains_str lower ''invalid json schema'' \<and> contains_str lower ''regex lookaround''
         \<and> contains_str lower ''not supported''))"

definition not_the_keys_limit :: "string \<Rightarrow> bool" where
  "not_the_keys_limit lower \<longleftrightarrow>
     contains_str lower ''provider returned error'' \<or> contains_str lower ''overloaded''
     \<or> contains_str lower ''server overload'' \<or> contains_str lower ''server_overload''"

definition plan_limit :: "string \<Rightarrow> bool" where
  "plan_limit lower \<longleftrightarrow>
     contains_str lower ''usage_limit_reached'' \<or> contains_str lower ''usage limit reached''
     \<or> contains_str lower ''usage limit has been reached'' \<or> contains_str lower ''gousagelimit''"

definition blocked_on_the_way :: "string \<Rightarrow> bool" where
  "blocked_on_the_way lower =
     says_any [''your request was blocked'', ''request blocked'', ''sorry, you have been blocked'',
       ''enable javascript and cookies to continue'', ''cdn-cgi/challenge-platform'', ''cf-browser-verification'',
       ''challenge-error-text'', ''__cf_chl'', ''cf-error-details'', ''attention required! | cloudflare''] lower"

definition data_rules :: "string \<Rightarrow> bool" where
  "data_rules lower \<longleftrightarrow>
     contains_str lower ''no endpoints available matching your guardrail''
     \<or> contains_str lower ''no endpoints available matching your data policy''
     \<or> contains_str lower ''no endpoints found matching your data policy''"

definition content_policy :: "string \<Rightarrow> bool" where
  "content_policy lower = says_any POLICY lower"

section \<open>Failures and their classes\<close>

record invalid_tool_call =
  bad_tool :: string
  bad_call_id :: string
  bad_reason :: string

datatype provider_error =
    NotSent string
  | Transport string
  | ResponseTimeout nat
  | ProgressTimeout nat
  | StreamStalled nat
  | Decode string
  | Garbled string
  | Refused string
  | Certificate string
  | InvalidToolCallError invalid_tool_call
  | Truncated
  | Status nat string
  | Throttled nat nat string
  | Response string
  | StreamError string
  | ChatGptPlan string string

datatype provider_failure =
    InputContextOverflow "nat option"
  | OutputLimit "nat option"
  | PayloadTooLarge
  | UnsupportedImage
  | ImageUnfit
  | InvalidToolCall
  | Transient
  | Fatal

text \<open>Only typed connection failures and explicit request rejections are free.\<close>

fun billing_rejected :: "provider_error \<Rightarrow> bool" where
  "billing_rejected (NotSent _) = True"
| "billing_rejected (Certificate _) = True"
| "billing_rejected (Status status _) = (status \<in> {400, 401, 403, 404, 405, 413, 415, 422, 429})"
| "billing_rejected (Throttled status _ _) = (status \<in> {400, 401, 403, 404, 405, 413, 415, 422, 429})"
| "billing_rejected _ = False"

fun retry_after :: "provider_error \<Rightarrow> nat option" where
  "retry_after (Throttled _ wait _) = Some wait"
| "retry_after _ = None"

definition number_after_any :: "string \<Rightarrow> string list \<Rightarrow> nat option" where
  "number_after_any text markers =
     find_map (\<lambda>marker. Option.bind (split_once_str marker text) (\<lambda>(_, tail).
       let tail' = dropWhile (\<lambda>c. \<not> is_ascii_digit c) (trim_start tail);
           digits = filter is_ascii_digit
             (takeWhile (\<lambda>c. is_ascii_digit c \<or> c = CHR '','' \<or> c = CHR ''_'') tail')
       in if digits \<noteq> [] then parse_unsigned 64 digits else None)) markers"

definition structured_google_rpc_transient_status :: "(string \<Rightarrow> json option) \<Rightarrow> string \<Rightarrow> bool" where
  "structured_google_rpc_transient_status parse message =
     (case parse message of
        None \<Rightarrow> False
      | Some value \<Rightarrow>
          (case Option.bind (case json_get value ''status'' of Some v \<Rightarrow> Some v
                             | None \<Rightarrow> json_get (json_index value ''error'') ''status'') as_str of
             Some s \<Rightarrow> s \<in> {''INTERNAL'', ''UNAVAILABLE'', ''DEADLINE_EXCEEDED'', ''ABORTED'', ''RESOURCE_EXHAUSTED''}
           | None \<Rightarrow> False))"

definition code_in :: "nat option \<Rightarrow> nat list \<Rightarrow> bool" where
  "code_in code codes = (case code of None \<Rightarrow> True | Some c \<Rightarrow> c \<in> set codes)"

definition input_shaped :: "string \<Rightarrow> bool" where
  "input_shaped lower \<longleftrightarrow>
     contains_str lower ''context_length_exceeded'' \<or> contains_str lower ''maximum context''
     \<or> (contains_str lower ''context'' \<and> (contains_str lower ''length'' \<or> contains_str lower ''window'')
        \<and> (contains_str lower ''exceed'' \<or> contains_str lower ''too long'' \<or> contains_str lower ''maximum''))
     \<or> contains_str lower ''too many tokens in the prompt'' \<or> contains_str lower ''input tokens exceed''
     \<or> contains_str lower ''max_kv_size'' \<or> contains_str lower ''context tokens''"

definition output_shaped :: "string \<Rightarrow> bool" where
  "output_shaped lower \<longleftrightarrow>
     (contains_str lower ''max_tokens'' \<or> contains_str lower ''max_completion_tokens''
      \<or> contains_str lower ''max_output_tokens'' \<or> contains_str lower ''max output''
      \<or> contains_str lower ''output token'')
     \<and> (contains_str lower ''too large'' \<or> contains_str lower ''exceed'' \<or> contains_str lower ''maximum''
        \<or> contains_str lower ''available'')"

definition unfit_shaped :: "string \<Rightarrow> bool" where
  "unfit_shaped lower = says_any
     [''image exceeds'', ''image too large'', ''image_too_large'', ''image size exceeds'', ''image dimensions exceed'',
      ''dimensions exceed max allowed size'', ''max allowed size: 8000'', ''patches after processing'', ''media exceeds'',
      ''media too large'', ''make sure your payload is below'', ''streamreadconstraints.getmaxstringlength'',
      ''invalid png image'', ''invalid jpeg image'', ''provided image cannot be decoded'',
      ''does not contain a valid jpg, png, webp, or ico image''] lower"

definition unsupported_shaped :: "string \<Rightarrow> bool" where
  "unsupported_shaped lower = says_any
     [''unsupported modality'', ''unsupported content type'', ''does not support'', ''doesn't support'',
      ''not support image'', ''image input is not supported'', ''image input not supported'',
      ''images are not supported'', ''vision is not supported'', ''at most 0 image''] lower"

definition transient_shaped :: "(string \<Rightarrow> json option) \<Rightarrow> string \<Rightarrow> bool" where
  "transient_shaped parse message \<longleftrightarrow> structured_google_rpc_transient_status parse message
     \<or> says_any [''rate_limit'', ''rate limit'', ''rate limited'', ''resource_exhausted'', ''overloaded'',
         ''temporarily unavailable'', ''service unavailable'', ''server_error'', ''internal_error'']
         (to_lowercase message)"

definition classify_rejection :: "(string \<Rightarrow> json option) \<Rightarrow> nat option \<Rightarrow> string \<Rightarrow> provider_failure" where
  "classify_rejection parse code message =
     (let lower = to_lowercase message in
      if code_in code [400, 413, 422] \<and> input_shaped lower
      then InputContextOverflow (number_after_any lower
        [''maximum context length is'', ''maximum context length:'', ''max context length:'', ''context window is'',
         ''context window:'', ''context_length:'', ''max_kv_size is'', ''max_kv_size:''])
      else if code_in code [400, 422] \<and> output_shaped lower
      then (let available = number_after_any lower [''available_tokens'', ''available tokens'', ''available output'']
            in if available = Some 0 then InputContextOverflow None else OutputLimit available)
      else if code_in code [400, 413, 415, 422] \<and> unfit_shaped lower then ImageUnfit
      else if code_in code [400, 415, 422] \<and> (contains_str lower ''image'' \<or> contains_str lower ''vision'')
              \<and> unsupported_shaped lower then UnsupportedImage
      else if code = None \<and> transient_shaped parse message then Transient
      else if code = Some 413 then PayloadTooLarge
      else Fatal)"

definition server_busy :: "nat \<Rightarrow> bool" where
  "server_busy status \<longleftrightarrow> status = 429 \<or> 500 \<le> status \<and> status < 600"

fun classify :: "(string \<Rightarrow> json option) \<Rightarrow> provider_error \<Rightarrow> provider_failure" where
  "classify parse (InvalidToolCallError _) = InvalidToolCall"
| "classify parse (NotSent _) = Transient"
| "classify parse (Transport _) = Transient"
| "classify parse (StreamError _) = Transient"
| "classify parse (Garbled _) = Transient"
| "classify parse (StreamStalled _) = Transient"
| "classify parse (Throttled status _ body) =
     (if server_busy status then Transient else classify_rejection parse (Some status) body)"
| "classify parse (Decode _) = Fatal"
| "classify parse (Refused _) = Fatal"
| "classify parse (Certificate _) = Fatal"
| "classify parse Truncated = Fatal"
| "classify parse (ResponseTimeout _) = Fatal"
| "classify parse (ProgressTimeout _) = Fatal"
| "classify parse (Response message) = classify_rejection parse None message"
| "classify parse (ChatGptPlan code _) = (if ends_with code ''_unavailable'' then Transient else Fatal)"
| "classify parse (Status status message) =
     (if server_busy status then Transient else classify_rejection parse (Some status) message)"

section \<open>Lemmas\<close>

lemma says_any_Nil [simp]: "[] \<notin> set words \<Longrightarrow> \<not> says_any words []"
  by (auto simp: says_any_def list_ex_iff)

lemma match_indices_Nil [simp]: "match_indices (c # p) [] at = []"
  by (subst match_indices.simps) simp

text \<open>An empty message is about nothing.\<close>

lemma silent_refusal [simp]:
  "\<not> reasoning_setting alnum []" "\<not> stale_reasoning []" "\<not> tool_grammar []"
  "\<not> blocked_on_the_way []" "\<not> data_rules []" "\<not> content_policy []"
  by (simp_all add: reasoning_setting_def names_reasoning_setting_def REASONING_FIELDS_def stale_reasoning_def
      tool_grammar_def blocked_on_the_way_def data_rules_def content_policy_def POLICY_def)

lemma classify_rejection_not_Transient: "classify_rejection parse (Some c) m \<noteq> Transient"
  by (simp add: classify_rejection_def Let_def)

lemma classify_rejection_not_bad_call: "classify_rejection parse c m \<noteq> InvalidToolCall"
  by (simp add: classify_rejection_def Let_def)

end
