(* ===== verification/TurnLimits.thy ===== *)
theory TurnLimits
  imports Prelude
begin

text \<open>
  What is done when a reply is cut off or empty: \<open>crates/kernel/src/cut_off.rs\<close> and
  \<open>crates/kernel/src/empty_reply.rs\<close>, and the wait for a server that is away, from
  \<open>crates/kernel/src/recovery.rs\<close>. A \<open>u64\<close> is a natural number with the saturation of the code written
  out; no sum or shift here can pass 64 bits otherwise. A duration is a number of milliseconds.
\<close>

section \<open>A reply that was cut off\<close>

definition ROUNDS :: nat where "ROUNDS = 4"
definition HEADROOM :: nat where "HEADROOM = 512"
definition ASSUMED :: nat where "ASSUMED = 4096"
definition CALL_SIZE :: nat where "CALL_SIZE = 8000"

definition CONTINUE :: string where
  "CONTINUE = ''[System: Your previous response was truncated by the output length limit. Continue exactly where you left off. Do not restart or repeat prior text. Finish the answer directly.]''"

definition CALL_STAYED_CUT :: string where
  "CALL_STAYED_CUT = ''The model's reply was cut off before it finished (it hit its output length limit), so the incomplete action was not run. Nothing was changed. Send `continue`, ask for the work in smaller steps, or raise max_output_tokens for this model.''"

definition REPEATING :: string where
  "REPEATING = ''The model fell into repeating the same text until it hit its output limit, so it was not asked to continue: that would only bring more of it. The reply was discarded. Send your message again, or switch to another model.''"

definition NOTHING_WRITTEN :: string where
  "NOTHING_WRITTEN = ''The model reached its output limit before writing anything: its reasoning used the whole allowance. Raise max_output_tokens for this model, or lower its reasoning effort.''"

definition RESUME :: string where
  "RESUME = ''[System: The previous response was cut off by a network error mid-stream. That was a transport interruption, NOT a change in your capabilities. Your tools are still fully available; call them as normal and ignore any earlier claim that you lack tool access. Continue the task from where you left off. Do not restart or repeat prior text.]''"

definition split_size :: "nat option \<Rightarrow> nat" where
  "split_size allowance = (case allowance of None \<Rightarrow> CALL_SIZE | Some a \<Rightarrow> max (min CALL_SIZE (a div 2)) 1)"

definition split_advice :: "string list \<Rightarrow> nat option \<Rightarrow> string" where
  "split_advice tools allowance =
     ''[System: Your previous tool call ('' @ join_with '', '' (take 3 tools)
     @ '') was too large and the stream timed out before it could be delivered. Do NOT retry the same tool call with the same large content. Instead, break the content into multiple smaller tool calls (for example several edits, or smaller files). Each tool call's arguments must be under ~''
     @ decimal (split_size allowance)
     @ '' tokens to avoid stream timeouts. The cut was a transport interruption, not a capability change: your tools remain fully available.]''"

text \<open>Why the model is asked to go on after a reply that stopped early.\<close>

datatype go_on = GoCut "nat option" | GoDropped "nat option" | GoStalled "string list"

record cut_off =
  cut_text :: string
  cut_tool_call :: bool
  cut_tools :: "string list"

definition u64_max :: nat where "u64_max = 2 ^ 64 - 1"

definition sat_mul :: "nat \<Rightarrow> nat \<Rightarrow> nat" where
  "sat_mul a b = min (a * b) u64_max"

definition more_room :: "nat option \<Rightarrow> nat option \<Rightarrow> nat \<Rightarrow> nat option \<Rightarrow> nat" where
  "more_room configured sent_opt round model_limit =
     (let base = (case configured of Some b \<Rightarrow> b | None \<Rightarrow> (case sent_opt of Some s \<Rightarrow> s | None \<Rightarrow> ASSUMED));
          sent = (case sent_opt of Some s \<Rightarrow> s | None \<Rightarrow> base)
      in if (case model_limit of Some limit \<Rightarrow> limit \<le> sent | None \<Rightarrow> False) then sent
         else
           let doubled = max (sat_mul base (2 ^ min round 32)) sent;
               room = min doubled (max (sat_mul sent 2) 32768)
           in (case model_limit of Some limit \<Rightarrow> min room limit | None \<Rightarrow> room))"

section \<open>An empty reply\<close>

definition TRIES :: nat where "TRIES = 3"

definition NUDGE :: string where
  "NUDGE = ''You just executed tool calls but returned an empty response. Please process the tool results above and continue with the task.''"

definition GAVE_UP :: string where
  "GAVE_UP = ''The model kept answering with nothing: no text and no action. Send your message again, or switch to another model.''"

definition tidies_up :: "string \<Rightarrow> bool" where
  "tidies_up tool \<longleftrightarrow> tool = ''memory'' \<or> starts_with tool ''memory.''
     \<or> tool \<in> {''update_plan'', ''skill.save'', ''sessions.search''}"

text \<open>The wait in milliseconds before try \<open>round\<close>.\<close>

definition empty_wait :: "nat \<Rightarrow> nat \<Rightarrow> nat" where
  "empty_wait round spread = (let base = min (5 * 2 ^ min (round - 1) 4) 60 * 1000 in base + spread mod (base div 2 + 1))"

section \<open>A server that is away\<close>

definition WAITS :: nat where "WAITS = 5"

definition wait_for_server :: "nat \<Rightarrow> nat option \<Rightarrow> nat \<Rightarrow> nat" where
  "wait_for_server round asked spread =
     (case asked of
        Some a \<Rightarrow> min a 120000
      | None \<Rightarrow> (let base = min (15 * 2 ^ min (round - 1) 4) 60 * 1000 in base + spread mod (base div 5 + 1)))"

section \<open>Properties\<close>

lemma sat_mul_ge: "0 < b \<Longrightarrow> a \<le> u64_max \<Longrightarrow> a \<le> sat_mul a b"
  by (simp add: sat_mul_def)

lemma sat_mul_mono: "b \<le> c \<Longrightarrow> sat_mul a b \<le> sat_mul a c"
  by (auto simp: sat_mul_def min_def intro: mult_le_mono2 le_trans)

text \<open>The value of \<open>more_room\<close> over what the doubling gave and the doubled request.\<close>

definition room_of :: "nat \<Rightarrow> nat \<Rightarrow> nat \<Rightarrow> nat option \<Rightarrow> nat" where
  "room_of doubled twice sent limit =
     (let room = min (max doubled sent) (max twice 32768) in
      case limit of None \<Rightarrow> room | Some l \<Rightarrow> if l \<le> sent then sent else min room l)"

lemma more_room_of: "more_room configured (Some sent) round limit =
    room_of (sat_mul (case configured of Some b \<Rightarrow> b | None \<Rightarrow> sent) (2 ^ min round 32)) (sat_mul sent 2) sent limit"
  by (simp add: more_room_def room_of_def Let_def split: option.splits)

lemma room_of_bounds:
  assumes "sent \<le> twice" "twice \<le> 2 * sent" "twice \<le> u" "32768 \<le> u"
  shows "sent \<le> room_of doubled twice sent limit" "room_of doubled twice sent limit \<le> max 32768 (2 * sent)"
    "room_of doubled twice sent limit \<le> u" "limit = Some l \<Longrightarrow> room_of doubled twice sent limit \<le> max l sent"
  using assms by (auto simp: room_of_def Let_def split: option.splits)

lemma room_of_mono: "doubled \<le> doubled' \<Longrightarrow> room_of doubled twice sent limit \<le> room_of doubled' twice sent limit"
  by (auto simp: room_of_def Let_def split: option.splits)

text \<open>A retry of a cut-off tool call is never given less room than the request before it, never more than
  the larger of 32,768 and twice that, nor more than the model's own limit while that is not already
  passed; every value stays in 64 bits; and a later round never gets less than an earlier one.\<close>

theorem more_room_bounds:
  assumes "sent \<le> u64_max" "round \<le> round'"
  shows "sent \<le> more_room configured (Some sent) round limit \<and>
    more_room configured (Some sent) round limit \<le> max 32768 (2 * sent) \<and>
    more_room configured (Some sent) round limit \<le> u64_max \<and>
    (limit = Some l \<longrightarrow> more_room configured (Some sent) round limit \<le> max l sent) \<and>
    more_room configured (Some sent) round limit \<le> more_room configured (Some sent) round' limit"
proof -
  have two: "sent \<le> sat_mul sent 2" "sat_mul sent 2 \<le> 2 * sent" "sat_mul sent 2 \<le> u64_max" "32768 \<le> u64_max"
    using assms(1) by (simp_all add: sat_mul_def u64_max_def)
  have "sat_mul b (2 ^ min round 32) \<le> sat_mul b (2 ^ min round' 32)" for b
    by (rule sat_mul_mono) (rule power_increasing, use assms(2) in auto)
  then show ?thesis unfolding more_room_of by (auto intro!: room_of_bounds [OF two] room_of_mono)
qed

theorem more_room_bounds_witness:
  "more_room (Some 4096) (Some 4096) 1 (Some 10000) \<le> max 10000 4096 \<and> 4096 \<le> more_room (Some 4096) (Some 4096) 1 (Some 10000)"
  using more_room_bounds [of 4096 1 2 "Some 4096" "Some 10000" 10000] by (simp add: u64_max_def)

end
