(* ===== verification/Recovery.thy ===== *)
theory Recovery
  imports Rejections TurnLimits
begin

text \<open>
  What is done about a failed model call, \<open>crates/kernel/src/recovery.rs\<close>: one row of a table per kind
  of failure, read from the failure's class (\<open>Rejections\<close>) and its own words.
\<close>

datatype first_step =
    Compact | LessOutput | LessImage | WithoutImage | Correct | ContinueReply | Retry | Reconnect
  | DefaultReasoning | PlainSchemas | StaleReasoning | DoNothing

record recovery =
  rec_first :: first_step
  stand_in :: "string option"
  hand_over_after :: "nat option"
  rec_rests :: bool
  comes_back :: bool
  rec_tries :: "nat option"

datatype rest = NextMessage | Limited "nat option"

text \<open>What a refusal with no other recovery says it is about.\<close>

definition refusal_text :: "provider_failure \<Rightarrow> provider_error \<Rightarrow> string" where
  "refusal_text kind e =
     (if kind \<noteq> Fatal then []
      else case e of Status _ said \<Rightarrow> to_lowercase said | Response said \<Rightarrow> to_lowercase said | _ \<Rightarrow> [])"

definition status_why :: "nat \<Rightarrow> string" where
  "status_why status =
     (if status = 401 \<or> status = 403 then ''its key was refused''
      else if status = 402 then ''its account has no credit''
      else if status = 404 then ''the model was not found''
      else if status = 429 then ''it is still rate limited''
      else if 500 \<le> status \<and> status \<le> 599 then ''its server kept failing''
      else ''its server refused the request'')"

text \<open>The rows that the failure's own type decides, after its class has been looked at.\<close>

fun by_error :: "provider_failure \<Rightarrow> provider_error \<Rightarrow> first_step \<times> string option" where
  "by_error kind (InvalidToolCallError _) = (Correct, None)"
| "by_error kind Truncated = (ContinueReply, None)"
| "by_error kind (StreamStalled _) = (Reconnect, Some ''it stopped sending'')"
| "by_error kind (NotSent _) = (Retry, Some ''its server could not be reached'')"
| "by_error kind (Transport _) = (Retry, Some ''its server could not be reached'')"
| "by_error kind (StreamError _) = (Retry, Some ''its server could not be reached'')"
| "by_error kind (Garbled _) = (Retry, Some ''its reply could not be read'')"
| "by_error kind (ResponseTimeout _) = (DoNothing, Some ''it did not answer in time'')"
| "by_error kind (ProgressTimeout _) = (DoNothing, Some ''it did not answer in time'')"
| "by_error kind (ChatGptPlan _ _) = (if kind = Transient then (Retry, None) else (DoNothing, None))"
| "by_error kind (Refused _) = (DoNothing, Some ''it declined to answer'')"
| "by_error kind (Certificate _) = (DoNothing, Some ''its security certificate could not be verified'')"
| "by_error kind (Decode _) = (DoNothing, Some ''its reply could not be read'')"
| "by_error kind (Response _) =
     (if kind = Transient then (Retry, Some ''its server kept failing'')
      else (DoNothing, Some ''its server answered with an error''))"
| "by_error kind (Status status _) = (if kind = Transient then Retry else DoNothing, Some (status_why status))"
| "by_error kind (Throttled status _ _) = (if kind = Transient then Retry else DoNothing, Some (status_why status))"

definition recovery_row ::
  "(string \<Rightarrow> bool) \<Rightarrow> provider_failure \<Rightarrow> provider_error \<Rightarrow> first_step \<times> string option" where
  "recovery_row alnum kind e =
     (let refusal = refusal_text kind e; refused = ''its server refused the request'' in
      if stale_reasoning refusal then (StaleReasoning, Some refused)
      else if reasoning_setting alnum refusal then (DefaultReasoning, Some refused)
      else if tool_grammar refusal then (PlainSchemas, Some refused)
      else if content_policy refusal then (DoNothing, Some ''it declined to answer'')
      else if blocked_on_the_way refusal
      then (DoNothing, Some ''something in front of its server blocked the request'')
      else if data_rules refusal
      then (DoNothing, Some ''the account's data rules leave no provider for it'')
      else case kind of
          InputContextOverflow _ \<Rightarrow> (Compact, None)
        | OutputLimit _ \<Rightarrow> (LessOutput, None)
        | PayloadTooLarge \<Rightarrow> (LessImage, None)
        | ImageUnfit \<Rightarrow> (LessImage, None)
        | UnsupportedImage \<Rightarrow> (WithoutImage, None)
        | InvalidToolCall \<Rightarrow> (Correct, None)
        | _ \<Rightarrow> by_error kind e)"

fun error_status :: "provider_error \<Rightarrow> nat" where
  "error_status (Status status _) = status"
| "error_status (Throttled status _ _) = status"
| "error_status _ = 0"

fun unreachable :: "provider_error \<Rightarrow> bool" where
  "unreachable (NotSent _) = True"
| "unreachable (Transport _) = True"
| "unreachable (StreamError _) = True"
| "unreachable _ = False"

fun is_garbled :: "provider_error \<Rightarrow> bool" where
  "is_garbled (Garbled _) = True"
| "is_garbled _ = False"

definition recovery_of :: "(string \<Rightarrow> bool) \<Rightarrow> (string \<Rightarrow> json option) \<Rightarrow> provider_error \<Rightarrow> recovery" where
  "recovery_of alnum parse e =
     (let kind = classify parse e;
          (first, si) = recovery_row alnum kind e;
          status = error_status e;
          hand = (if status = 429 then Some 0
                  else if status = 503 \<or> status = 529 \<or> unreachable e then Some 2 else None);
          garbled = is_garbled e
      in \<lparr>rec_first = first, stand_in = si,
          hand_over_after = (if si \<noteq> None then hand else None),
          rec_rests = ((status = 402 \<or> status = 429) \<and> si \<noteq> None),
          comes_back = (first = Retry \<and> status \<noteq> 429 \<and> \<not> garbled),
          rec_tries = (if garbled then Some 3 else None)\<rparr>)"

definition rest_of :: "(string \<Rightarrow> bool) \<Rightarrow> (string \<Rightarrow> json option) \<Rightarrow> provider_error \<Rightarrow> rest" where
  "rest_of alnum parse e = (if rec_rests (recovery_of alnum parse e) then Limited (retry_after e) else NextMessage)"

definition is_retryable :: "(string \<Rightarrow> bool) \<Rightarrow> (string \<Rightarrow> json option) \<Rightarrow> provider_error \<Rightarrow> bool" where
  "is_retryable alnum parse e \<longleftrightarrow> rec_first (recovery_of alnum parse e) \<in> {Retry, Reconnect}"

definition is_context_overflow :: "(string \<Rightarrow> json option) \<Rightarrow> provider_error \<Rightarrow> bool" where
  "is_context_overflow parse e = (case classify parse e of InputContextOverflow _ \<Rightarrow> True | _ \<Rightarrow> False)"

definition is_stream_stall :: "(string \<Rightarrow> bool) \<Rightarrow> (string \<Rightarrow> json option) \<Rightarrow> provider_error \<Rightarrow> bool" where
  "is_stream_stall alnum parse e \<longleftrightarrow> rec_first (recovery_of alnum parse e) = Reconnect"

section \<open>Lemmas\<close>

lemma first_of_recovery: "rec_first (recovery_of alnum parse e) = fst (recovery_row alnum (classify parse e) e)"
  by (simp add: recovery_of_def Let_def split: prod.splits)

lemma refusal_text_not_Fatal [simp]: "kind \<noteq> Fatal \<Longrightarrow> refusal_text kind e = []"
  by (simp add: refusal_text_def)

lemma retry_row_is_transient:
  "fst (recovery_row alnum (classify parse e) e) \<in> {Retry, Reconnect} \<Longrightarrow> classify parse e = Transient"
  by (cases e; auto simp: recovery_row_def Let_def classify_rejection_not_bad_call
      split: if_splits provider_failure.splits)

text \<open>Failures after which the request may be running upstream, or that would be the same again.\<close>

fun never_resent :: "provider_error \<Rightarrow> bool" where
  "never_resent (ResponseTimeout _) = True"
| "never_resent (ProgressTimeout _) = True"
| "never_resent (Refused _) = True"
| "never_resent (Certificate _) = True"
| "never_resent (Decode _) = True"
| "never_resent _ = False"

section \<open>Properties\<close>

text \<open>C40. The table never resends blindly: the same request is sent again only after a failure whose class
  is transient; a request that may still be running upstream, was declined, or met an untrusted
  certificate is not sent again at all; a server is waited for only when it would be retried and is not
  rate limited; a model is only rested or handed over where another may stand in; and a ChatGPT plan is
  never handed over.\<close>

theorem recovery_never_resends_blindly:
  "(is_retryable alnum parse e \<longrightarrow> classify parse e = Transient) \<and>
   (never_resent e \<longrightarrow> rec_first (recovery_of alnum parse e) = DoNothing) \<and>
   (comes_back (recovery_of alnum parse e) \<longrightarrow> is_retryable alnum parse e \<and> error_status e \<noteq> 429) \<and>
   (hand_over_after (recovery_of alnum parse e) \<noteq> None \<or> rec_rests (recovery_of alnum parse e) \<longrightarrow>
      stand_in (recovery_of alnum parse e) \<noteq> None) \<and>
   (e = ChatGptPlan code message \<longrightarrow> stand_in (recovery_of alnum parse e) = None)"
proof -
  have "is_retryable alnum parse e \<Longrightarrow> classify parse e = Transient"
    unfolding is_retryable_def first_of_recovery by (rule retry_row_is_transient)
  moreover have "never_resent e \<Longrightarrow> rec_first (recovery_of alnum parse e) = DoNothing"
    unfolding first_of_recovery by (cases e) (simp_all add: recovery_row_def refusal_text_def)
  moreover have "e = ChatGptPlan code message \<Longrightarrow> stand_in (recovery_of alnum parse e) = None"
    by (simp add: recovery_of_def recovery_row_def refusal_text_def Let_def)
  moreover have "comes_back (recovery_of alnum parse e) \<Longrightarrow> is_retryable alnum parse e \<and> error_status e \<noteq> 429"
    by (auto simp: is_retryable_def recovery_of_def Let_def split: prod.splits)
  moreover have "hand_over_after (recovery_of alnum parse e) \<noteq> None \<or> rec_rests (recovery_of alnum parse e) \<Longrightarrow>
      stand_in (recovery_of alnum parse e) \<noteq> None"
    by (auto simp: recovery_of_def Let_def split: prod.splits if_splits)
  ultimately show ?thesis by blast
qed

theorem recovery_never_resends_blindly_witness:
  "rec_first (recovery_of (\<lambda>_. False) (\<lambda>_. None) (ResponseTimeout 30)) = DoNothing"
  using recovery_never_resends_blindly [of "\<lambda>_. False" "\<lambda>_. None" "ResponseTimeout 30"] by simp

end
