(* ===== verification/Fallbacks.thy ===== *)
theory Fallbacks
  imports Recovery "HOL-Library.Sublist"
begin

text \<open>
  Standing in for a model that cannot be used, \<open>crates/providers/src/client/fallback.rs\<close>, and turning to
  another saved key, \<open>key_rotation.rs\<close>. Time is in milliseconds. What is not read here (the list as saved, whether a profile can be switched to and what becomes
  of the reasoning setting, the saved keys of a server, the digest of a key) is the record \<open>client_env\<close>.
\<close>

section \<open>The client's connection\<close>

record profile =
  pf_model :: string
  pf_base :: string
  pf_more :: json

record connection =
  cn_profile :: profile
  cn_credential :: string

definition FALLBACK_REST :: nat where "FALLBACK_REST = 60 * 1000"
definition REFUSED_REST :: nat where "REFUSED_REST = 5 * 60 * 1000"
definition LIMITED_REST :: nat where "LIMITED_REST = 60 * 60 * 1000"

record provider_client =
  cl_conn :: connection
  cl_reasoning :: json
  cl_rested :: "nat option"
  cl_listed :: "connection list"
  cl_next :: nat
  cl_own :: "(connection \<times> json) option"
  cl_resting :: "string \<Rightarrow> nat option"

record client_env =
  ce_source :: "connection list option"
  ce_switch :: "connection \<Rightarrow> json \<Rightarrow> json option"
  ce_keys :: "string \<Rightarrow> string list"
  ce_digest :: "string \<Rightarrow> string"

definition active_model :: "provider_client \<Rightarrow> string" where
  "active_model cl = pf_model (cn_profile (cl_conn cl))"

section \<open>Stand-ins\<close>

definition differs_from :: "profile \<Rightarrow> connection \<Rightarrow> bool" where
  "differs_from failed c \<longleftrightarrow> pf_model (cn_profile c) \<noteq> pf_model failed \<or> pf_base (cn_profile c) \<noteq> pf_base failed"

text \<open>\<open>Fallbacks::read\<close>: the list as saved when the own model first fails, without the model that failed.\<close>

definition read_fallbacks :: "client_env \<Rightarrow> provider_client \<Rightarrow> provider_client" where
  "read_fallbacks env cl =
     (if cl_own cl \<noteq> None \<or> cl_next cl \<noteq> 0 then cl
      else cl\<lparr>cl_listed := filter (differs_from (cn_profile (cl_conn cl))) (case ce_source env of Some l \<Rightarrow> l | None \<Rightarrow> [])\<rparr>)"

text \<open>The first of the rest that can be switched to, how many were passed over, and the reasoning it takes.\<close>

fun first_switchable :: "(connection \<Rightarrow> json \<Rightarrow> json option) \<Rightarrow> json \<Rightarrow> connection list \<Rightarrow> (nat \<times> connection \<times> json) option" where
  "first_switchable switch reasoning [] = None"
| "first_switchable switch reasoning (c # rest) =
     (case switch c reasoning of
        Some r \<Rightarrow> Some (0, c, r)
      | None \<Rightarrow> map_option (\<lambda>(k, found). (Suc k, found)) (first_switchable switch reasoning rest))"

definition stand_in_for ::
  "client_env \<Rightarrow> nat \<Rightarrow> string \<Rightarrow> rest \<Rightarrow> provider_client \<Rightarrow> (string \<times> string) option \<times> provider_client" where
  "stand_in_for env now failed rest cl =
     (let was = active_model cl in
      if cl_own cl \<noteq> None \<and> failed \<noteq> [] \<and> failed \<noteq> was then (Some (failed, was), cl)
      else
        let cl1 = read_fallbacks env cl in
        case first_switchable (ce_switch env) (cl_reasoning cl1) (drop (cl_next cl1) (cl_listed cl1)) of
          None \<Rightarrow> (None, cl1\<lparr>cl_next := max (cl_next cl1) (length (cl_listed cl1))\<rparr>)
        | Some (k, c, r) \<Rightarrow>
            (let cl2 = cl1\<lparr>cl_next := cl_next cl1 + k + 1, cl_conn := c, cl_reasoning := r,
                   cl_rested := (case (cl_own cl1, rest) of
                       (None, Limited wait) \<Rightarrow> Some (now + (case wait of Some w \<Rightarrow> w | None \<Rightarrow> FALLBACK_REST))
                     | _ \<Rightarrow> cl_rested cl1),
                   cl_own := (case cl_own cl1 of Some own \<Rightarrow> Some own | None \<Rightarrow> Some (cl_conn cl1, cl_reasoning cl1))\<rparr>
             in (Some (was, active_model cl2), cl2)))"

definition stand_in_now :: "provider_client \<Rightarrow> (string \<times> string) option" where
  "stand_in_now cl = map_option (\<lambda>(own, _). (pf_model (cn_profile own), active_model cl)) (cl_own cl)"

definition has_stand_in_left :: "client_env \<Rightarrow> provider_client \<Rightarrow> bool \<times> provider_client" where
  "has_stand_in_left env cl = (let cl1 = read_fallbacks env cl in (cl_next cl1 < length (cl_listed cl1), cl1))"

section \<open>Keys\<close>

definition key_rest :: "nat \<Rightarrow> nat option \<Rightarrow> nat" where
  "key_rest status asked = (case asked of Some w \<Rightarrow> w
     | None \<Rightarrow> if status = 401 \<or> status = 403 then REFUSED_REST else LIMITED_REST)"

definition rest_key :: "client_env \<Rightarrow> nat \<Rightarrow> string \<Rightarrow> nat \<Rightarrow> provider_client \<Rightarrow> provider_client" where
  "rest_key env now key wait cl = cl\<lparr>cl_resting := (cl_resting cl)(ce_digest env key \<mapsto> now + wait)\<rparr>"

definition key_resting :: "client_env \<Rightarrow> nat \<Rightarrow> provider_client \<Rightarrow> string \<Rightarrow> bool" where
  "key_resting env now cl key \<longleftrightarrow> (case cl_resting cl (ce_digest env key) of Some until \<Rightarrow> now < until | None \<Rightarrow> False)"

definition first_ready :: "client_env \<Rightarrow> nat \<Rightarrow> provider_client \<Rightarrow> string list \<Rightarrow> (nat \<times> string) option" where
  "first_ready env now cl keys =
     map_option (\<lambda>at. (at + 1, keys ! at)) (position (\<lambda>k. \<not> key_resting env now cl k) keys)"

definition saved_keys :: "client_env \<Rightarrow> provider_client \<Rightarrow> string list" where
  "saved_keys env cl = ce_keys env (pf_base (cn_profile (cl_conn cl)))"

definition use_key :: "string \<Rightarrow> provider_client \<Rightarrow> provider_client" where
  "use_key key cl = cl\<lparr>cl_conn := (cl_conn cl)\<lparr>cn_credential := key\<rparr>\<rparr>"

definition has_another_key :: "client_env \<Rightarrow> nat \<Rightarrow> provider_client \<Rightarrow> bool" where
  "has_another_key env now cl \<longleftrightarrow> cl_own cl = None
     \<and> list_ex (\<lambda>k. k \<noteq> cn_credential (cl_conn cl) \<and> \<not> key_resting env now cl k) (saved_keys env cl)"

definition turn_to_next_key ::
  "client_env \<Rightarrow> nat \<Rightarrow> nat \<Rightarrow> nat option \<Rightarrow> provider_client \<Rightarrow> (nat \<times> nat) option \<times> provider_client" where
  "turn_to_next_key env now status asked cl =
     (let keys = saved_keys env cl in
      if cl_own cl \<noteq> None \<or> length keys < 2 then (None, cl)
      else
        let cl1 = rest_key env now (cn_credential (cl_conn cl)) (key_rest status asked) cl in
        case first_ready env now cl1 keys of
          None \<Rightarrow> (None, cl1)
        | Some (at, key) \<Rightarrow> (Some (at, length keys), use_key key cl1))"

text \<open>The own model comes back with the next message, unless it is resting after a limit.\<close>

definition return_to_own :: "client_env \<Rightarrow> nat \<Rightarrow> provider_client \<Rightarrow> (string \<times> string) option \<times> provider_client" where
  "return_to_own env now cl =
     (let resting = (case cl_rested cl of Some until \<Rightarrow> now < until | None \<Rightarrow> False) in
      case (resting, cl_own cl) of
        (True, Some (own, _)) \<Rightarrow> (Some (pf_model (cn_profile own), active_model cl), cl)
      | _ \<Rightarrow>
          (let cl1 = cl\<lparr>cl_next := 0, cl_rested := None, cl_own := None\<rparr>;
               cl2 = (case cl_own cl of
                        Some (own, reasoning) \<Rightarrow> cl1\<lparr>cl_conn := own, cl_reasoning := reasoning\<rparr>
                      | None \<Rightarrow> cl1);
               keys = saved_keys env cl2
           in (None, case (1 < length keys, first_ready env now cl2 keys) of
                (True, Some (_, key)) \<Rightarrow> use_key key cl2
              | _ \<Rightarrow> cl2)))"

section \<open>Lemmas\<close>

lemma first_switchable_Some:
  "first_switchable switch r cs = Some (k, c, r') \<Longrightarrow> k < length cs \<and> c = cs ! k \<and> switch c r = Some r'"
  by (induction cs arbitrary: k) (auto split: option.splits)

text \<open>A turn: hand-overs one after another, at their times and for their reasons.\<close>

fun hand_overs :: "client_env \<Rightarrow> (nat \<times> rest) list \<Rightarrow> provider_client \<Rightarrow> connection list \<times> provider_client" where
  "hand_overs env [] cl = ([], cl)"
| "hand_overs env ((now, rest) # later) cl =
     (let (now_using, cl1) = stand_in_for env now (active_model cl) rest cl;
          (used, cl2) = hand_overs env later cl1
      in (if now_using = None then used else cl_conn cl1 # used, cl2))"

lemma stand_in_own:
  assumes "stand_in_for env now failed rest cl = (who, cl')" "cl_own cl = Some own"
  shows "cl_own cl' = Some own \<and> cl_listed cl' = cl_listed cl \<and> cl_next cl \<le> cl_next cl'"
  using assms by (auto simp: stand_in_for_def read_fallbacks_def Let_def split: if_splits option.splits prod.splits)

lemma stand_in_step:
  assumes "stand_in_for env now (active_model cl) rest cl = (Some who, cl')"
  shows "cl_next (read_fallbacks env cl) < cl_next cl' \<and> cl_next cl' \<le> length (cl_listed cl') \<and>
    cl_listed cl' = cl_listed (read_fallbacks env cl) \<and> cl_conn cl' = cl_listed cl' ! (cl_next cl' - 1) \<and> cl_own cl' \<noteq> None \<and>
    cl_own cl' = (case cl_own cl of Some own \<Rightarrow> Some own | None \<Rightarrow> Some (cl_conn cl, cl_reasoning cl))"
proof -
  have same: "cl_own (read_fallbacks env cl) = cl_own cl" "cl_conn (read_fallbacks env cl) = cl_conn cl"
    "cl_reasoning (read_fallbacks env cl) = cl_reasoning cl"
    by (simp_all add: read_fallbacks_def)
  obtain k c r where f: "first_switchable (ce_switch env) (cl_reasoning cl)
      (drop (cl_next (read_fallbacks env cl)) (cl_listed (read_fallbacks env cl))) = Some (k, c, r)"
    using assms same by (auto simp: stand_in_for_def Let_def split: if_splits option.splits)
  from first_switchable_Some [OF f] show ?thesis
    using assms f same by (auto simp: stand_in_for_def Let_def nth_append split: if_splits option.splits)
qed

lemma stand_in_none:
  assumes "stand_in_for env now (active_model cl) rest cl = (None, cl')"
  shows "cl_conn cl' = cl_conn cl \<and> cl_own cl' = cl_own cl \<and> cl_reasoning cl' = cl_reasoning cl \<and>
    cl_listed cl' = cl_listed (read_fallbacks env cl) \<and> length (cl_listed cl') \<le> cl_next cl' \<and> cl_next cl \<le> cl_next cl'"
  using assms by (auto simp: stand_in_for_def Let_def read_fallbacks_def split: if_splits option.splits prod.splits)

lemma subseq_drop_nth:
  assumes "a \<le> m" "m < length l" "subseq used (drop (Suc m) l)"
  shows "subseq (l ! m # used) (drop a l)"
proof -
  have "drop m l = l ! m # drop (Suc m) l" using assms(2) by (simp add: Cons_nth_drop_Suc)
  then have "subseq (l ! m # used) (drop m l)" using assms(3) by simp
  moreover have "drop m l = drop (m - a) (drop a l)" using assms(1) by simp
  then have "subseq (drop m l) (drop a l)" by (metis suffix_drop suffix_imp_subseq)
  ultimately show ?thesis by (rule subseq_order.trans)
qed

lemma hand_overs_spec:
  assumes "hand_overs env hs cl = (used, cl')"
  shows "subseq used (drop (cl_next (read_fallbacks env cl)) (cl_listed (read_fallbacks env cl))) \<and>
    (if used = [] then cl_conn cl' = cl_conn cl \<and> cl_own cl' = cl_own cl \<and> cl_reasoning cl' = cl_reasoning cl
     else cl_own cl' = (case cl_own cl of Some own \<Rightarrow> Some own | None \<Rightarrow> Some (cl_conn cl, cl_reasoning cl)))"
  using assms
proof (induction hs arbitrary: cl used)
  case (Cons h later)
  obtain now rest where h: "h = (now, rest)" by (cases h)
  obtain who cl1 where s: "stand_in_for env now (active_model cl) rest cl = (who, cl1)"
    by (cases "stand_in_for env now (active_model cl) rest cl")
  obtain used1 where r: "hand_overs env later cl1 = (used1, cl')" and u: "used = (if who = None then used1 else cl_conn cl1 # used1)"
    using Cons.prems s by (auto simp: h split: prod.splits)
  note ih = Cons.IH [OF r]
  show ?case
  proof (cases who)
    case None
    note st = stand_in_none [OF s [unfolded None]]
    have "drop (cl_next (read_fallbacks env cl1)) (cl_listed (read_fallbacks env cl1)) = []"
      using st by (auto simp: read_fallbacks_def split: if_splits)
    then show ?thesis using ih st None u by (auto split: if_splits)
  next
    case (Some w)
    note st = stand_in_step [OF s [unfolded Some]]
    have "read_fallbacks env cl1 = cl1" using st by (simp add: read_fallbacks_def)
    moreover have "subseq (cl_listed cl1 ! (cl_next cl1 - 1) # used1)
        (drop (cl_next (read_fallbacks env cl)) (cl_listed cl1))"
      by (rule subseq_drop_nth) (use st ih \<open>read_fallbacks env cl1 = cl1\<close> in auto)
    ultimately show ?thesis using ih st Some u by (auto split: if_splits option.splits)
  qed
qed simp

text \<open>How many hand-overs are left.\<close>

definition stand_ins_left :: "client_env \<Rightarrow> provider_client \<Rightarrow> nat" where
  "stand_ins_left env cl = length (cl_listed (read_fallbacks env cl)) - cl_next (read_fallbacks env cl)"

lemma stand_in_again_active: "stand_in_for env now [] rest cl = stand_in_for env now (active_model cl) rest cl"
  by (simp add: stand_in_for_def)

lemma stand_ins_left_step:
  assumes "stand_in_for env now (active_model cl) rest cl = (who, cl')"
  shows "(who \<noteq> None \<longrightarrow> stand_ins_left env cl' < stand_ins_left env cl) \<and> stand_ins_left env cl' \<le> stand_ins_left env cl"
proof (cases who)
  case None
  note st = stand_in_none [OF assms [unfolded None]]
  have "stand_ins_left env cl' = 0" using st by (auto simp: stand_ins_left_def read_fallbacks_def split: if_splits)
  then show ?thesis using None by simp
next
  case (Some w)
  note st = stand_in_step [OF assms [unfolded Some]]
  then have "read_fallbacks env cl' = cl'" by (simp add: read_fallbacks_def)
  then show ?thesis using st by (auto simp: stand_ins_left_def)
qed

section \<open>Properties\<close>

text \<open>Stand-ins are tried in the person's order, each at most once, never the model that failed, and the
  chat's own model comes back: after any number of hand-overs, once no limit keeps it resting, the next
  message finds the same model at the same address with the same reasoning setting, on the same key or
  on a saved one that is not resting.\<close>

theorem stand_ins_come_and_go:
  assumes "cl_own cl = None" "cl_next cl = 0" "hand_overs env hs cl = (used, cl1)" "return_to_own env now cl1 = (None, cl2)"
  shows "subseq used (filter (differs_from (cn_profile (cl_conn cl))) (case ce_source env of Some l \<Rightarrow> l | None \<Rightarrow> [])) \<and>
    cl_own cl2 = None \<and> cl_next cl2 = 0 \<and> cn_profile (cl_conn cl2) = cn_profile (cl_conn cl) \<and>
    cl_reasoning cl2 = cl_reasoning cl \<and>
    (cn_credential (cl_conn cl2) = cn_credential (cl_conn cl) \<or>
      (cn_credential (cl_conn cl2) \<in> set (saved_keys env cl) \<and> \<not> key_resting env now cl2 (cn_credential (cl_conn cl2))))"
proof -
  note h = hand_overs_spec [OF assms(3)]
  define base where "base = (case cl_own cl1 of Some (own, reasoning) \<Rightarrow>
      cl1\<lparr>cl_next := 0, cl_rested := None, cl_own := None, cl_conn := own, cl_reasoning := reasoning\<rparr>
    | None \<Rightarrow> cl1\<lparr>cl_next := 0, cl_rested := None, cl_own := None\<rparr>)"
  have own: "cl_own cl1 = None \<and> cl_conn cl1 = cl_conn cl \<and> cl_reasoning cl1 = cl_reasoning cl \<or>
      cl_own cl1 = Some (cl_conn cl, cl_reasoning cl)"
    using h assms(1) by (auto split: if_splits)
  then have b: "cl_conn base = cl_conn cl" "cl_reasoning base = cl_reasoning cl" "cl_own base = None" "cl_next base = 0"
    by (auto simp: base_def)
  have "cl2 = (case (1 < length (saved_keys env base), first_ready env now base (saved_keys env base)) of
      (True, Some (_, key)) \<Rightarrow> use_key key base | _ \<Rightarrow> base)"
    using assms(4) unfolding return_to_own_def Let_def base_def by (auto split: option.splits bool.splits if_splits prod.splits)
  moreover have "saved_keys env base = saved_keys env cl" using b by (simp add: saved_keys_def)
  ultimately consider "cl2 = base" | at key where "first_ready env now base (saved_keys env cl) = Some (at, key)" "cl2 = use_key key base"
    by (auto split: bool.splits option.splits)
  then have "cl_own cl2 = None \<and> cl_next cl2 = 0 \<and> cn_profile (cl_conn cl2) = cn_profile (cl_conn cl) \<and>
    cl_reasoning cl2 = cl_reasoning cl \<and>
    (cn_credential (cl_conn cl2) = cn_credential (cl_conn cl) \<or>
      (cn_credential (cl_conn cl2) \<in> set (saved_keys env cl) \<and> \<not> key_resting env now cl2 (cn_credential (cl_conn cl2))))"
  proof cases
    case 2
    then have "key \<in> set (saved_keys env cl)" "\<not> key_resting env now base key"
      by (auto simp: first_ready_def dest: position_Some)
    then show ?thesis using 2(2) b by (simp add: use_key_def key_resting_def)
  qed (use b in simp)
  moreover have "subseq used (filter (differs_from (cn_profile (cl_conn cl))) (case ce_source env of Some l \<Rightarrow> l | None \<Rightarrow> []))"
    using h assms(1,2) by (simp add: read_fallbacks_def)
  ultimately show ?thesis by blast
qed

definition two_models :: client_env where
  "two_models = \<lparr>ce_source = Some [\<lparr>cn_profile = \<lparr>pf_model = ''own'', pf_base = ''a'', pf_more = JNull\<rparr>, cn_credential = ''k''\<rparr>,
       \<lparr>cn_profile = \<lparr>pf_model = ''other'', pf_base = ''b'', pf_more = JNull\<rparr>, cn_credential = ''k2''\<rparr>],
     ce_switch = (\<lambda>_ r. Some r), ce_keys = (\<lambda>_. [''k'', ''k3'']), ce_digest = (\<lambda>k. k)\<rparr>"

definition own_client :: provider_client where
  "own_client = \<lparr>cl_conn = \<lparr>cn_profile = \<lparr>pf_model = ''own'', pf_base = ''a'', pf_more = JNull\<rparr>, cn_credential = ''k''\<rparr>,
     cl_reasoning = JNull, cl_rested = None, cl_listed = [], cl_next = 0, cl_own = None, cl_resting = (\<lambda>_. None)\<rparr>"

theorem stand_ins_come_and_go_witness:
  "cn_profile (cl_conn (snd (return_to_own two_models 9 (snd (hand_overs two_models [(1, NextMessage), (2, NextMessage)] own_client)))))
     = cn_profile (cl_conn own_client) \<and> length (fst (hand_overs two_models [(1, NextMessage), (2, NextMessage)] own_client)) = 1"
proof -
  let ?h = "hand_overs two_models [(1, NextMessage), (2, NextMessage)] own_client"
  have r: "fst (return_to_own two_models 9 (snd ?h)) = None" "length (fst ?h) = 1" by code_simp+
  have "return_to_own two_models 9 (snd ?h) = (None, snd (return_to_own two_models 9 (snd ?h)))"
    using r(1) by (metis prod.collapse)
  from stand_ins_come_and_go [OF _ _ prod.collapse [symmetric] this] r(2)
  show ?thesis by (simp add: own_client_def)
qed

text \<open>Refusals of keys one after another, at their times, with what each server asked for.\<close>

fun key_turns :: "client_env \<Rightarrow> (nat \<times> nat \<times> nat option) list \<Rightarrow> provider_client \<Rightarrow> nat \<times> provider_client" where
  "key_turns env [] cl = (0, cl)"
| "key_turns env ((now, status, asked) # later) cl =
     (let (turned, cl1) = turn_to_next_key env now status asked cl; (n, cl2) = key_turns env later cl1
      in ((if turned = None then 0 else 1) + n, cl2))"

text \<open>The saved keys that are not resting up to a time, by digest.\<close>

definition ready_digests :: "client_env \<Rightarrow> nat \<Rightarrow> provider_client \<Rightarrow> string set" where
  "ready_digests env until_t cl = {d \<in> ce_digest env ` set (saved_keys env cl).
     case cl_resting cl d of Some until \<Rightarrow> until \<le> until_t | None \<Rightarrow> True}"

lemma finite_ready [simp]: "finite (ready_digests env until_t cl)"
  by (simp add: ready_digests_def)

lemma turn_to_next_key_step:
  assumes "turn_to_next_key env now status asked cl = (turned, cl')" "now \<le> until_t" "until_t < now + key_rest status asked"
  shows "saved_keys env cl' = saved_keys env cl \<and> ready_digests env until_t cl' \<subseteq> ready_digests env until_t cl \<and>
    (turned \<noteq> None \<longrightarrow> ready_digests env until_t cl' \<subseteq> ready_digests env until_t cl - {ce_digest env (cn_credential (cl_conn cl))} \<and>
       ce_digest env (cn_credential (cl_conn cl')) \<in> ready_digests env until_t cl') \<and>
    (turned = None \<longrightarrow> cn_credential (cl_conn cl') = cn_credential (cl_conn cl) \<and>
      (cl' = cl \<or> ready_digests env until_t cl' \<subseteq> ready_digests env until_t cl - {ce_digest env (cn_credential (cl_conn cl))}))"
proof -
  define cl1 where "cl1 = rest_key env now (cn_credential (cl_conn cl)) (key_rest status asked) cl"
  have s1: "saved_keys env cl1 = saved_keys env cl" "cl_conn cl1 = cl_conn cl"
    by (simp_all add: cl1_def rest_key_def saved_keys_def)
  have r1: "ready_digests env until_t cl1 \<subseteq> ready_digests env until_t cl - {ce_digest env (cn_credential (cl_conn cl))}"
    using assms(3) by (auto simp: ready_digests_def s1(1)) (auto simp: cl1_def rest_key_def split: if_splits option.splits)
  show ?thesis
  proof (cases "cl_own cl \<noteq> None \<or> length (saved_keys env cl) < 2")
    case True
    then show ?thesis using assms(1) by (auto simp: turn_to_next_key_def Let_def)
  next
    case False
    show ?thesis
    proof (cases "first_ready env now cl1 (saved_keys env cl)")
      case None
      then have "turned = None" "cl' = cl1" using assms(1) False by (auto simp: turn_to_next_key_def Let_def cl1_def)
      then show ?thesis using s1 r1 by auto
    next
      case (Some p)
      obtain at key where p: "p = (at, key)" by (cases p)
      have t: "turned \<noteq> None" "cl' = use_key key cl1"
        using assms(1) False Some unfolding p by (auto simp: turn_to_next_key_def Let_def cl1_def)
      have k: "key \<in> set (saved_keys env cl)" "\<not> key_resting env now cl1 key"
        using Some by (auto simp: p first_ready_def dest: position_Some)
      have "ready_digests env until_t cl' = ready_digests env until_t cl1" "saved_keys env cl' = saved_keys env cl1"
        by (simp_all add: t(2) use_key_def ready_digests_def saved_keys_def)
      moreover have "ce_digest env key \<in> ready_digests env until_t cl1"
        using k assms(2) by (auto simp: ready_digests_def s1 key_resting_def split: option.splits)
      ultimately show ?thesis using t s1 r1 by (auto simp: use_key_def)
    qed
  qed
qed

text \<open>How many more turns the keys allow.\<close>

definition key_slack :: "client_env \<Rightarrow> nat \<Rightarrow> provider_client \<Rightarrow> nat" where
  "key_slack env until_t cl =
     (if ce_digest env (cn_credential (cl_conn cl)) \<in> ready_digests env until_t cl
      then card (ready_digests env until_t cl) - 1 else card (ready_digests env until_t cl))"

lemma key_slack_le: "key_slack env until_t cl \<le> length (saved_keys env cl)"
proof -
  have "card (ready_digests env until_t cl) \<le> card (ce_digest env ` set (saved_keys env cl))"
    by (rule card_mono) (auto simp: ready_digests_def)
  also have "\<dots> \<le> card (set (saved_keys env cl))" by (rule card_image_le) simp
  also have "\<dots> \<le> length (saved_keys env cl)" by (rule card_length)
  finally show ?thesis unfolding key_slack_def by (auto intro: le_trans [OF diff_le_self])
qed

lemma key_slack_step:
  assumes "turn_to_next_key env now status asked cl = (turned, cl')" "now \<le> until_t" "until_t < now + key_rest status asked"
  shows "(turned \<noteq> None \<longrightarrow> key_slack env until_t cl' < key_slack env until_t cl) \<and>
    (turned = None \<longrightarrow> key_slack env until_t cl' \<le> key_slack env until_t cl)"
proof -
  let ?R = "ready_digests env until_t cl" and ?R' = "ready_digests env until_t cl'"
  let ?d = "ce_digest env (cn_credential (cl_conn cl))"
  note step = turn_to_next_key_step [OF assms]
  have le: "card ?R' \<le> card ?R" by (rule card_mono) (use step in auto)
  have less: "?R' \<subseteq> ?R - {?d} \<Longrightarrow> ?d \<in> ?R \<Longrightarrow> card ?R' < card ?R" by (rule psubset_card_mono) auto
  show ?thesis
  proof (cases turned)
    case None
    then consider "cl' = cl" | "cn_credential (cl_conn cl') = cn_credential (cl_conn cl)" "?R' \<subseteq> ?R - {?d}"
      using step by blast
    then show ?thesis
    proof cases
      case 2
      then have "key_slack env until_t cl' = card ?R'" by (auto simp: key_slack_def)
      then show ?thesis using None less [OF 2(2)] le by (auto simp: key_slack_def)
    qed (use None in simp)
  next
    case (Some x)
    then have r: "?R' \<subseteq> ?R - {?d}" and m: "ce_digest env (cn_credential (cl_conn cl')) \<in> ?R'" using step by auto
    from m have "0 < card ?R'" by (auto simp: card_gt_0_iff)
    moreover have "key_slack env until_t cl' = card ?R' - 1" using m by (simp add: key_slack_def)
    ultimately show ?thesis using Some less [OF r] le by (auto simp: key_slack_def)
  qed
qed

text \<open>Turning to the next key ends: as long as no key that was put to rest may be used again, however many
  refusals arrive, the client turns to another key at most as often as keys are saved, and never back to one
  that was refused.\<close>

theorem key_turns_end:
  assumes "\<forall>(now, status, asked) \<in> set refusals. now \<le> until_t \<and> until_t < now + key_rest status asked"
  shows "fst (key_turns env refusals cl) \<le> length (saved_keys env cl)"
proof -
  have "fst (key_turns env refusals cl) \<le> key_slack env until_t cl"
    using assms
  proof (induction refusals arbitrary: cl)
    case (Cons r later)
    obtain now status asked where r: "r = (now, status, asked)" by (cases r)
    obtain turned cl1 where t: "turn_to_next_key env now status asked cl = (turned, cl1)"
      by (cases "turn_to_next_key env now status asked cl")
    have "fst (key_turns env (r # later) cl) = (if turned = None then 0 else 1) + fst (key_turns env later cl1)"
      by (simp add: r t split: prod.split)
    moreover have "fst (key_turns env later cl1) \<le> key_slack env until_t cl1" using Cons by simp
    ultimately show ?case using key_slack_step [OF t, of until_t] Cons.prems by (auto simp: r)
  qed simp
  also have "\<dots> \<le> length (saved_keys env cl)" by (rule key_slack_le)
  finally show ?thesis .
qed

theorem key_turns_end_witness:
  "fst (key_turns two_models [(1, 401, None), (2, 429, None), (3, 401, None)] own_client) \<le> 2"
proof -
  have "fst (key_turns two_models [(1, 401, None), (2, 429, None), (3, 401, None)] own_client)
      \<le> length (saved_keys two_models own_client)"
    by (rule key_turns_end [where until_t = 10]) (simp add: key_rest_def REFUSED_REST_def LIMITED_REST_def)
  then show ?thesis by (simp add: saved_keys_def two_models_def)
qed

text \<open>
  The bound needs the waits: a server that asks for a short one gets its own key back. After two turns, each
  asking for a second, the first key is in use again.
\<close>

lemma short_waits_turn_back:
  "key_turns two_models [(1, 429, Some 5), (7, 429, Some 5)] own_client =
     (2, own_client\<lparr>cl_resting := [''k'' \<mapsto> 6, ''k3'' \<mapsto> 12]\<rparr>)"
  by (simp add: turn_to_next_key_def two_models_def own_client_def saved_keys_def rest_key_def key_rest_def first_ready_def
      key_resting_def use_key_def Let_def)

end
