(* ===== verification/Budgets.thy ===== *)
theory Budgets
  imports Complex_Main Rejections
begin

text \<open>
  Turn, token, cost and wall-clock ceilings, \<open>crates/kernel/src/budgets.rs\<close>, and the price of a call
  from \<open>crates/kernel/src/types.rs\<close>. A pool of spend is shared by every session of one agent tree; the
  operations take the pool and the session's own tally and return both. Times are seconds of one
  monotone clock, read as the argument \<open>now\<close>. The program's poisoned locks are read as they stand.

  An \<open>f64\<close> is an exact rational, an infinity or not a number, and every operation rounds the exact
  result with the parameter \<open>rnd\<close>, as IEEE 754 prescribes; the two zeros are one.
\<close>

section \<open>Floating point\<close>

datatype f64 = Fin rat | PInf | NInf | NaN

type_synonym rounding = "rat \<Rightarrow> f64"

fun f_neg :: "f64 \<Rightarrow> f64" where
  "f_neg (Fin a) = Fin (- a)"
| "f_neg PInf = NInf"
| "f_neg NInf = PInf"
| "f_neg NaN = NaN"

definition f_add :: "rounding \<Rightarrow> f64 \<Rightarrow> f64 \<Rightarrow> f64" where
  "f_add rnd x y =
     (if x = NaN \<or> y = NaN \<or> (x = PInf \<and> y = NInf) \<or> (x = NInf \<and> y = PInf) then NaN
      else if x = PInf \<or> y = PInf then PInf
      else if x = NInf \<or> y = NInf then NInf
      else (case (x, y) of (Fin a, Fin b) \<Rightarrow> rnd (a + b) | _ \<Rightarrow> NaN))"

definition f_sub :: "rounding \<Rightarrow> f64 \<Rightarrow> f64 \<Rightarrow> f64" where
  "f_sub rnd x y = f_add rnd x (f_neg y)"

text \<open>The sign of a number, 0 for zero.\<close>

fun f_sgn :: "f64 \<Rightarrow> int" where
  "f_sgn (Fin a) = (if a < 0 then -1 else if a = 0 then 0 else 1)"
| "f_sgn PInf = 1"
| "f_sgn NInf = -1"
| "f_sgn NaN = 0"

definition f_inf :: "int \<Rightarrow> f64" where
  "f_inf s = (if s < 0 then NInf else if s = 0 then NaN else PInf)"

definition f_mul :: "rounding \<Rightarrow> f64 \<Rightarrow> f64 \<Rightarrow> f64" where
  "f_mul rnd x y =
     (case (x, y) of
        (Fin a, Fin b) \<Rightarrow> rnd (a * b)
      | _ \<Rightarrow> if x = NaN \<or> y = NaN then NaN else f_inf (f_sgn x * f_sgn y))"

text \<open>Division, for the divisors of the code: a positive price and the constant one million.\<close>

definition f_div :: "rounding \<Rightarrow> f64 \<Rightarrow> f64 \<Rightarrow> f64" where
  "f_div rnd x y =
     (case (x, y) of
        (Fin a, Fin b) \<Rightarrow> if b = 0 then f_inf (f_sgn x) else rnd (a / b)
      | (Fin _, PInf) \<Rightarrow> Fin 0
      | (Fin _, NInf) \<Rightarrow> Fin 0
      | (PInf, Fin b) \<Rightarrow> f_inf (if b < 0 then -1 else 1)
      | (NInf, Fin b) \<Rightarrow> f_inf (if b < 0 then 1 else -1)
      | _ \<Rightarrow> NaN)"

definition f_lt :: "f64 \<Rightarrow> f64 \<Rightarrow> bool" where
  "f_lt x y = (case (x, y) of
     (Fin a, Fin b) \<Rightarrow> a < b
   | (NInf, Fin _) \<Rightarrow> True | (NInf, PInf) \<Rightarrow> True | (Fin _, PInf) \<Rightarrow> True | _ \<Rightarrow> False)"

definition f_le :: "f64 \<Rightarrow> f64 \<Rightarrow> bool" where
  "f_le x y \<longleftrightarrow> f_lt x y \<or> (x = y \<and> x \<noteq> NaN)"

text \<open>\<open>x.max(y)\<close>: a number wins over NaN.\<close>

definition f_max :: "f64 \<Rightarrow> f64 \<Rightarrow> f64" where
  "f_max x y = (if x = NaN then y else if y = NaN then x else if f_lt x y then y else x)"

definition f_finite :: "f64 \<Rightarrow> bool" where
  "f_finite x = (case x of Fin _ \<Rightarrow> True | _ \<Rightarrow> False)"

definition f_negative :: "f64 \<Rightarrow> bool" where
  "f_negative x \<longleftrightarrow> f_lt x (Fin 0)"

text \<open>\<open>x.floor() as u64\<close>, which saturates.\<close>

definition f_floor_u64 :: "f64 \<Rightarrow> nat" where
  "f_floor_u64 x = (case x of Fin a \<Rightarrow> min (nat \<lfloor>a\<rfloor>) (2 ^ 64 - 1) | PInf \<Rightarrow> 2 ^ 64 - 1 | _ \<Rightarrow> 0)"

text \<open>\<open>n as f64\<close> for an integer.\<close>

definition f_of_nat :: "rounding \<Rightarrow> nat \<Rightarrow> f64" where
  "f_of_nat rnd n = rnd (of_nat n)"

definition million :: f64 where
  "million = Fin 1000000"

section \<open>Usage and prices\<close>

record usage =
  prompt_tokens :: nat
  completion_tokens :: nat
  total_tokens :: nat
  cached_prompt_tokens :: "nat option"
  cache_write_tokens :: "nat option"

definition uncached_prompt_tokens :: "usage \<Rightarrow> nat" where
  "uncached_prompt_tokens u = prompt_tokens u - (case cached_prompt_tokens u of Some c \<Rightarrow> c | None \<Rightarrow> 0)"

record pricing =
  input_per_mtok :: f64
  output_per_mtok :: f64
  cached_input_per_mtok :: "f64 option"
  cache_write_per_mtok :: "f64 option"
  pr_indicative :: bool

definition pricing_cost :: "rounding \<Rightarrow> pricing \<Rightarrow> usage \<Rightarrow> f64" where
  "pricing_cost rnd p u =
     (let cached = f_of_nat rnd (case cached_prompt_tokens u of Some c \<Rightarrow> c | None \<Rightarrow> 0);
          cached_rate = (case cached_input_per_mtok p of Some r \<Rightarrow> r | None \<Rightarrow> input_per_mtok p);
          fresh = uncached_prompt_tokens u;
          written = min (case cache_write_tokens u of Some c \<Rightarrow> c | None \<Rightarrow> 0) fresh;
          write_rate = (case cache_write_per_mtok p of Some r \<Rightarrow> r | None \<Rightarrow> input_per_mtok p)
      in f_div rnd
           (f_add rnd
             (f_add rnd
               (f_add rnd (f_mul rnd (f_of_nat rnd (fresh - written)) (input_per_mtok p))
                 (f_mul rnd (f_of_nat rnd written) write_rate))
               (f_mul rnd cached cached_rate))
             (f_mul rnd (f_of_nat rnd (completion_tokens u)) (output_per_mtok p)))
           million)"

section \<open>Budgets, pools and governors\<close>

definition DEFAULT_MAX_TURNS :: nat where "DEFAULT_MAX_TURNS = 200"

definition capped_output :: "nat option \<Rightarrow> nat option \<Rightarrow> nat" where
  "capped_output model room =
     (let m = (case model of Some n \<Rightarrow> n | None \<Rightarrow> 32768);
          floor_at = min 4096 m
      in max (case room of Some r \<Rightarrow> min r m | None \<Rightarrow> m) floor_at)"

record pooled =
  pool_tokens :: nat
  pool_cost :: f64
  reserved_tokens :: nat
  reserved_cost :: f64
  pool_started :: "nat option"
  startup_pending :: bool
  pool_indicative :: bool

definition pooled_new :: pooled where
  "pooled_new = \<lparr>pool_tokens = 0, pool_cost = Fin 0, reserved_tokens = 0, reserved_cost = Fin 0, pool_started = None,
     startup_pending = False, pool_indicative = False\<rparr>"

text \<open>\<open>get_or_insert_with(Instant::now)\<close>.\<close>

definition pool_start :: "nat \<Rightarrow> pooled \<Rightarrow> nat \<times> pooled" where
  "pool_start now p = (case pool_started p of Some t \<Rightarrow> (t, p) | None \<Rightarrow> (now, p\<lparr>pool_started := Some now\<rparr>))"

text \<open>The ceilings; the shared pool itself is the state the operations pass on.\<close>

record budget =
  max_turns :: "nat option"
  max_tokens :: "nat option"
  max_cost_usd :: "f64 option"
  max_wall_s :: "nat option"

definition budget_default :: budget where
  "budget_default = \<lparr>max_turns = Some DEFAULT_MAX_TURNS, max_tokens = None, max_cost_usd = None, max_wall_s = None\<rparr>"

definition budget_inherited :: "nat \<Rightarrow> budget \<Rightarrow> budget" where
  "budget_inherited turns b = b\<lparr>max_turns := Some turns\<rparr>"

definition budget_turns :: "nat \<Rightarrow> budget" where
  "budget_turns turns = budget_default\<lparr>max_turns := Some turns\<rparr>"

text \<open>\<open>for_startup\<close> opens a fresh pool with the mark; \<open>claim_startup\<close> takes the mark once.\<close>

definition for_startup :: pooled where
  "for_startup = pooled_new\<lparr>startup_pending := True\<rparr>"

definition claim_startup :: "budget \<Rightarrow> pooled option \<Rightarrow> budget option \<times> pooled option" where
  "claim_startup b pool =
     (case pool of
        None \<Rightarrow> (None, None)
      | Some p \<Rightarrow> (if startup_pending p then Some b else None, Some (p\<lparr>startup_pending := False\<rparr>)))"

datatype budget_stop = StopTurns | StopTokens | StopCost | StopWall | StopContextOverflow

fun stop_label :: "budget_stop \<Rightarrow> string" where
  "stop_label StopTurns = ''turn cap''"
| "stop_label StopTokens = ''token budget''"
| "stop_label StopCost = ''cost budget''"
| "stop_label StopWall = ''wall-clock limit''"
| "stop_label StopContextOverflow = ''context window (nothing left to compact)''"

record local_spend =
  local_tokens :: nat
  local_cost :: f64

definition local_default :: local_spend where
  "local_default = \<lparr>local_tokens = 0, local_cost = Fin 0\<rparr>"

record governor =
  gov_budget :: budget
  gov_turns :: nat
  finish_reserve :: bool
  finishing :: bool

definition governor_new :: "nat \<Rightarrow> budget \<Rightarrow> pooled \<Rightarrow> governor \<times> pooled" where
  "governor_new now b p = (\<lparr>gov_budget = b, gov_turns = 0, finish_reserve = False, finishing = False\<rparr>, snd (pool_start now p))"

definition reserve_for_finish :: "governor \<Rightarrow> governor" where
  "reserve_for_finish g = g\<lparr>finish_reserve := True\<rparr>"

definition capped_requests :: "governor \<Rightarrow> bool" where
  "capped_requests g \<longleftrightarrow> max_cost_usd (gov_budget g) \<noteq> None \<or> max_tokens (gov_budget g) \<noteq> None"

definition requires_pricing :: "governor \<Rightarrow> bool" where
  "requires_pricing g \<longleftrightarrow> max_cost_usd (gov_budget g) \<noteq> None"

definition working_share :: "rounding \<Rightarrow> governor \<Rightarrow> pooled \<Rightarrow> f64" where
  "working_share rnd g p =
     (let begun = 0 < pool_tokens p \<or> 0 < reserved_tokens p \<or> f_lt (Fin 0) (pool_cost p) \<or> f_lt (Fin 0) (reserved_cost p)
      in if finish_reserve g \<and> \<not> finishing g \<and> begun then rnd (19 / 20) else rnd 1)"

text \<open>The token ceiling a working request is held to.\<close>

definition share_of :: "rounding \<Rightarrow> nat \<Rightarrow> f64 \<Rightarrow> nat" where
  "share_of rnd mx share = f_floor_u64 (f_mul rnd (f_of_nat rnd mx) share)"

definition request_cost :: "rounding \<Rightarrow> nat \<Rightarrow> nat \<Rightarrow> pricing \<Rightarrow> f64" where
  "request_cost rnd prompt output_toks price =
     f_div rnd (f_add rnd (f_mul rnd (f_of_nat rnd prompt) (input_per_mtok price))
                  (f_mul rnd (f_of_nat rnd output_toks) (output_per_mtok price))) million"

definition input_cost :: "rounding \<Rightarrow> nat \<Rightarrow> pricing \<Rightarrow> f64" where
  "input_cost rnd prompt price = f_div rnd (f_mul rnd (f_of_nat rnd prompt) (input_per_mtok price)) million"

text \<open>Output tokens a sum of money still pays for.\<close>

definition paid_tokens :: "rounding \<Rightarrow> f64 \<Rightarrow> pricing \<Rightarrow> nat" where
  "paid_tokens rnd left price = f_floor_u64 (f_div rnd (f_mul rnd left million) (output_per_mtok price))"

definition output_room :: "rounding \<Rightarrow> governor \<Rightarrow> pooled \<Rightarrow> nat \<Rightarrow> pricing option \<Rightarrow> nat option" where
  "output_room rnd g p prompt price =
     (let share = working_share rnd g p;
          toks = map_option (\<lambda>mx.
            share_of rnd mx share - (pool_tokens p + reserved_tokens p + prompt) mod 2 ^ 64) (max_tokens (gov_budget g));
          paid = (case (max_cost_usd (gov_budget g), price) of
            (Some mx, Some pr) \<Rightarrow>
              (let left = f_sub rnd (f_sub rnd (f_sub rnd (f_mul rnd mx share) (pool_cost p)) (reserved_cost p))
                     (input_cost rnd prompt pr)
               in if f_lt (Fin 0) (output_per_mtok pr) then Some (paid_tokens rnd (f_max left (Fin 0)) pr) else None)
          | _ \<Rightarrow> None)
      in (case (toks, paid) of
            (Some t, Some q) \<Rightarrow> Some (min t q)
          | (room, None) \<Rightarrow> room
          | (None, room) \<Rightarrow> room))"

text \<open>\<open>begin_wrap_up\<close>: the size of the one short handover, or None.\<close>

definition begin_wrap_up :: "rounding \<Rightarrow> governor \<Rightarrow> pooled \<Rightarrow> nat \<Rightarrow> pricing option \<Rightarrow> (nat \<times> governor) option" where
  "begin_wrap_up rnd g p prompt price =
     (if finishing g \<or> \<not> capped_requests g then None
      else
        let cap0 = (case max_tokens (gov_budget g) of
              None \<Rightarrow> 512
            | Some mx \<Rightarrow> min 512 (mx - sat_add 64 (pool_tokens p) (reserved_tokens p) - prompt));
            cap = (case max_cost_usd (gov_budget g) of
              None \<Rightarrow> Some cap0
            | Some mx \<Rightarrow> (case price of
                None \<Rightarrow> None
              | Some pr \<Rightarrow>
                  (let remaining = f_sub rnd (f_sub rnd (f_sub rnd mx (pool_cost p)) (reserved_cost p)) (input_cost rnd prompt pr)
                   in if \<not> f_finite remaining \<or> f_lt remaining (Fin 0) then None
                      else if f_lt (Fin 0) (output_per_mtok pr) then Some (min cap0 (paid_tokens rnd remaining pr))
                      else Some cap0)))
        in (case cap of None \<Rightarrow> None | Some n \<Rightarrow> if n = 0 then None else Some (n, g\<lparr>finishing := True\<rparr>)))"

definition bad_cost_cap :: "governor \<Rightarrow> bool" where
  "bad_cost_cap g = (case max_cost_usd (gov_budget g) of Some n \<Rightarrow> \<not> f_finite n \<or> f_lt n (Fin 0) | None \<Rightarrow> False)"

text \<open>What counts against the ceilings; reading it starts the pool's clock.\<close>

definition gov_spent :: "rounding \<Rightarrow> nat \<Rightarrow> pooled \<Rightarrow> (nat \<times> f64 \<times> nat) \<times> pooled" where
  "gov_spent rnd now p =
     (let (t, p') = pool_start now p
      in ((sat_add 64 (pool_tokens p) (reserved_tokens p), f_add rnd (pool_cost p) (reserved_cost p), now - t), p'))"

definition gov_check :: "rounding \<Rightarrow> nat \<Rightarrow> governor \<Rightarrow> pooled \<Rightarrow> budget_stop option" where
  "gov_check rnd now g p =
     (let b = gov_budget g; (toks, cost, elapsed) = fst (gov_spent rnd now p) in
      if bad_cost_cap g then Some StopCost
      else if (case max_turns b of Some m \<Rightarrow> m \<le> gov_turns g | None \<Rightarrow> False) then Some StopTurns
      else if (case max_tokens b of Some m \<Rightarrow> m \<le> toks | None \<Rightarrow> False) then Some StopTokens
      else if (case max_cost_usd b of Some m \<Rightarrow> f_le m cost | None \<Rightarrow> False) then Some StopCost
      else if (case max_wall_s b of Some m \<Rightarrow> m \<le> elapsed | None \<Rightarrow> False) then Some StopWall
      else None)"

definition record_turn :: "governor \<Rightarrow> governor" where
  "record_turn g = g\<lparr>gov_turns := sat_add 32 (gov_turns g) 1\<rparr>"

text \<open>\<open>deadline\<close>; a sum past the range of the clock would be the start itself, which 64-bit seconds rule out here.\<close>

definition gov_deadline :: "nat \<Rightarrow> governor \<Rightarrow> pooled \<Rightarrow> nat option" where
  "gov_deadline now g p = map_option (\<lambda>wall. fst (pool_start now p) + wall) (max_wall_s (gov_budget g))"

section \<open>Reservations\<close>

record reservation =
  rv_tokens :: nat
  rv_cost :: f64
  enforce_tokens :: bool
  enforce_cost :: bool
  rv_indicative :: bool

definition reserve_model ::
  "rounding \<Rightarrow> governor \<Rightarrow> nat option \<Rightarrow> nat option \<Rightarrow> pricing option \<Rightarrow> pooled \<Rightarrow> budget_stop + reservation \<times> pooled" where
  "reserve_model rnd g prompt_toks output_toks price p =
     (let b = gov_budget g in
      if bad_cost_cap g then Inl StopCost
      else if max_tokens b \<noteq> None \<and> (prompt_toks = None \<or> output_toks = None) then Inl StopTokens
      else if max_cost_usd b \<noteq> None \<and> (prompt_toks = None \<or> output_toks = None \<or> price = None) then Inl StopCost
      else
        let prompt = (case prompt_toks of Some n \<Rightarrow> n | None \<Rightarrow> 0);
            out = (case output_toks of Some n \<Rightarrow> n | None \<Rightarrow> 0);
            toks = sat_add 64 prompt out;
            cost = (case price of Some pr \<Rightarrow> request_cost rnd prompt out pr | None \<Rightarrow> Fin 0);
            share = working_share rnd g p
        in if \<not> f_finite cost \<or> f_negative cost then Inl StopCost
           else if (case max_tokens b of
                Some mx \<Rightarrow> share_of rnd mx share < sat_add 64 (sat_add 64 (pool_tokens p) (reserved_tokens p)) toks
              | None \<Rightarrow> False) then Inl StopTokens
           else if (case max_cost_usd b of
                Some mx \<Rightarrow> f_lt (f_mul rnd mx share) (f_add rnd (f_add rnd (pool_cost p) (reserved_cost p)) cost)
              | None \<Rightarrow> False) then Inl StopCost
           else Inr (\<lparr>rv_tokens = toks, rv_cost = cost, enforce_tokens = (max_tokens b \<noteq> None),
                       enforce_cost = (max_cost_usd b \<noteq> None),
                       rv_indicative = (case price of Some pr \<Rightarrow> pr_indicative pr | None \<Rightarrow> False)\<rparr>,
                     p\<lparr>reserved_tokens := sat_add 64 (reserved_tokens p) toks,
                        reserved_cost := f_add rnd (reserved_cost p) cost\<rparr>))"

text \<open>\<open>settle\<close> of a reservation that is still live; a settled one is gone, so it is settled once.\<close>

definition settle :: "rounding \<Rightarrow> reservation \<Rightarrow> nat \<Rightarrow> f64 \<Rightarrow> pooled \<Rightarrow> local_spend \<Rightarrow> pooled \<times> local_spend" where
  "settle rnd r toks cost p l =
     (p\<lparr>reserved_tokens := reserved_tokens p - rv_tokens r,
         reserved_cost := f_max (f_sub rnd (reserved_cost p) (rv_cost r)) (Fin 0),
         pool_tokens := sat_add 64 (pool_tokens p) toks,
         pool_cost := f_add rnd (pool_cost p) cost,
         pool_indicative := (pool_indicative p \<or> (rv_indicative r \<and> f_lt (Fin 0) cost))\<rparr>,
      l\<lparr>local_tokens := sat_add 64 (local_tokens l) toks, local_cost := f_add rnd (local_cost l) cost\<rparr>)"

definition usage_measured :: "usage \<Rightarrow> bool" where
  "usage_measured u \<longleftrightarrow> prompt_tokens u \<noteq> 0 \<or> completion_tokens u \<noteq> 0 \<or> total_tokens u \<noteq> 0"

text \<open>What a settled request is charged: the usage that was reported, else the whole reservation.\<close>

definition charge :: "rounding \<Rightarrow> reservation \<Rightarrow> usage option \<Rightarrow> pricing option \<Rightarrow> nat \<times> f64" where
  "charge rnd r u price =
     (case u of
        Some w \<Rightarrow>
          if usage_measured w
          then (max (total_tokens w) (sat_add 32 (prompt_tokens w) (completion_tokens w)),
                case price of Some pr \<Rightarrow> pricing_cost rnd pr w | None \<Rightarrow> rv_cost r)
          else (rv_tokens r, rv_cost r)
      | None \<Rightarrow> (rv_tokens r, rv_cost r))"

definition EPSILON :: f64 where
  "EPSILON = Fin (1 / 2 ^ 52)"

definition reconcile ::
  "rounding \<Rightarrow> reservation \<Rightarrow> usage option \<Rightarrow> pricing option \<Rightarrow> pooled \<Rightarrow> local_spend \<Rightarrow>
   (budget_stop + unit) \<times> pooled \<times> local_spend" where
  "reconcile rnd r u price p l =
     (let (toks, cost) = charge rnd r u price in
      (if enforce_tokens r \<and> rv_tokens r < toks then Inl StopTokens
       else if enforce_cost r \<and> f_lt (f_add rnd (rv_cost r) EPSILON) cost then Inl StopCost
       else Inr (), settle rnd r toks cost p l))"

definition reconcile_attempt ::
  "rounding \<Rightarrow> reservation \<Rightarrow> usage option \<Rightarrow> pricing option \<Rightarrow> provider_error option \<Rightarrow> pooled \<Rightarrow> local_spend \<Rightarrow>
   (budget_stop + unit) \<times> pooled \<times> local_spend" where
  "reconcile_attempt rnd r u price err p l =
     (if \<not> (case u of Some w \<Rightarrow> usage_measured w | None \<Rightarrow> False)
         \<and> (case err of Some e \<Rightarrow> billing_rejected e | None \<Rightarrow> False)
      then (Inr (), settle rnd r 0 (Fin 0) p l)
      else reconcile rnd r u price p l)"

definition drop_reservation :: "rounding \<Rightarrow> reservation \<Rightarrow> pooled \<Rightarrow> local_spend \<Rightarrow> pooled \<times> local_spend" where
  "drop_reservation rnd r p l = settle rnd r (rv_tokens r) (rv_cost r) p l"

definition record_tokens :: "rounding \<Rightarrow> nat \<Rightarrow> f64 \<Rightarrow> pooled \<Rightarrow> local_spend \<Rightarrow> pooled \<times> local_spend" where
  "record_tokens rnd toks cost p l =
     (p\<lparr>pool_tokens := sat_add 64 (pool_tokens p) toks, pool_cost := f_add rnd (pool_cost p) cost\<rparr>,
      l\<lparr>local_tokens := sat_add 64 (local_tokens l) toks, local_cost := f_add rnd (local_cost l) cost\<rparr>)"

section \<open>A tree of agents on one pool\<close>

text \<open>Every session keeps its tally; the reservations that are live are listed with their session.\<close>

record budget_tree =
  bt_pool :: pooled
  bt_locals :: "nat \<Rightarrow> local_spend"
  bt_live :: "(nat \<times> reservation) list"

definition tree_new :: budget_tree where
  "tree_new = \<lparr>bt_pool = pooled_new, bt_locals = (\<lambda>_. local_default), bt_live = []\<rparr>"

datatype budget_op =
    BReserve nat governor "nat option" "nat option" "pricing option"
  | BReconcile nat "usage option" "pricing option" "provider_error option"
  | BDrop nat
  | BCharge nat nat f64

text \<open>The \<open>k\<close>th live reservation is settled by \<open>f\<close> and gone.\<close>

definition settle_live :: "(reservation \<Rightarrow> pooled \<Rightarrow> local_spend \<Rightarrow> pooled \<times> local_spend) \<Rightarrow> nat \<Rightarrow> budget_tree \<Rightarrow> budget_tree" where
  "settle_live f k t =
     (if length (bt_live t) \<le> k then t
      else
        let (session, r) = bt_live t ! k;
            (p, l) = f r (bt_pool t) (bt_locals t session)
        in t\<lparr>bt_pool := p, bt_locals := (bt_locals t)(session := l), bt_live := remove_at k (bt_live t)\<rparr>)"

fun tree_step :: "rounding \<Rightarrow> budget_op \<Rightarrow> budget_tree \<Rightarrow> budget_tree" where
  "tree_step rnd (BReserve session g prompt out price) t =
     (case reserve_model rnd g prompt out price (bt_pool t) of
        Inl _ \<Rightarrow> t
      | Inr (r, p) \<Rightarrow> t\<lparr>bt_pool := p, bt_live := bt_live t @ [(session, r)]\<rparr>)"
| "tree_step rnd (BReconcile k u price err) t =
     settle_live (\<lambda>r p l. snd (reconcile_attempt rnd r u price err p l)) k t"
| "tree_step rnd (BDrop k) t = settle_live (drop_reservation rnd) k t"
| "tree_step rnd (BCharge session toks cost) t =
     (let (p, l) = record_tokens rnd toks cost (bt_pool t) (bt_locals t session)
      in t\<lparr>bt_pool := p, bt_locals := (bt_locals t)(session := l)\<rparr>)"

text \<open>What an operation charges, and how much of that no reservation had covered.\<close>

definition attempt_charge :: "rounding \<Rightarrow> reservation \<Rightarrow> usage option \<Rightarrow> pricing option \<Rightarrow> provider_error option \<Rightarrow> nat" where
  "attempt_charge rnd r u price err =
     (if \<not> (case u of Some w \<Rightarrow> usage_measured w | None \<Rightarrow> False)
         \<and> (case err of Some e \<Rightarrow> billing_rejected e | None \<Rightarrow> False) then 0
      else fst (charge rnd r u price))"

fun op_charge :: "rounding \<Rightarrow> budget_op \<Rightarrow> budget_tree \<Rightarrow> nat \<times> nat" where
  "op_charge rnd (BReserve _ _ _ _ _) t = (0, 0)"
| "op_charge rnd (BReconcile k u price err) t =
     (if length (bt_live t) \<le> k then (0, 0)
      else (let r = snd (bt_live t ! k); c = attempt_charge rnd r u price err in (c, c - rv_tokens r)))"
| "op_charge rnd (BDrop k) t = (if length (bt_live t) \<le> k then (0, 0) else (rv_tokens (snd (bt_live t ! k)), 0))"
| "op_charge rnd (BCharge session toks cost) t = (toks, toks)"

text \<open>The tree after a sequence of operations, all that was charged and all that no reservation covered.\<close>

fun tree_run :: "rounding \<Rightarrow> budget_op list \<Rightarrow> budget_tree \<Rightarrow> budget_tree \<times> nat \<times> nat" where
  "tree_run rnd [] t = (t, 0, 0)"
| "tree_run rnd (op # ops) t =
     (let (t', charged, excess) = tree_run rnd ops (tree_step rnd op t); (c, e) = op_charge rnd op t
      in (t', c + charged, e + excess))"

section \<open>Lemmas\<close>

text \<open>What the code relies on of IEEE 754 rounding: it keeps the order, and it is exact on whole numbers up to \<open>2 ^ 53\<close>.\<close>

definition rounds_well :: "rounding \<Rightarrow> bool" where
  "rounds_well rnd \<longleftrightarrow> (\<forall>x y. x \<le> y \<longrightarrow> f_le (rnd x) (rnd y)) \<and> (\<forall>n \<le> 2 ^ 53. rnd (of_nat n) = Fin (of_nat n))"

lemma f_le_Fin [simp]: "f_le x (Fin b) \<longleftrightarrow> x = NInf \<or> (\<exists>a. x = Fin a \<and> a \<le> b)"
  by (cases x) (auto simp: f_le_def f_lt_def)

lemma f_floor_u64_le: "f_le x (Fin (of_nat n)) \<Longrightarrow> f_floor_u64 x \<le> n"
  by (auto simp: f_floor_u64_def min_le_iff_disj nat_le_iff floor_le_iff)

lemma share_of_le:
  assumes "rounds_well rnd" "mx \<le> 2 ^ 53" "c \<le> 1" "0 \<le> c"
  shows "share_of rnd mx (rnd c) \<le> mx"
proof -
  have mono: "\<And>x y. x \<le> y \<Longrightarrow> f_le (rnd x) (rnd y)" and exact: "rnd (of_nat mx) = Fin (of_nat mx)"
    and one: "rnd 1 = Fin 1"
    using assms(1,2) unfolding rounds_well_def by (auto dest: spec [of _ 1])
  have "f_le (rnd c) (Fin 1)" using mono [OF assms(3)] by (simp add: one)
  then consider "rnd c = NInf" | d where "rnd c = Fin d" "d \<le> 1" by auto
  then have "f_le (f_mul rnd (f_of_nat rnd mx) (rnd c)) (Fin (of_nat mx)) \<or>
      f_floor_u64 (f_mul rnd (f_of_nat rnd mx) (rnd c)) = 0"
  proof cases
    case 1
    then show ?thesis by (simp add: f_mul_def f_of_nat_def exact f_inf_def f_floor_u64_def)
  next
    case 2
    have "of_nat mx * d \<le> of_nat mx" using 2(2) by (simp add: mult_left_le)
    from mono [OF this] show ?thesis using 2 by (simp add: f_mul_def f_of_nat_def exact)
  qed
  then show ?thesis unfolding share_of_def using f_floor_u64_le by fastforce
qed

lemma working_share_le:
  assumes "rounds_well rnd" "mx \<le> 2 ^ 53"
  shows "share_of rnd mx (working_share rnd g p) \<le> mx"
  using share_of_le [OF assms, of "19 / 20"] share_of_le [OF assms, of 1] by (simp add: working_share_def Let_def)

definition live_tokens :: "budget_tree \<Rightarrow> nat" where
  "live_tokens t = sum_list (map (rv_tokens \<circ> snd) (bt_live t))"

lemma sum_remove_at:
  "k < length xs \<Longrightarrow> sum_list (map f (remove_at k xs)) + f (xs ! k) = (sum_list (map f xs) :: nat)"
  by (subst (3) id_take_nth_drop [of k xs]) (simp_all add: remove_at_def)

lemma reserve_model_fits:
  assumes "rounds_well rnd" "max_tokens (gov_budget g) = Some mx" "mx \<le> 2 ^ 53"
    and "reserve_model rnd g prompt out price p = Inr (r, p')"
  shows "pool_tokens p' = pool_tokens p" "reserved_tokens p' = reserved_tokens p + rv_tokens r"
    "pool_tokens p' + reserved_tokens p' \<le> mx"
proof -
  have le: "sat_add 64 (sat_add 64 (pool_tokens p) (reserved_tokens p)) (rv_tokens r) \<le> mx"
    using assms(4) working_share_le [OF assms(1,3), of g p]
    by (auto simp: reserve_model_def assms(2) Let_def split: if_splits)
  then have fits: "pool_tokens p + reserved_tokens p + rv_tokens r \<le> mx"
    using assms(3) by (auto simp: sat_add_def min_def split: if_splits)
  have p': "pool_tokens p' = pool_tokens p" "reserved_tokens p' = sat_add 64 (reserved_tokens p) (rv_tokens r)"
    using assms(4) by (auto simp: reserve_model_def Let_def split: if_splits)
  show "pool_tokens p' = pool_tokens p" by (rule p'(1))
  show res: "reserved_tokens p' = reserved_tokens p + rv_tokens r"
    using p'(2) fits assms(3) by (simp add: sat_add_def)
  show "pool_tokens p' + reserved_tokens p' \<le> mx" using fits p'(1) res by simp
qed

lemma settle_pool [simp]:
  "pool_tokens (fst (settle rnd r toks cost p l)) = sat_add 64 (pool_tokens p) toks"
  "reserved_tokens (fst (settle rnd r toks cost p l)) = reserved_tokens p - rv_tokens r"
  by (simp_all add: settle_def)

lemma attempt_pool:
  "pool_tokens (fst (snd (reconcile_attempt rnd r u price err p l))) = sat_add 64 (pool_tokens p) (attempt_charge rnd r u price err)"
  "reserved_tokens (fst (snd (reconcile_attempt rnd r u price err p l))) = reserved_tokens p - rv_tokens r"
  by (simp_all add: reconcile_attempt_def attempt_charge_def reconcile_def split: prod.splits)

lemma settle_live_parts:
  assumes "k < length (bt_live t)" "\<And>r p l. pool_tokens (fst (f r p l)) = sat_add 64 (pool_tokens p) (c r)"
    "\<And>r p l. reserved_tokens (fst (f r p l)) = reserved_tokens p - rv_tokens r"
  shows "pool_tokens (bt_pool (settle_live f k t)) = sat_add 64 (pool_tokens (bt_pool t)) (c (snd (bt_live t ! k)))"
    "reserved_tokens (bt_pool (settle_live f k t)) = reserved_tokens (bt_pool t) - rv_tokens (snd (bt_live t ! k))"
    "live_tokens (settle_live f k t) + rv_tokens (snd (bt_live t ! k)) = live_tokens t"
  using assms(1) assms(2,3) [of "snd (bt_live t ! k)" "bt_pool t"] sum_remove_at [OF assms(1), of "rv_tokens \<circ> snd"]
  by (auto simp: settle_live_def live_tokens_def Let_def split: prod.splits) (metis fst_conv)+

text \<open>The ledger's invariant: what is reserved is what is live, and spend with it stays under the cap, but for
  what no reservation covered.\<close>

definition ledger_ok :: "nat \<Rightarrow> budget_tree \<Rightarrow> nat \<Rightarrow> nat \<Rightarrow> bool" where
  "ledger_ok mx t charged excess \<longleftrightarrow> reserved_tokens (bt_pool t) = live_tokens t \<and>
     pool_tokens (bt_pool t) = min charged (2 ^ 64 - 1) \<and> charged + live_tokens t \<le> mx + excess"

fun capped_at :: "nat \<Rightarrow> budget_op \<Rightarrow> bool" where
  "capped_at mx (BReserve _ g _ _ _) = (max_tokens (gov_budget g) = Some mx)"
| "capped_at mx _ = True"

lemma ledger_settle:
  assumes "ledger_ok mx t C E" "k < length (bt_live t)"
    and f: "\<And>r p l. pool_tokens (fst (f r p l)) = sat_add 64 (pool_tokens p) (c r)"
      "\<And>r p l. reserved_tokens (fst (f r p l)) = reserved_tokens p - rv_tokens r"
  shows "ledger_ok mx (settle_live f k t) (C + c (snd (bt_live t ! k))) (E + (c (snd (bt_live t ! k)) - rv_tokens (snd (bt_live t ! k))))"
  using assms(1) settle_live_parts [of k t f c, OF assms(2) f] unfolding ledger_ok_def sat_add_def by linarith

lemma settle_live_none [simp]: "length (bt_live t) \<le> k \<Longrightarrow> settle_live f k t = t"
  by (simp add: settle_live_def)

lemma ledger_step:
  assumes "rounds_well rnd" "mx \<le> 2 ^ 53" "capped_at mx op" "ledger_ok mx t C E" "op_charge rnd op t = (c, e)"
  shows "ledger_ok mx (tree_step rnd op t) (C + c) (E + e)"
proof (cases op)
  case (BReserve session g prompt out price)
  show ?thesis
  proof (cases "reserve_model rnd g prompt out price (bt_pool t)")
    case Inl
    then show ?thesis using assms(4,5) BReserve by simp
  next
    case (Inr rp)
    obtain r p where rp: "rp = (r, p)" by force
    from BReserve assms(3) have cap: "max_tokens (gov_budget g) = Some mx" by simp
    note fits = reserve_model_fits [OF assms(1) cap assms(2) Inr [unfolded rp]]
    have "pool_tokens (bt_pool t) < 2 ^ 64 - 1" using fits assms(2) by simp
    then show ?thesis using assms(4,5) BReserve Inr rp fits
      by (simp add: ledger_ok_def live_tokens_def min_def split: if_splits)
  qed
next
  case (BReconcile k u price err)
  show ?thesis
  proof (cases "length (bt_live t) \<le> k")
    case True
    then show ?thesis using assms(4,5) BReconcile by simp
  next
    case False
    have "ledger_ok mx (settle_live (\<lambda>r p l. snd (reconcile_attempt rnd r u price err p l)) k t)
        (C + attempt_charge rnd (snd (bt_live t ! k)) u price err)
        (E + (attempt_charge rnd (snd (bt_live t ! k)) u price err - rv_tokens (snd (bt_live t ! k))))"
      using False by (intro ledger_settle [OF assms(4), where c = "\<lambda>r. attempt_charge rnd r u price err"]) (simp_all add: attempt_pool)
    then show ?thesis using assms(5) BReconcile False by (auto simp: Let_def)
  qed
next
  case (BDrop k)
  show ?thesis
  proof (cases "length (bt_live t) \<le> k")
    case True
    then show ?thesis using assms(4,5) BDrop by simp
  next
    case False
    have "ledger_ok mx (settle_live (drop_reservation rnd) k t) (C + rv_tokens (snd (bt_live t ! k)))
        (E + (rv_tokens (snd (bt_live t ! k)) - rv_tokens (snd (bt_live t ! k))))"
      using False by (intro ledger_settle [OF assms(4), where c = rv_tokens]) (simp_all add: drop_reservation_def)
    then show ?thesis using assms(5) BDrop False by auto
  qed
next
  case (BCharge session toks cost)
  then show ?thesis using assms(4,5)
    by (auto simp: ledger_ok_def live_tokens_def record_tokens_def sat_add_def split: prod.splits)
qed

lemma ledger_run:
  assumes "rounds_well rnd" "mx \<le> 2 ^ 53" "list_all (capped_at mx) ops" "ledger_ok mx t C E"
    "tree_run rnd ops t = (t', c, e)"
  shows "ledger_ok mx t' (C + c) (E + e)"
  using assms(3-5)
proof (induction ops arbitrary: t C E c e)
  case Nil
  then show ?case by simp
next
  case (Cons op ops)
  obtain c1 e1 where ch: "op_charge rnd op t = (c1, e1)" by force
  obtain c2 e2 where r: "tree_run rnd ops (tree_step rnd op t) = (t', c2, e2)" "c = c1 + c2" "e = e1 + e2"
    using Cons.prems(3) ch by (auto split: prod.splits)
  have "ledger_ok mx (tree_step rnd op t) (C + c1) (E + e1)"
    by (rule ledger_step [OF assms(1,2) _ Cons.prems(2) ch]) (use Cons.prems(1) in simp)
  from Cons.IH [OF _ this r(1)] Cons.prems(1) show ?case by (simp add: r(2,3) add.assoc)
qed

section \<open>Properties\<close>

text \<open>C14. The token budget of a tree of agents is one ledger: whatever the sessions reserve, settle, drop or meter and
  in whatever order, the pool's reserved tokens are exactly those of the live requests, its spent
  tokens are exactly what was charged (up to the largest 64-bit count), and spent and reserved together
  never exceed the cap by more than what providers reported, or the caller metered, beyond any reservation.\<close>

theorem token_budget_is_a_ledger:
  assumes "rounds_well rnd" "mx \<le> 2 ^ 53" "list_all (capped_at mx) ops" "tree_run rnd ops tree_new = (t, charged, excess)"
  shows "reserved_tokens (bt_pool t) = sum_list (map (rv_tokens \<circ> snd) (bt_live t)) \<and>
    pool_tokens (bt_pool t) = min charged (2 ^ 64 - 1) \<and>
    charged + reserved_tokens (bt_pool t) \<le> mx + excess"
proof -
  have "ledger_ok mx tree_new 0 0" by (simp add: ledger_ok_def tree_new_def pooled_new_def live_tokens_def)
  from ledger_run [OF assms(1-3) this assms(4)] show ?thesis by (simp add: ledger_ok_def live_tokens_def)
qed

lemma rounds_well_Fin: "rounds_well Fin"
  by (simp add: rounds_well_def)

definition capped_governor :: governor where
  "capped_governor = \<lparr>gov_budget = budget_default\<lparr>max_tokens := Some 1000\<rparr>, gov_turns = 0, finish_reserve = True,
     finishing = False\<rparr>"

text \<open>Two requests are reserved against a cap of 1000, the second is refused, the first is dropped unmetered.\<close>

theorem token_budget_is_a_ledger_witness:
  "snd (tree_run Fin [BReserve 0 capped_governor (Some 500) (Some 100) None,
     BReserve 1 capped_governor (Some 500) (Some 100) None, BDrop 0] tree_new) = (600, 0) \<and> (600 :: nat) \<le> 1000"
proof -
  let ?ops = "[BReserve 0 capped_governor (Some 500) (Some 100) None,
     BReserve 1 capped_governor (Some 500) (Some 100) None, BDrop 0]"
  let ?r = "tree_run Fin ?ops tree_new"
  have ops: "list_all (capped_at 1000) ?ops" by (simp add: capped_governor_def)
  have "snd ?r = (600, 0)"
    by (simp add: capped_governor_def budget_default_def tree_new_def pooled_new_def reserve_model_def bad_cost_cap_def
        working_share_def share_of_def f_of_nat_def f_mul_def f_floor_u64_def f_finite_def f_negative_def f_lt_def
        sat_add_def Let_def settle_live_def drop_reservation_def)
  moreover have "fst (snd ?r) \<le> 1000 + snd (snd ?r)"
    using token_budget_is_a_ledger [OF rounds_well_Fin _ ops, of "fst ?r" "fst (snd ?r)" "snd (snd ?r)"] by simp
  ultimately show ?thesis by simp
qed

end
