(* ===== verification/Retries.thy ===== *)
theory Retries
  imports Prelude
begin

text \<open>
  The contract every bounded retry of the kernel keeps: a step answers a failure by trying again (and then from
  which state) or not, and whenever it tries again, something it has left has become less. \<open>retried\<close> states it,
  with the bound on tries proved once; the attempts of a model call (\<open>Attempts\<close>) and the retries of a request and of
  an empty reply (\<open>SessionLoop\<close>) provide it.
\<close>

section \<open>Tries one after another\<close>

text \<open>How often a step tries again over a run of failures, up to the first it does not retry.\<close>

fun retry_count :: "('f \<Rightarrow> 's \<Rightarrow> 's option) \<Rightarrow> 'f list \<Rightarrow> 's \<Rightarrow> nat" where
  "retry_count step [] s = 0"
| "retry_count step (f # later) s = (case step f s of None \<Rightarrow> 0 | Some s' \<Rightarrow> Suc (retry_count step later s'))"

locale retried =
  fixes step :: "'f \<Rightarrow> 's \<Rightarrow> 's option"
    and left :: "'s \<Rightarrow> nat"
    and fair :: "'f \<Rightarrow> bool"
  assumes step_less: "fair f \<Longrightarrow> step f s = Some s' \<Longrightarrow> left s' < left s"
begin

lemma tries_le: "list_all fair fs \<Longrightarrow> retry_count step fs s \<le> left s"
proof (induction fs arbitrary: s)
  case (Cons f later)
  show ?case
  proof (cases "step f s")
    case (Some s')
    have "left s' < left s" using step_less [OF _ Some] Cons.prems by simp
    then show ?thesis using Cons.IH [of s'] Cons.prems Some by simp
  qed simp
qed simp

lemma stops_when_spent: "left s = 0 \<Longrightarrow> fair f \<Longrightarrow> step f s = None"
  using step_less [of f s] by (cases "step f s") auto

end

end
