(* ===== verification/Attempts.thy ===== *)
theory Attempts
  imports Fallbacks Budgets Retries
begin

text \<open>
  The failed attempts of one model call: the error branch of \<open>run_turn\<close> in \<open>crates/kernel/src/turn.rs\<close>, which
  composes the classes of a refusal (\<open>Rejections\<close>), the recovery table (\<open>Recovery\<close>), the limits on a cut reply
  (\<open>TurnLimits\<close>) and the provider client's keys and stand-ins (\<open>Fallbacks\<close>). What the stream had shown, what the
  adapters can adjust and what a recount says are the record \<open>failed_attempt\<close>.
\<close>

section \<open>Errors of the kernel\<close>

text \<open>\<open>KernelError\<close> of \<open>errors.rs\<close>.\<close>

record unavailable_model =
  um_model :: string
  um_why :: string
  um_said :: string
  um_shown :: bool
  um_rest :: rest
  um_back :: "nat option option"

datatype kernel_error =
    KProvider string
  | KInvalidToolCall invalid_tool_call
  | KLog string
  | KInterrupted
  | KBudget budget_stop
  | KOverflow "nat option"
  | KUnsupportedImage
  | KImageSuspected string
  | KImageUnfit string
  | KTruncated string
  | KDropped string
  | KUnavailable unavailable_model
  | KCallStalled string "string list" string

definition MAX_TURN_RETRIES :: nat where "MAX_TURN_RETRIES = 5"
definition MAX_STALL_RETRIES :: nat where "MAX_STALL_RETRIES = 2"

definition BLOCKED :: string where
  "BLOCKED = ''The model's provider blocked this request under its content rules. Try rewording your message or removing sensitive attachments, or switch to another model.''"

section \<open>The state of the attempts\<close>

record attempt_state =
  at_attempt :: nat
  at_stalls :: nat
  at_cut_retries :: nat
  at_quiet :: bool
  at_out_retried :: bool
  at_reset :: bool
  at_plain :: bool
  at_stripped :: bool
  at_limit :: bool
  at_input :: "nat option"
  at_reserved :: "nat option"

definition attempt_start :: "nat option \<Rightarrow> nat option \<Rightarrow> attempt_state" where
  "attempt_start input reserved = \<lparr>at_attempt = 0, at_stalls = 0, at_cut_retries = 0, at_quiet = False, at_out_retried = False,
     at_reset = False, at_plain = False, at_stripped = False, at_limit = False, at_input = input, at_reserved = reserved\<rparr>"

record failed_attempt =
  fa_error :: provider_error
  fa_emitted :: bool
  fa_cut :: cut_off
  fa_restart :: bool
  fa_quiet :: bool
  fa_with_limit :: "nat \<Rightarrow> string + bool"
  fa_recount :: "kernel_error + nat option"
  fa_configured :: "nat option"
  fa_model_limit :: "nat option"
  fa_images_open :: bool
  fa_media :: bool
  fa_reset :: bool
  fa_plain :: bool
  fa_strip :: bool
  fa_napped :: bool
  fa_model :: string
  fa_say :: "provider_error \<Rightarrow> string"
  fa_alnum :: "string \<Rightarrow> bool"
  fa_parse :: "string \<Rightarrow> json option"

text \<open>What follows a failed attempt: another one, the error the turn ends with, or a stop during the wait.\<close>

datatype after_attempt = Again attempt_state | Failed kernel_error | Quit

definition recounted :: "failed_attempt \<Rightarrow> attempt_state \<Rightarrow> after_attempt" where
  "recounted f st = (case fa_recount f of Inl e \<Rightarrow> Failed e | Inr tokens \<Rightarrow> Again (st\<lparr>at_input := tokens\<rparr>))"

definition rewindable :: "failed_attempt \<Rightarrow> bool" where
  "rewindable f \<longleftrightarrow> \<not> fa_emitted f \<or> fa_restart f"

section \<open>A reply cut off at its limit\<close>

definition cut_attempt :: "failed_attempt \<Rightarrow> attempt_state \<Rightarrow> after_attempt" where
  "cut_attempt f st =
     (let cut = fa_cut f in
      if \<not> cut_tool_call cut
      then (if cut_text cut = [] \<and> \<not> at_quiet st \<and> rewindable f \<and> fa_quiet f
            then recounted f (st\<lparr>at_quiet := True\<rparr>)
            else Failed (KTruncated (cut_text cut)))
      else
        let room = more_room (fa_configured f) (at_reserved st) (at_cut_retries st + 1) (fa_model_limit f) in
        if at_cut_retries st < ROUNDS \<and> rewindable f
        then (case fa_with_limit f room of
                Inl e \<Rightarrow> Failed (KProvider e)
              | Inr True \<Rightarrow> recounted f (st\<lparr>at_cut_retries := at_cut_retries st + 1, at_reserved := Some room\<rparr>)
              | Inr False \<Rightarrow> Failed (KProvider CALL_STAYED_CUT))
        else Failed (KProvider CALL_STAYED_CUT))"

section \<open>What the class of the failure decides\<close>

definition output_limit_text :: "string \<Rightarrow> string" where
  "output_limit_text said = ''the provider rejected the output-token allowance; check the profile's max_output_tokens. Original rejection: '' @ said"

definition payload_text_said :: string where
  "payload_text_said = ''the provider rejected the HTTP payload size; reduce retained media or byte-heavy tool results''"

fun image_status :: "provider_error \<Rightarrow> bool" where
  "image_status (Status s _) = (s = 400 \<or> s = 415 \<or> s = 422)"
| "image_status _ = False"

text \<open>None when the failure goes on to the recovery table.\<close>

definition class_attempt :: "failed_attempt \<Rightarrow> attempt_state \<Rightarrow> after_attempt option" where
  "class_attempt f st =
     (let e = fa_error f; fresh = \<not> fa_emitted f in
      case classify (fa_parse f) e of
        InputContextOverflow limit \<Rightarrow> Some (Failed (KOverflow limit))
      | OutputLimit available \<Rightarrow>
          (case available of
             Some n \<Rightarrow>
               if fresh \<and> \<not> at_out_retried st \<and> 0 < n
               then (let safe = max (n - 64) 1 in
                     case fa_with_limit f safe of
                       Inl err \<Rightarrow> Some (Failed (KProvider err))
                     | Inr True \<Rightarrow> Some (recounted f (st\<lparr>at_out_retried := True, at_reserved := Some safe\<rparr>))
                     | Inr False \<Rightarrow> None)
               else Some (Failed (KProvider (output_limit_text (fa_say f e))))
           | None \<Rightarrow> Some (Failed (KProvider (output_limit_text (fa_say f e)))))
      | PayloadTooLarge \<Rightarrow>
          Some (Failed (if fresh \<and> fa_media f then KImageUnfit (fa_say f e) else KProvider payload_text_said))
      | ImageUnfit \<Rightarrow> if fresh \<and> fa_media f then Some (Failed (KImageUnfit (fa_say f e))) else None
      | UnsupportedImage \<Rightarrow> if fresh \<and> fa_images_open f \<and> fa_media f then Some (Failed KUnsupportedImage) else None
      | Fatal \<Rightarrow> if fresh \<and> image_status e \<and> fa_images_open f \<and> fa_media f
          then Some (Failed (KImageSuspected (fa_say f e))) else None
      | InvalidToolCall \<Rightarrow> (case e of InvalidToolCallError bad \<Rightarrow> Some (Failed (KInvalidToolCall bad)) | _ \<Rightarrow> None)
      | Transient \<Rightarrow> None)"

section \<open>Settings left out once\<close>

definition adjust_attempt :: "failed_attempt \<Rightarrow> attempt_state \<Rightarrow> bool \<times> attempt_state" where
  "adjust_attempt f st =
     (let first = rec_first (recovery_of (fa_alnum f) (fa_parse f) (fa_error f)) in
      if first = DefaultReasoning \<and> \<not> at_reset st then (fa_reset f, st\<lparr>at_reset := True\<rparr>)
      else if first = PlainSchemas \<and> \<not> at_plain st then (fa_plain f, st\<lparr>at_plain := True\<rparr>)
      else if first = StaleReasoning \<and> \<not> at_stripped st then (fa_strip f, st\<lparr>at_stripped := True\<rparr>)
      else (False, st))"

section \<open>Keys\<close>

definition error_said :: "provider_error \<Rightarrow> string" where
  "error_said e = (case e of Status _ said \<Rightarrow> to_lowercase said | Throttled _ _ said \<Rightarrow> to_lowercase said | _ \<Rightarrow> [])"

definition key_fault :: "provider_error \<Rightarrow> bool \<Rightarrow> nat option" where
  "key_fault e emitted =
     (let fault = (\<lambda>status. if status \<in> {401, 402, 403, 429} \<and> \<not> emitted
            then (let healthy = (if status = 429 then not_the_keys_limit (error_said e)
                        else if status = 403 then blocked_on_the_way (error_said e) else False)
                  in if healthy then None else Some status)
            else None)
      in case e of Status status _ \<Rightarrow> fault status | Throttled status _ _ \<Rightarrow> fault status | _ \<Rightarrow> None)"

definition once_more :: "client_env \<Rightarrow> nat \<Rightarrow> failed_attempt \<Rightarrow> attempt_state \<Rightarrow> provider_client \<Rightarrow> bool" where
  "once_more cenv now f st cl \<longleftrightarrow> key_fault (fa_error f) (fa_emitted f) = Some 429 \<and> \<not> at_limit st
     \<and> \<not> plan_limit (error_said (fa_error f)) \<and> has_another_key cenv now cl"

definition swap_key ::
  "client_env \<Rightarrow> nat \<Rightarrow> failed_attempt \<Rightarrow> attempt_state \<Rightarrow> provider_client \<Rightarrow> (nat \<times> nat) option \<times> provider_client" where
  "swap_key cenv now f st cl =
     (case (once_more cenv now f st cl, key_fault (fa_error f) (fa_emitted f)) of
        (False, Some status) \<Rightarrow> turn_to_next_key cenv now status (retry_after (fa_error f)) cl
      | _ \<Rightarrow> (None, cl))"

section \<open>Sending again\<close>

definition patience_of :: "bool \<Rightarrow> bool \<Rightarrow> attempt_state \<Rightarrow> recovery \<Rightarrow> nat" where
  "patience_of again left st row =
     (let patience = (if again then at_attempt st + 1
            else case hand_over_after row of Some tries \<Rightarrow> if left then tries else MAX_TURN_RETRIES | None \<Rightarrow> MAX_TURN_RETRIES)
      in min patience (case rec_tries row of Some tries \<Rightarrow> tries - 1 | None \<Rightarrow> patience))"

definition partial_text :: "string \<Rightarrow> string" where
  "partial_text said = said @ ''; the stream stopped after partial output and this output surface cannot rewind it safely''"

definition gave_up :: "failed_attempt \<Rightarrow> attempt_state \<Rightarrow> after_attempt" where
  "gave_up f st =
     (let e = fa_error f; row = recovery_of (fa_alnum f) (fa_parse f) e;
          stalled = is_stream_stall (fa_alnum f) (fa_parse f) e;
          said0 = (if stalled \<and> 0 < at_stalls st
            then fa_say f e @ '', '' @ decimal (at_stalls st + 1) @ '' times this turn; Medha stopped reconnecting''
            else fa_say f e);
          said = (if stand_in row = Some ''it declined to answer'' then BLOCKED @ '' Its words: '' @ said0 else said0)
      in if is_retryable (fa_alnum f) (fa_parse f) e \<and> cut_tool_call (fa_cut f) \<and> fa_restart f
         then Failed (KCallStalled (cut_text (fa_cut f)) (cut_tools (fa_cut f)) said)
         else case (stand_in row, rewindable f) of
           (Some why, True) \<Rightarrow> Failed (KUnavailable \<lparr>um_model = fa_model f, um_why = why, um_said = said,
              um_shown = fa_emitted f, um_rest = rest_of (fa_alnum f) (fa_parse f) e,
              um_back = (if comes_back row then Some (retry_after e) else None)\<rparr>)
         | _ \<Rightarrow> Failed (KProvider said))"

definition send_again ::
  "client_env \<Rightarrow> nat \<Rightarrow> failed_attempt \<Rightarrow> attempt_state \<Rightarrow> bool \<Rightarrow> provider_client \<Rightarrow> after_attempt \<times> provider_client" where
  "send_again cenv now f st again cl =
     (let e = fa_error f; row = recovery_of (fa_alnum f) (fa_parse f) e;
          (left, cl1) = (if again \<or> hand_over_after row = None then (False, cl) else has_stand_in_left cenv cl);
          patience = patience_of again left st row;
          stalled = is_stream_stall (fa_alnum f) (fa_parse f) e
      in if is_retryable (fa_alnum f) (fa_parse f) e \<and> at_attempt st < min patience MAX_TURN_RETRIES
            \<and> (\<not> stalled \<or> at_stalls st < MAX_STALL_RETRIES)
         then (if fa_emitted f \<and> \<not> fa_restart f then Failed (KProvider (partial_text (fa_say f e)))
               else if fa_napped f
               then Again (st\<lparr>at_attempt := at_attempt st + 1, at_stalls := at_stalls st + (if stalled then 1 else 0)\<rparr>)
               else Quit, cl1)
         else (gave_up f st, cl1))"

text \<open>From the recovery table on: a setting left out, a kept text, another key, another try, or the end.\<close>

definition table_attempt ::
  "client_env \<Rightarrow> nat \<Rightarrow> failed_attempt \<Rightarrow> attempt_state \<Rightarrow> provider_client \<Rightarrow> after_attempt \<times> provider_client" where
  "table_attempt cenv now f st cl =
     (let (adjusted, st1) = adjust_attempt f st; e = fa_error f; cut = fa_cut f in
      if adjusted \<and> \<not> fa_emitted f then (recounted f st1, cl)
      else if is_retryable (fa_alnum f) (fa_parse f) e \<and> trim (cut_text cut) \<noteq> [] \<and> (\<not> cut_tool_call cut \<or> fa_restart f)
      then (Failed (if \<not> cut_tool_call cut then KDropped (cut_text cut)
                    else KCallStalled (cut_text cut) (cut_tools cut) (fa_say f e)), cl)
      else
        let (swapped, cl1) = swap_key cenv now f st1 cl in
        if swapped \<noteq> None then (Again (st1\<lparr>at_limit := False\<rparr>), cl1)
        else
          let again = once_more cenv now f st1 cl
          in send_again cenv now f (st1\<lparr>at_limit := (at_limit st1 \<or> again)\<rparr>) again cl1)"

definition attempt_step ::
  "client_env \<Rightarrow> nat \<Rightarrow> failed_attempt \<Rightarrow> attempt_state \<Rightarrow> provider_client \<Rightarrow> after_attempt \<times> provider_client" where
  "attempt_step cenv now f st cl =
     (if fa_error f = Truncated then (cut_attempt f st, cl)
      else case class_attempt f st of
        Some outcome \<Rightarrow> (outcome, cl)
      | None \<Rightarrow> table_attempt cenv now f st cl)"

section \<open>Attempts one after another\<close>

text \<open>The state a failed attempt is tried again from, when it is.\<close>

definition attempt_again ::
  "client_env \<Rightarrow> nat \<times> failed_attempt \<Rightarrow> attempt_state \<times> provider_client \<Rightarrow> (attempt_state \<times> provider_client) option" where
  "attempt_again cenv x s =
     (case attempt_step cenv (fst x) (snd x) (fst s) (snd s) of
        (Again st', cl') \<Rightarrow> Some (st', cl')
      | _ \<Rightarrow> None)"

section \<open>Lemmas\<close>

text \<open>What is left of the attempts: each adjustment once, each cut call and each failure a few times.\<close>

definition attempts_left :: "attempt_state \<Rightarrow> nat" where
  "attempts_left st = (if at_quiet st then 0 else 1) + (ROUNDS - at_cut_retries st) + (if at_out_retried st then 0 else 1)
     + (if at_reset st then 0 else 1) + (if at_plain st then 0 else 1) + (if at_stripped st then 0 else 1)
     + (MAX_TURN_RETRIES - at_attempt st)"

text \<open>The keys a refusal puts to rest stay out until a time.\<close>

definition rest_lasts :: "nat \<Rightarrow> nat \<times> failed_attempt \<Rightarrow> bool" where
  "rest_lasts until_t x \<longleftrightarrow> fst x \<le> until_t \<and>
     (case key_fault (fa_error (snd x)) (fa_emitted (snd x)) of
        Some status \<Rightarrow> until_t < fst x + key_rest status (retry_after (fa_error (snd x))) | None \<Rightarrow> True)"

lemma attempts_left_fields [simp]:
  "attempts_left (st\<lparr>at_input := a\<rparr>) = attempts_left st" "attempts_left (st\<lparr>at_reserved := b\<rparr>) = attempts_left st"
  "attempts_left (st\<lparr>at_limit := c\<rparr>) = attempts_left st" "attempts_left (st\<lparr>at_stalls := d\<rparr>) = attempts_left st"
  by (simp_all add: attempts_left_def)

lemma attempts_left_drops [simp]:
  "\<not> at_quiet st \<Longrightarrow> attempts_left (st\<lparr>at_quiet := True\<rparr>) < attempts_left st"
  "at_cut_retries st < ROUNDS \<Longrightarrow> attempts_left (st\<lparr>at_cut_retries := Suc (at_cut_retries st)\<rparr>) < attempts_left st"
  "\<not> at_out_retried st \<Longrightarrow> attempts_left (st\<lparr>at_out_retried := True\<rparr>) < attempts_left st"
  "\<not> at_reset st \<Longrightarrow> attempts_left (st\<lparr>at_reset := True\<rparr>) < attempts_left st"
  "\<not> at_plain st \<Longrightarrow> attempts_left (st\<lparr>at_plain := True\<rparr>) < attempts_left st"
  "\<not> at_stripped st \<Longrightarrow> attempts_left (st\<lparr>at_stripped := True\<rparr>) < attempts_left st"
  "at_attempt st < MAX_TURN_RETRIES \<Longrightarrow> attempts_left (st\<lparr>at_attempt := Suc (at_attempt st)\<rparr>) < attempts_left st"
  by (simp_all add: attempts_left_def)

lemma recounted_Again [simp]: "recounted f st = Again st' \<longleftrightarrow> (\<exists>n. fa_recount f = Inr n \<and> st' = st\<lparr>at_input := n\<rparr>)"
  by (auto simp: recounted_def split: sum.splits)

lemma cut_attempt_less: "cut_attempt f st = Again st' \<Longrightarrow> attempts_left st' < attempts_left st"
  by (auto simp: cut_attempt_def Let_def split: if_splits sum.splits bool.splits)

lemma class_attempt_less: "class_attempt f st = Some (Again st') \<Longrightarrow> attempts_left st' < attempts_left st"
  by (auto simp: class_attempt_def Let_def
      split: if_splits sum.splits bool.splits provider_failure.splits option.splits provider_error.splits)

lemma adjust_attempt_less:
  "adjust_attempt f st = (adjusted, st') \<Longrightarrow> attempts_left st' \<le> attempts_left st \<and> (adjusted \<longrightarrow> attempts_left st' < attempts_left st)"
  by (auto simp: adjust_attempt_def Let_def intro: less_imp_le split: if_splits)

lemma key_slack_listed [simp]: "key_slack cenv t (snd (has_stand_in_left cenv cl)) = key_slack cenv t cl"
proof -
  have eqs: "cl_conn (snd (has_stand_in_left cenv cl)) = cl_conn cl" "cl_resting (snd (has_stand_in_left cenv cl)) = cl_resting cl"
    by (simp_all add: has_stand_in_left_def read_fallbacks_def Let_def)
  show ?thesis unfolding key_slack_def ready_digests_def saved_keys_def eqs ..
qed

lemma gave_up_final [simp]: "gave_up f st \<noteq> Again st'"
  by (auto simp: gave_up_def Let_def split: if_splits option.splits bool.splits)

lemma send_again_less:
  assumes "send_again cenv now f st again cl = (Again st', cl')"
  shows "attempts_left st' < attempts_left st \<and> key_slack cenv t cl' = key_slack cenv t cl"
proof -
  have "cl' = (if again \<or> hand_over_after (recovery_of (fa_alnum f) (fa_parse f) (fa_error f)) = None then cl
      else snd (has_stand_in_left cenv cl))"
    using assms unfolding send_again_def Let_def by (auto split: if_splits prod.splits)
  moreover have "attempts_left st' < attempts_left st"
    using assms unfolding send_again_def Let_def
    by (auto split: if_splits prod.splits)
  ultimately show ?thesis by auto
qed

lemma swap_key_slack:
  assumes "swap_key cenv now f st cl = (swapped, cl')" "rest_lasts t (now, f)"
  shows "key_slack cenv t cl' \<le> key_slack cenv t cl \<and> (swapped \<noteq> None \<longrightarrow> key_slack cenv t cl' < key_slack cenv t cl)"
proof (cases "once_more cenv now f st cl")
  case False
  show ?thesis
  proof (cases "key_fault (fa_error f) (fa_emitted f)")
    case (Some status)
    then have turn: "turn_to_next_key cenv now status (retry_after (fa_error f)) cl = (swapped, cl')"
      using assms(1) False by (simp add: swap_key_def)
    show ?thesis using key_slack_step [OF turn, of t] assms(2) Some by (auto simp: rest_lasts_def intro: less_imp_le)
  qed (use assms(1) False in \<open>simp add: swap_key_def\<close>)
qed (use assms(1) in \<open>simp add: swap_key_def\<close>)

lemma attempt_step_less:
  assumes "attempt_step cenv now f st cl = (Again st', cl')" "rest_lasts t (now, f)"
  shows "attempts_left st' + key_slack cenv t cl' < attempts_left st + key_slack cenv t cl"
proof (cases "fa_error f = Truncated")
  case True
  then show ?thesis using assms(1) cut_attempt_less [of f st st'] by (auto simp: attempt_step_def)
next
  case False
  show ?thesis
  proof (cases "class_attempt f st")
    case (Some outcome)
    then show ?thesis using assms(1) False class_attempt_less [of f st st'] by (auto simp: attempt_step_def)
  next
    case None
    then have tab: "table_attempt cenv now f st cl = (Again st', cl')" using assms(1) False by (simp add: attempt_step_def)
    obtain adjusted st1 where a: "adjust_attempt f st = (adjusted, st1)" by (cases "adjust_attempt f st")
    note al = adjust_attempt_less [OF a]
    obtain swapped cl1 where s: "swap_key cenv now f st1 cl = (swapped, cl1)" by (cases "swap_key cenv now f st1 cl")
    note sl = swap_key_slack [OF s assms(2)]
    consider "adjusted" "cl' = cl" "attempts_left st' = attempts_left st1"
      | "swapped \<noteq> None" "cl' = cl1" "attempts_left st' = attempts_left st1"
      | again where "send_again cenv now f (st1\<lparr>at_limit := (at_limit st1 \<or> again)\<rparr>) again cl1 = (Again st', cl')"
      using tab unfolding table_attempt_def a Let_def by (auto simp: s split: if_splits)
    then show ?thesis
    proof cases
      case 1
      then show ?thesis using al by simp
    next
      case 2
      then have "key_slack cenv t cl' < key_slack cenv t cl" "attempts_left st' \<le> attempts_left st" using al sl by simp_all
      then show ?thesis by simp
    next
      case 3
      from send_again_less [OF 3, of t] show ?thesis using al sl by simp
    qed
  qed
qed

interpretation model_call: retried "attempt_again cenv" "\<lambda>s. attempts_left (fst s) + key_slack cenv t (snd s)" "rest_lasts t"
  for cenv t
proof (unfold_locales, goal_cases)
  case (1 f s s')
  then show ?case using attempt_step_less [of cenv "fst f" "snd f" "fst s" "snd s" "fst s'" "snd s'" t]
    by (auto simp: attempt_again_def split: prod.splits after_attempt.splits)
qed

section \<open>Properties\<close>


definition lost_attempt :: failed_attempt where
  "lost_attempt = \<lparr>fa_error = NotSent ''refused'', fa_emitted = False,
     fa_cut = \<lparr>cut_text = [], cut_tool_call = False, cut_tools = []\<rparr>, fa_restart = True, fa_quiet = False,
     fa_with_limit = (\<lambda>_. Inr False), fa_recount = Inr None, fa_configured = None, fa_model_limit = None,
     fa_images_open = False, fa_media = False, fa_reset = False, fa_plain = False, fa_strip = False, fa_napped = True,
     fa_model = ''own'', fa_say = (\<lambda>_. ''refused''), fa_alnum = (\<lambda>_. True), fa_parse = (\<lambda>_. None)\<rparr>"


text \<open>Nothing is sent twice over text a person can still see: once part of a reply has been shown on a surface
  that cannot take it back, no failure sends the request again, whatever it is.\<close>

theorem shown_text_is_not_resent:
  assumes "fa_emitted f" "\<not> fa_restart f"
  shows "fst (attempt_step cenv now f st cl) \<noteq> Again st'"
proof
  assume a: "fst (attempt_step cenv now f st cl) = Again st'"
  obtain cl' where s: "attempt_step cenv now f st cl = (Again st', cl')" using a by (metis prod.collapse)
  have no_cut: "cut_attempt f st \<noteq> Again st'"
    using assms by (auto simp: cut_attempt_def Let_def rewindable_def split: if_splits sum.splits bool.splits)
  have no_class: "class_attempt f st \<noteq> Some (Again st')"
    using assms by (auto simp: class_attempt_def Let_def
        split: if_splits sum.splits bool.splits provider_failure.splits option.splits provider_error.splits)
  have no_key: "swap_key cenv now f st1 cl = (None, cl)" for st1
  proof -
    have "key_fault (fa_error f) (fa_emitted f) = None" using assms(1) by (cases "fa_error f") (simp_all add: key_fault_def Let_def)
    then show ?thesis by (simp add: swap_key_def split: bool.split)
  qed
  have no_send: "fst (send_again cenv now f st1 again cl1) \<noteq> Again st'" for st1 again cl1
    using assms by (auto simp: send_again_def Let_def split: prod.splits if_splits)
  have "fst (table_attempt cenv now f st cl) \<noteq> Again st'"
    using assms no_send by (auto simp: table_attempt_def no_key Let_def split: prod.splits if_splits)
  then show False using s no_cut no_class by (auto simp: attempt_step_def split: if_splits option.splits)
qed

theorem shown_text_is_not_resent_witness:
  "fst (attempt_step two_models 1 (lost_attempt\<lparr>fa_emitted := True, fa_restart := False\<rparr>) (attempt_start None None) own_client)
     \<noteq> Again (attempt_start None None)"
  by (rule shown_text_is_not_resent) simp_all

end
