(* ===== verification/RequestImages.thy ===== *)
theory RequestImages
  imports Messages
begin

text \<open>
  Which stored images a request carries and in what form, \<open>crates/kernel/src/request_images.rs\<close>. The
  artifact store, the encoder and the shrinker are parameters, grouped in \<open>image_env\<close>; the side a
  server's refusal names is read with regular expressions, so it is a parameter of the callers.
\<close>

section \<open>The limits\<close>

definition IMAGE_LIMIT :: nat where "IMAGE_LIMIT = 20"
definition IMAGE_BUDGET :: nat where "IMAGE_BUDGET = 24000000"
definition IMAGE_BATCH :: nat where "IMAGE_BATCH = 8"
definition NEWEST_KEPT :: nat where "NEWEST_KEPT = 3"
definition SHRINK_TO :: nat where "SHRINK_TO = 4 * 1024 * 1024"
definition SIDE :: nat where "SIDE = 8000"
definition SMALL :: nat where "SMALL = 256 * 1024"
definition SMALL_SIDE :: nat where "SMALL_SIDE = 2048"

definition as_sent :: "nat \<Rightarrow> nat" where
  "as_sent bytes = (bytes + 2) div 3 * 4"

section \<open>The ways to send images\<close>

datatype sending = Whole | Shrunk | OneSmall | AsText

record sent =
  sent_images :: nat
  sent_largest :: nat
  sent_widest :: "nat option"
  sent_retired :: nat
  sent_unreadable :: nat

definition sent_default :: sent where
  "sent_default = \<lparr>sent_images = 0, sent_largest = 0, sent_widest = None, sent_retired = 0, sent_unreadable = 0\<rparr>"

definition one_small :: "sent \<Rightarrow> bool" where
  "one_small s \<longleftrightarrow> sent_images s = 1 \<and> sent_largest s \<le> SMALL
     \<and> (case sent_widest s of Some side \<Rightarrow> side \<le> SMALL_SIDE | None \<Rightarrow> False)"

definition after_refusal :: "sending \<Rightarrow> sent \<Rightarrow> bool \<Rightarrow> nat \<Rightarrow> sending" where
  "after_refusal way s can_shrink max_side =
     (let oversized = (SHRINK_TO < sent_largest s
            \<or> (case sent_widest s of None \<Rightarrow> True | Some side \<Rightarrow> max_side < side))
      in if way = Whole \<and> can_shrink \<and> oversized then Shrunk
         else if (way = Whole \<or> way = Shrunk) \<and> \<not> one_small s then OneSmall
         else AsText)"

section \<open>Retiring old images\<close>

record slot =
  slot_message :: nat
  slot_part :: nat
  slot_hash :: string
  slot_size :: nat
  tool_made :: bool

definition kept_sum :: "(nat \<times> nat) list \<Rightarrow> nat \<times> nat \<Rightarrow> nat \<Rightarrow> nat \<times> nat" where
  "kept_sum newest_first reserved k = foldl (\<lambda>s r. (fst s + fst r, snd s + snd r)) reserved (take k newest_first)"

definition bytes_fit :: "(nat \<times> nat) list \<Rightarrow> nat \<times> nat \<Rightarrow> nat \<Rightarrow> bool" where
  "bytes_fit newest_first reserved k \<longleftrightarrow> snd (kept_sum newest_first reserved k) \<le> IMAGE_BUDGET"

definition images_fit :: "(nat \<times> nat) list \<Rightarrow> nat \<times> nat \<Rightarrow> nat \<Rightarrow> bool" where
  "images_fit newest_first reserved k \<longleftrightarrow>
     fst (kept_sum newest_first reserved k) \<le> IMAGE_LIMIT \<and> bytes_fit newest_first reserved k"

text \<open>The loop that retires a step at a time until what is left fits or nothing more may go.\<close>

function retire_loop :: "(nat \<Rightarrow> bool) \<Rightarrow> nat \<Rightarrow> nat \<Rightarrow> nat \<Rightarrow> nat \<Rightarrow> nat" where
  "retire_loop fits tot most step retire =
     (if most \<le> retire \<or> step = 0 then retire
      else
        let retire' = min (retire + step) most
        in if fits (tot - retire') then retire' else retire_loop fits tot most step retire')"
  by pat_completeness auto

termination
  by (relation "measure (\<lambda>(_, _, most, _, retire). most - retire)") auto

declare retire_loop.simps [simp del]

definition retire_most :: "(nat \<times> nat) list \<Rightarrow> nat \<times> nat \<Rightarrow> nat" where
  "retire_most newest_first reserved =
     (let tot = length newest_first; floor_at = min NEWEST_KEPT tot
      in if \<not> images_fit newest_first reserved 0 \<and> bytes_fit newest_first reserved floor_at then tot - floor_at
         else tot)"

definition retire_count :: "(nat \<times> nat) list \<Rightarrow> nat \<times> nat \<Rightarrow> nat" where
  "retire_count newest_first reserved =
     (let tot = length newest_first in
      if images_fit newest_first reserved tot then 0
      else
        let window = (case find (images_fit newest_first reserved) (rev [0..<Suc tot]) of Some k \<Rightarrow> k | None \<Rightarrow> 0);
            step = max (min IMAGE_BATCH (window - min NEWEST_KEPT tot)) 1
        in retire_loop (images_fit newest_first reserved) tot (retire_most newest_first reserved) step 0)"

text \<open>One entry per tool result, oldest first, and what the person's own images take.\<close>

definition tally :: "slot \<Rightarrow> (nat \<times> nat \<times> nat) list \<times> nat \<times> nat \<Rightarrow> (nat \<times> nat \<times> nat) list \<times> nat \<times> nat" where
  "tally s acc =
     (case acc of (results, count, bytes) \<Rightarrow>
        if results = [] then
          (if \<not> tool_made s then (results, count + 1, bytes + slot_size s)
           else ([(slot_message s, 1, slot_size s)], count, bytes))
        else if \<not> tool_made s then (results, count + 1, bytes + slot_size s)
        else (case last results of (m, n, b) \<Rightarrow>
                if m = slot_message s then (butlast results @ [(m, n + 1, b + slot_size s)], count, bytes)
                else (results @ [(slot_message s, 1, slot_size s)], count, bytes)))"

definition tool_results :: "slot list \<Rightarrow> (nat \<times> nat \<times> nat) list \<times> nat \<times> nat" where
  "tool_results slots = fold tally slots ([], 0, 0)"

definition retired :: "slot list \<Rightarrow> bool list" where
  "retired slots =
     (let (results, reserved) = tool_results slots;
          retire = retire_count (rev (map snd results)) reserved
      in map (\<lambda>s. tool_made s \<and> list_ex (\<lambda>(m, _, _). m = slot_message s) (take retire results)) slots)"

section \<open>Filling the request\<close>

record image_env =
  env_size :: "string \<Rightarrow> nat option"
  env_read :: "string \<Rightarrow> string option"
  env_base64 :: "string \<Rightarrow> string"
  env_shrink :: "(string \<Rightarrow> nat \<Rightarrow> nat \<Rightarrow> (string \<times> string \<times> nat) option option) option"

definition image_slots :: "image_env \<Rightarrow> model_message list \<Rightarrow> slot list" where
  "image_slots env messages =
     concat (map (\<lambda>(m, entry).
       List.map_filter (\<lambda>(p, part). case part of
           MediaContent media \<Rightarrow>
             (case media_src media of
                Artifact hash \<Rightarrow> Some \<lparr>slot_message = m, slot_part = p, slot_hash = hash,
                  slot_size = (case media_byte_size media of Some n \<Rightarrow> n
                               | None \<Rightarrow> (case env_size env hash of Some n \<Rightarrow> n | None \<Rightarrow> 0)),
                  tool_made = (case mm_trust entry of Some t \<Rightarrow> t \<noteq> User | None \<Rightarrow> False)\<rparr>
              | _ \<Rightarrow> None)
         | _ \<Rightarrow> None) (enumerate 0 (mm_parts entry))) (enumerate 0 messages))"

text \<open>\<open>fitted\<close>: the bytes, media type and longest side of an image brought within \<open>fit\<close>; None when the shrinker's task died.\<close>

definition fitted ::
  "image_env \<Rightarrow> string \<Rightarrow> string \<Rightarrow> nat option \<Rightarrow> (nat \<times> nat) option \<Rightarrow> (string \<times> string \<times> nat option) option" where
  "fitted env bytes kind side fit =
     (case (fit, env_shrink env) of
        (Some (budget, max_side), Some shrink) \<Rightarrow>
          if as_sent (length bytes) \<le> budget \<and> (case side of Some d \<Rightarrow> d \<le> max_side | None \<Rightarrow> False)
          then Some (bytes, kind, side)
          else (case shrink bytes (budget div 4 * 3) max_side of
                  None \<Rightarrow> None
                | Some None \<Rightarrow> Some (bytes, kind, side)
                | Some (Some (bytes', kind', side')) \<Rightarrow> Some (bytes', kind', Some side'))
      | _ \<Rightarrow> Some (bytes, kind, side))"

definition media_side :: "media_part \<Rightarrow> nat option" where
  "media_side media = (case (media_width media, media_height media) of
     (Some w, Some h) \<Rightarrow> Some (max (unat w) (unat h)) | _ \<Rightarrow> None)"

definition set_part :: "slot \<Rightarrow> content_part \<Rightarrow> model_message list \<Rightarrow> model_message list" where
  "set_part s part messages =
     (let entry = messages ! slot_message s
      in messages[slot_message s := entry\<lparr>mm_parts := (mm_parts entry)[slot_part s := part]\<rparr>])"

type_synonym ready_image = "(string \<times> string \<times> nat option) option"

text \<open>One slot: a retired image and an unreadable one become a note, any other carries its encoded bytes;
  each stored image is read and fitted once.\<close>

definition fill_slot ::
  "image_env \<Rightarrow> (nat \<times> nat) option \<Rightarrow> string \<Rightarrow> slot \<times> bool \<Rightarrow>
   model_message list \<times> sent \<times> (string \<rightharpoonup> ready_image) \<Rightarrow> model_message list \<times> sent \<times> (string \<rightharpoonup> ready_image)" where
  "fill_slot env fit why sr st =
     (case (sr, st) of ((s, retire), (messages, out, cache)) \<Rightarrow>
        if retire then (set_part s (TextPart why []) messages, out\<lparr>sent_retired := sent_retired out + 1\<rparr>, cache)
        else (case mm_parts (messages ! slot_message s) ! slot_part s of
          MediaContent media \<Rightarrow>
            (let ready = (case cache (slot_hash s) of
                   Some r \<Rightarrow> r
                 | None \<Rightarrow> (case env_read env (slot_hash s) of
                     None \<Rightarrow> None
                   | Some bytes \<Rightarrow> map_option (\<lambda>(b, k, d). (env_base64 env b, k, d))
                       (fitted env bytes (mime_type media) (media_side media) fit)));
                 cache' = cache(slot_hash s \<mapsto> ready)
             in case ready of
                  Some (data, kind, side) \<Rightarrow>
                    (set_part s (MediaContent (media\<lparr>media_src := Base64 data, mime_type := kind\<rparr>)) messages,
                     out\<lparr>sent_images := sent_images out + 1, sent_largest := max (sent_largest out) (length data),
                         sent_widest := (case (sent_widest out, side) of (Some a, Some b) \<Rightarrow> Some (max a b) | _ \<Rightarrow> None)\<rparr>,
                     cache')
                | None \<Rightarrow>
                    (set_part s (TextPart ''[image not shown: it could not be read back]'' []) messages,
                     out\<lparr>sent_unreadable := sent_unreadable out + 1\<rparr>, cache'))
        | _ \<Rightarrow> (messages, out, cache)))"

definition resolve_media :: "image_env \<Rightarrow> sending \<Rightarrow> nat \<Rightarrow> model_message list \<Rightarrow> model_message list \<times> sent" where
  "resolve_media env way max_side messages =
     (let slots = image_slots env messages;
          n = length slots;
          gone = (if way = OneSmall then map (\<lambda>at. at + 1 < n) [0..<n] else retired slots);
          why = (if way = OneSmall
                 then ''[image not sent: the server refused this request's images, so only the newest is sent]''
                 else ''[older image no longer sent, to keep the request within limits]'');
          fit = (case way of Shrunk \<Rightarrow> Some (SHRINK_TO, max_side)
                 | OneSmall \<Rightarrow> Some (SMALL, min max_side SMALL_SIDE) | _ \<Rightarrow> None);
          (messages', out, _) = fold (fill_slot env fit why) (zip slots gone)
             (messages, sent_default\<lparr>sent_widest := Some 0\<rparr>, Map.empty)
      in (messages', out))"

section \<open>Lemmas\<close>

fun ladder :: "sending \<Rightarrow> nat" where
  "ladder Whole = 0"
| "ladder Shrunk = 1"
| "ladder OneSmall = 2"
| "ladder AsText = 3"

lemma ladder_climbs: "way \<noteq> AsText \<Longrightarrow> ladder way < ladder (after_refusal way s can_shrink max_side)"
  by (cases way) (simp_all add: after_refusal_def Let_def)

lemma retire_loop_spec:
  assumes "0 < step" "retire \<le> most"
  shows "retire_loop fits tot most step retire \<le> most \<and>
    (fits (tot - retire_loop fits tot most step retire) \<or> retire_loop fits tot most step retire = most)"
  using assms
proof (induction fits tot most step retire rule: retire_loop.induct)
  case (1 fits tot most step retire)
  let ?r = "min (retire + step) most"
  show ?case
  proof (cases "most \<le> retire")
    case True
    then show ?thesis using "1.prems" by (subst (1 2 3) retire_loop.simps) simp
  next
    case go: False
    show ?thesis
    proof (cases "fits (tot - ?r)")
      case True
      then have "retire_loop fits tot most step retire = ?r"
        using go "1.prems" by (subst retire_loop.simps) (simp add: Let_def)
      then show ?thesis using True by simp
    next
      case False
      then have "retire_loop fits tot most step retire = retire_loop fits tot most step ?r"
        using go "1.prems" by (subst retire_loop.simps) (simp add: Let_def)
      then show ?thesis using "1.IH" [of ?r] go False "1.prems" by simp
    qed
  qed
qed

lemma retire_most_le: "retire_most newest_first reserved \<le> length newest_first"
  by (simp add: retire_most_def Let_def)

lemma retire_most_fits:
  "bytes_fit newest_first reserved (length newest_first - retire_most newest_first reserved) \<or>
   retire_most newest_first reserved = length newest_first"
  by (auto simp: retire_most_def Let_def)

lemma retire_count_spec:
  "retire_count newest_first reserved \<le> length newest_first \<and>
   (bytes_fit newest_first reserved (length newest_first - retire_count newest_first reserved) \<or>
    retire_count newest_first reserved = length newest_first) \<and>
   (images_fit newest_first reserved (length newest_first - retire_count newest_first reserved) \<or>
    retire_count newest_first reserved = retire_most newest_first reserved)"
proof (cases "images_fit newest_first reserved (length newest_first)")
  case True
  then show ?thesis by (simp add: retire_count_def Let_def images_fit_def)
next
  case False
  define step where "step = max (min IMAGE_BATCH ((case find (images_fit newest_first reserved)
      (rev [0..<Suc (length newest_first)]) of Some k \<Rightarrow> k | None \<Rightarrow> 0) - min NEWEST_KEPT (length newest_first))) 1"
  have "retire_count newest_first reserved =
      retire_loop (images_fit newest_first reserved) (length newest_first) (retire_most newest_first reserved) step 0"
    using False by (simp add: retire_count_def step_def Let_def)
  moreover have "0 < step" by (simp add: step_def)
  ultimately show ?thesis
    using retire_loop_spec [of step 0 "retire_most newest_first reserved" "images_fit newest_first reserved" "length newest_first"]
      retire_most_le [of newest_first reserved] retire_most_fits [of newest_first reserved]
    by (auto simp: images_fit_def)
qed

section \<open>Properties\<close>

text \<open>A refusal of images is never met with the same request: each refusal moves on to a way that sends less, so after at
  most three refusals the images reach the model as text and the request holds none.\<close>

theorem image_refusals_end:
  assumes "length refusals = 3"
  shows "(way \<noteq> AsText \<longrightarrow> ladder way < ladder (after_refusal way s can_shrink max_side)) \<and>
    foldl (\<lambda>w (s, can_shrink, side). if w = AsText then w else after_refusal w s can_shrink side) way refusals = AsText"
proof -
  let ?f = "\<lambda>w (s, can_shrink, side). if w = AsText then w else after_refusal w s can_shrink side"
  have "min 3 (ladder w + length rs) \<le> ladder (foldl ?f w rs)" for w rs
  proof (induction rs arbitrary: w)
    case Nil
    then show ?case by simp
  next
    case (Cons r rs)
    obtain s' c' d' where r: "r = (s', c', d')" by (cases r)
    show ?case
    proof (cases "w = AsText")
      case True
      then show ?thesis using Cons.IH [of AsText] r by simp
    next
      case False
      then show ?thesis using Cons.IH [of "after_refusal w s' c' d'"] ladder_climbs [OF False, of s' c' d'] r by simp
    qed
  qed
  from this [of way refusals] have "3 \<le> ladder (foldl ?f way refusals)" using assms by simp
  then have "foldl ?f way refusals = AsText" by (cases "foldl ?f way refusals") simp_all
  then show ?thesis using ladder_climbs by blast
qed

theorem image_refusals_end_witness:
  "foldl (\<lambda>w (s, can_shrink, side). if w = AsText then w else after_refusal w s can_shrink side) Whole
     [(sent_default, True, 8000), (sent_default, True, 8000), (sent_default, True, 8000)] = AsText"
  using image_refusals_end [of "[(sent_default, True, 8000), (sent_default, True, 8000), (sent_default, True, 8000)]" Whole]
  by simp

text \<open>Retiring keeps a request within its byte limit without touching what a person attached: only a tool's
  images are ever retired, and what is kept fits the byte limit unless every tool image is already gone.\<close>

theorem retiring_is_bounded:
  "list_all2 (\<lambda>s gone. gone \<longrightarrow> tool_made s) slots (retired slots) \<and>
   (let newest_first = rev (map snd (fst (tool_results slots)));
        reserved = snd (tool_results slots);
        kept = length newest_first - retire_count newest_first reserved
    in snd (kept_sum newest_first reserved kept) \<le> 24000000 \<or> kept = 0)"
  using retire_count_spec [of "rev (map snd (fst (tool_results slots)))" "snd (tool_results slots)"]
  by (auto simp: retired_def Let_def list_all2_conv_all_nth bytes_fit_def IMAGE_BUDGET_def split_def)

end
