(* ===== verification/Interrupts.thy ===== *)
theory Interrupts
  imports KernelTypes
begin

text \<open>
  Graceful cancellation and steering, \<open>crates/kernel/src/interrupts.rs\<close>. The handle and the queue share
  one state under a mutex, so their operations are one step each, in the order the lock is taken: the
  pending steers, the cancellation token and the activity counter that watchers sample.
\<close>

section \<open>The shared state\<close>

definition MAX_STEERS :: nat where "MAX_STEERS = 128"
definition MAX_STEER_BYTES :: nat where "MAX_STEER_BYTES = 2 * 1024 * 1024"

type_synonym steer = "string \<times> trust_label"

record interrupts =
  pd_steers :: "steer list"
  pd_bytes :: nat
  pd_closed :: bool
  cancelled :: bool
  activity :: nat

definition interrupts_new :: interrupts where
  "interrupts_new = \<lparr>pd_steers = [], pd_bytes = 0, pd_closed = False, cancelled = False, activity = 0\<rparr>"

text \<open>\<open>send_modify(saturating_add(1))\<close> on the \<open>u64\<close> counter.\<close>

definition bump :: "interrupts \<Rightarrow> interrupts" where
  "bump s = s\<lparr>activity := sat_add 64 (activity s) 1\<rparr>"

section \<open>Operations\<close>

definition steer_labelled :: "string \<Rightarrow> trust_label \<Rightarrow> interrupts \<Rightarrow> bool \<times> interrupts" where
  "steer_labelled text trust s =
     (if pd_closed s \<or> cancelled s \<or> MAX_STEERS \<le> length (pd_steers s) \<or> MAX_STEER_BYTES - pd_bytes s < length text
      then (False, s)
      else (True, bump (s\<lparr>pd_bytes := pd_bytes s + length text, pd_steers := pd_steers s @ [(text, trust)]\<rparr>)))"

definition steer_user :: "string \<Rightarrow> interrupts \<Rightarrow> bool \<times> interrupts" where
  "steer_user text = steer_labelled text User"

definition cancel_turn :: "interrupts \<Rightarrow> interrupts" where
  "cancel_turn s = bump (s\<lparr>cancelled := True\<rparr>)"

definition drain_steers :: "interrupts \<Rightarrow> steer list \<times> interrupts" where
  "drain_steers s = (pd_steers s, s\<lparr>pd_bytes := 0, pd_steers := []\<rparr>)"

text \<open>\<open>Drop for InterruptQueue\<close>.\<close>

definition drop_queue :: "interrupts \<Rightarrow> interrupts" where
  "drop_queue s = s\<lparr>pd_closed := True, pd_steers := [], pd_bytes := 0\<rparr>"

section \<open>Operations in sequence\<close>

datatype interrupt_op = ISteer string trust_label | ICancel | IDrain

text \<open>The state after a sequence, the steers that were accepted and those that were handed out.\<close>

fun interrupt_run :: "interrupt_op list \<Rightarrow> interrupts \<Rightarrow> interrupts \<times> steer list \<times> steer list" where
  "interrupt_run [] s = (s, [], [])"
| "interrupt_run (op # ops) s =
     (let (s', taken, given) = (case op of
            ISteer text trust \<Rightarrow>
              (let (ok, s') = steer_labelled text trust s in (s', if ok then [(text, trust)] else [], []))
          | ICancel \<Rightarrow> (cancel_turn s, [], [])
          | IDrain \<Rightarrow> (let (given, s') = drain_steers s in (s', [], given)));
          (s'', taken', given') = interrupt_run ops s'
      in (s'', taken @ taken', given @ given'))"

section \<open>Lemmas\<close>

definition steers_ok :: "interrupts \<Rightarrow> bool" where
  "steers_ok s \<longleftrightarrow> length (pd_steers s) \<le> MAX_STEERS \<and> pd_bytes s = sum_list (map (length \<circ> fst) (pd_steers s))
     \<and> pd_bytes s \<le> MAX_STEER_BYTES"

lemma bump_simps [simp]:
  "pd_steers (bump s) = pd_steers s" "pd_bytes (bump s) = pd_bytes s" "pd_closed (bump s) = pd_closed s"
  "cancelled (bump s) = cancelled s"
  by (simp_all add: bump_def)

lemma steers_ok_steer: "steers_ok s \<Longrightarrow> steers_ok (snd (steer_labelled text trust s))"
  by (auto simp: steers_ok_def steer_labelled_def)

lemma steers_ok_cancel: "steers_ok s \<Longrightarrow> steers_ok (cancel_turn s)"
  by (simp add: steers_ok_def cancel_turn_def)

lemma steers_ok_drain: "steers_ok (snd (drain_steers s))"
  by (simp add: steers_ok_def drain_steers_def)

lemma steers_ok_drop: "steers_ok (drop_queue s)"
  by (simp add: steers_ok_def drop_queue_def)

lemma interrupt_run_inv:
  assumes "interrupt_run ops s = (s', taken, given)" "steers_ok s"
  shows "steers_ok s' \<and> pd_steers s @ taken = given @ pd_steers s' \<and> (cancelled s \<or> pd_closed s \<longrightarrow> taken = [])
    \<and> (cancelled s \<longrightarrow> cancelled s')"
  using assms
proof (induction ops arbitrary: s s' taken given)
  case Nil
  then show ?case by simp
next
  case (Cons op ops)
  show ?case
  proof (cases op)
    case (ISteer msg trust)
    obtain ok s1 where s1: "steer_labelled msg trust s = (ok, s1)" by force
    obtain taken' given' where r: "interrupt_run ops s1 = (s', taken', given')"
      "taken = (if ok then [(msg, trust)] else []) @ taken'" "given = given'"
      using Cons.prems(1) ISteer s1 by (auto split: prod.splits)
    have "steers_ok s1" using steers_ok_steer [OF Cons.prems(2), of msg trust] s1 by simp
    from Cons.IH [OF r(1) this] show ?thesis
      using s1 r(2,3) by (auto simp: steer_labelled_def split: if_splits)
  next
    case ICancel
    then obtain taken' given' where r: "interrupt_run ops (cancel_turn s) = (s', taken, given)"
      using Cons.prems(1) by (auto split: prod.splits)
    from Cons.IH [OF r steers_ok_cancel [OF Cons.prems(2)]] show ?thesis by (auto simp: cancel_turn_def)
  next
    case IDrain
    then obtain given' where r: "interrupt_run ops (snd (drain_steers s)) = (s', taken, given')"
      "given = pd_steers s @ given'"
      using Cons.prems(1) by (auto simp: drain_steers_def split: prod.splits)
    from Cons.IH [OF r(1) steers_ok_drain] show ?thesis using r(2) by (auto simp: drain_steers_def)
  qed
qed

section \<open>Properties\<close>

text \<open>The steer queue is a bounded first-in first-out queue: whatever handle and loop do and in whatever
  order, the accepted steers are exactly those handed out followed by those still pending, in the order they were
  accepted and with their labels; never more than 128 of them or 2 MiB are held; and after a cancel or
  a close nothing is accepted.\<close>

theorem steers_are_fifo:
  assumes "interrupt_run ops interrupts_new = (s, taken, given)"
  shows "taken = given @ pd_steers s \<and> length (pd_steers s) \<le> 128 \<and>
    sum_list (map (length \<circ> fst) (pd_steers s)) \<le> 2 * 1024 * 1024 \<and>
    (cancelled s \<or> pd_closed s \<longrightarrow> fst (steer_labelled text trust s) = False)"
proof -
  have "steers_ok interrupts_new" by (simp add: steers_ok_def interrupts_new_def MAX_STEERS_def MAX_STEER_BYTES_def)
  from interrupt_run_inv [OF assms this] show ?thesis
    by (simp add: interrupts_new_def steers_ok_def MAX_STEERS_def MAX_STEER_BYTES_def steer_labelled_def)
qed

theorem steers_are_fifo_witness:
  "fst (snd (interrupt_run [ISteer ''a'' User, ISteer ''b'' Tool, IDrain, ICancel, ISteer ''c'' User] interrupts_new))
   = [(''a'', User), (''b'', Tool)]"
  using steers_are_fifo [of "[ISteer ''a'' User, ISteer ''b'' Tool, IDrain, ICancel, ISteer ''c'' User]"
      "fst (interrupt_run [ISteer ''a'' User, ISteer ''b'' Tool, IDrain, ICancel, ISteer ''c'' User] interrupts_new)"
      "fst (snd (interrupt_run [ISteer ''a'' User, ISteer ''b'' Tool, IDrain, ICancel, ISteer ''c'' User] interrupts_new))"
      "snd (snd (interrupt_run [ISteer ''a'' User, ISteer ''b'' Tool, IDrain, ICancel, ISteer ''c'' User] interrupts_new))"]
  by (simp add: steer_labelled_def drain_steers_def cancel_turn_def interrupts_new_def MAX_STEERS_def
      MAX_STEER_BYTES_def bump_def sat_add_def)

end
