(* ===== verification/Repetition.thy ===== *)
theory Repetition
  imports Prelude "HOL-Library.While_Combinator"
begin

text \<open>
  Whether a reply is mostly one piece of text repeated, \<open>crates/kernel/src/repetition.rs\<close>. The text is
  the list of its characters; a slice of text is a list too, so its characters are counted as the
  code counts them after \<open>chars().collect()\<close>. White space is a parameter of the line functions.
\<close>

section \<open>The limits\<close>

definition MIN_LEN :: nat where "MIN_LEN = 400"
definition WINDOW :: nat where "WINDOW = 60"
definition REPEATS :: nat where "REPEATS = 5"
definition ANCHORS :: nat where "ANCHORS = 32"
definition MATCHES :: nat where "MATCHES = 8"

section \<open>Lines\<close>

text \<open>\<open>str::lines\<close>, each trimmed, the empty ones left out. A final line break ends no further line, and a
  carriage return before a line break is white space, so trimming drops it either way.\<close>

definition shown_lines :: "('c \<Rightarrow> bool) \<Rightarrow> 'c \<Rightarrow> 'c list \<Rightarrow> 'c list list" where
  "shown_lines ws nl text =
     filter (\<lambda>l. l \<noteq> []) (map (trim_start_by ws \<circ> trim_end_by ws) (split_by (\<lambda>c. c = nl) text))"

text \<open>\<open>one_line\<close>: the counts of a hash map are the multiplicities in the list of lines.\<close>

definition one_line :: "('c \<Rightarrow> bool) \<Rightarrow> 'c \<Rightarrow> 'c list \<Rightarrow> nat \<Rightarrow> bool" where
  "one_line ws nl text len =
     (let ls = shown_lines ws nl text in
      list_ex (\<lambda>l. REPEATS \<le> count_list ls l \<and> len \<le> count_list ls l * length l * 2) (remdups ls))"

section \<open>Windows\<close>

definition windows :: "nat \<Rightarrow> 'a list \<Rightarrow> 'a list list" where
  "windows w xs = (if length xs < w then [] else map (\<lambda>i. take w (drop i xs)) [0..<length xs - w + 1])"

text \<open>The counting loop stops at the first window whose count reaches what is needed.\<close>

fun any_recurs :: "nat \<Rightarrow> ('a \<Rightarrow> nat) \<Rightarrow> 'a list \<Rightarrow> bool" where
  "any_recurs needed counts [] = False"
| "any_recurs needed counts (x # xs) =
     (needed \<le> counts x + 1 \<or> any_recurs needed (counts(x := counts x + 1)) xs)"

definition div_ceil :: "nat \<Rightarrow> nat \<Rightarrow> nat" where
  "div_ceil a b = (a + b - 1) div b"

definition one_window :: "'c list \<Rightarrow> bool" where
  "one_window chars =
     any_recurs (max REPEATS (div_ceil (length chars) (2 * WINDOW))) (\<lambda>_. 0) (windows WINDOW chars)"

section \<open>A long unit\<close>

text \<open>The two loops that grow a run to the left and to the right.\<close>

fun grow_left :: "'c list \<Rightarrow> nat \<Rightarrow> nat \<Rightarrow> nat" where
  "grow_left chars period 0 = 0"
| "grow_left chars period (Suc l) =
     (if chars ! l = chars ! (l + period) then grow_left chars period l else Suc l)"

function grow_right :: "'c list \<Rightarrow> nat \<Rightarrow> nat \<Rightarrow> nat" where
  "grow_right chars period r =
     (if r + period < length chars \<and> chars ! r = chars ! (r + period)
      then grow_right chars period (Suc r) else r)"
  by pat_completeness auto

termination
  by (relation "measure (\<lambda>(chars, period, r). length chars - r)") auto

declare grow_right.simps [simp del]

type_synonym runs_measured = "(nat \<times> nat \<times> nat) list"

definition run_seen :: "nat \<Rightarrow> nat \<Rightarrow> nat \<times> nat \<times> nat \<Rightarrow> bool" where
  "run_seen start period m = (case m of (left, right, unit) \<Rightarrow> left \<le> start \<and> start < right \<and> period mod unit = 0)"

text \<open>The matches of one anchor: Inr when a run is long enough, Inl the runs measured otherwise.\<close>

primrec try_matches :: "'c list \<Rightarrow> nat \<Rightarrow> nat \<Rightarrow> nat \<Rightarrow> runs_measured \<Rightarrow> runs_measured + unit" where
  "try_matches chars start 0 from_at measured = Inl measured"
| "try_matches chars start (Suc n) from_at measured =
     (case position (\<lambda>w. w = take WINDOW (drop start chars)) (windows WINDOW (drop from_at chars)) of
        None \<Rightarrow> Inl measured
      | Some found \<Rightarrow>
          let period = from_at + found - start; from' = from_at + found + 1 in
          if list_ex (run_seen start period) measured then try_matches chars start n from' measured
          else
            let left = grow_left chars period start;
                right = grow_right chars period (start + WINDOW);
                run = right + period - left
            in if REPEATS * period \<le> run \<and> length chars \<le> run * 2 then Inr ()
               else try_matches chars start n from' (measured @ [(left, right + period, period)]))"

primrec try_anchors :: "'c list \<Rightarrow> nat list \<Rightarrow> runs_measured \<Rightarrow> bool" where
  "try_anchors chars [] measured = False"
| "try_anchors chars (start # starts) measured =
     (case try_matches chars start MATCHES (start + 1) measured of
        Inr _ \<Rightarrow> True
      | Inl measured' \<Rightarrow> try_anchors chars starts measured')"

text \<open>\<open>(0..=last).step_by(step).chain([last])\<close>.\<close>

definition anchor_starts :: "nat \<Rightarrow> nat list" where
  "anchor_starts last_at =
     (let step = max ((last_at + ANCHORS - 2) div (ANCHORS - 1)) 1
      in filter (\<lambda>i. i mod step = 0) [0..<last_at + 1] @ [last_at])"

definition one_long_unit :: "'c list \<Rightarrow> bool" where
  "one_long_unit chars = try_anchors chars (anchor_starts (length chars - WINDOW)) []"

definition looping :: "('c \<Rightarrow> bool) \<Rightarrow> 'c \<Rightarrow> 'c list \<Rightarrow> bool" where
  "looping ws nl text =
     (if length text < MIN_LEN then False
      else if \<not> (one_line ws nl text (length text) \<or> one_window text \<or> one_long_unit text) then False
      else
        let ls = shown_lines ws nl text
        in length ls < REPEATS \<or> length (remdups ls) * 2 \<le> length ls)"

section \<open>Lemmas\<close>

text \<open>The early exit of the counting loop finds exactly the elements that occur often enough.\<close>

lemma any_recurs_iff:
  assumes "\<forall>x. counts x < needed"
  shows "any_recurs needed counts xs \<longleftrightarrow> (\<exists>x \<in> set xs. needed \<le> counts x + count_list xs x)"
  using assms
proof (induction xs arbitrary: counts)
  case Nil
  then show ?case by simp
next
  case (Cons a xs)
  show ?case
  proof (cases "needed \<le> counts a + 1")
    case True
    then show ?thesis by (auto intro!: bexI [of _ a])
  next
    case False
    let ?c = "counts(a := counts a + 1)"
    have "any_recurs needed ?c xs \<longleftrightarrow> (\<exists>x \<in> set xs. needed \<le> ?c x + count_list xs x)"
      using Cons.prems False by (intro Cons.IH) auto
    also have "\<dots> \<longleftrightarrow> (\<exists>x \<in> set (a # xs). needed \<le> counts x + count_list (a # xs) x)"
    proof -
      have same: "?c x + count_list xs x = counts x + count_list (a # xs) x" for x by simp
      have "a \<notin> set xs \<Longrightarrow> \<not> needed \<le> counts a + count_list (a # xs) a"
        using False by (simp add: count_list_0_iff)
      then show ?thesis unfolding same by (metis list.set_intros(1) list.set_intros(2) set_ConsD)
    qed
    finally show ?thesis using False by simp
  qed
qed

text \<open>A run: from \<open>left\<close> on, the text repeats itself with the given period.\<close>

definition periodic :: "'c list \<Rightarrow> nat \<Rightarrow> nat \<Rightarrow> nat \<Rightarrow> bool" where
  "periodic chars period left right \<longleftrightarrow> right \<le> length chars \<and>
     (\<forall>i. left \<le> i \<and> i + period < right \<longrightarrow> chars ! i = chars ! (i + period))"

lemma grow_left_le: "grow_left chars period l \<le> l"
  by (induction l) auto

lemma grow_left_ok: "grow_left chars period l \<le> i \<Longrightarrow> i < l \<Longrightarrow> chars ! i = chars ! (i + period)"
  by (induction l) (auto split: if_splits simp: less_Suc_eq)

lemma grow_right_spec:
  "r \<le> grow_right chars period r \<and>
   (\<forall>i. r \<le> i \<and> i < grow_right chars period r \<longrightarrow> chars ! i = chars ! (i + period)) \<and>
   (r + period \<le> length chars \<longrightarrow> grow_right chars period r + period \<le> length chars)"
proof (induction chars period r rule: grow_right.induct)
  case (1 chars period r)
  show ?case
  proof (cases "r + period < length chars \<and> chars ! r = chars ! (r + period)")
    case True
    then have step: "grow_right chars period r = grow_right chars period (Suc r)"
      by (simp add: grow_right.simps [of chars period r])
    show ?thesis
      using 1 [OF True] True unfolding step by (metis Suc_leD Suc_leI add_Suc le_neq_implies_less)
  next
    case False
    then have "grow_right chars period r = r" by (subst grow_right.simps) (rule if_not_P)
    then show ?thesis by auto
  qed
qed

lemma nth_windows: "i < length (windows w xs) \<Longrightarrow> windows w xs ! i = take w (drop i xs)"
  by (simp add: windows_def nth_map_upt del: upt_Suc split: if_splits)

lemma length_windows: "length (windows w xs) = (if length xs < w then 0 else length xs - w + 1)"
  by (simp add: windows_def)

text \<open>A window found again starts a run: what lies between it and the copy is one period.\<close>

lemma position_window:
  assumes "position (\<lambda>w. w = take k (drop start chars)) (windows k (drop from_at chars)) = Some found"
    and "0 < k"
  shows "from_at + found + k \<le> length chars"
    "\<And>i. start \<le> i \<Longrightarrow> i < start + k \<Longrightarrow> start \<le> from_at + found \<Longrightarrow>
       chars ! i = chars ! (i + (from_at + found - start))"
proof -
  have f: "found < length (windows k (drop from_at chars))"
    "windows k (drop from_at chars) ! found = take k (drop start chars)"
    using position_Some [OF assms(1)] by auto
  then show le: "from_at + found + k \<le> length chars" using assms(2) by (auto simp: length_windows split: if_splits)
  have same: "take k (drop (from_at + found) chars) = take k (drop start chars)"
    using f nth_windows [OF f(1)] by (simp add: add.commute)
  fix i assume i: "start \<le> i" "i < start + k" "start \<le> from_at + found"
  have "chars ! (i + (from_at + found - start)) = take k (drop (from_at + found) chars) ! (i - start)"
    using i le by (simp add: algebra_simps)
  also have "\<dots> = chars ! i"
    using i le by (simp add: same)
  finally show "chars ! i = chars ! (i + (from_at + found - start))" by simp
qed

definition long_run :: "'c list \<Rightarrow> bool" where
  "long_run chars \<longleftrightarrow> (\<exists>period left right. 0 < period \<and> periodic chars period left right \<and>
     REPEATS * period \<le> right - left \<and> length chars \<le> (right - left) * 2)"

lemma WINDOW_pos: "0 < WINDOW"
  by (simp add: WINDOW_def)

lemma grown_run:
  assumes "position (\<lambda>w. w = take WINDOW (drop start chars)) (windows WINDOW (drop from_at chars)) = Some found"
    and "start < from_at"
  shows "periodic chars (from_at + found - start) (grow_left chars (from_at + found - start) start)
    (grow_right chars (from_at + found - start) (start + WINDOW) + (from_at + found - start))"
proof -
  let ?p = "from_at + found - start"
  have p: "start + WINDOW + ?p \<le> length chars" using position_window(1) [OF assms(1) WINDOW_pos] assms(2) by simp
  have mid: "chars ! i = chars ! (i + ?p)" if "start \<le> i" "i < start + WINDOW" for i
    using position_window(2) [OF assms(1) WINDOW_pos, of i] that assms(2) by simp
  have right: "chars ! i = chars ! (i + ?p)"
    if "start + WINDOW \<le> i" "i < grow_right chars ?p (start + WINDOW)" for i
    using grow_right_spec [of "start + WINDOW" chars ?p] that by blast
  have bound: "grow_right chars ?p (start + WINDOW) + ?p \<le> length chars"
    using grow_right_spec [of "start + WINDOW" chars ?p] p by blast
  have "chars ! i = chars ! (i + ?p)"
    if "grow_left chars ?p start \<le> i" "i < grow_right chars ?p (start + WINDOW)" for i
  proof (cases "i < start")
    case True
    then show ?thesis by (rule grow_left_ok [OF that(1)])
  next
    case False
    then show ?thesis using mid [of i] right [of i] that(2) by (meson not_le)
  qed
  then show ?thesis using bound by (simp add: periodic_def)
qed

lemma try_matches_sound:
  assumes "try_matches chars start n from_at measured = Inr ()" "start < from_at"
  shows "long_run chars"
  using assms
proof (induction n arbitrary: from_at measured)
  case 0
  then show ?case by simp
next
  case (Suc n)
  then obtain found where
    pos: "position (\<lambda>w. w = take WINDOW (drop start chars)) (windows WINDOW (drop from_at chars)) = Some found"
    by (auto split: option.splits)
  let ?p = "from_at + found - start"
  let ?l = "grow_left chars ?p start" and ?r = "grow_right chars ?p (start + WINDOW) + ?p"
  show ?case
  proof (cases "list_ex (run_seen start ?p) measured")
    case True
    then show ?thesis using Suc.prems pos by (intro Suc.IH [of "from_at + found + 1" measured]) (simp_all add: Let_def)
  next
    case seen: False
    show ?thesis
    proof (cases "REPEATS * ?p \<le> ?r - ?l \<and> length chars \<le> (?r - ?l) * 2")
      case True
      then show ?thesis using grown_run [OF pos Suc.prems(2)] Suc.prems(2) unfolding long_run_def
        by (intro exI [of _ ?p] exI [of _ ?l] exI [of _ ?r]) auto
    next
      case False
      then show ?thesis using Suc.prems pos seen
        by (intro Suc.IH [of "from_at + found + 1" "measured @ [(?l, ?r, ?p)]"]) (auto simp: Let_def)
    qed
  qed
qed

lemma try_anchors_sound: "try_anchors chars starts measured \<Longrightarrow> long_run chars"
proof (induction starts arbitrary: measured)
  case Nil
  then show ?case by simp
next
  case (Cons start starts)
  then show ?case
    using try_matches_sound [of chars start MATCHES "start + 1" measured]
    by (cases "try_matches chars start MATCHES (start + 1) measured") auto
qed

lemma one_window_iff:
  "one_window chars \<longleftrightarrow> (\<exists>w \<in> set (windows WINDOW chars).
     max REPEATS (div_ceil (length chars) (2 * WINDOW)) \<le> count_list (windows WINDOW chars) w)"
  unfolding one_window_def by (subst any_recurs_iff) (simp_all add: REPEATS_def)

lemma div_ceil_le: "0 < b \<Longrightarrow> div_ceil a b \<le> n \<longleftrightarrow> a \<le> n * b"
  unfolding div_ceil_def
proof
  assume b: "0 < b" and le: "(a + b - 1) div b \<le> n"
  have "a + b - 1 < (n + 1) * b" using le b by (metis Suc_eq_plus1 div_less_iff_less_mult le_imp_less_Suc)
  then show "a \<le> n * b" using b by simp
next
  assume b: "0 < b" and le: "a \<le> n * b"
  then have "a + b - 1 < (n + 1) * b" by (simp add: algebra_simps)
  then show "(a + b - 1) div b \<le> n" using b by (simp add: div_less_iff_less_mult less_Suc_eq_le [symmetric])
qed

section \<open>Properties\<close>

text \<open>A reply is called a loop only with evidence: it is at least 400 characters long, and either one line is at
  least half of it and occurs five times, or one window of 60 characters occurs five times and often enough to cover half, or
  at least half of it is one run that repeats a unit five times; and of its lines, when there are five or
  more, at least half are copies. Rows that all differ are never thrown away.\<close>

theorem looping_sound:
  assumes "looping ws nl text"
  shows "400 \<le> length text \<and>
    ((\<exists>l \<in> set (shown_lines ws nl text). 5 \<le> count_list (shown_lines ws nl text) l \<and>
        length text \<le> 2 * (count_list (shown_lines ws nl text) l * length l)) \<or>
     (\<exists>w \<in> set (windows 60 text). 5 \<le> count_list (windows 60 text) w \<and>
        length text \<le> 2 * (count_list (windows 60 text) w * 60)) \<or>
     long_run text) \<and>
    (5 \<le> length (shown_lines ws nl text) \<longrightarrow>
       2 * card (set (shown_lines ws nl text)) \<le> length (shown_lines ws nl text))"
proof -
  have len: "400 \<le> length text" and any: "one_line ws nl text (length text) \<or> one_window text \<or> one_long_unit text"
    and copies: "length (shown_lines ws nl text) < 5 \<or>
      length (remdups (shown_lines ws nl text)) * 2 \<le> length (shown_lines ws nl text)"
    using assms by (auto simp: looping_def MIN_LEN_def REPEATS_def Let_def split: if_splits)
  have "one_long_unit text \<Longrightarrow> long_run text" unfolding one_long_unit_def by (rule try_anchors_sound)
  moreover have "one_line ws nl text (length text) \<Longrightarrow> \<exists>l \<in> set (shown_lines ws nl text).
      5 \<le> count_list (shown_lines ws nl text) l \<and> length text \<le> 2 * (count_list (shown_lines ws nl text) l * length l)"
    by (auto simp: one_line_def list_ex_iff REPEATS_def Let_def mult.commute mult.left_commute)
  moreover have "one_window text \<Longrightarrow> \<exists>w \<in> set (windows 60 text).
      5 \<le> count_list (windows 60 text) w \<and> length text \<le> 2 * (count_list (windows 60 text) w * 60)"
    by (auto simp: one_window_iff REPEATS_def WINDOW_def div_ceil_le mult.commute)
  ultimately show ?thesis using len any copies by (auto simp: length_remdups_card_conv mult.commute)
qed

lemma windows_replicate: "windows 60 (replicate 400 c) = replicate 341 (replicate 60 c)"
proof -
  have "map (\<lambda>i. take 60 (drop i (replicate 400 c))) [0..<341] = map (\<lambda>i. replicate 60 c) [0..<341]"
    by (rule map_cong) (simp_all add: min_def)
  then show ?thesis by (simp only: windows_def length_replicate map_replicate_const length_upt) simp
qed

lemma split_by_none: "\<forall>c \<in> set s. \<not> P c \<Longrightarrow> split_by P s = [s]"
  by (induction P s rule: split_by.induct) auto

lemma count_list_replicate: "count_list (replicate n x) x = n"
  by (induction n) auto

lemma looping_replicate: "looping is_ws (CHR 0x0A) (replicate 400 (CHR ''a''))"
proof -
  have "one_window (replicate 400 (CHR ''a''))"
    unfolding one_window_iff WINDOW_def windows_replicate
    by (simp add: count_list_replicate REPEATS_def div_ceil_def)
  moreover have "length (shown_lines is_ws (CHR 0x0A) (replicate 400 (CHR ''a''))) < REPEATS"
    unfolding shown_lines_def by (subst split_by_none) (simp_all add: REPEATS_def)
  ultimately show ?thesis by (simp add: looping_def MIN_LEN_def Let_def)
qed

theorem looping_sound_witness:
  "(\<exists>w \<in> set (windows 60 (replicate 400 (CHR ''a''))). 5 \<le> count_list (windows 60 (replicate 400 (CHR ''a''))) w) \<or>
   long_run (replicate 400 (CHR ''a'')) \<or> shown_lines is_ws (CHR 0x0A) (replicate 400 (CHR ''a'')) \<noteq> []"
proof -
  have "shown_lines is_ws (CHR 0x0A) (replicate 400 (CHR ''a'')) \<noteq> [] \<or>
     (\<exists>w \<in> set (windows 60 (replicate 400 (CHR ''a''))). 5 \<le> count_list (windows 60 (replicate 400 (CHR ''a''))) w) \<or>
     long_run (replicate 400 (CHR ''a''))"
    using looping_sound [OF looping_replicate] by (metis empty_iff list.set(1))
  then show ?thesis by blast
qed

end
