(* ===== verification/SessionLoop.thy ===== *)
theory SessionLoop
  imports Attempts RequestImages Interrupts Repetition Replies
begin

text \<open>
  The loop of a session around its requests: the turn boundary (\<open>session/boundary.rs\<close>), what is done with a
  failed request (\<open>session/recovery.rs\<close>), a reply that stopped early and an empty one (\<open>session/response.rs\<close>),
  the checkpoint of a compaction (\<open>session/checkpoint.rs\<close>) and the end of a turn (\<open>session/completion.rs\<close>), with
  the exits of \<open>loop_.rs\<close> they share. The model call itself is \<open>Attempts\<close>, the tools' round \<open>TurnDispatch\<close>.

  The state is the part of \<open>History\<close>, \<open>RunState\<close> and \<open>RequestState\<close> these steps read and write, with the
  interrupt queue, the governor and the provider client. \<open>se_returned\<close> is what was handed back to the surface.
\<close>

section \<open>The state of a session\<close>

datatype stop_reason = Finished | VerificationFailed | BudgetStop budget_stop | InterruptedStop | BlockedStop

record run_state =
  rs_cut_offs :: nat
  rs_waits :: nat
  rs_empty_nudged :: bool
  rs_empty_tries :: nat
  rs_empty_silent :: bool
  rs_tidied :: bool
  rs_stood_in :: "(string \<times> string) option"
  rs_image_floor :: sending
  rs_hooks :: nat

record request_state =
  rq_overflow :: bool
  rq_go_on :: "go_on option"
  rq_sending :: sending
  rq_sent :: sent
  rq_refusal :: "string option"
  rq_small :: bool
  rq_unfit :: bool
  rq_corrections :: nat
  rq_passes :: nat

definition request_new :: "sending \<Rightarrow> request_state" where
  "request_new way = \<lparr>rq_overflow = False, rq_go_on = None, rq_sending = way, rq_sent = sent_default, rq_refusal = None,
     rq_small = False, rq_unfit = False, rq_corrections = 0, rq_passes = 0\<rparr>"

record session_state =
  se_run :: run_state
  se_req :: request_state
  se_queue :: "interrupts option"
  se_returned :: "string list"
  se_messages :: "message list"
  se_ordered :: "model_message list"
  se_window :: "string list"
  se_taint :: trust_label
  se_web :: bool
  se_gov :: governor
  se_pool :: pooled
  se_client :: provider_client
  se_images_refused :: "profile list"
  se_image_side :: nat
  se_context_limit :: "nat option"
  se_force_compaction :: bool

text \<open>A step faults with an error, ends the run with a reason, or goes on.\<close>

datatype 'a turn_flow = Fault kernel_error | Break stop_reason | Go 'a

text \<open>What the steps meet: appends to the log (the error, or the event's id), the model's server, the person, the clock.\<close>

datatype waited = WaitedOut | WaitStopped | WaitSpoken

record session_env =
  sv_append :: "string \<Rightarrow> string + string"
  sv_begin_message :: "kernel_error option"
  sv_rounding :: rounding
  sv_now :: nat
  sv_client :: client_env
  sv_finish :: "kernel_error + message list"
  sv_images_auto :: bool
  sv_images_unsupported :: bool
  sv_shrinker :: bool
  sv_side_named :: "string \<Rightarrow> nat"
  sv_wait :: waited
  sv_server_waits :: nat
  sv_white :: "nat \<Rightarrow> bool"
  sv_decode :: "string \<Rightarrow> nat list"
  sv_show :: "json \<Rightarrow> string"

section \<open>Exits\<close>

text \<open>\<open>return_unapplied_steers\<close>: what was typed and not taken in is handed back. A headless run has no queue.\<close>

definition return_steers :: "session_state \<Rightarrow> session_state" where
  "return_steers s =
     (case se_queue s of
        None \<Rightarrow> s
      | Some q \<Rightarrow> (let (steers, q') = drain_steers q
          in s\<lparr>se_queue := Some q', se_returned := se_returned s @ map fst steers\<rparr>))"

definition stop_run :: "stop_reason \<Rightarrow> session_state \<Rightarrow> 'a turn_flow \<times> session_state" where
  "stop_run why s = (Break why, return_steers s)"

text \<open>Both histories grow together.\<close>

definition push_message :: "message \<Rightarrow> session_state \<Rightarrow> session_state" where
  "push_message m s = s\<lparr>se_messages := se_messages s @ [m], se_ordered := se_ordered s @ [ordered m]\<rparr>"

text \<open>\<open>save_feedback\<close>: text for the model, on the person's channel but labelled as a tool's.\<close>

definition save_feedback :: "session_env \<Rightarrow> string \<Rightarrow> session_state \<Rightarrow> (kernel_error option) \<times> session_state" where
  "save_feedback env msg s =
     (case sv_append env msg of
        Inl e \<Rightarrow> (Some (KLog e), s)
      | Inr _ \<Rightarrow> (None, push_message (carrying Tool (message_new UserRole msg)) s))"

section \<open>The turn boundary\<close>

text \<open>One steer: logged, weighed in the window of the chat and put before the model with its own label.\<close>

definition take_steer :: "session_env \<Rightarrow> steer \<Rightarrow> session_state \<Rightarrow> (kernel_error option) \<times> session_state" where
  "take_steer env steer s =
     (let (msg, trust) = steer in
      case sv_append env msg of
        Inl e \<Rightarrow> (Some (KLog e), s)
      | Inr eid \<Rightarrow>
          (None, push_message (if trust = User then message_new UserRole msg else carrying trust (message_new UserRole msg))
             (s\<lparr>se_window := (if trust = User then [] else se_window s) @ [eid],
                se_taint := (if trust = User then User else trust_min (se_taint s) trust),
                se_web := (se_web s \<or> trust = Web)\<rparr>)))"

fun take_steers :: "session_env \<Rightarrow> steer list \<Rightarrow> session_state \<Rightarrow> (kernel_error option) \<times> session_state" where
  "take_steers env [] s = (None, s)"
| "take_steers env (steer # rest) s =
     (case take_steer env steer s of
        (Some e, s') \<Rightarrow> (Some e, s')
      | (None, s') \<Rightarrow> take_steers env rest s')"

text \<open>The ceiling that stops the run, with the one short handover when money or tokens ran out.\<close>

definition budget_gate :: "session_env \<Rightarrow> session_state \<Rightarrow> unit turn_flow \<times> session_state" where
  "budget_gate env s =
     (case gov_check (sv_rounding env) (sv_now env) (se_gov s) (se_pool s) of
        None \<Rightarrow> (Go (), s\<lparr>se_gov := record_turn (se_gov s)\<rparr>)
      | Some stop \<Rightarrow>
          if stop = StopCost \<or> stop = StopTokens
          then (case sv_finish env of
                  Inl e \<Rightarrow> (Fault e, s)
                | Inr ms \<Rightarrow> stop_run (BudgetStop stop) (s\<lparr>se_messages := se_messages s @ ms\<rparr>))
          else stop_run (BudgetStop stop) s)"

definition turn_boundary :: "session_env \<Rightarrow> session_state \<Rightarrow> unit turn_flow \<times> session_state" where
  "turn_boundary env s =
     (case se_queue s of
        None \<Rightarrow> budget_gate env s
      | Some q \<Rightarrow>
          if cancelled q then stop_run InterruptedStop s
          else
            let (steers, q') = drain_steers q; s1 = s\<lparr>se_queue := Some q'\<rparr> in
            case take_steers env steers s1 of
              (Some e, s2) \<Rightarrow> (Fault e, s2)
            | (None, s2) \<Rightarrow>
                (case (list_ex (\<lambda>st. snd st = User) steers, sv_begin_message env) of
                   (True, Some e) \<Rightarrow> (Fault e, s2)
                 | _ \<Rightarrow> budget_gate env s2))"

section \<open>A failed request\<close>

definition MAX_TOOL_CALL_CORRECTIONS :: nat where "MAX_TOOL_CALL_CORRECTIONS = 2"
definition MAX_COMPACTION_PASSES :: nat where "MAX_COMPACTION_PASSES = 3"
definition MAX_HOOK_CONTINUATIONS :: nat where "MAX_HOOK_CONTINUATIONS = 3"

datatype recovered = RetryRequest | NextTurn | KeepText string

definition correction_text :: "session_env \<Rightarrow> invalid_tool_call \<Rightarrow> string" where
  "correction_text env bad =
     ''[tool-call validation] Your response contained an invalid tool call: ''
     @ sv_show env (json_obj [(''tool'', JStr (take_chars 128 (bad_tool bad))), (''call_id'', JStr (take_chars 128 (bad_call_id bad))),
         (''error'', JStr (take_chars 512 (bad_reason bad)))])
     @ ''. No tools from that response executed. Regenerate all intended calls with valid tool names and complete JSON objects matching their schemas.''"

abbreviation set_req :: "(request_state \<Rightarrow> request_state) \<Rightarrow> session_state \<Rightarrow> session_state" where
  "set_req f s \<equiv> s\<lparr>se_req := f (se_req s)\<rparr>"

abbreviation set_run :: "(run_state \<Rightarrow> run_state) \<Rightarrow> session_state \<Rightarrow> session_state" where
  "set_run f s \<equiv> s\<lparr>se_run := f (se_run s)\<rparr>"

definition images_open :: "session_env \<Rightarrow> session_state \<Rightarrow> bool" where
  "images_open env s \<longleftrightarrow> sv_images_auto env \<and> \<not> sv_images_unsupported env
     \<and> cn_profile (cl_conn (se_client s)) \<notin> set (se_images_refused s)"

text \<open>A refusal of images that may not be about them: the next request sends less of them.\<close>

definition fewer_images :: "session_env \<Rightarrow> bool \<Rightarrow> string \<Rightarrow> session_state \<Rightarrow> session_state" where
  "fewer_images env unfit refusal s =
     (let q = se_req s; named = sv_side_named env refusal; side = min (se_image_side s) named
      in s\<lparr>se_image_side := side,
           se_req := q\<lparr>rq_unfit := (rq_unfit q \<or> unfit), rq_small := (rq_small q \<or> one_small (rq_sent q)),
             rq_sending := after_refusal (rq_sending q) (rq_sent q) (sv_shrinker env) side,
             rq_refusal := (case rq_refusal q of Some r \<Rightarrow> Some r | None \<Rightarrow> Some refusal)\<rparr>\<rparr>)"

text \<open>The last arm: the first refusal of images is the one to report.\<close>

definition report_fault :: "kernel_error \<Rightarrow> session_state \<Rightarrow> 'a turn_flow \<times> session_state" where
  "report_fault e s =
     (Fault (case rq_refusal (se_req s) of Some refusal \<Rightarrow> KProvider refusal | None \<Rightarrow> e),
      set_req (\<lambda>q. q\<lparr>rq_refusal := None\<rparr>) s)"

text \<open>The model could not be used: another one stands in, or its server is waited for.\<close>

definition model_unavailable :: "session_env \<Rightarrow> unavailable_model \<Rightarrow> session_state \<Rightarrow> recovered turn_flow \<times> session_state" where
  "model_unavailable env m s =
     (let (handed, cl) = stand_in_for (sv_client env) (sv_now env) (um_model m) (um_rest m) (se_client s);
          s1 = s\<lparr>se_client := cl\<rparr>
      in case handed of
           Some who \<Rightarrow> (Go RetryRequest, set_run (\<lambda>r. r\<lparr>rs_stood_in := Some who\<rparr>) s1)
         | None \<Rightarrow>
             if um_back m = None \<or> \<not> rs_waits (se_run s) < sv_server_waits env then (Fault (KProvider (um_said m)), s1)
             else
               let s2 = set_run (\<lambda>r. r\<lparr>rs_waits := rs_waits r + 1\<rparr>) s1 in
               case sv_wait env of
                 WaitedOut \<Rightarrow> (Go RetryRequest, s2)
               | WaitSpoken \<Rightarrow> (Go NextTurn, s2)
               | WaitStopped \<Rightarrow> stop_run InterruptedStop s2)"

fun recover_turn :: "session_env \<Rightarrow> nat option \<Rightarrow> kernel_error \<Rightarrow> session_state \<Rightarrow> recovered turn_flow \<times> session_state" where
  "recover_turn env input (KInvalidToolCall bad) s =
     (if rq_corrections (se_req s) < MAX_TOOL_CALL_CORRECTIONS
      then (case save_feedback env (correction_text env bad) (set_req (\<lambda>q. q\<lparr>rq_corrections := rq_corrections q + 1\<rparr>) s) of
              (Some e, s') \<Rightarrow> (Fault e, s')
            | (None, s') \<Rightarrow> (Go RetryRequest, s'))
      else report_fault (KInvalidToolCall bad) s)"
| "recover_turn env input KUnsupportedImage s =
     (if rq_sending (se_req s) \<noteq> AsText \<and> images_open env s
      then (Go RetryRequest, set_req (\<lambda>q. q\<lparr>rq_sending := AsText\<rparr>) (s\<lparr>se_images_refused := cn_profile (cl_conn (se_client s)) # se_images_refused s\<rparr>))
      else report_fault KUnsupportedImage s)"
| "recover_turn env input (KImageSuspected said) s =
     (if rq_sending (se_req s) \<noteq> AsText then (Go RetryRequest, fewer_images env False said s)
      else report_fault (KImageSuspected said) s)"
| "recover_turn env input (KImageUnfit said) s =
     (if rq_sending (se_req s) \<noteq> AsText then (Go RetryRequest, fewer_images env True said s)
      else report_fault (KImageUnfit said) s)"
| "recover_turn env input (KTruncated msg) s =
     (if looping (sv_white env) 10 (sv_decode env msg) then (Fault (KProvider REPEATING), s)
      else if msg \<noteq> [] then (Go (KeepText msg), set_req (\<lambda>q. q\<lparr>rq_go_on := Some (GoCut input)\<rparr>) s)
      else (Fault (KProvider NOTHING_WRITTEN), s))"
| "recover_turn env input (KDropped msg) s =
     (Go (KeepText msg), set_req (\<lambda>q. q\<lparr>rq_go_on := Some (GoDropped input)\<rparr>) s)"
| "recover_turn env input (KCallStalled msg tools said) s =
     (if ROUNDS \<le> rs_cut_offs (se_run s) + 1 then (Fault (KProvider said), s)
      else (Go (KeepText msg), set_req (\<lambda>q. q\<lparr>rq_go_on := Some (GoStalled tools)\<rparr>) s))"
| "recover_turn env input (KUnavailable m) s = model_unavailable env m s"
| "recover_turn env input (KOverflow limit) s =
     (if \<not> rq_overflow (se_req s)
      then (Go RetryRequest, set_req (\<lambda>q. q\<lparr>rq_overflow := True\<rparr>)
        (s\<lparr>se_context_limit := (case limit of Some n \<Rightarrow> Some n | None \<Rightarrow> se_context_limit s), se_force_compaction := True\<rparr>))
      else stop_run (BudgetStop StopContextOverflow) s)"
| "recover_turn env input KInterrupted s = stop_run InterruptedStop s"
| "recover_turn env input (KBudget stop) s =
     (if stop = StopCost \<or> stop = StopTokens
      then (case sv_finish env of
              Inl e \<Rightarrow> (Fault e, s)
            | Inr ms \<Rightarrow> stop_run (BudgetStop stop) (s\<lparr>se_messages := se_messages s @ ms\<rparr>))
      else stop_run (BudgetStop stop) s)"
| "recover_turn env input (KProvider said) s = report_fault (KProvider said) s"
| "recover_turn env input (KLog said) s = report_fault (KLog said) s"

section \<open>The reply\<close>

record reply =
  rp_message :: message
  rp_canonical :: model_message
  rp_intents :: "tool_intent list"
  rp_tokens :: "nat option"
  rp_interrupted :: bool

record accepted =
  ac_intents :: "tool_intent list"
  ac_tokens :: "nat option"
  ac_empty :: bool
  ac_thought :: bool
  ac_said_again :: bool

text \<open>\<open>kept_text\<close>: a reply that stopped early, as a turn of the model's.\<close>

definition kept_text :: "string \<Rightarrow> reply" where
  "kept_text msg = \<lparr>rp_message = assistant_calls msg [],
     rp_canonical = message_from_stream_parts (if msg = [] then [] else [TextPart msg []]),
     rp_intents = [], rp_tokens = None, rp_interrupted = False\<rparr>"

definition append_if :: "bool \<Rightarrow> session_env \<Rightarrow> string \<Rightarrow> kernel_error option" where
  "append_if really env msg = (if really then (case sv_append env msg of Inl e \<Rightarrow> Some (KLog e) | Inr _ \<Rightarrow> None) else None)"

text \<open>A reply cut by a stop keeps what could be seen and drops the calls nothing admitted.\<close>

definition save_stopped :: "session_env \<Rightarrow> reply \<Rightarrow> session_state \<Rightarrow> accepted turn_flow \<times> session_state" where
  "save_stopped env r s =
     (let canonical = strip_tool_calls (rp_canonical r); said = msg_content (rp_message r) in
      case append_if (said \<noteq> []) env said of
        Some e \<Rightarrow> (Fault e, s)
      | None \<Rightarrow>
          (case append_if (mm_parts canonical \<noteq> []) env said of
             Some e \<Rightarrow> (Fault e, s)
           | None \<Rightarrow>
               (let s1 = (if mm_parts canonical \<noteq> []
                      then s\<lparr>se_ordered := se_ordered s @ [canonical], se_messages := se_messages s @ [assistant_calls said []]\<rparr>
                      else if said \<noteq> [] then s\<lparr>se_messages := se_messages s @ [assistant_calls said []]\<rparr>
                      else s)
                in stop_run (if gov_check (sv_rounding env) (sv_now env) (se_gov s1) (se_pool s1) = Some StopWall
                             then BudgetStop StopWall else InterruptedStop) s1)))"

text \<open>\<open>cut_bytes\<close> is what the seam took off the reply; \<open>stopped\<close> says the person stopped the turn.\<close>

definition save_response :: "session_env \<Rightarrow> bool \<Rightarrow> nat \<Rightarrow> reply \<Rightarrow> session_state \<Rightarrow> accepted turn_flow \<times> session_state" where
  "save_response env stopped cut_bytes r s =
     (if rp_interrupted r \<or> stopped then save_stopped env r s
      else
        let said = msg_content (rp_message r); go_on = rq_go_on (se_req s);
            empty = (trim said = [] \<and> rp_intents r = [] \<and> go_on = None);
            thought = list_ex is_reasoning_part (mm_parts (rp_canonical r));
            s1 = (if rs_stood_in (se_run s) = None then set_run (\<lambda>x. x\<lparr>rs_stood_in := stand_in_now (se_client s)\<rparr>) s else s);
            kept = (\<not> empty \<and> \<not> ((case go_on of Some (GoStalled _) \<Rightarrow> True | _ \<Rightarrow> False) \<and> mm_parts (rp_canonical r) = []));
            tidied = (trim said \<noteq> [] \<and> rp_intents r \<noteq> [] \<and> list_all (\<lambda>c. tidies_up (intent_tool c)) (rp_intents r));
            s2 = (if kept then set_run (\<lambda>x. x\<lparr>rs_tidied := tidied\<rparr>) s1 else s1);
            result = \<lparr>ac_intents = rp_intents r, ac_tokens = rp_tokens r, ac_empty = empty, ac_thought = thought,
              ac_said_again = (empty \<and> 0 < cut_bytes)\<rparr>
        in case append_if (said \<noteq> [] \<and> \<not> empty) env said of
             Some e \<Rightarrow> (Fault e, s1)
           | None \<Rightarrow>
               (case append_if kept env said of
                  Some e \<Rightarrow> (Fault e, s2)
                | None \<Rightarrow> (Go result,
                    if kept then s2\<lparr>se_ordered := se_ordered s2 @ [rp_canonical r], se_messages := se_messages s2 @ [rp_message r]\<rparr>
                    else s2)))"

section \<open>A reply that stopped early\<close>

definition no_room :: "nat option \<Rightarrow> nat option \<Rightarrow> bool" where
  "no_room window prompt = (case (prompt, window) of (Some p, Some w) \<Rightarrow> w \<le> sat_add 64 p HEADROOM | _ \<Rightarrow> False)"

text \<open>Whether the model is asked to go on. \<open>allowance\<close> is the output allowance of its requests.\<close>

definition continue_response :: "session_env \<Rightarrow> nat option \<Rightarrow> nat option \<Rightarrow> session_state \<Rightarrow> bool turn_flow \<times> session_state" where
  "continue_response env window allowance s =
     (case rq_go_on (se_req s) of
        None \<Rightarrow> (Go False, s)
      | Some why \<Rightarrow>
          (let s1 = set_run (\<lambda>r. r\<lparr>rs_cut_offs := rs_cut_offs r + 1\<rparr>) (set_req (\<lambda>q. q\<lparr>rq_go_on := None\<rparr>) s);
               (asked, full) = (case why of
                   GoCut prompt \<Rightarrow> (CONTINUE, no_room window prompt)
                 | GoDropped prompt \<Rightarrow> (RESUME, no_room window prompt)
                 | GoStalled tools \<Rightarrow> (split_advice tools allowance, False))
           in if rs_cut_offs (se_run s1) < ROUNDS \<and> \<not> full
              then (case save_feedback env asked s1 of
                      (Some e, s2) \<Rightarrow> (Fault e, s2)
                    | (None, s2) \<Rightarrow> (Go True, s2))
              else (Go False, s1)))"

section \<open>An empty reply\<close>

definition retry_empty_response :: "session_env \<Rightarrow> bool \<Rightarrow> accepted \<Rightarrow> session_state \<Rightarrow> bool turn_flow \<times> session_state" where
  "retry_empty_response env costly a s =
     (let r = se_run s in
      if ac_empty a \<and> \<not> rs_tidied r \<and> \<not> ac_said_again a then
        (if se_messages s \<noteq> [] \<and> msg_role (last (se_messages s)) = ToolRole \<and> \<not> rs_empty_nudged r
         then (case save_feedback env NUDGE (set_run (\<lambda>r. r\<lparr>rs_empty_nudged := True\<rparr>) s) of
                 (Some e, s1) \<Rightarrow> (Fault e, s1)
               | (None, s1) \<Rightarrow> (Go True, s1))
         else
           let silent = (\<not> ac_thought a \<and> (ac_tokens a = None \<or> ac_tokens a = Some 0));
               certain = (silent \<and> rs_empty_silent r);
               tries = (if costly then 1 else TRIES);
               s1 = set_run (\<lambda>r. r\<lparr>rs_empty_silent := silent\<rparr>) s
           in if rs_empty_tries r < tries \<and> \<not> certain
              then (let s2 = set_run (\<lambda>r. r\<lparr>rs_empty_tries := rs_empty_tries r + 1\<rparr>) s1
                    in if \<not> ac_thought a \<and> sv_wait env = WaitStopped then stop_run InterruptedStop s2 else (Go True, s2))
              else
                let (handed, cl) = stand_in_for (sv_client env) (sv_now env) [] NextMessage (se_client s1);
                    s2 = s1\<lparr>se_client := cl\<rparr>
                in case handed of
                     None \<Rightarrow> (Fault (KProvider GAVE_UP), s2)
                   | Some who \<Rightarrow> (Go True, set_run (\<lambda>r. r\<lparr>rs_stood_in := Some who, rs_empty_tries := 0, rs_empty_silent := False\<rparr>) s2))
      else if \<not> ac_empty a
      then (Go False, set_run (\<lambda>r. r\<lparr>rs_empty_tries := 0, rs_empty_silent := False,
              rs_empty_nudged := (rs_empty_nudged r \<and> ac_intents a = [])\<rparr>) s)
      else (Go False, s))"

section \<open>A compaction's checkpoint\<close>

text \<open>\<open>checkpoint_compaction\<close> as far as it stops the run: the passes are counted, and a pass that leaves too much
  without a known limit ends it. \<open>logged\<close> is the error of the checkpoint's append.\<close>

definition checkpoint_compaction ::
  "kernel_error option \<Rightarrow> message list \<times> model_message list \<Rightarrow> bool \<Rightarrow> bool \<Rightarrow> session_state \<Rightarrow> unit turn_flow \<times> session_state" where
  "checkpoint_compaction logged compacted overflow limit_known s =
     (let s1 = set_req (\<lambda>q. q\<lparr>rq_passes := rq_passes q + 1\<rparr>) s in
      if MAX_COMPACTION_PASSES < rq_passes (se_req s1) then stop_run (BudgetStop StopContextOverflow) s1
      else case logged of
        Some e \<Rightarrow> (Fault e, s1)
      | None \<Rightarrow>
          (let s2 = s1\<lparr>se_messages := fst compacted, se_ordered := snd compacted,
                 se_web := (se_web s1 \<or> list_ex (\<lambda>m. msg_trust m = Some Web) (fst compacted))\<rparr>
           in if overflow \<and> \<not> limit_known then stop_run (BudgetStop StopContextOverflow) s2 else (Go (), s2)))"

section \<open>The end of a turn\<close>

text \<open>How the required checks ended: cut by the deadline, by a stop, or with a report (None when there was none).\<close>

datatype check_outcome = CheckDeadline | CheckStopped | CheckReport "(bool \<times> string \<times> string) option"

record completion_env =
  cv_stopped :: bool
  cv_planning :: bool
  cv_modified :: bool
  cv_finishing :: bool
  cv_required :: bool
  cv_check :: check_outcome
  cv_stopped_after :: bool
  cv_hooks :: "kernel_error + message list"

definition needs_check :: "completion_env \<Rightarrow> bool" where
  "needs_check cv \<longleftrightarrow> \<not> cv_planning cv \<and> (cv_modified cv \<or> (cv_finishing cv \<and> cv_required cv))"

text \<open>\<open>str::lines\<close>, and the verdict with the last forty lines of the output.\<close>

definition text_lines :: "string \<Rightarrow> string list" where
  "text_lines s =
     (let parts = split_by (\<lambda>c. c = CHR 0x0A) s;
          kept = (if last parts = [] then butlast parts else parts)
      in map (\<lambda>l. case strip_suffix [CHR 0x0D] l of Some m \<Rightarrow> m | None \<Rightarrow> l) kept)"

definition verify_feedback :: "bool \<Rightarrow> string \<Rightarrow> string \<Rightarrow> string" where
  "verify_feedback ok summary out =
     (let ls = text_lines out
      in ''[verifier] '' @ (if ok then ''PASS'' else ''FAIL'') @ '' '' @ [CHR 0xE2, CHR 0x80, CHR 0x94] @ '' '' @ summary @ [CHR 0x0A]
         @ join_with [CHR 0x0A] (drop (length ls - 40) ls))"

definition missing_report :: "bool \<times> string \<times> string" where
  "missing_report = (False, ''required verification returned no result'',
     ''Configure a working verification command before completing this task.'')"

text \<open>What the turn ends with once its checks are done.\<close>

definition finish_turn :: "session_env \<Rightarrow> completion_env \<Rightarrow> bool \<Rightarrow> session_state \<Rightarrow> unit turn_flow \<times> session_state" where
  "finish_turn env cv verified s =
     (if \<not> cv_finishing cv then (Go (), s)
      else
        case (if MAX_HOOK_CONTINUATIONS \<le> rs_hooks (se_run s) then Inr [] else cv_hooks cv) of
          Inl e \<Rightarrow> (Fault e, s)
        | Inr [] \<Rightarrow> stop_run (if \<not> cv_planning cv \<and> cv_required cv \<and> \<not> verified then VerificationFailed else Finished) s
        | Inr ms \<Rightarrow> (Go (), fold push_message ms (set_run (\<lambda>r. r\<lparr>rs_hooks := rs_hooks r + 1\<rparr>)
            (s\<lparr>se_taint := trust_min (se_taint s) Tool\<rparr>))))"

definition complete_turn :: "session_env \<Rightarrow> completion_env \<Rightarrow> session_state \<Rightarrow> unit turn_flow \<times> session_state" where
  "complete_turn env cv s =
     (if gov_check (sv_rounding env) (sv_now env) (se_gov s) (se_pool s) = Some StopWall then stop_run (BudgetStop StopWall) s
      else if cv_stopped cv then stop_run InterruptedStop s
      else if \<not> needs_check cv then finish_turn env cv False s
      else case cv_check cv of
        CheckDeadline \<Rightarrow> stop_run (BudgetStop StopWall) s
      | CheckStopped \<Rightarrow> stop_run InterruptedStop s
      | CheckReport outcome \<Rightarrow>
          if cv_stopped_after cv then stop_run InterruptedStop s
          else
            case (case outcome of Some rep \<Rightarrow> Some rep
                  | None \<Rightarrow> if cv_required cv then Some missing_report else None) of
              None \<Rightarrow> finish_turn env cv False s
            | Some (ok, summary, out) \<Rightarrow>
                (case save_feedback env (verify_feedback ok summary out) s of
                   (Some e, s1) \<Rightarrow> (Fault e, s1)
                 | (None, s1) \<Rightarrow> finish_turn env cv ok s1))"

section \<open>Lemmas\<close>

definition queued :: "session_state \<Rightarrow> string list" where
  "queued s = (case se_queue s of Some q \<Rightarrow> map fst (pd_steers q) | None \<Rightarrow> [])"

lemma queued_fields [simp]:
  "queued (s\<lparr>se_run := a\<rparr>) = queued s" "queued (s\<lparr>se_req := b\<rparr>) = queued s" "queued (s\<lparr>se_messages := c\<rparr>) = queued s"
  "queued (s\<lparr>se_ordered := d\<rparr>) = queued s" "queued (s\<lparr>se_taint := e\<rparr>) = queued s" "queued (s\<lparr>se_web := f\<rparr>) = queued s"
  "queued (s\<lparr>se_gov := g\<rparr>) = queued s" "queued (s\<lparr>se_client := h\<rparr>) = queued s" "queued (s\<lparr>se_window := i\<rparr>) = queued s"
  "queued (s\<lparr>se_images_refused := j\<rparr>) = queued s" "queued (s\<lparr>se_image_side := k\<rparr>) = queued s"
  "queued (s\<lparr>se_context_limit := l\<rparr>) = queued s" "queued (s\<lparr>se_force_compaction := m\<rparr>) = queued s"
  "queued (s\<lparr>se_returned := n\<rparr>) = queued s"
  by (simp_all add: queued_def)

lemma return_steers_simps [simp]:
  "queued (return_steers s) = []" "se_returned (return_steers s) = se_returned s @ queued s"
  "se_messages (return_steers s) = se_messages s" "se_ordered (return_steers s) = se_ordered s"
  "se_run (return_steers s) = se_run s" "se_req (return_steers s) = se_req s" "se_gov (return_steers s) = se_gov s"
  "se_client (return_steers s) = se_client s"
  by (simp_all add: return_steers_def queued_def drain_steers_def split: option.split)

lemma stop_run_eq [simp]: "stop_run why s = (a, s') \<longleftrightarrow> a = Break why \<and> s' = return_steers s"
  by (auto simp: stop_run_def)

lemma push_message_simps [simp]:
  "se_run (push_message m s) = se_run s" "se_req (push_message m s) = se_req s" "se_queue (push_message m s) = se_queue s"
  "se_returned (push_message m s) = se_returned s" "se_messages (push_message m s) = se_messages s @ [m]"
  "se_gov (push_message m s) = se_gov s" "se_client (push_message m s) = se_client s" "queued (push_message m s) = queued s"
  by (simp_all add: push_message_def)

lemma fold_push [simp]:
  "se_run (fold push_message ms s) = se_run s" "se_queue (fold push_message ms s) = se_queue s"
  "se_returned (fold push_message ms s) = se_returned s" "se_gov (fold push_message ms s) = se_gov s"
  "se_client (fold push_message ms s) = se_client s" "queued (fold push_message ms s) = queued s"
  by (induction ms arbitrary: s) simp_all

lemma save_feedback_ok:
  "save_feedback env msg s = (None, s') \<Longrightarrow> se_run s' = se_run s \<and> se_req s' = se_req s \<and> se_queue s' = se_queue s \<and> queued s' = queued s \<and>
     se_returned s' = se_returned s \<and> se_gov s' = se_gov s \<and> se_client s' = se_client s \<and>
     se_messages s' = se_messages s @ [carrying Tool (message_new UserRole msg)]"
  by (auto simp: save_feedback_def split: sum.splits)

text \<open>The steps of the loop, one name each.\<close>

datatype session_op =
    DoBoundary session_env
  | DoRecover session_env "nat option" kernel_error
  | DoSave session_env bool nat reply
  | DoContinue session_env "nat option" "nat option"
  | DoEmpty session_env bool accepted
  | DoCheckpoint "kernel_error option" "message list \<times> model_message list" bool bool
  | DoComplete session_env completion_env

definition forget :: "'a turn_flow \<times> session_state \<Rightarrow> unit turn_flow \<times> session_state" where
  "forget r = (case fst r of Fault e \<Rightarrow> Fault e | Break why \<Rightarrow> Break why | Go _ \<Rightarrow> Go (), snd r)"

fun do_op :: "session_op \<Rightarrow> session_state \<Rightarrow> unit turn_flow \<times> session_state" where
  "do_op (DoBoundary env) s = turn_boundary env s"
| "do_op (DoRecover env input e) s = forget (recover_turn env input e s)"
| "do_op (DoSave env stopped cut_bytes r) s = forget (save_response env stopped cut_bytes r s)"
| "do_op (DoContinue env window allowance) s = forget (continue_response env window allowance s)"
| "do_op (DoEmpty env costly a) s = forget (retry_empty_response env costly a s)"
| "do_op (DoCheckpoint logged compacted overflow known) s = checkpoint_compaction logged compacted overflow known s"
| "do_op (DoComplete env cv) s = complete_turn env cv s"

lemma forget_eq [simp]:
  "forget r = (Break why, s') \<longleftrightarrow> r = (Break why, s')"
  "forget r = (Go (), s') \<longleftrightarrow> (\<exists>x. r = (Go x, s'))"
  by (cases r; auto simp: forget_def split: turn_flow.splits)+

text \<open>A step leaves what was typed where it is; a step that ends the run hands it back.\<close>

definition keeps_typed :: "'a turn_flow \<Rightarrow> session_state \<Rightarrow> session_state \<Rightarrow> bool" where
  "keeps_typed a s s' \<longleftrightarrow>
     (case a of
        Go _ \<Rightarrow> queued s' = queued s \<and> se_returned s' = se_returned s
      | Break _ \<Rightarrow> queued s' = [] \<and> se_returned s' = se_returned s @ queued s
      | Fault _ \<Rightarrow> True)"

lemma queued_cong: "se_queue s' = se_queue s \<Longrightarrow> queued s' = queued s"
  by (simp add: queued_def)

lemma report_fault_final [simp]: "report_fault e s \<noteq> (Go x, s')" "report_fault e s \<noteq> (Break w, s')"
  by (simp_all add: report_fault_def)

lemma recover_keeps_typed: "recover_turn env input e s = (a, s') \<Longrightarrow> keeps_typed a s s'"
  by (cases e) (auto simp: keeps_typed_def model_unavailable_def fewer_images_def report_fault_def Let_def
      dest!: save_feedback_ok split: if_splits prod.splits option.splits sum.splits waited.splits)

lemma save_keeps_typed: "save_response env stopped cut_bytes r s = (a, s') \<Longrightarrow> keeps_typed a s s'"
  by (auto simp: keeps_typed_def save_response_def save_stopped_def Let_def split: if_splits option.splits)

lemma continue_keeps_typed: "continue_response env window allowance s = (a, s') \<Longrightarrow> keeps_typed a s s'"
  by (auto simp: keeps_typed_def continue_response_def Let_def dest!: save_feedback_ok
      split: if_splits option.splits prod.splits)

lemma empty_keeps_typed: "retry_empty_response env costly x s = (a, s') \<Longrightarrow> keeps_typed a s s'"
  by (auto simp: keeps_typed_def retry_empty_response_def Let_def dest!: save_feedback_ok
      split: if_splits option.splits prod.splits)

lemma checkpoint_keeps_typed: "checkpoint_compaction logged compacted overflow known s = (a, s') \<Longrightarrow> keeps_typed a s s'"
  by (auto simp: keeps_typed_def checkpoint_compaction_def Let_def split: if_splits option.splits)

lemma finish_keeps_typed: "finish_turn env cv verified s = (a, s') \<Longrightarrow> keeps_typed a s s'"
  by (auto simp: keeps_typed_def finish_turn_def split: if_splits sum.splits list.splits)

lemma complete_keeps_typed: "complete_turn env cv s = (a, s') \<Longrightarrow> keeps_typed a s s'"
proof -
  have step: "finish_turn env cv ok s1 = (a, s') \<Longrightarrow> queued s1 = queued s \<Longrightarrow> se_returned s1 = se_returned s \<Longrightarrow>
      keeps_typed a s s'" for ok s1
    by (drule finish_keeps_typed) (auto simp: keeps_typed_def split: turn_flow.splits)
  show "complete_turn env cv s = (a, s') \<Longrightarrow> keeps_typed a s s'"
    unfolding complete_turn_def
    by (auto simp: keeps_typed_def split: if_splits check_outcome.splits option.splits prod.splits
        dest!: save_feedback_ok intro: step [unfolded keeps_typed_def])
qed

lemma take_steers_ok:
  "take_steers env steers s = (None, s') \<Longrightarrow>
     (\<exists>ms. se_messages s' = se_messages s @ ms \<and> map msg_content ms = map fst steers) \<and>
     se_returned s' = se_returned s \<and> queued s' = queued s \<and> se_gov s' = se_gov s \<and> se_run s' = se_run s \<and>
     se_client s' = se_client s \<and> se_queue s' = se_queue s"
proof (induction steers arbitrary: s)
  case (Cons steer rest)
  obtain msg trust where st: "steer = (msg, trust)" by (cases steer)
  obtain s1 where 1: "take_steer env steer s = (None, s1)" and 2: "take_steers env rest s1 = (None, s')"
    using Cons.prems by (auto split: prod.splits option.splits)
  have a: "\<exists>m. se_messages s1 = se_messages s @ [m] \<and> msg_content m = msg" and b: "se_returned s1 = se_returned s \<and>
     queued s1 = queued s \<and> se_gov s1 = se_gov s \<and> se_run s1 = se_run s \<and> se_client s1 = se_client s \<and> se_queue s1 = se_queue s"
    using 1 by (auto simp: take_steer_def st carrying_def message_new_def split: sum.splits)
  obtain m where m: "se_messages s1 = se_messages s @ [m]" "msg_content m = msg" using a by blast
  obtain ms where ms: "se_messages s' = se_messages s1 @ ms" "map msg_content ms = map fst rest"
    using Cons.IH [OF 2] by blast
  have "se_messages s' = se_messages s @ (m # ms)" "map msg_content (m # ms) = map fst (steer # rest)"
    using m ms st by simp_all
  then show ?case using Cons.IH [OF 2] b by metis
qed simp

lemma budget_gate_keeps: "budget_gate env s = (a, s') \<Longrightarrow> keeps_typed a s s' \<and> (\<forall>e. a \<noteq> Fault e \<longrightarrow> prefix (se_messages s) (se_messages s'))"
  by (auto simp: budget_gate_def keeps_typed_def split: option.splits if_splits sum.splits)

lemma boundary_cases:
  assumes "turn_boundary env s = (a, s')" "\<forall>e. a \<noteq> Fault e"
  shows "(a \<noteq> Go () \<and> queued s' = [] \<and> se_returned s' = se_returned s @ queued s) \<or>
    (queued s' = [] \<and> se_returned s' = se_returned s \<and>
      (\<exists>ms. prefix (se_messages s @ ms) (se_messages s') \<and> map msg_content ms = queued s))"
proof (cases "se_queue s")
  case None
  then have "queued s = []" by (simp add: queued_def)
  then show ?thesis using assms None budget_gate_keeps [of env s a s']
    by (cases a) (auto simp: turn_boundary_def keeps_typed_def)
next
  case (Some q)
  show ?thesis
  proof (cases "cancelled q")
    case True
    then show ?thesis using assms(1) Some by (auto simp: turn_boundary_def)
  next
    case False
    define s1 where "s1 = s\<lparr>se_queue := Some (snd (drain_steers q))\<rparr>"
    obtain e s2 where t: "take_steers env (pd_steers q) s1 = (e, s2)" by (cases "take_steers env (pd_steers q) s1")
    have "e = None" using assms t False Some by (cases e) (auto simp: turn_boundary_def drain_steers_def s1_def)
    then have g: "budget_gate env s2 = (a, s')"
      using assms t False Some unfolding turn_boundary_def
      by (auto simp: drain_steers_def s1_def Let_def split: bool.splits option.splits)
    have q: "queued s1 = []" "se_messages s1 = se_messages s" "se_returned s1 = se_returned s"
      by (simp_all add: s1_def queued_def drain_steers_def)
    obtain ms where ms: "se_messages s2 = se_messages s1 @ ms" "map msg_content ms = map fst (pd_steers q)"
      using take_steers_ok [of env "pd_steers q" s1 s2] t \<open>e = None\<close> by auto
    have s2: "se_returned s2 = se_returned s1" "queued s2 = queued s1"
      using take_steers_ok [of env "pd_steers q" s1 s2] t \<open>e = None\<close> by auto
    have "queued s = map fst (pd_steers q)" using Some by (simp add: queued_def)
    then show ?thesis using budget_gate_keeps [OF g] assms(2) ms s2 q
      by (cases a) (auto simp: keeps_typed_def)
  qed
qed

lemma forget_keeps: "forget r = (a, s') \<Longrightarrow> keeps_typed (fst r) s (snd r) \<Longrightarrow> keeps_typed a s s'"
  by (auto simp: forget_def keeps_typed_def split: turn_flow.splits)

lemmas steps_keep = recover_keeps_typed save_keeps_typed continue_keeps_typed empty_keeps_typed

lemma do_op_keeps: "do_op op s = (a, s') \<Longrightarrow> \<forall>env. op \<noteq> DoBoundary env \<Longrightarrow> keeps_typed a s s'"
  by (cases op) (auto elim!: forget_keeps intro: steps_keep [OF prod.collapse [symmetric]]
      checkpoint_keeps_typed complete_keeps_typed)

subsection \<open>How often a request is tried again\<close>

text \<open>A failed request had been sent to the model in use.\<close>

definition sent_to_active :: "session_state \<Rightarrow> kernel_error \<Rightarrow> kernel_error" where
  "sent_to_active s e = (case e of KUnavailable m \<Rightarrow> KUnavailable (m\<lparr>um_model := active_model (se_client s)\<rparr>) | _ \<Rightarrow> e)"

definition request_again :: "session_env \<times> nat option \<times> kernel_error \<Rightarrow> session_state \<Rightarrow> session_state option" where
  "request_again f s =
     (let (env, input, e) = f in
      case recover_turn env input (sent_to_active s e) s of
        (Go RetryRequest, s') \<Rightarrow> Some s'
      | _ \<Rightarrow> None)"

definition retries_left :: "session_env \<Rightarrow> session_state \<Rightarrow> nat" where
  "retries_left env s = (MAX_TOOL_CALL_CORRECTIONS - rq_corrections (se_req s)) + (3 - ladder (rq_sending (se_req s)))
     + (sv_server_waits env - rs_waits (se_run s)) + stand_ins_left (sv_client env) (se_client s)
     + (if rq_overflow (se_req s) then 0 else 1)"

lemma ladder_le: "ladder way \<le> 3"
  by (cases way) simp_all

lemma ladder_rises: "ladder way < ladder way' \<Longrightarrow> 3 - ladder way' < 3 - ladder way"
  using ladder_le [of way'] by linarith

lemma recover_turn_less:
  assumes "recover_turn env input (sent_to_active s e) s = (Go RetryRequest, s')"
  shows "retries_left env s' < retries_left env s"
proof -
  have climbs: "rq_sending (se_req s) \<noteq> AsText \<Longrightarrow>
      3 - ladder (rq_sending (se_req (fewer_images env unfit said s))) < 3 - ladder (rq_sending (se_req s)) \<and>
      se_run (fewer_images env unfit said s) = se_run s \<and> se_client (fewer_images env unfit said s) = se_client s \<and>
      rq_corrections (se_req (fewer_images env unfit said s)) = rq_corrections (se_req s) \<and>
      rq_overflow (se_req (fewer_images env unfit said s)) = rq_overflow (se_req s)" for unfit said
    using ladder_rises [OF ladder_climbs [of "rq_sending (se_req s)" "rq_sent (se_req s)" "sv_shrinker env"
        "min (se_image_side s) (sv_side_named env said)"]]
    by (simp add: fewer_images_def Let_def)
  have low: "rq_sending (se_req s) \<noteq> AsText \<Longrightarrow> ladder (rq_sending (se_req s)) < 3" by (cases "rq_sending (se_req s)") simp_all
  show ?thesis
  proof (cases e)
    case (KUnavailable m)
    obtain who cl where si: "stand_in_for (sv_client env) (sv_now env) (active_model (se_client s)) (um_rest m) (se_client s) = (who, cl)"
      by (cases "stand_in_for (sv_client env) (sv_now env) (active_model (se_client s)) (um_rest m) (se_client s)")
    show ?thesis using assms stand_ins_left_step [OF si] si
      by (auto simp: KUnavailable sent_to_active_def model_unavailable_def retries_left_def Let_def
          split: option.splits if_splits waited.splits)
  next
    case (KImageSuspected said)
    then show ?thesis using assms climbs [of False said]
      by (auto simp: sent_to_active_def retries_left_def split: if_splits)
  next
    case (KImageUnfit said)
    then show ?thesis using assms climbs [of True said]
      by (auto simp: sent_to_active_def retries_left_def split: if_splits)
  next
    case KUnsupportedImage
    then show ?thesis using assms low by (auto simp: sent_to_active_def retries_left_def split: if_splits)
  next
    case (KInvalidToolCall bad)
    then show ?thesis using assms ladder_le [of "rq_sending (se_req s)"]
      by (auto simp: sent_to_active_def retries_left_def split: if_splits prod.splits option.splits dest!: save_feedback_ok)
  qed (use assms in \<open>auto simp: sent_to_active_def retries_left_def split: if_splits sum.splits\<close>)
qed

lemma retries_left_env: "sv_client env = sv_client env' \<Longrightarrow> sv_server_waits env = sv_server_waits env' \<Longrightarrow>
    retries_left env s = retries_left env' s"
  by (simp add: retries_left_def)

text \<open>Empty replies one after another.\<close>

definition empty_again :: "session_env \<times> bool \<times> accepted \<Rightarrow> session_state \<Rightarrow> session_state option" where
  "empty_again f s =
     (let (env, costly, a) = f in
      case retry_empty_response env costly a s of
        (Go True, s') \<Rightarrow> Some s'
      | _ \<Rightarrow> None)"

definition empties_left :: "session_env \<Rightarrow> session_state \<Rightarrow> nat" where
  "empties_left env s = (if rs_empty_nudged (se_run s) then 0 else 1) + (TRIES - rs_empty_tries (se_run s))
     + 4 * stand_ins_left (sv_client env) (se_client s)"

lemma retry_empty_less:
  assumes "retry_empty_response env costly a s = (Go True, s')"
  shows "empties_left env s' < empties_left env s"
proof -
  obtain who cl where si: "stand_in_for (sv_client env) (sv_now env) (active_model (se_client s)) NextMessage (se_client s) = (who, cl)"
    by (cases "stand_in_for (sv_client env) (sv_now env) (active_model (se_client s)) NextMessage (se_client s)")
  note less = stand_ins_left_step [OF si]
  have nudge: ?thesis if "save_feedback env NUDGE (set_run (\<lambda>r. r\<lparr>rs_empty_nudged := True\<rparr>) s) = (None, s')"
      "\<not> rs_empty_nudged (se_run s)"
    using that by (auto simp: empties_left_def dest!: save_feedback_ok)
  show ?thesis using assms less nudge si
    unfolding retry_empty_response_def Let_def stand_in_again_active
    by (auto simp: empties_left_def TRIES_def split: if_splits prod.splits option.splits)
qed

subsection \<open>How far a run can go\<close>

definition is_boundary :: "session_op \<Rightarrow> bool" where
  "is_boundary op = (case op of DoBoundary _ \<Rightarrow> True | _ \<Rightarrow> False)"

definition asks_on :: "session_op \<Rightarrow> session_state \<Rightarrow> bool" where
  "asks_on op s = (case op of DoContinue env window allowance \<Rightarrow> fst (continue_response env window allowance s) = Go True | _ \<Rightarrow> False)"

text \<open>The turns begun and the replies asked to go on, up to the first step that does not go on.\<close>

fun run_length :: "session_op list \<Rightarrow> session_state \<Rightarrow> nat \<times> nat" where
  "run_length [] s = (0, 0)"
| "run_length (op # ops) s =
     (case do_op op s of
        (Go _, s') \<Rightarrow> (let (turns, asked) = run_length ops s'
          in ((if is_boundary op then 1 else 0) + turns, (if asks_on op s then 1 else 0) + asked))
      | _ \<Rightarrow> (0, 0))"

text \<open>The failures a run of retries meets come with the same saved models and the same allowance of waits.\<close>

definition same_means :: "client_env \<Rightarrow> nat \<Rightarrow> session_env \<times> 'a \<Rightarrow> bool" where
  "same_means catalogue waits f \<longleftrightarrow> sv_client (fst f) = catalogue \<and> sv_server_waits (fst f) = waits"

interpretation requests: retried request_again "retries_left env0" "same_means (sv_client env0) (sv_server_waits env0)" for env0
proof (unfold_locales, goal_cases)
  case (1 f s s')
  obtain env input e where f: "f = (env, input, e)" by (cases f)
  have "recover_turn env input (sent_to_active s e) s = (Go RetryRequest, s')"
    using 1(2) by (auto simp: request_again_def f split: prod.splits turn_flow.splits recovered.splits)
  then have "retries_left env s' < retries_left env s" by (rule recover_turn_less)
  moreover have "retries_left env x = retries_left env0 x" for x
    using 1(1) by (intro retries_left_env) (simp_all add: f same_means_def)
  ultimately show ?case by simp
qed

interpretation empty_replies: retried empty_again "empties_left env0" "same_means (sv_client env0) (sv_server_waits env0)" for env0
proof (unfold_locales, goal_cases)
  case (1 f s s')
  obtain env costly a where f: "f = (env, costly, a)" by (cases f)
  have "retry_empty_response env costly a s = (Go True, s')"
    using 1(2) by (auto simp: empty_again_def f split: prod.splits turn_flow.splits bool.splits)
  then have "empties_left env s' < empties_left env s" by (rule retry_empty_less)
  then show ?case using 1(1) by (simp add: f same_means_def empties_left_def)
qed

text \<open>Which steps change the governor and the count of continuations.\<close>

lemma boundary_counts:
  "turn_boundary env s = (Go (), s') \<Longrightarrow> se_gov s' = record_turn (se_gov s) \<and> se_run s' = se_run s \<and>
     (case max_turns (gov_budget (se_gov s)) of Some m \<Rightarrow> gov_turns (se_gov s) < m | None \<Rightarrow> True)"
  by (auto simp: turn_boundary_def budget_gate_def gov_check_def drain_steers_def Let_def dest!: take_steers_ok
      split: option.splits prod.splits if_splits bool.splits sum.splits)

lemma recover_counts: "recover_turn env input e s = (Go x, s') \<Longrightarrow>
    se_gov s' = se_gov s \<and> rs_cut_offs (se_run s') = rs_cut_offs (se_run s)"
  by (cases e) (auto simp: model_unavailable_def fewer_images_def Let_def
      dest!: save_feedback_ok split: if_splits prod.splits option.splits sum.splits waited.splits)

lemma save_counts: "save_response env stopped cut_bytes r s = (Go x, s') \<Longrightarrow>
    se_gov s' = se_gov s \<and> rs_cut_offs (se_run s') = rs_cut_offs (se_run s)"
  by (auto simp: save_response_def save_stopped_def Let_def split: if_splits option.splits)

lemma continue_counts: "continue_response env window allowance s = (Go x, s') \<Longrightarrow>
    se_gov s' = se_gov s \<and> rs_cut_offs (se_run s) \<le> rs_cut_offs (se_run s') \<and>
    (x \<longrightarrow> rs_cut_offs (se_run s') = Suc (rs_cut_offs (se_run s)) \<and> rs_cut_offs (se_run s') < ROUNDS)"
  by (auto simp: continue_response_def Let_def dest!: save_feedback_ok split: if_splits option.splits prod.splits)

lemma empty_counts: "retry_empty_response env costly a s = (Go x, s') \<Longrightarrow>
    se_gov s' = se_gov s \<and> rs_cut_offs (se_run s') = rs_cut_offs (se_run s)"
  by (auto simp: retry_empty_response_def Let_def dest!: save_feedback_ok split: if_splits option.splits prod.splits)

lemma checkpoint_counts: "checkpoint_compaction logged compacted overflow known s = (Go x, s') \<Longrightarrow>
    se_gov s' = se_gov s \<and> rs_cut_offs (se_run s') = rs_cut_offs (se_run s)"
  by (auto simp: checkpoint_compaction_def Let_def split: if_splits option.splits)

lemma finish_counts: "finish_turn env cv verified s = (Go x, s') \<Longrightarrow>
    se_gov s' = se_gov s \<and> rs_cut_offs (se_run s') = rs_cut_offs (se_run s)"
  by (auto simp: finish_turn_def split: if_splits sum.splits list.splits)

lemma complete_counts: "complete_turn env cv s = (Go x, s') \<Longrightarrow>
    se_gov s' = se_gov s \<and> rs_cut_offs (se_run s') = rs_cut_offs (se_run s)"
  by (auto simp: complete_turn_def dest!: save_feedback_ok finish_counts
      split: if_splits check_outcome.splits option.splits prod.splits)

lemmas steps_count = recover_counts save_counts empty_counts checkpoint_counts complete_counts

lemma op_counts:
  assumes "do_op op s = (Go (), s')"
  shows "se_gov s' = (if is_boundary op then record_turn (se_gov s) else se_gov s)"
    "is_boundary op \<Longrightarrow> (case max_turns (gov_budget (se_gov s)) of Some m \<Rightarrow> gov_turns (se_gov s) < m | None \<Rightarrow> True)"
    "rs_cut_offs (se_run s) + (if asks_on op s then 1 else 0) \<le> rs_cut_offs (se_run s')"
    "asks_on op s \<Longrightarrow> rs_cut_offs (se_run s') < ROUNDS"
proof -
  have "se_gov s' = (if is_boundary op then record_turn (se_gov s) else se_gov s) \<and>
    (is_boundary op \<longrightarrow> (case max_turns (gov_budget (se_gov s)) of Some m \<Rightarrow> gov_turns (se_gov s) < m | None \<Rightarrow> True)) \<and>
    rs_cut_offs (se_run s) + (if asks_on op s then 1 else 0) \<le> rs_cut_offs (se_run s') \<and>
    (asks_on op s \<longrightarrow> rs_cut_offs (se_run s') < ROUNDS)"
  proof (cases op)
    case (DoBoundary env)
    then show ?thesis using assms boundary_counts [of env s s'] by (simp add: is_boundary_def asks_on_def)
  next
    case (DoContinue env window allowance)
    then obtain x where "continue_response env window allowance s = (Go x, s')" using assms by auto
    then show ?thesis using continue_counts [of env window allowance s x s'] by (auto simp: DoContinue is_boundary_def asks_on_def)
  qed (use assms in \<open>auto simp: is_boundary_def asks_on_def dest!: steps_count\<close>)
  then show "se_gov s' = (if is_boundary op then record_turn (se_gov s) else se_gov s)"
    "is_boundary op \<Longrightarrow> (case max_turns (gov_budget (se_gov s)) of Some m \<Rightarrow> gov_turns (se_gov s) < m | None \<Rightarrow> True)"
    "rs_cut_offs (se_run s) + (if asks_on op s then 1 else 0) \<le> rs_cut_offs (se_run s')"
    "asks_on op s \<Longrightarrow> rs_cut_offs (se_run s') < ROUNDS" by simp_all
qed

lemma run_length_le:
  assumes "max_turns (gov_budget (se_gov s)) = Some m" "m < 2 ^ 32" "run_length ops s = (turns, asked)"
  shows "turns \<le> m - gov_turns (se_gov s) \<and> asked \<le> (ROUNDS - 1) - rs_cut_offs (se_run s)"
  using assms(1,3)
proof (induction ops arbitrary: s turns asked)
  case (Cons op ops)
  obtain a s' where step: "do_op op s = (a, s')" by (cases "do_op op s")
  show ?case
  proof (cases a)
    case (Go u)
    note c = op_counts [OF step [unfolded Go unit_eq [of u]]]
    obtain n k where later: "run_length ops s' = (n, k)" by (cases "run_length ops s'")
    have "max_turns (gov_budget (se_gov s')) = Some m" using c(1) Cons.prems(1) by (simp add: record_turn_def)
    note ih = Cons.IH [OF this later]
    have eqs: "turns = (if is_boundary op then 1 else 0) + n" "asked = (if asks_on op s then 1 else 0) + k"
      using Cons.prems(2) step later Go by (simp_all add: Let_def)
    have "is_boundary op \<Longrightarrow> gov_turns (se_gov s') = Suc (gov_turns (se_gov s)) \<and> gov_turns (se_gov s) < m"
      using c(1,2) Cons.prems(1) assms(2) by (simp add: record_turn_def sat_add_def)
    then have t: "turns \<le> m - gov_turns (se_gov s)" using ih eqs(1) c(1) by (cases "is_boundary op") auto
    have "asked \<le> (ROUNDS - 1) - rs_cut_offs (se_run s)"
      using ih eqs(2) c(3,4) by (cases "asks_on op s") auto
    with t show ?thesis by simp
  qed (use Cons.prems step in simp_all)
qed simp

text \<open>An error drops the queue with what was typed in it: a stand-alone error of the provider hands nothing back.\<close>

lemma error_exit_drops_steers:
  "recover_turn env input (KProvider said) s = (a, s') \<Longrightarrow>
     (\<exists>e. a = Fault e) \<and> se_returned s' = se_returned s \<and> queued s' = queued s"
  by (auto simp: report_fault_def)


section \<open>Properties\<close>


text \<open>The text is typed during a turn whose model call then loses its connection for good.\<close>

definition calm :: session_env where
  "calm = \<lparr>sv_append = (\<lambda>_. Inr ''e1''), sv_begin_message = None, sv_rounding = Fin, sv_now = 1, sv_client = two_models,
     sv_finish = Inr [], sv_images_auto = True, sv_images_unsupported = False, sv_shrinker = True, sv_side_named = (\<lambda>_. 1000),
     sv_wait = WaitedOut, sv_server_waits = 2, sv_white = (\<lambda>n. n = 32), sv_decode = map of_char, sv_show = (\<lambda>_. [])\<rparr>"

definition session_begun :: "(string \<times> trust_label) list \<Rightarrow> session_state" where
  "session_begun typed = \<lparr>se_run = \<lparr>rs_cut_offs = 0, rs_waits = 0, rs_empty_nudged = False, rs_empty_tries = 0,
       rs_empty_silent = False, rs_tidied = False, rs_stood_in = None, rs_image_floor = Whole, rs_hooks = 0\<rparr>,
     se_req = request_new Whole,
     se_queue = Some (fst (interrupt_run (map (\<lambda>(x, t). ISteer x t) typed) interrupts_new)), se_returned = [],
     se_messages = [], se_ordered = [], se_window = [], se_taint = User, se_web = False,
     se_gov = \<lparr>gov_budget = budget_default\<lparr>max_turns := Some 2\<rparr>, gov_turns = 0, finish_reserve = False, finishing = False\<rparr>,
     se_pool = pooled_new, se_client = own_client, se_images_refused = [], se_image_side = 2000, se_context_limit = None,
     se_force_compaction = False\<rparr>"


text \<open>A request is sent again only so often: with the same saved stand-ins and the same allowance of waits, the
  failures of one request are answered by at most six retries of its own (two corrections of tool calls, three
  steps down in what is sent of the images, one compaction), the waits for its server and the hand-overs left.\<close>

theorem failed_requests_end:
  assumes "list_all (same_means catalogue waits) fs"
  shows "retry_count request_again fs s \<le> 6 + waits + stand_ins_left catalogue (se_client s)"
proof -
  define env0 where "env0 = calm\<lparr>sv_client := catalogue, sv_server_waits := waits\<rparr>"
  have "retry_count request_again fs s \<le> retries_left env0 s"
    using assms by (intro requests.tries_le) (simp add: env0_def)
  also have "\<dots> \<le> 6 + waits + stand_ins_left catalogue (se_client s)"
    unfolding retries_left_def env0_def MAX_TOOL_CALL_CORRECTIONS_def session_env.simps session_env.update_convs
    by (cases "rq_overflow (se_req s)"; simp; linarith)
  finally show ?thesis .
qed

theorem failed_requests_end_witness:
  "retry_count request_again (replicate 30 (calm, None, KImageSuspected ''image too large'')) (session_begun []) \<le> 9"
proof -
  have "retry_count request_again (replicate 30 (calm, None, KImageSuspected ''image too large'')) (session_begun [])
      \<le> 6 + 2 + stand_ins_left two_models (se_client (session_begun []))"
    by (rule failed_requests_end) (simp add: list_all_iff calm_def same_means_def)
  moreover have "stand_ins_left two_models (se_client (session_begun [])) = 1" unfolding session_begun_def by code_simp
  ultimately show ?thesis by simp
qed

text \<open>Empty replies do not keep a turn going: each model in use is given one nudge and three tries at most
  before it hands over, and with no stand-in left the turn ends with an error.\<close>

theorem empty_replies_end:
  assumes "list_all (same_means catalogue waits) fs"
  shows "retry_count empty_again fs s \<le> 4 * (1 + stand_ins_left catalogue (se_client s))"
proof -
  define env0 where "env0 = calm\<lparr>sv_client := catalogue, sv_server_waits := waits\<rparr>"
  have "retry_count empty_again fs s \<le> empties_left env0 s"
    using assms by (intro empty_replies.tries_le) (simp add: env0_def)
  also have "\<dots> \<le> 4 * (1 + stand_ins_left catalogue (se_client s))"
    unfolding empties_left_def env0_def TRIES_def session_env.simps session_env.update_convs
    by (cases "rs_empty_nudged (se_run s)"; simp; linarith)
  finally show ?thesis .
qed

theorem empty_replies_end_witness:
  "retry_count empty_again (replicate 30 (calm, False, \<lparr>ac_intents = [], ac_tokens = None, ac_empty = True, ac_thought = False,
      ac_said_again = False\<rparr>)) (session_begun []) \<le> 8"
proof -
  have "retry_count empty_again (replicate 30 (calm, False, \<lparr>ac_intents = [], ac_tokens = None, ac_empty = True, ac_thought = False,
      ac_said_again = False\<rparr>)) (session_begun []) \<le> 4 * (1 + stand_ins_left two_models (se_client (session_begun [])))"
    by (rule empty_replies_end [of two_models 2]) (simp add: list_all_iff calm_def same_means_def)
  moreover have "stand_ins_left two_models (se_client (session_begun [])) = 1" unfolding session_begun_def by code_simp
  ultimately show ?thesis by simp
qed

text \<open>C20. A run under a ceiling of turns is bounded whatever its steps meet and in whatever order they come: it begins
  no more turns than the ceiling leaves, and it asks the model to go on at most three times.\<close>

theorem run_is_bounded:
  assumes "max_turns (gov_budget (se_gov s)) = Some m" "m < 2 ^ 32" "run_length ops s = (turns, asked)"
  shows "turns \<le> m - gov_turns (se_gov s) \<and> asked \<le> 3 - rs_cut_offs (se_run s)"
  using run_length_le [OF assms] by (simp add: ROUNDS_def)

theorem run_is_bounded_witness: "fst (run_length (replicate 9 (DoBoundary calm)) (session_begun [])) \<le> 2"
  using run_is_bounded [of "session_begun []" 2 "replicate 9 (DoBoundary calm)", OF _ _ prod.collapse [symmetric]]
  by (simp add: session_begun_def budget_default_def)

text \<open>A turn is reported as finished only when it was checked: the model had no calls left, nobody had stopped
  the turn, and a task whose checks are required ended with a report that passed.\<close>

theorem finished_means_checked:
  assumes "complete_turn env cv s = (Break Finished, s')"
  shows "cv_finishing cv \<and> \<not> cv_stopped cv \<and>
    (cv_planning cv \<or> \<not> cv_required cv \<or> (\<exists>summary out. cv_check cv = CheckReport (Some (True, summary, out))))"
proof -
  have fin: "finish_turn env cv ok s1 = (Break Finished, s') \<Longrightarrow> cv_finishing cv \<and> (cv_planning cv \<or> \<not> cv_required cv \<or> ok)"
    for ok s1 by (auto simp: finish_turn_def split: if_splits sum.splits list.splits)
  show ?thesis using assms unfolding complete_turn_def
    by (auto simp: needs_check_def missing_report_def dest!: fin split: if_splits check_outcome.splits option.splits prod.splits)
qed

theorem finished_means_checked_witness:
  "cv_check \<lparr>cv_stopped = False, cv_planning = False, cv_modified = True, cv_finishing = True, cv_required = True,
     cv_check = CheckReport (Some (True, ''ok'', [])), cv_stopped_after = False, cv_hooks = Inr []\<rparr>
   = CheckReport (Some (True, ''ok'', []))"
proof -
  let ?cv = "\<lparr>cv_stopped = False, cv_planning = False, cv_modified = True, cv_finishing = True, cv_required = True,
     cv_check = CheckReport (Some (True, ''ok'', [])), cv_stopped_after = False, cv_hooks = Inr []\<rparr>"
  have "fst (complete_turn calm ?cv (session_begun [])) = Break Finished"
    by (simp add: complete_turn_def needs_check_def finish_turn_def save_feedback_def calm_def session_begun_def
        gov_check_def bad_cost_cap_def budget_default_def stop_run_def push_message_def pooled_new_def Let_def
        MAX_HOOK_CONTINUATIONS_def split: prod.split)
  then have "complete_turn calm ?cv (session_begun []) = (Break Finished, snd (complete_turn calm ?cv (session_begun [])))"
    by (metis prod.collapse)
  from finished_means_checked [OF this] show ?thesis by auto
qed

text \<open>A reply cut by a stop admits nothing: what it adds to the histories holds no call of a tool, so no call
  without a result is ever sent back to a model.\<close>

theorem stopped_reply_admits_no_call:
  assumes "rp_interrupted r \<or> stopped" "save_response env stopped cut_bytes r s = (a, s')"
  shows "(\<forall>x. a \<noteq> Go x) \<and>
    (\<exists>ms os. se_messages s' = se_messages s @ ms \<and> se_ordered s' = se_ordered s @ os \<and>
       list_all (\<lambda>m. msg_calls m = []) ms \<and> list_all (\<lambda>m. list_all (\<lambda>p. \<not> is_call_part p) (mm_parts m)) os)"
proof -
  have *: "save_stopped env r s = (a, s')" using assms by (auto simp: save_response_def)
  show ?thesis using * by (auto simp: save_stopped_def strip_tool_calls_def assistant_calls_def Let_def list_all_iff
        split: option.splits if_splits)
qed

theorem stopped_reply_admits_no_call_witness:
  "\<exists>os. se_ordered (snd (save_response calm True 0 \<lparr>rp_message = assistant_calls ''on it'' [], rp_canonical =
       \<lparr>mm_role = AssistantRole, mm_parts = [TextPart ''on it'' [], ToolCallPart ''1'' ''bash'' JNull []], mm_trust = None\<rparr>,
     rp_intents = [], rp_tokens = None, rp_interrupted = False\<rparr> (session_begun []))) = os \<and>
     list_all (\<lambda>m. list_all (\<lambda>p. \<not> is_call_part p) (mm_parts m)) os"
  using stopped_reply_admits_no_call [OF _ prod.collapse [symmetric], of "\<lparr>rp_message = assistant_calls ''on it'' [],
     rp_canonical = \<lparr>mm_role = AssistantRole, mm_parts = [TextPart ''on it'' [], ToolCallPart ''1'' ''bash'' JNull []], mm_trust = None\<rparr>,
     rp_intents = [], rp_tokens = None, rp_interrupted = False\<rparr>" True calm 0 "session_begun []"]
  by (auto simp: session_begun_def)

end
