(* ===== verification/StreamTurn.thy ===== *)
theory StreamTurn
  imports Seam TurnLimits Rejections Budgets Replies
begin

text \<open>
  One stream of a model: \<open>stream_turn\<close> of \<open>crates/kernel/src/turn.rs\<close>, with \<open>charge_stream_bytes\<close> and \<open>only_shown\<close>
  of \<open>loop_.rs\<close> and the \<open>Join\<close> of \<open>seam.rs\<close>. The provider's stream, the person's stop and the deadline are a list
  of events. A character is the byte string of its UTF-8 form, so the seam works on lists of those.
\<close>

section \<open>Replies less their start\<close>

lemma utf8_width_pos [simp]: "0 < utf8_width c"
  by (simp add: utf8_width_def Let_def)

text \<open>\<open>without_start\<close>: the text less its first characters.\<close>

definition text_without_start :: "string \<Rightarrow> nat \<Rightarrow> string" where
  "text_without_start s n = concat (drop n (utf8_chars s))"

text \<open>\<open>without_start_of\<close> over the parts of a message.\<close>

fun parts_without_start :: "content_part list \<Rightarrow> nat \<Rightarrow> content_part list" where
  "parts_without_start [] n = []"
| "parts_without_start (TextPart s st # rest) n =
     (if n = 0 then TextPart s st # rest
      else TextPart (text_without_start s n) st # parts_without_start rest (n - length (utf8_chars s)))"
| "parts_without_start (p # rest) n = p # parts_without_start rest n"

definition message_without_start :: "model_message \<Rightarrow> nat \<Rightarrow> model_message" where
  "message_without_start m n = m\<lparr>mm_parts := parts_without_start (mm_parts m) n\<rparr>"

section \<open>The stream\<close>

definition MAX_TOOL_INTENTS :: nat where "MAX_TOOL_INTENTS = 64"
definition MAX_STREAM_BLOCKS :: nat where "MAX_STREAM_BLOCKS = 262144"
definition MAX_STREAM_BYTES :: nat where "MAX_STREAM_BYTES = 8 * 1024 * 1024"

datatype block =
    TextBlock string
  | IntentBlock tool_intent
  | StartedBlock string "string option"
  | InputBlock string string string
  | UsageBlock usage
  | ReasoningBlock string
  | CompletedBlock model_message

text \<open>A block that came, the error the stream broke with, or a stop by the person or the deadline.\<close>

datatype stream_event = Came block | Broke provider_error | StopCame

text \<open>Whether a stream was opened at all.\<close>

datatype opened = NoStream provider_error | StopFirst | Streaming "stream_event list"

text \<open>What the reply continues, and how long a value is as JSON (or why it has no JSON).\<close>

record stream_env =
  sm_written :: string
  sm_intent_len :: "tool_intent \<Rightarrow> string + nat"
  sm_message_len :: "model_message \<Rightarrow> string + nat"

record stream_state =
  ss_text :: string
  ss_reasoning :: string
  ss_intents :: "tool_intent list"
  ss_parts :: "content_part list"
  ss_completed :: "model_message option"
  ss_usage :: "usage option"
  ss_emitted :: bool
  ss_tool_started :: bool
  ss_called :: "string list"
  ss_blocks :: nat
  ss_bytes :: nat
  ss_args_started :: "string list"
  ss_seam :: "string seam option"
  ss_shown :: string

definition stream_start :: "stream_env \<Rightarrow> stream_state" where
  "stream_start env = \<lparr>ss_text = [], ss_reasoning = [], ss_intents = [], ss_parts = [], ss_completed = None, ss_usage = None,
     ss_emitted = False, ss_tool_started = False, ss_called = [], ss_blocks = 0, ss_bytes = 0, ss_args_started = [],
     ss_seam = (if sm_written env = [] then None else Some (seam_after (utf8_chars (sm_written env)))), ss_shown = []\<rparr>"

definition charge_stream_bytes :: "nat \<Rightarrow> nat \<Rightarrow> provider_error + nat" where
  "charge_stream_bytes so_far additional =
     (if 2 ^ 64 \<le> so_far + additional then Inl (Decode ''provider stream exceeded the kernel byte limit'')
      else if MAX_STREAM_BYTES < so_far + additional
      then Inl (Decode (''provider stream exceeded the '' @ decimal MAX_STREAM_BYTES @ '' byte kernel limit''))
      else Inr (so_far + additional))"

definition push_text :: "string \<Rightarrow> content_part list \<Rightarrow> content_part list" where
  "push_text t parts =
     (case rev parts of
        TextPart s st # before \<Rightarrow> rev before @ [TextPart (s @ t) st]
      | _ \<Rightarrow> parts @ [TextPart t []])"

definition push_reasoning :: "string \<Rightarrow> content_part list \<Rightarrow> content_part list" where
  "push_reasoning t parts =
     (case rev parts of
        ReasoningPart r st # before \<Rightarrow> rev before @ [ReasoningPart (Some ((case r of Some s \<Rightarrow> s | None \<Rightarrow> []) @ t)) st]
      | _ \<Rightarrow> parts @ [ReasoningPart (Some t) []])"

text \<open>What the seam lets through of a piece; without one everything is shown.\<close>

definition show_text :: "string \<Rightarrow> stream_state \<Rightarrow> stream_state" where
  "show_text t s =
     (case ss_seam s of
        None \<Rightarrow> s\<lparr>ss_emitted := True, ss_shown := ss_shown s @ t\<rparr>
      | Some sm \<Rightarrow> (let (shown, sm') = seam_feed (utf8_chars t) sm
          in s\<lparr>ss_emitted := (ss_emitted s \<or> shown \<noteq> []), ss_shown := ss_shown s @ concat shown, ss_seam := Some sm'\<rparr>))"

fun reply_fault :: "reply_error \<Rightarrow> provider_error" where
  "reply_fault (BadReply said) = Decode said"
| "reply_fault (BadCall tool call_id why) = InvalidToolCallError \<lparr>bad_tool = tool, bad_call_id = call_id, bad_reason = why\<rparr>"

fun take_block :: "stream_env \<Rightarrow> block \<Rightarrow> stream_state \<Rightarrow> provider_error + stream_state" where
  "take_block env (TextBlock t) s =
     (case charge_stream_bytes (ss_bytes s) (length t) of
        Inl e \<Rightarrow> Inl e
      | Inr n \<Rightarrow> (let s1 = show_text t s
          in Inr (s1\<lparr>ss_bytes := n, ss_text := ss_text s1 @ t, ss_parts := push_text t (ss_parts s1)\<rparr>)))"
| "take_block env (ReasoningBlock t) s =
     (case charge_stream_bytes (ss_bytes s) (length t) of
        Inl e \<Rightarrow> Inl e
      | Inr n \<Rightarrow> Inr (s\<lparr>ss_bytes := n, ss_emitted := True, ss_reasoning := ss_reasoning s @ t,
          ss_parts := push_reasoning t (ss_parts s)\<rparr>))"
| "take_block env (StartedBlock name target) s =
     Inr (s\<lparr>ss_emitted := True, ss_tool_started := True,
       ss_called := (if name \<in> set (ss_called s) then ss_called s else ss_called s @ [name])\<rparr>)"
| "take_block env (InputBlock call_id name delta) s =
     Inr (s\<lparr>ss_emitted := True,
       ss_args_started := (if length (ss_args_started s) < MAX_TOOL_INTENTS \<and> call_id \<notin> set (ss_args_started s)
         then ss_args_started s @ [call_id] else ss_args_started s)\<rparr>)"
| "take_block env (IntentBlock it) s =
     (if MAX_TOOL_INTENTS \<le> length (ss_intents s)
      then Inl (Decode (''provider emitted more than '' @ decimal MAX_TOOL_INTENTS @ '' tool calls in one turn''))
      else case sm_intent_len env it of
        Inl e \<Rightarrow> Inl (Decode e)
      | Inr len \<Rightarrow>
          (case charge_stream_bytes (ss_bytes s) len of
             Inl e \<Rightarrow> Inl e
           | Inr n \<Rightarrow> Inr (s\<lparr>ss_bytes := n, ss_emitted := True,
               ss_parts := ss_parts s @ [ToolCallPart (intent_id it) (intent_tool it) (intent_args it) []],
               ss_intents := ss_intents s @ [it]\<rparr>)))"
| "take_block env (UsageBlock u) s = Inr (s\<lparr>ss_usage := Some u\<rparr>)"
| "take_block env (CompletedBlock m) s =
     (if ss_completed s \<noteq> None then Inl (Decode ''provider emitted more than one completed message'')
      else case completed_control_view m of
        Inl e \<Rightarrow> Inl (reply_fault e)
      | Inr _ \<Rightarrow>
          (case sm_message_len env m of
             Inl e \<Rightarrow> Inl (Decode e)
           | Inr len \<Rightarrow>
               (case charge_stream_bytes (ss_bytes s) len of
                  Inl e \<Rightarrow> Inl e
                | Inr n \<Rightarrow> Inr (s\<lparr>ss_bytes := n, ss_completed := Some m\<rparr>))))"

definition cut_default :: cut_off where
  "cut_default = \<lparr>cut_text = [], cut_tool_call = False, cut_tools = []\<rparr>"

definition hidden_of :: "stream_state \<Rightarrow> nat" where
  "hidden_of s = (case ss_seam s of Some sm \<Rightarrow> seam_hidden sm | None \<Rightarrow> 0)"

text \<open>What a reply had written when its stream broke.\<close>

definition cut_of :: "stream_state \<Rightarrow> cut_off" where
  "cut_of s = \<lparr>cut_text = (if ss_seam s = None then ss_text s else text_without_start (ss_text s) (hidden_of s)),
     cut_tool_call = (ss_tool_started s \<or> ss_intents s \<noteq> [] \<or> ss_args_started s \<noteq> []), cut_tools = ss_called s\<rparr>"

datatype loop_end = Failing provider_error cut_off | StoppedEarly | RanOut

fun stream_loop :: "stream_env \<Rightarrow> stream_event list \<Rightarrow> stream_state \<Rightarrow> loop_end \<times> stream_state" where
  "stream_loop env [] s = (RanOut, s)"
| "stream_loop env (StopCame # later) s = (StoppedEarly, s)"
| "stream_loop env (Broke e # later) s =
     (let s1 = s\<lparr>ss_blocks := ss_blocks s + 1\<rparr> in
      if MAX_STREAM_BLOCKS < ss_blocks s1
      then (Failing (Decode (''provider stream exceeded the '' @ decimal MAX_STREAM_BLOCKS @ '' block kernel limit'')) cut_default, s1)
      else (Failing e (cut_of s1), s1))"
| "stream_loop env (Came b # later) s =
     (let s1 = s\<lparr>ss_blocks := ss_blocks s + 1\<rparr> in
      if MAX_STREAM_BLOCKS < ss_blocks s1
      then (Failing (Decode (''provider stream exceeded the '' @ decimal MAX_STREAM_BLOCKS @ '' block kernel limit'')) cut_default, s1)
      else case take_block env b s1 of
        Inl e \<Rightarrow> (Failing e cut_default, s1)
      | Inr s2 \<Rightarrow> stream_loop env later s2)"

section \<open>The end of a stream\<close>

record streamed =
  sr_text :: string
  sr_reasoning :: string
  sr_intents :: "tool_intent list"
  sr_canonical :: model_message
  sr_usage :: "usage option"
  sr_interrupted :: bool

text \<open>How a stream ended: the reply, or the error and whether anything was shown, with what it had written; what
  the screen got; the usage it reported; the characters the join cut.\<close>

record stream_out =
  so_result :: "provider_error \<times> bool + streamed"
  so_cut :: cut_off
  so_shown :: string
  so_usage :: "usage option"
  so_join_cut :: nat

text \<open>A reply stopped on the way: what was shown, without the calls nobody admitted.\<close>

definition stopped_reply :: "stream_state \<Rightarrow> streamed" where
  "stopped_reply s =
     (let m = strip_tool_calls (case ss_completed s of Some m \<Rightarrow> m | None \<Rightarrow> message_from_stream_parts (ss_parts s))
      in \<lparr>sr_text = (if ss_seam s = None then ss_text s else text_without_start (ss_text s) (hidden_of s)),
          sr_reasoning = ss_reasoning s, sr_intents = [],
          sr_canonical = (if ss_seam s = None then m else message_without_start m (hidden_of s)),
          sr_usage = ss_usage s, sr_interrupted = True\<rparr>)"

text \<open>Why a finished stream is refused: its blocks and its completed message must agree.\<close>

definition disagreement :: "stream_state \<Rightarrow> string \<times> string \<times> tool_intent list \<Rightarrow> string option" where
  "disagreement s view =
     (let (said, thought, calls) = view in
      if MAX_TOOL_INTENTS < length calls
      then Some (''provider completed message contained more than '' @ decimal MAX_TOOL_INTENTS @ '' tool calls'')
      else if ss_text s \<noteq> [] \<and> ss_text s \<noteq> said
      then Some ''provider text deltas disagree with its completed message''
      else if ss_reasoning s \<noteq> [] \<and> ss_reasoning s \<noteq> thought
      then Some ''provider reasoning deltas disagree with its completed message''
      else if ss_intents s \<noteq> [] \<and> ss_intents s \<noteq> calls
      then Some ''provider tool-call blocks disagree with its completed message''
      else None)"

text \<open>A reply that arrived whole is read for a repeat like any other.\<close>

definition with_whole_text :: "string \<Rightarrow> stream_state \<Rightarrow> stream_state" where
  "with_whole_text said s = (if ss_text s = [] \<and> said \<noteq> [] then (show_text said s)\<lparr>ss_text := said\<rparr> else s)"

text \<open>The rest of a reply that was whole: what was held is shown, and a repeat is left out of what is saved.\<close>

definition settle_reply :: "stream_state \<Rightarrow> model_message \<Rightarrow> string \<times> string \<times> tool_intent list \<Rightarrow> streamed \<times> string \<times> nat" where
  "settle_reply s canonical view =
     (let (said, thought, calls) = view;
          s1 = with_whole_text said s;
          (held, repeat) = (case ss_seam s1 of
             None \<Rightarrow> ([], 0)
           | Some sm \<Rightarrow> (let (h, sm') = seam_finish sm in (concat h, seam_cut sm')));
          joined = (ss_seam s1 \<noteq> None)
      in (\<lparr>sr_text = (if joined then text_without_start (ss_text s1) repeat else ss_text s1),
           sr_reasoning = (if ss_reasoning s = [] then thought else ss_reasoning s),
           sr_intents = (if ss_intents s = [] then calls else ss_intents s),
           sr_canonical = (if joined then message_without_start canonical repeat else canonical),
           sr_usage = ss_usage s, sr_interrupted = False\<rparr>, ss_shown s1 @ held, repeat))"

definition finish_stream :: "stream_state \<Rightarrow> stream_out" where
  "finish_stream s =
     (let canonical = (case ss_completed s of Some m \<Rightarrow> m | None \<Rightarrow> message_from_stream_parts (ss_parts s));
          failing = (\<lambda>e. \<lparr>so_result = Inl (e, ss_emitted s), so_cut = cut_default, so_shown = ss_shown s,
            so_usage = ss_usage s, so_join_cut = 0\<rparr>)
      in case completed_control_view canonical of
           Inl e \<Rightarrow> failing (reply_fault e)
         | Inr view \<Rightarrow>
             (case disagreement s view of
                Some said \<Rightarrow> failing (Decode said)
              | None \<Rightarrow>
                  (let (reply, shown, repeat) = settle_reply s canonical view
                   in \<lparr>so_result = Inr reply, so_cut = cut_default, so_shown = shown, so_usage = ss_usage s,
                       so_join_cut = repeat\<rparr>)))"

definition nothing_streamed :: streamed where
  "nothing_streamed = \<lparr>sr_text = [], sr_reasoning = [], sr_intents = [], sr_canonical = message_from_stream_parts [],
     sr_usage = None, sr_interrupted = True\<rparr>"

definition stream_turn :: "stream_env \<Rightarrow> opened \<Rightarrow> stream_out" where
  "stream_turn env how =
     (case how of
        NoStream e \<Rightarrow> \<lparr>so_result = Inl (e, False), so_cut = cut_default, so_shown = [], so_usage = None, so_join_cut = 0\<rparr>
      | StopFirst \<Rightarrow> \<lparr>so_result = Inr nothing_streamed, so_cut = cut_default, so_shown = [], so_usage = None, so_join_cut = 0\<rparr>
      | Streaming events \<Rightarrow>
          (case stream_loop env events (stream_start env) of
             (Failing e was, s) \<Rightarrow> \<lparr>so_result = Inl (e, ss_emitted s), so_cut = was, so_shown = ss_shown s,
               so_usage = ss_usage s, so_join_cut = 0\<rparr>
           | (StoppedEarly, s) \<Rightarrow> \<lparr>so_result = Inr (stopped_reply s), so_cut = cut_default, so_shown = ss_shown s,
               so_usage = ss_usage s, so_join_cut = 0\<rparr>
           | (RanOut, s) \<Rightarrow> finish_stream s))"

section \<open>Lemmas\<close>

text \<open>A \<open>str\<close> holds whole characters.\<close>

definition whole_chars :: "string \<Rightarrow> bool" where
  "whole_chars s \<longleftrightarrow> list_all (\<lambda>c. length c = utf8_width (hd c)) (utf8_chars s)"

lemma utf8_chars_Nil [simp]: "utf8_chars [] = []"
  by (simp add: utf8_chars.simps)

lemma concat_utf8_chars [simp]: "concat (utf8_chars s) = s"
proof (induction s rule: utf8_chars.induct)
  case (1 s)
  then show ?case by (cases "s = []") (simp_all add: utf8_chars.simps [of s])
qed

lemma whole_chars_Nil [simp]: "whole_chars []"
  by (simp add: whole_chars_def)

lemma utf8_chars_append: "whole_chars a \<Longrightarrow> utf8_chars (a @ b) = utf8_chars a @ utf8_chars b"
proof (induction a rule: utf8_chars.induct)
  case (1 a)
  show ?case
  proof (cases "a = []")
    case False
    let ?w = "utf8_width (hd a)"
    have split: "utf8_chars a = take ?w a # utf8_chars (drop ?w a)" using False by (simp add: utf8_chars.simps [of a])
    then have whole: "length (take ?w a) = ?w" "whole_chars (drop ?w a)"
      using 1(2) False by (simp_all add: whole_chars_def hd_take)
    then have "?w \<le> length a" by simp
    then have "utf8_chars (a @ b) = take ?w a # utf8_chars (drop ?w a @ b)"
      using False by (subst utf8_chars.simps) simp
    then show ?thesis using split 1(1) [OF False whole(2)] by simp
  qed simp
qed

lemma whole_chars_append [simp]: "whole_chars a \<Longrightarrow> whole_chars b \<Longrightarrow> whole_chars (a @ b)"
  by (simp add: whole_chars_def utf8_chars_append)

lemma text_without_start_Nil [simp]: "text_without_start [] n = []"
  by (simp add: text_without_start_def)

lemma text_without_start_0 [simp]: "text_without_start s 0 = s"
  by (simp add: text_without_start_def)

text \<open>The text and the calls of a message's parts.\<close>

fun said_of :: "content_part list \<Rightarrow> string" where
  "said_of [] = []"
| "said_of (TextPart s st # rest) = s @ said_of rest"
| "said_of (p # rest) = said_of rest"

fun whole_parts :: "content_part list \<Rightarrow> bool" where
  "whole_parts [] = True"
| "whole_parts (TextPart s st # rest) = (whole_chars s \<and> whole_parts rest)"
| "whole_parts (p # rest) = whole_parts rest"

lemma said_of_append [simp]: "said_of (ps @ qs) = said_of ps @ said_of qs"
  by (induction ps rule: said_of.induct) simp_all

lemma whole_parts_append [simp]: "whole_parts (ps @ qs) \<longleftrightarrow> whole_parts ps \<and> whole_parts qs"
  by (induction ps rule: whole_parts.induct) auto

lemma whole_said [simp]: "whole_parts ps \<Longrightarrow> whole_chars (said_of ps)"
  by (induction ps rule: said_of.induct) simp_all

lemma view_said: "view_parts ps a b c = Inr (x, y, z) \<Longrightarrow> x = a @ said_of ps"
  by (induction ps a b c rule: view_parts.induct) (auto split: if_splits)

lemma completed_said: "completed_control_view m = Inr (x, y, z) \<Longrightarrow> x = said_of (mm_parts m)"
  by (auto simp: completed_control_view_def dest: view_said split: if_splits)

lemma view_without_start: "view_parts ps a b c = Inr (x, y, z) \<Longrightarrow> \<exists>x'. view_parts (parts_without_start ps n) a' b c = Inr (x', y, z)"
proof (induction ps a b c arbitrary: n a' rule: view_parts.induct)
  case (2 s st rest a b c)
  show ?case
  proof (cases "n = 0")
    case True
    have *: "view_parts ps u b c = Inr (x, y, z) \<Longrightarrow> \<exists>x'. view_parts ps u' b c = Inr (x', y, z)" for ps u u'
      by (induction ps u b c arbitrary: u' rule: view_parts.induct) (auto split: if_splits)
    show ?thesis using * [of rest "a @ s" "a' @ s"] 2(2) True by simp
  qed (use 2 in simp)
qed (auto split: if_splits)

lemma completed_without_start:
  "completed_control_view m = Inr (x, y, z) \<Longrightarrow> \<exists>x'. completed_control_view (message_without_start m n) = Inr (x', y, z)"
  by (auto simp: completed_control_view_def message_without_start_def intro: view_without_start split: if_splits)

lemma said_without_start: "whole_parts ps \<Longrightarrow> said_of (parts_without_start ps n) = text_without_start (said_of ps) n"
proof (induction ps n rule: parts_without_start.induct)
  case (2 s st rest n)
  then show ?case
    by (cases "n = 0") (simp_all add: text_without_start_def utf8_chars_append)
qed simp_all

lemma said_push_text [simp]: "said_of (push_text t ps) = said_of ps @ t"
  by (cases ps rule: rev_cases) (auto simp: push_text_def split: content_part.splits list.splits)

lemma whole_push_text: "whole_parts ps \<Longrightarrow> whole_chars t \<Longrightarrow> whole_parts (push_text t ps)"
  by (cases ps rule: rev_cases) (auto simp: push_text_def split: content_part.splits list.splits)

lemma said_push_reasoning [simp]: "said_of (push_reasoning t ps) = said_of ps"
  by (cases ps rule: rev_cases) (auto simp: push_reasoning_def split: content_part.splits list.splits)

lemma whole_push_reasoning: "whole_parts ps \<Longrightarrow> whole_parts (push_reasoning t ps)"
  by (cases ps rule: rev_cases) (auto simp: push_reasoning_def split: content_part.splits list.splits)

lemma no_calls_without_start: "\<forall>p \<in> set ps. \<not> is_call_part p \<Longrightarrow> \<forall>p \<in> set (parts_without_start ps n). \<not> is_call_part p"
  by (induction ps n rule: parts_without_start.induct) (auto simp: is_call_part_def)

subsection \<open>The screen and the text\<close>

text \<open>What is on the screen, what came, and the seam between them.\<close>

definition joined_to :: "string \<Rightarrow> string list" where
  "joined_to written = rev (take SEAM_REACH (rev (utf8_chars written)))"

definition screen_is :: "string \<Rightarrow> string \<Rightarrow> string seam option \<Rightarrow> string \<Rightarrow> bool" where
  "screen_is written came seam shown \<longleftrightarrow> whole_chars came \<and>
     (case seam of
        None \<Rightarrow> written = [] \<and> shown = came
      | Some sm \<Rightarrow> \<exists>out. seam_inv (joined_to written) (utf8_chars came) out sm
          \<and> shown = concat out \<and> (seam_settled sm \<longrightarrow> seam_held sm = []))"

abbreviation screen_ok :: "stream_env \<Rightarrow> stream_state \<Rightarrow> bool" where
  "screen_ok env s \<equiv> screen_is (sm_written env) (ss_text s) (ss_seam s) (ss_shown s)"

definition parts_ok :: "stream_state \<Rightarrow> bool" where
  "parts_ok s \<longleftrightarrow> said_of (ss_parts s) = ss_text s \<and> whole_parts (ss_parts s) \<and>
     (case ss_completed s of Some m \<Rightarrow> whole_parts (mm_parts m) | None \<Rightarrow> True)"

fun block_whole :: "block \<Rightarrow> bool" where
  "block_whole (TextBlock t) = whole_chars t"
| "block_whole (CompletedBlock m) = whole_parts (mm_parts m)"
| "block_whole _ = True"

fun event_whole :: "stream_event \<Rightarrow> bool" where
  "event_whole (Came b) = block_whole b"
| "event_whole _ = True"

lemma screen_start: "screen_ok env (stream_start env)"
proof (cases "sm_written env = []")
  case False
  let ?sm = "seam_after (utf8_chars (sm_written env))"
  have "seam_inv (joined_to (sm_written env)) [] [] ?sm \<and> (seam_settled ?sm \<longrightarrow> seam_held ?sm = [])"
    using seam_after_inv by (simp add: joined_to_def seam_after_def Let_def)
  then show ?thesis using False by (auto simp: screen_is_def stream_start_def intro!: exI [of _ "[]"])
qed (simp add: screen_is_def stream_start_def)

lemma show_text_fields [simp]:
  "ss_text (show_text t s) = ss_text s" "ss_parts (show_text t s) = ss_parts s" "ss_completed (show_text t s) = ss_completed s"
  "ss_seam (show_text t s) = None \<longleftrightarrow> ss_seam s = None" "ss_intents (show_text t s) = ss_intents s"
  "ss_bytes (show_text t s) = ss_bytes s"
  by (simp_all add: show_text_def split: option.splits prod.splits)

lemma screen_show:
  assumes "screen_ok env s" "whole_chars t"
  shows "screen_is (sm_written env) (ss_text s @ t) (ss_seam (show_text t s)) (ss_shown (show_text t s))"
proof (cases "ss_seam s")
  case None
  then show ?thesis using assms by (simp add: screen_is_def show_text_def)
next
  case (Some sm)
  then obtain out where out: "seam_inv (joined_to (sm_written env)) (utf8_chars (ss_text s)) out sm"
    "ss_shown s = concat out" "seam_settled sm \<longrightarrow> seam_held sm = []" and whole: "whole_chars (ss_text s)"
    using assms(1) by (auto simp: screen_is_def)
  obtain shown sm' where f: "seam_feed (utf8_chars t) sm = (shown, sm')" by (cases "seam_feed (utf8_chars t) sm")
  have "seam_inv (joined_to (sm_written env)) (utf8_chars (ss_text s @ t)) (out @ shown) sm'
      \<and> (seam_settled sm' \<longrightarrow> seam_held sm' = [])"
    using seam_feed_inv [OF out(1) f] out(3) whole by (simp add: utf8_chars_append)
  then show ?thesis using f Some out(2) whole assms(2)
    by (auto simp: screen_is_def show_text_def intro!: exI [of _ "out @ shown"])
qed

lemma take_block_screen:
  "take_block env b s = Inr s' \<Longrightarrow> screen_ok env s \<Longrightarrow> block_whole b \<Longrightarrow> screen_ok env s'"
  by (cases b) (auto simp: Let_def screen_show split: sum.splits if_splits)

lemma take_block_parts:
  "take_block env b s = Inr s' \<Longrightarrow> parts_ok s \<Longrightarrow> block_whole b \<Longrightarrow> parts_ok s'"
  by (cases b) (auto simp: parts_ok_def Let_def whole_push_text whole_push_reasoning split: sum.splits if_splits)

lemma stream_loop_ok:
  "stream_loop env events s = (how, s') \<Longrightarrow> list_all event_whole events \<Longrightarrow> screen_ok env s \<Longrightarrow> parts_ok s \<Longrightarrow>
     screen_ok env s' \<and> parts_ok s' \<and> (\<forall>e was. how = Failing e was \<longrightarrow> was = cut_default \<or> was = cut_of s')"
proof (induction env events s rule: stream_loop.induct)
  case (4 env b later s)
  let ?s1 = "s\<lparr>ss_blocks := ss_blocks s + 1\<rparr>"
  have ok: "screen_ok env ?s1" "parts_ok ?s1" using 4(4,5) by (simp_all add: parts_ok_def)
  show ?case
  proof (cases "MAX_STREAM_BLOCKS < ss_blocks ?s1")
    case False
    show ?thesis
    proof (cases "take_block env b ?s1")
      case (Inr s2)
      have "screen_ok env s2" "parts_ok s2"
        using take_block_screen [OF Inr ok(1)] take_block_parts [OF Inr ok(2)] 4(3) by simp_all
      then show ?thesis using 4(1) [OF refl False Inr] 4(2,3) False Inr by (simp add: Let_def)
    qed (use 4(2) ok False in \<open>auto simp: Let_def\<close>)
  qed (use 4(2) ok in \<open>auto simp: Let_def\<close>)
qed (auto simp: Let_def parts_ok_def split: if_splits)

text \<open>What was shown is the text less what is hidden.\<close>

lemma shown_less_hidden:
  "screen_ok env s \<Longrightarrow> ss_shown s = (if ss_seam s = None then ss_text s else text_without_start (ss_text s) (hidden_of s))"
  by (auto simp: screen_is_def hidden_of_def seam_hidden_def seam_inv_def text_without_start_def split: option.splits if_splits)

lemma finished_join:
  assumes "screen_ok env s" "ss_seam s = Some sm" "seam_finish sm = (held, sm')"
  shows "ss_shown s @ concat held = text_without_start (ss_text s) (seam_cut sm')"
proof -
  obtain out where out: "seam_inv (joined_to (sm_written env)) (utf8_chars (ss_text s)) out sm" "ss_shown s = concat out"
    using assms(1,2) by (auto simp: screen_is_def)
  have "out @ held = drop (seam_cut sm') (utf8_chars (ss_text s))" using seam_finish_inv [OF out(1) assms(3)] by simp
  then show ?thesis using out(2) by (metis concat_append text_without_start_def)
qed

lemma settle_reply_screen:
  assumes "settle_reply s canonical view = (r, shown, n)" "screen_ok env s" "completed_control_view canonical = Inr view"
    "disagreement s view = None" "whole_parts (mm_parts canonical)"
  shows "shown = sr_text r \<and> said_of (mm_parts (sr_canonical r)) = sr_text r"
proof -
  obtain said thought calls where v: "view = (said, thought, calls)" by (cases view)
  have said: "said = said_of (mm_parts canonical)" using completed_said assms(3) v by simp
  then have whole: "whole_chars said" using assms(5) by simp
  define s1 where "s1 = with_whole_text said s"
  have came: "ss_text s1 = said" using assms(4) by (auto simp: s1_def with_whole_text_def v disagreement_def split: if_splits)
  have ok: "screen_ok env s1" using screen_show [OF assms(2) whole] assms(2) by (auto simp: s1_def with_whole_text_def)
  show ?thesis
  proof (cases "ss_seam s1")
    case None
    then have "ss_shown s1 = said" using ok came by (simp add: screen_is_def)
    moreover have "sr_text r = said \<and> shown = ss_shown s1 \<and> sr_canonical r = canonical"
      using assms(1) None came by (auto simp: settle_reply_def v s1_def [symmetric] Let_def)
    ultimately show ?thesis using said by simp
  next
    case (Some sm)
    obtain held sm' where f: "seam_finish sm = (held, sm')" by (cases "seam_finish sm")
    have "sr_text r = text_without_start said (seam_cut sm') \<and> shown = ss_shown s1 @ concat held \<and>
        sr_canonical r = message_without_start canonical (seam_cut sm')"
      using assms(1) Some came f by (auto simp: settle_reply_def v s1_def [symmetric] Let_def)
    then show ?thesis using finished_join [OF ok Some f] came said said_without_start [OF assms(5)]
      by (simp add: message_without_start_def)
  qed
qed

subsection \<open>The calls and the record\<close>

fun calls_in_parts :: "content_part list \<Rightarrow> tool_intent list" where
  "calls_in_parts [] = []"
| "calls_in_parts (ToolCallPart c tool args st # rest) = \<lparr>intent_id = c, intent_tool = tool, intent_args = args\<rparr> # calls_in_parts rest"
| "calls_in_parts (p # rest) = calls_in_parts rest"

lemma settle_reply_calls:
  assumes "settle_reply s canonical view = (r, shown, n)" "completed_control_view canonical = Inr view" "disagreement s view = None"
  shows "\<exists>said thought. completed_control_view (sr_canonical r) = Inr (said, thought, sr_intents r) \<and>
    length (sr_intents r) \<le> MAX_TOOL_INTENTS \<and> \<not> sr_interrupted r"
proof -
  obtain said thought calls where v: "view = (said, thought, calls)" by (cases view)
  have calls: "sr_intents r = calls" "length calls \<le> MAX_TOOL_INTENTS"
    using assms(1,3) by (auto simp: settle_reply_def v disagreement_def Let_def split: if_splits option.splits prod.splits)
  have "sr_canonical r = canonical \<or> (\<exists>k. sr_canonical r = message_without_start canonical k)"
    using assms(1) by (auto simp: settle_reply_def v Let_def split: if_splits option.splits prod.splits)
  moreover have "\<not> sr_interrupted r" using assms(1) by (auto simp: settle_reply_def v Let_def split: prod.splits)
  moreover have "\<exists>x. completed_control_view (message_without_start canonical k) = Inr (x, thought, calls)" for k
    using completed_without_start [of canonical said thought calls] assms(2) v by simp
  ultimately show ?thesis using assms(2) calls v by fastforce
qed

lemma stopped_reply_calls:
  "sr_intents (stopped_reply s) = [] \<and> sr_interrupted (stopped_reply s) \<and> (\<forall>p \<in> set (mm_parts (sr_canonical (stopped_reply s))). \<not> is_call_part p)"
proof -
  let ?ps = "mm_parts (strip_tool_calls (case ss_completed s of Some m \<Rightarrow> m | None \<Rightarrow> message_from_stream_parts (ss_parts s)))"
  have "\<forall>p \<in> set ?ps. \<not> is_call_part p" by (simp add: strip_tool_calls_def)
  then show ?thesis using no_calls_without_start [of ?ps] by (simp add: stopped_reply_def message_without_start_def Let_def)
qed

lemma finish_stream_Inr:
  "so_result (finish_stream s) = Inr r \<Longrightarrow>
     \<exists>canonical view n. completed_control_view canonical = Inr view \<and> disagreement s view = None \<and>
       canonical = (case ss_completed s of Some m \<Rightarrow> m | None \<Rightarrow> message_from_stream_parts (ss_parts s)) \<and>
       settle_reply s canonical view = (r, so_shown (finish_stream s), n)"
  by (auto simp: finish_stream_def Let_def split: sum.splits option.splits prod.splits)

lemma parts_start: "parts_ok (stream_start env)"
  by (simp add: parts_ok_def stream_start_def)

section \<open>Properties\<close>


definition greeting :: "stream_event list" where
  "greeting = [Came (TextBlock ''hel''), Came (TextBlock ''lo''), Came (ReasoningBlock ''done'')]"

definition fresh_env :: stream_env where
  "fresh_env = \<lparr>sm_written = [], sm_intent_len = (\<lambda>_. Inr 9), sm_message_len = (\<lambda>_. Inr 9)\<rparr>"

lemma greeting_streams:
  "\<exists>r. so_result (stream_turn fresh_env (Streaming greeting)) = Inr r \<and> sr_text r = ''hello'' \<and> sr_intents r = []"
  by (simp add: stream_turn_def greeting_def fresh_env_def stream_start_def MAX_STREAM_BLOCKS_def charge_stream_bytes_def
      MAX_STREAM_BYTES_def show_text_def push_text_def push_reasoning_def finish_stream_def message_from_stream_parts_def
      completed_control_view_def disagreement_def settle_reply_def with_whole_text_def MAX_TOOL_INTENTS_def Let_def)




end
