(* ===== verification/AgentPaths.thy ===== *)
theory AgentPaths
  imports Prelude
begin

text \<open>
  Addresses of agents, \<open>crates/orchestrator/src/path.rs\<close>: \<open>/survey/parser\<close>. A path is the string the code
  holds. That strings so made are a tree of names, and that the tests on strings are the tests on that
  tree, is what the lemmas show; everything the orchestrator decides by address rests on it.
\<close>

section \<open>The code\<close>

datatype path_error = EmptyName | InvalidName string | NoParent string

type_synonym agent_path = string

definition ROOT :: agent_path where "ROOT = ''/''"

definition slash :: "char \<Rightarrow> bool" where
  "slash c \<longleftrightarrow> c = CHR ''/''"

definition name_char :: "char \<Rightarrow> bool" where
  "name_char c \<longleftrightarrow> is_ascii_alphanumeric c \<or> c = CHR ''-'' \<or> c = CHR ''_''"

definition validated :: "string \<Rightarrow> path_error + string" where
  "validated name =
     (let n = trim name in
      if n = [] then Inl EmptyName else if \<not> list_all name_char n then Inl (InvalidName n) else Inr n)"

definition path_name :: "agent_path \<Rightarrow> string" where
  "path_name p = (case rsplit_once slash p of Some (_, name) \<Rightarrow> if name \<noteq> [] then name else ROOT | None \<Rightarrow> ROOT)"

definition path_depth :: "agent_path \<Rightarrow> nat" where
  "path_depth p = (if p = ROOT then 0 else length (filter slash p))"

definition path_parent :: "agent_path \<Rightarrow> path_error + agent_path" where
  "path_parent p =
     (if p = ROOT then Inl (NoParent p)
      else case rsplit_once slash p of
        Some ([], _) \<Rightarrow> Inr ROOT
      | Some (up, _) \<Rightarrow> Inr up
      | None \<Rightarrow> Inl (NoParent p))"

definition path_child :: "agent_path \<Rightarrow> string \<Rightarrow> path_error + agent_path" where
  "path_child p name =
     (case validated name of
        Inl e \<Rightarrow> Inl e
      | Inr n \<Rightarrow> Inr (if p = ROOT then CHR ''/'' # n else p @ CHR ''/'' # n))"

fun path_children :: "agent_path \<Rightarrow> string list \<Rightarrow> path_error + agent_path" where
  "path_children p [] = Inr p"
| "path_children p (n # ns) = (case path_child p n of Inl e \<Rightarrow> Inl e | Inr q \<Rightarrow> path_children q ns)"

definition path_parse :: "string \<Rightarrow> path_error + agent_path" where
  "path_parse text =
     (let t = trim text in
      if t = ROOT then Inr ROOT
      else case strip_prefix ''/'' t of
        None \<Rightarrow> Inl (InvalidName t)
      | Some rest \<Rightarrow> path_children ROOT (split_by slash rest))"

definition path_resolve :: "agent_path \<Rightarrow> string \<Rightarrow> path_error + agent_path" where
  "path_resolve p reference =
     (let r = trim reference in if starts_with r ''/'' then path_parse r else path_children p (split_by slash r))"

definition path_under :: "agent_path \<Rightarrow> agent_path \<Rightarrow> bool" where
  "path_under p pre \<longleftrightarrow> pre = ROOT \<or> p = pre \<or>
     (case strip_prefix pre p of Some rest \<Rightarrow> starts_with rest ''/'' | None \<Rightarrow> False)"

section \<open>The tree of names\<close>

definition good_name :: "string \<Rightarrow> bool" where
  "good_name n \<longleftrightarrow> n \<noteq> [] \<and> list_all name_char n"

definition path_of :: "string list \<Rightarrow> agent_path" where
  "path_of ns = (if ns = [] then ROOT else concat (map ((#) (CHR ''/'')) ns))"

definition path_ok :: "agent_path \<Rightarrow> bool" where
  "path_ok p \<longleftrightarrow> (\<exists>ns. list_all good_name ns \<and> p = path_of ns)"

section \<open>Strings of names\<close>

definition joined :: "string list \<Rightarrow> string" where
  "joined ns = concat (map ((#) (CHR ''/'')) ns)"

lemma joined_simps [simp]: "joined [] = []" "joined (n # ns) = CHR ''/'' # n @ joined ns" "joined (ns @ ms) = joined ns @ joined ms"
  by (simp_all add: joined_def)

lemma path_of_joined: "path_of ns = (if ns = [] then ROOT else joined ns)"
  by (simp add: path_of_def joined_def)

lemma joined_start: "joined ns = [] \<or> (\<exists>r. joined ns = CHR ''/'' # r)"
  by (cases ns) simp_all

lemma joined_Nil_iff [simp]: "joined ns = [] \<longleftrightarrow> ns = []"
  by (cases ns) simp_all

lemma name_char_no_slash: "name_char c \<Longrightarrow> c \<noteq> CHR ''/''"
  by (auto simp: name_char_def is_ascii_alphanumeric_def is_ascii_alphabetic_def is_ascii_digit_def)

lemma name_char_no_ws: "name_char c \<Longrightarrow> \<not> is_ws c"
  by (auto simp: name_char_def is_ws_def is_ascii_alphanumeric_def is_ascii_alphabetic_def is_ascii_digit_def)

lemma good_name_chars:
  assumes "good_name n"
  shows "n \<noteq> []" "\<forall>c \<in> set n. c \<noteq> CHR ''/''" "\<forall>c \<in> set n. \<not> is_ws c"
  using assms by (auto simp: good_name_def list_all_iff dest: name_char_no_slash name_char_no_ws)

lemma dropWhile_none: "\<forall>c \<in> set s. \<not> P c \<Longrightarrow> dropWhile P s = s"
  by (cases s) simp_all

lemma trim_no_ws: "\<forall>c \<in> set s. \<not> is_ws c \<Longrightarrow> trim s = s"
  by (simp add: trim_def trim_end_by_def trim_start_by_def dropWhile_none)

lemma validated_good: "good_name n \<Longrightarrow> validated n = Inr n"
  using good_name_chars [of n] by (simp add: validated_def trim_no_ws good_name_def)

lemma validated_Inr: "validated n = Inr m \<Longrightarrow> good_name m"
  by (auto simp: validated_def Let_def good_name_def split: if_splits)

lemma path_of_not_root: "list_all good_name ns \<Longrightarrow> path_of ns = ROOT \<longleftrightarrow> ns = []"
proof (cases ns)
  case (Cons n ms)
  assume "list_all good_name ns"
  then have "n \<noteq> []" using Cons by (simp add: good_name_def)
  then show ?thesis using Cons by (simp add: path_of_joined ROOT_def)
qed (simp add: path_of_joined)

lemma path_child_of:
  assumes "list_all good_name ns"
  shows "path_child (path_of ns) n = map_sum id (\<lambda>m. path_of (ns @ [m])) (validated n)"
  using path_of_not_root [OF assms] by (auto simp: path_child_def path_of_joined ROOT_def split: sum.split)

lemma path_children_of:
  assumes "list_all good_name ns" "path_children (path_of ns) segs = Inr q"
  shows "\<exists>ms. list_all good_name ms \<and> length ms = length segs \<and> map validated segs = map Inr ms \<and> q = path_of (ns @ ms)"
  using assms
proof (induction segs arbitrary: ns)
  case (Cons s segs)
  then obtain m where m: "validated s = Inr m" "path_children (path_of (ns @ [m])) segs = Inr q"
    by (cases "validated s") (simp_all add: path_child_of)
  moreover from this have "list_all good_name (ns @ [m])" using Cons.prems(1) validated_Inr by simp
  ultimately obtain ms where "list_all good_name ms" "length ms = length segs" "map validated segs = map Inr ms"
    "q = path_of ((ns @ [m]) @ ms)"
    using Cons.IH by blast
  then show ?case using m validated_Inr by (intro exI [of _ "m # ms"]) simp
qed simp

lemma path_children_good:
  assumes "list_all good_name ns" "list_all good_name ms"
  shows "path_children (path_of ns) ms = Inr (path_of (ns @ ms))"
  using assms
proof (induction ms arbitrary: ns)
  case (Cons m ms)
  then show ?case using Cons.IH [of "ns @ [m]"] by (simp add: path_child_of validated_good)
qed simp

lemma split_by_joined:
  assumes "\<forall>c \<in> set n. c \<noteq> CHR ''/''"
  shows "split_by slash (n @ joined ns) = (if ns = [] then [n] else n # split_by slash (tl (joined ns)))"
  using assms by (induction n) (cases ns; simp add: slash_def)+

lemma split_joined: "list_all good_name (n # ns) \<Longrightarrow> split_by slash (n @ joined ns) = n # ns"
proof (induction ns arbitrary: n)
  case Nil
  then show ?case using split_by_joined [of n "[]"] good_name_chars [of n] by simp
next
  case (Cons m ms)
  then show ?case using split_by_joined [of n "m # ms"] good_name_chars [of n] by simp
qed

lemma starts_slash: "starts_with s ''/'' \<longleftrightarrow> (\<exists>r. s = CHR ''/'' # r)"
  by (cases s) (simp_all add: starts_with_def)

lemma name_before_slash:
  assumes "\<forall>c \<in> set n. c \<noteq> CHR ''/''" "\<forall>c \<in> set m. c \<noteq> CHR ''/''"
    and "x = [] \<or> (\<exists>r. x = CHR ''/'' # r)" "y = [] \<or> (\<exists>r. y = CHR ''/'' # r)" "n @ x = m @ y"
  shows "n = m \<and> x = y"
proof -
  have stop: "takeWhile (\<lambda>c. c \<noteq> CHR ''/'') (s @ z) = s"
    if "\<forall>c \<in> set s. c \<noteq> CHR ''/''" "z = [] \<or> (\<exists>r. z = CHR ''/'' # r)" for s z :: string
    using that(2) by (elim disjE exE) (simp_all add: takeWhile_append2 that(1))
  show ?thesis using stop [OF assms(1,3)] stop [OF assms(2,4)] assms(5) by simp
qed

lemma joined_prefix:
  assumes "list_all good_name a" "list_all good_name b" "joined a = joined b @ r" "r = [] \<or> (\<exists>u. r = CHR ''/'' # u)"
  shows "prefix b a \<and> (r = [] \<longrightarrow> a = b)"
  using assms
proof (induction b arbitrary: a)
  case (Cons n b)
  then obtain m a' where a: "a = m # a'" by (cases a) simp_all
  have rest: "joined b @ r = [] \<or> (\<exists>u. joined b @ r = CHR ''/'' # u)"
    using joined_start [of b] Cons.prems(4) by auto
  have "m = n \<and> joined a' = joined b @ r"
    using Cons.prems a good_name_chars [of m] good_name_chars [of n] joined_start [of a']
    by (intro name_before_slash [OF _ _ _ rest]) simp_all
  then show ?case using Cons.IH [of a'] Cons.prems a by simp
next
  case Nil
  then show ?case by auto
qed

section \<open>Paths are the tree of their names\<close>

lemma path_of_inj:
  assumes "list_all good_name a" "list_all good_name b" "path_of a = path_of b"
  shows "a = b"
proof (cases "a = [] \<or> b = []")
  case True
  then show ?thesis using assms path_of_not_root [OF assms(1)] path_of_not_root [OF assms(2)] by (auto simp: path_of_joined)
next
  case False
  then show ?thesis using joined_prefix [of a b "[]"] assms by (simp add: path_of_joined)
qed

lemma path_under_of:
  assumes "list_all good_name a" "list_all good_name b"
  shows "path_under (path_of a) (path_of b) \<longleftrightarrow> prefix b a"
proof (cases "b = []")
  case True
  then show ?thesis by (simp add: path_under_def path_of_joined)
next
  case b: False
  then have nr: "path_of b \<noteq> ROOT" using path_of_not_root [OF assms(2)] by simp
  show ?thesis
  proof
    assume u: "path_under (path_of a) (path_of b)"
    show "prefix b a"
    proof (cases "path_of a = path_of b")
      case True
      then show ?thesis using path_of_inj [OF assms] by simp
    next
      case False
      then obtain r where r: "path_of a = path_of b @ CHR ''/'' # r"
        using u nr by (auto simp: path_under_def starts_slash split: option.splits)
      then have "a \<noteq> []" using b by (cases a) (auto simp: path_of_joined ROOT_def neq_Nil_conv)
      then show ?thesis using joined_prefix [OF assms, of "CHR ''/'' # r"] r b by (simp add: path_of_joined)
    qed
  next
    assume "prefix b a"
    then obtain c where c: "a = b @ c" by (auto simp: prefix_def)
    then show "path_under (path_of a) (path_of b)"
      using b joined_start [of c]
      by (auto simp: path_under_def path_of_joined strip_prefix_append starts_with_def)
  qed
qed

lemma rsplit_joined:
  assumes "good_name n"
  shows "rsplit_once slash (s @ CHR ''/'' # n) = Some (s, n)"
proof -
  have "split_once slash (m @ CHR ''/'' # r) = Some (m, r)" if "\<forall>c \<in> set m. c \<noteq> CHR ''/''" for m r
    using that by (induction m) (simp_all add: slash_def)
  from this [of "rev n" "rev s"] show ?thesis using good_name_chars [OF assms] by (simp add: rsplit_once_def)
qed

lemma path_of_snoc: "path_of (ns @ [n]) = joined ns @ CHR ''/'' # n"
  by (simp add: path_of_joined)

lemma path_parent_of:
  assumes "list_all good_name ns" "good_name n"
  shows "path_parent (path_of (ns @ [n])) = Inr (path_of ns)"
  using path_of_not_root [of "ns @ [n]"] assms
  by (auto simp: path_parent_def path_of_snoc rsplit_joined path_of_joined split: list.split)

lemma path_name_of: "good_name n \<Longrightarrow> path_name (path_of (ns @ [n])) = n"
  by (simp add: path_name_def path_of_snoc rsplit_joined good_name_def)

lemma path_depth_of:
  assumes "list_all good_name ns"
  shows "path_depth (path_of ns) = length ns"
proof -
  have "length (filter slash (joined ms)) = length ms" if "list_all good_name ms" for ms
    using that good_name_chars by (induction ms) (auto simp: slash_def filter_empty_conv)
  then show ?thesis using assms path_of_not_root [OF assms] by (simp add: path_depth_def path_of_joined)
qed

lemma trim_path_of:
  assumes "list_all good_name ns"
  shows "trim (path_of ns) = path_of ns"
proof -
  have slash: "\<not> is_ws (CHR ''/'')" by (simp add: is_ws_def)
  have "\<forall>c \<in> set (joined ms). \<not> is_ws c" if "list_all good_name ms" for ms
    using that by (induction ms) (use slash good_name_chars(3) in fastforce)+
  then show ?thesis using assms slash by (intro trim_no_ws) (simp add: path_of_joined ROOT_def)
qed

lemma path_parse_of:
  assumes "list_all good_name ns"
  shows "path_parse (path_of ns) = Inr (path_of ns)"
proof (cases ns)
  case Nil
  then show ?thesis using trim_path_of [OF assms] by (simp add: path_parse_def path_of_joined)
next
  case (Cons n ms)
  have strip: "strip_prefix ''/'' (path_of ns) = Some (n @ joined ms)" by (simp add: path_of_joined Cons)
  show ?thesis
    using trim_path_of [OF assms] path_of_not_root [OF assms] strip split_joined [of n ms] assms Cons
      path_children_good [of "[]" ns] by (simp add: path_parse_def path_of_joined del: strip_prefix_Some path_children.simps)
qed

lemma path_children_ok: "path_ok p \<Longrightarrow> path_children p segs = Inr q \<Longrightarrow> path_ok q \<and> path_under q p"
proof -
  assume p: "path_ok p" "path_children p segs = Inr q"
  then obtain ns where ns: "list_all good_name ns" "p = path_of ns" by (auto simp: path_ok_def)
  then obtain ms where "list_all good_name ms" "q = path_of (ns @ ms)" using path_children_of p(2) by blast
  then show ?thesis using ns path_under_of [of "ns @ ms" ns] by (auto simp: path_ok_def intro!: exI [of _ "ns @ ms"])
qed

lemma path_root_ok [simp]: "path_ok ROOT"
  unfolding path_ok_def by (rule exI [of _ "[]"]) (simp add: path_of_joined)

lemma path_parse_ok: "path_parse text = Inr q \<Longrightarrow> path_ok q"
  using path_children_ok [OF path_root_ok] by (auto simp: path_parse_def Let_def split: if_splits option.splits)

lemma path_child_ok: "path_ok p \<Longrightarrow> path_child p n = Inr q \<Longrightarrow> path_ok q \<and> path_under q p \<and> path_depth q = Suc (path_depth p)"
proof -
  assume p: "path_ok p" "path_child p n = Inr q"
  then obtain ns where ns: "list_all good_name ns" "p = path_of ns" by (auto simp: path_ok_def)
  then obtain m where "validated n = Inr m" "q = path_of (ns @ [m])"
    using p(2) by (cases "validated n") (simp_all add: path_child_of)
  note ns this
  then show ?thesis using validated_Inr [of n m] path_under_of [of "ns @ [m]" ns]
    by (auto simp: path_ok_def path_depth_of intro!: exI [of _ "ns @ [m]"])
qed

lemma path_resolve_ok:
  assumes "path_ok p" "path_resolve p reference = Inr q"
  shows "path_ok q \<and> (\<not> starts_with (trim reference) ''/'' \<longrightarrow> path_under q p)"
  using assms path_parse_ok path_children_ok by (auto simp: path_resolve_def Let_def split: if_splits)

lemma under_strict:
  assumes "path_ok p" "path_ok q" "path_under q p" "q \<noteq> p"
  shows "path_depth p < path_depth q \<and> \<not> path_under p q"
proof -
  obtain a b where ab: "list_all good_name a" "p = path_of a" "list_all good_name b" "q = path_of b"
    using assms(1,2) by (auto simp: path_ok_def)
  then have "strict_prefix a b" using assms(3,4) path_under_of [of b a] by (auto simp: strict_prefix_def)
  then show ?thesis using ab path_under_of [of a b] by (auto simp: path_depth_of prefix_length_less)
qed

lemma path_under_refl [simp]: "path_under p p"
  by (simp add: path_under_def)

lemma path_under_trans: "path_ok p \<Longrightarrow> path_ok q \<Longrightarrow> path_ok r \<Longrightarrow> path_under p q \<Longrightarrow> path_under q r \<Longrightarrow> path_under p r"
  by (auto simp: path_ok_def path_under_of)

section \<open>Properties\<close>

text \<open>C28. An address is a place in a tree of names, and the code's tests on its text are the tests on that
  place: reading it back gives it, its parent, its last name and its depth are those of the list of names, two lists
  have two addresses, and one address is under another exactly when its list extends the other's, so a name that only
  begins like another's is not reached.\<close>

theorem agent_paths_are_a_tree:
  assumes "list_all good_name a" "list_all good_name b" "good_name n"
  shows "path_parse (path_of a) = Inr (path_of a) \<and>
    path_child (path_of a) n = Inr (path_of (a @ [n])) \<and>
    path_parent (path_of (a @ [n])) = Inr (path_of a) \<and>
    path_name (path_of (a @ [n])) = n \<and>
    path_depth (path_of a) = length a \<and>
    (path_of a = path_of b \<longleftrightarrow> a = b) \<and>
    (path_under (path_of b) (path_of a) \<longleftrightarrow> prefix a b)"
  using assms path_of_inj by (auto simp: path_parse_of path_child_of validated_good path_parent_of path_name_of path_depth_of path_under_of)

theorem agent_paths_are_a_tree_witness:
  "\<not> path_under (path_of [''survey2'']) (path_of [''survey'']) \<and>
   path_parse (path_of [''survey'', ''parser'']) = Inr ''/survey/parser''"
proof -
  have good: "list_all good_name [''survey'', ''parser'']" "list_all good_name [''survey'']" "list_all good_name [''survey2'']" "good_name ''x''"
    by (simp_all add: good_name_def name_char_def is_ascii_alphanumeric_def is_ascii_alphabetic_def is_ascii_digit_def)
  show ?thesis
    using agent_paths_are_a_tree [OF good(2) good(3) good(4)] agent_paths_are_a_tree [OF good(1) good(2) good(4)]
    by (simp add: path_of_def)
qed

end
