(* ===== verification/AgentRegistry.thy ===== *)
theory AgentRegistry
  imports AgentPaths Interrupts Budgets
begin

text \<open>
  The roster of the agents of one session, \<open>crates/orchestrator/src/registry.rs\<close>: who runs, who has settled,
  which names are reserved for agents being started, and where evicted ones left their transcripts.
  Every operation takes the one lock, so each is a function on the roster. A hash map is an ordered list
  of keys; where the code goes through one in the order of its hashes, that order is a parameter.
  The text typed to a running agent is its interrupt queue; a cancellation token is its place in the tree of tokens.
\<close>

section \<open>Agents\<close>

datatype agent_status = AgentCompleted | AgentExhausted | AgentFailed | AgentCancelled

datatype agent_state = AgentRunning | AgentSettled agent_status

record agent =
  ag_path :: agent_path
  ag_session :: string
  ag_objective :: string
  ag_started :: nat
  ag_state :: agent_state
  ag_write :: bool
  ag_tools :: "string list option"

definition is_running :: "agent \<Rightarrow> bool" where
  "is_running a \<longleftrightarrow> ag_state a = AgentRunning"

text \<open>What a failed operation answers; only those of the roster and of admission appear here.\<close>

datatype agent_error =
    AgentsUnavailable
  | NoObjective
  | BadTools string
  | StaleCaller
  | TooDeep nat nat
  | AtCapacity nat
  | UnknownAgent string
  | OutOfReach string
  | AlreadySettled string
  | WaitOutOfRange nat nat
  | AgentBroke string
  | NameTaken string
  | BadName path_error
  | NoIsolation string
  | Unverified string

record live_agent =
  lv_token :: "nat list"
  lv_queue :: interrupts
  lv_budget :: budget

record agent_tree =
  tr_agents :: "(agent_path \<times> agent) list"
  tr_live :: "(agent_path \<times> live_agent) list"
  tr_progress :: "agent_path list"
  tr_settled :: "agent_path list"
  tr_reserved :: "agent_path list"
  tr_archived :: "(agent_path \<times> string) list"

definition MAX_SETTLED :: nat where "MAX_SETTLED = 32"
definition MAX_ARCHIVED :: nat where "MAX_ARCHIVED = 4096"

definition tree_default :: agent_tree where
  "tree_default = \<lparr>tr_agents = [], tr_live = [], tr_progress = [], tr_settled = [], tr_reserved = [], tr_archived = []\<rparr>"

definition tree_contains :: "agent_tree \<Rightarrow> agent_path \<Rightarrow> bool" where
  "tree_contains t p \<longleftrightarrow> map_of (tr_agents t) p \<noteq> None \<or> p \<in> set (tr_reserved t)"

section \<open>Names\<close>

text \<open>\<open>claim\<close>: the wanted name, or the first of the numbered ones that is free.\<close>

definition numbered :: "agent_tree \<Rightarrow> agent_path \<Rightarrow> string \<Rightarrow> nat \<Rightarrow> agent_path option" where
  "numbered t parent wanted n =
     (case path_child parent (wanted @ ''-'' @ decimal n) of
        Inl _ \<Rightarrow> None
      | Inr candidate \<Rightarrow> if tree_contains t candidate then None else Some candidate)"

definition name_numbers :: "nat list" where "name_numbers = [2..<100]"

definition claim_path :: "agent_tree \<Rightarrow> agent_path \<Rightarrow> string \<Rightarrow> agent_error + agent_path" where
  "claim_path t parent wanted =
     (case path_child parent wanted of
        Inl e \<Rightarrow> Inl (BadName e)
      | Inr base \<Rightarrow>
          if \<not> tree_contains t base then Inr base
          else case find_map (numbered t parent wanted) name_numbers of
            None \<Rightarrow> Inl (NameTaken base)
          | Some p \<Rightarrow> Inr p)"

definition reserve_path :: "agent_path \<Rightarrow> agent_tree \<Rightarrow> agent_tree" where
  "reserve_path p t = t\<lparr>tr_reserved := p # tr_reserved t\<rparr>"

definition claim :: "agent_path \<Rightarrow> string \<Rightarrow> agent_tree \<Rightarrow> agent_error + agent_path \<times> agent_tree" where
  "claim parent wanted t = map_sum id (\<lambda>p. (p, reserve_path p t)) (claim_path t parent wanted)"

text \<open>\<open>revive\<close> takes a settled agent off the roster while its follow-up is admitted.\<close>

definition revive :: "agent_path \<Rightarrow> agent_tree \<Rightarrow> agent_error + agent \<times> agent_tree" where
  "revive p t =
     (case map_of (tr_agents t) p of
        None \<Rightarrow> Inl (UnknownAgent p)
      | Some a \<Rightarrow>
          if is_running a then Inl (NameTaken p)
          else Inr (a, reserve_path p (t\<lparr>tr_agents := bt_remove p (tr_agents t),
                 tr_settled := filter (\<lambda>q. q \<noteq> p) (tr_settled t)\<rparr>)))"

text \<open>A reservation that is dropped without being committed puts back what it took.\<close>

definition put_back :: "agent_path \<Rightarrow> agent option \<Rightarrow> agent_tree \<Rightarrow> agent_tree" where
  "put_back p restore t =
     (case restore of
        None \<Rightarrow> t
      | Some a \<Rightarrow> t\<lparr>tr_settled := filter (\<lambda>q. q \<noteq> p) (tr_settled t) @ [p], tr_agents := bt_insert p a (tr_agents t)\<rparr>)"

definition drop_reserved :: "agent_path \<Rightarrow> agent option \<Rightarrow> agent_tree \<Rightarrow> agent_tree" where
  "drop_reserved p restore t = put_back p restore (t\<lparr>tr_reserved := filter (\<lambda>q. q \<noteq> p) (tr_reserved t)\<rparr>)"

section \<open>Runs\<close>

definition agent_started :: "agent \<Rightarrow> live_agent \<Rightarrow> agent_tree \<Rightarrow> agent_tree" where
  "agent_started a live t =
     t\<lparr>tr_reserved := filter (\<lambda>q. q \<noteq> ag_path a) (tr_reserved t),
       tr_live := bt_insert (ag_path a) live (tr_live t),
       tr_progress := ag_path a # filter (\<lambda>q. q \<noteq> ag_path a) (tr_progress t),
       tr_agents := bt_insert (ag_path a) a (tr_agents t)\<rparr>"

definition archive :: "agent_path \<Rightarrow> string \<Rightarrow> (agent_path \<times> string) list \<Rightarrow> (agent_path \<times> string) list" where
  "archive p session xs =
     (let ys = filter (\<lambda>(q, _). q \<noteq> p) xs @ [(p, session)] in if MAX_ARCHIVED < length ys then tl ys else ys)"

definition evict_one :: "agent_tree \<Rightarrow> agent_tree" where
  "evict_one t =
     (case tr_settled t of
        [] \<Rightarrow> t
      | oldest # rest \<Rightarrow>
          (let t1 = t\<lparr>tr_settled := rest, tr_progress := filter (\<lambda>q. q \<noteq> oldest) (tr_progress t)\<rparr> in
           case map_of (tr_agents t) oldest of
             None \<Rightarrow> t1
           | Some a \<Rightarrow> t1\<lparr>tr_agents := bt_remove oldest (tr_agents t),
                 tr_archived := archive oldest (ag_session a) (tr_archived t)\<rparr>))"

function evict :: "agent_tree \<Rightarrow> agent_tree" where
  "evict t = (if MAX_SETTLED < length (tr_settled t) then evict (evict_one t) else t)"
  by pat_completeness auto

termination
  by (relation "measure (\<lambda>t. length (tr_settled t))") (auto simp: evict_one_def Let_def split: list.splits option.splits)

declare evict.simps [simp del]

definition mark_settled :: "agent_path \<Rightarrow> agent_status \<Rightarrow> agent_tree \<Rightarrow> agent_tree" where
  "mark_settled p status t =
     evict (t\<lparr>tr_live := bt_remove p (tr_live t),
       tr_agents := (case map_of (tr_agents t) p of
           Some a \<Rightarrow> bt_insert p (a\<lparr>ag_state := AgentSettled status\<rparr>) (tr_agents t)
         | None \<Rightarrow> tr_agents t),
       tr_settled := filter (\<lambda>q. q \<noteq> p) (tr_settled t) @ [p]\<rparr>)"

definition rollback_start :: "agent_path \<Rightarrow> agent option \<Rightarrow> agent_tree \<Rightarrow> agent_tree" where
  "rollback_start p restore t =
     (let t1 = t\<lparr>tr_live := bt_remove p (tr_live t), tr_progress := filter (\<lambda>q. q \<noteq> p) (tr_progress t),
                 tr_agents := bt_remove p (tr_agents t), tr_settled := filter (\<lambda>q. q \<noteq> p) (tr_settled t)\<rparr>
      in case restore of
           None \<Rightarrow> t1
         | Some a \<Rightarrow> t1\<lparr>tr_settled := tr_settled t1 @ [p], tr_agents := bt_insert p a (tr_agents t1)\<rparr>)"

text \<open>\<open>reset_idle\<close>: the roster is retired only when nobody runs or is being started.\<close>

definition retire_all :: "(agent_path \<times> agent) list \<Rightarrow> (agent_path \<times> string) list \<Rightarrow> (agent_path \<times> string) list" where
  "retire_all drained xs =
     (let ys = fold (\<lambda>(p, a) xs. filter (\<lambda>(q, _). q \<noteq> p) xs @ [(p, ag_session a)]) drained xs
      in drop (length ys - MAX_ARCHIVED) ys)"

definition reset_idle ::
  "((agent_path \<times> agent) list \<Rightarrow> (agent_path \<times> agent) list) \<Rightarrow> agent_tree \<Rightarrow> bool \<times> agent_tree" where
  "reset_idle order t =
     (if tr_live t \<noteq> [] \<or> tr_reserved t \<noteq> [] then (False, t)
      else (True, t\<lparr>tr_agents := [], tr_archived := retire_all (order (tr_agents t)) (tr_archived t),
                  tr_progress := [], tr_settled := []\<rparr>))"

section \<open>Looking agents up\<close>

definition select_agents :: "(agent \<Rightarrow> bool) \<Rightarrow> agent_tree \<Rightarrow> agent list" where
  "select_agents keep t =
     map snd (sort_key (\<lambda>(p, a). ag_started a) (sort_key (\<lambda>(p, a). ag_path a) (filter (\<lambda>(p, a). keep a) (tr_agents t))))"

definition find_agent ::
  "((agent_path \<times> agent) list \<Rightarrow> (agent_path \<times> agent) list) \<Rightarrow> agent_tree \<Rightarrow> agent_path \<Rightarrow> string \<Rightarrow> agent option" where
  "find_agent order t from_path reference =
     (case (case path_resolve from_path reference of Inr p \<Rightarrow> map_of (tr_agents t) p | Inl _ \<Rightarrow> None) of
        Some a \<Rightarrow> Some a
      | None \<Rightarrow> find (\<lambda>a. ag_session a = reference) (map snd (order (tr_agents t))))"

definition archived_session :: "agent_tree \<Rightarrow> agent_path \<Rightarrow> string \<Rightarrow> string option" where
  "archived_session t from_path reference =
     (case (case path_resolve from_path reference of
              Inr p \<Rightarrow> if path_under p from_path \<and> p \<noteq> from_path then map_of (tr_archived t) p else None
            | Inl _ \<Rightarrow> None) of
        Some session \<Rightarrow> Some session
      | None \<Rightarrow> map_option snd (find (\<lambda>(p, session). session = reference \<and> path_under p from_path \<and> p \<noteq> from_path)
          (tr_archived t)))"

definition is_live_session :: "agent_tree \<Rightarrow> agent_path \<Rightarrow> string \<Rightarrow> bool" where
  "is_live_session t p session \<longleftrightarrow> map_of (tr_live t) p \<noteq> None \<and>
     (case map_of (tr_agents t) p of Some a \<Rightarrow> ag_session a = session | None \<Rightarrow> False)"

section \<open>Text for a running agent\<close>

text \<open>Steering goes to the queue of the run, which takes nothing once its token is cancelled.\<close>

definition steer_agent ::
  "(nat list \<Rightarrow> bool) \<Rightarrow> agent_path \<Rightarrow> string \<Rightarrow> trust_label \<Rightarrow> agent_tree \<Rightarrow> bool \<times> agent_tree" where
  "steer_agent stopped p msg trust t =
     (case map_of (tr_live t) p of
        None \<Rightarrow> (False, t)
      | Some live \<Rightarrow>
          (let (ok, q) = steer_labelled msg trust ((lv_queue live)\<lparr>cancelled := stopped (lv_token live)\<rparr>)
           in if ok then (True, t\<lparr>tr_live := bt_insert p (live\<lparr>lv_queue := q\<rparr>) (tr_live t)\<rparr>) else (False, t)))"

datatype followup = Delivered agent | Resume agent

definition followup_labelled ::
  "(nat list \<Rightarrow> bool) \<Rightarrow> agent_path \<Rightarrow> string \<Rightarrow> trust_label \<Rightarrow> agent_tree \<Rightarrow> followup option \<times> agent_tree" where
  "followup_labelled stopped p msg trust t =
     (case map_of (tr_agents t) p of
        None \<Rightarrow> (None, t)
      | Some a \<Rightarrow>
          if is_running a
          then (case steer_agent stopped p msg trust t of
                  (True, t') \<Rightarrow> (Some (Delivered a), t')
                | (False, t') \<Rightarrow> (None, t'))
          else (Some (Resume a), t))"

section \<open>What the roster keeps\<close>

text \<open>Which agents run is told by three places at once; so is which have settled.\<close>

definition runs_in :: "agent_tree \<Rightarrow> agent_path \<Rightarrow> bool" where
  "runs_in t p \<longleftrightarrow> (\<exists>a. map_of (tr_agents t) p = Some a \<and> is_running a)"

definition settled_in :: "agent_tree \<Rightarrow> agent_path \<Rightarrow> bool" where
  "settled_in t p \<longleftrightarrow> (\<exists>a. map_of (tr_agents t) p = Some a \<and> \<not> is_running a)"

definition tree_ok :: "agent_tree \<Rightarrow> bool" where
  "tree_ok t \<longleftrightarrow> bt_ok (tr_agents t) \<and> bt_ok (tr_live t)
     \<and> (\<forall>p a. map_of (tr_agents t) p = Some a \<longrightarrow> ag_path a = p)
     \<and> distinct (tr_reserved t) \<and> (\<forall>p \<in> set (tr_reserved t). map_of (tr_agents t) p = None)
     \<and> (\<forall>p. map_of (tr_live t) p \<noteq> None \<longleftrightarrow> runs_in t p)
     \<and> distinct (tr_settled t) \<and> (\<forall>p. p \<in> set (tr_settled t) \<longleftrightarrow> settled_in t p)
     \<and> distinct (map fst (tr_archived t)) \<and> length (tr_archived t) \<le> MAX_ARCHIVED"

lemma tree_okD:
  assumes "tree_ok t"
  shows "bt_ok (tr_agents t)" "bt_ok (tr_live t)" "\<And>p a. map_of (tr_agents t) p = Some a \<Longrightarrow> ag_path a = p"
    "distinct (tr_reserved t)" "\<And>p. p \<in> set (tr_reserved t) \<Longrightarrow> map_of (tr_agents t) p = None"
    "\<And>p. map_of (tr_live t) p \<noteq> None \<longleftrightarrow> runs_in t p" "distinct (tr_settled t)"
    "\<And>p. p \<in> set (tr_settled t) \<longleftrightarrow> settled_in t p"
    "distinct (map fst (tr_archived t))" "length (tr_archived t) \<le> MAX_ARCHIVED"
  using assms unfolding tree_ok_def by blast+

lemma tree_ok_default [simp]: "tree_ok tree_default"
  by (simp add: tree_ok_def tree_default_def runs_in_def settled_in_def)

lemma runs_not_settled: "runs_in t p \<Longrightarrow> \<not> settled_in t p"
  by (auto simp: runs_in_def settled_in_def)

lemma archive_ok:
  assumes "distinct (map fst xs)" "length xs \<le> MAX_ARCHIVED"
  shows "distinct (map fst (archive p s xs)) \<and> length (archive p s xs) \<le> MAX_ARCHIVED"
proof -
  let ?f = "filter (\<lambda>(q, _). q \<noteq> p) xs"
  have d: "distinct (map fst (?f @ [(p, s)]))"
    using assms(1) by (induction xs) auto
  then have "distinct (map fst (tl (?f @ [(p, s)])))" by (simp add: map_tl distinct_tl)
  moreover have "length ?f \<le> MAX_ARCHIVED" using assms(2) length_filter_le [of _ xs] le_trans by blast
  ultimately show ?thesis using d by (simp add: archive_def Let_def)
qed

lemma claim_path_free:
  assumes "claim_path t parent wanted = Inr p" "path_ok parent"
  shows "\<not> tree_contains t p \<and> path_ok p \<and> path_depth p = Suc (path_depth parent) \<and> path_under p parent"
proof -
  obtain base where base: "path_child parent wanted = Inr base"
    using assms(1) by (cases "path_child parent wanted") (simp_all add: claim_path_def)
  obtain n where "path_child parent n = Inr p" "\<not> tree_contains t p"
  proof (cases "tree_contains t base")
    case True
    then have "find_map (numbered t parent wanted) name_numbers = Some p"
      using assms(1) base unfolding claim_path_def by (auto split: option.split_asm)
    then obtain k where k: "numbered t parent wanted k = Some p" by (auto dest: find_map_Some)
    then have "path_child parent (wanted @ ''-'' @ decimal k) = Inr p \<and> \<not> tree_contains t p"
      unfolding numbered_def by (cases "path_child parent (wanted @ ''-'' @ decimal k)") (simp_all split: if_splits)
    then show ?thesis using that by blast
  next
    case False
    then show ?thesis using assms(1) base that [of wanted] by (simp add: claim_path_def)
  qed
  then show ?thesis using path_child_ok [OF assms(2)] by blast
qed

lemma tree_ok_claim:
  assumes "tree_ok t" "claim parent wanted t = Inr (p, t')" "path_ok parent"
  shows "tree_ok t' \<and> tr_reserved t' = p # tr_reserved t \<and> \<not> tree_contains t p \<and> tr_live t' = tr_live t
    \<and> tr_agents t' = tr_agents t"
proof -
  have c: "claim_path t parent wanted = Inr p" "t' = reserve_path p t"
    using assms(2) by (cases "claim_path t parent wanted"; simp add: claim_def)+
  have "map_of (tr_agents t) p = None" "p \<notin> set (tr_reserved t)"
    using claim_path_free [OF c(1) assms(3)] by (simp_all add: tree_contains_def)
  then show ?thesis
    using assms(1) claim_path_free [OF c(1) assms(3)]
    by (simp add: c(2) reserve_path_def tree_ok_def runs_in_def settled_in_def)
qed

lemma tree_ok_revive:
  assumes "tree_ok t" "revive p t = Inr (a, t')"
  shows "tree_ok t' \<and> tr_reserved t' = p # tr_reserved t \<and> map_of (tr_agents t) p = Some a \<and> \<not> is_running a \<and>
    ag_path a = p \<and> tr_live t' = tr_live t \<and> tr_agents t' = bt_remove p (tr_agents t)"
proof -
  have a: "map_of (tr_agents t) p = Some a" "\<not> is_running a"
    "t' = reserve_path p (t\<lparr>tr_agents := bt_remove p (tr_agents t), tr_settled := filter (\<lambda>q. q \<noteq> p) (tr_settled t)\<rparr>)"
    using assms(2) by (auto simp: revive_def split: option.splits if_splits)
  note t = tree_okD [OF assms(1)]
  have "p \<notin> set (tr_reserved t)" using a(1) t(5) by force
  then show ?thesis
    using t a bt_ok_remove [OF t(1)]
    by (auto simp: reserve_path_def tree_ok_def runs_in_def settled_in_def)
qed

lemma tree_ok_put:
  assumes "tree_ok t" "map_of (tr_agents t) p = None" "p \<notin> set (tr_reserved t)"
    and "\<forall>a. restore = Some a \<longrightarrow> \<not> is_running a \<and> ag_path a = p"
  shows "tree_ok (put_back p restore t)"
proof (cases restore)
  case None
  then show ?thesis using assms(1) by (simp add: put_back_def)
next
  case (Some a)
  note t = tree_okD [OF assms(1)]
  have "map_of (tr_live t) p = None" using t(6) [of p] assms(2) by (auto simp: runs_in_def)
  then show ?thesis
    using t assms Some bt_ok_insert [OF t(1)]
    by (auto simp: put_back_def tree_ok_def runs_in_def settled_in_def)
qed

lemma tree_ok_drop:
  assumes "tree_ok t" "p \<in> set (tr_reserved t)" "\<forall>a. restore = Some a \<longrightarrow> \<not> is_running a \<and> ag_path a = p"
  shows "tree_ok (drop_reserved p restore t) \<and> tr_reserved (drop_reserved p restore t) = filter (\<lambda>q. q \<noteq> p) (tr_reserved t)
    \<and> tr_live (drop_reserved p restore t) = tr_live t"
proof -
  let ?t = "t\<lparr>tr_reserved := filter (\<lambda>q. q \<noteq> p) (tr_reserved t)\<rparr>"
  note t = tree_okD [OF assms(1)]
  have "tree_ok ?t" using t by (auto simp: tree_ok_def runs_in_def settled_in_def)
  then have "tree_ok (put_back p restore ?t)"
    using tree_ok_put [of ?t p restore] t(5) [OF assms(2)] assms(3) by simp
  then show ?thesis by (simp add: drop_reserved_def put_back_def split: option.split)
qed

lemma tree_ok_started:
  assumes "tree_ok t" "ag_path a \<in> set (tr_reserved t)" "is_running a"
  shows "tree_ok (agent_started a live t)"
proof -
  note t = tree_okD [OF assms(1)]
  have "ag_path a \<notin> set (tr_settled t)" using t(5) [OF assms(2)] t(8) by (auto simp: settled_in_def)
  then show ?thesis
    using t assms(2,3) bt_ok_insert [OF t(1)] bt_ok_insert [OF t(2)]
    by (auto simp: agent_started_def tree_ok_def runs_in_def settled_in_def)
qed

lemma tree_ok_evict_one:
  assumes "tree_ok t"
  shows "tree_ok (evict_one t) \<and> tr_live (evict_one t) = tr_live t \<and> tr_reserved (evict_one t) = tr_reserved t
    \<and> length (tr_settled (evict_one t)) = length (tr_settled t) - 1"
proof (cases "tr_settled t")
  case Nil
  then show ?thesis using assms by (simp add: evict_one_def)
next
  case (Cons p rest)
  note t = tree_okD [OF assms]
  obtain a where a: "map_of (tr_agents t) p = Some a" "\<not> is_running a"
    using t(8) [of p] Cons by (auto simp: settled_in_def)
  have "tree_ok (evict_one t)"
    using t a Cons bt_ok_remove [OF t(1)] archive_ok [OF t(9,10)]
    by (auto simp: evict_one_def tree_ok_def runs_in_def settled_in_def)
  then show ?thesis using a Cons by (simp add: evict_one_def)
qed

lemma tree_ok_evict:
  "tree_ok t \<Longrightarrow> tree_ok (evict t) \<and> tr_live (evict t) = tr_live t \<and> tr_reserved (evict t) = tr_reserved t
    \<and> length (tr_settled (evict t)) \<le> MAX_SETTLED"
proof (induction t rule: evict.induct)
  case (1 t)
  then show ?case using tree_ok_evict_one [of t] by (subst (1 2 3 4) evict.simps) simp
qed

lemma tree_ok_settled:
  assumes "tree_ok t" "runs_in t p"
  shows "tree_ok (mark_settled p status t) \<and> tr_live (mark_settled p status t) = bt_remove p (tr_live t) \<and>
    tr_reserved (mark_settled p status t) = tr_reserved t \<and> length (tr_settled (mark_settled p status t)) \<le> MAX_SETTLED"
proof -
  note t = tree_okD [OF assms(1)]
  obtain a where a: "map_of (tr_agents t) p = Some a" "is_running a" using assms(2) by (auto simp: runs_in_def)
  let ?t = "t\<lparr>tr_live := bt_remove p (tr_live t),
       tr_agents := bt_insert p (a\<lparr>ag_state := AgentSettled status\<rparr>) (tr_agents t),
       tr_settled := filter (\<lambda>q. q \<noteq> p) (tr_settled t) @ [p]\<rparr>"
  have "tree_ok ?t"
    using t a bt_ok_insert [OF t(1)] bt_ok_remove [OF t(2)]
    by (auto simp: tree_ok_def runs_in_def settled_in_def is_running_def)
  from tree_ok_evict [OF this] show ?thesis by (simp add: mark_settled_def a)
qed

lemma tree_ok_rollback:
  assumes "tree_ok t" "runs_in t p" "\<forall>a. restore = Some a \<longrightarrow> \<not> is_running a \<and> ag_path a = p"
  shows "tree_ok (rollback_start p restore t) \<and> tr_live (rollback_start p restore t) = bt_remove p (tr_live t) \<and>
    tr_reserved (rollback_start p restore t) = tr_reserved t"
proof -
  note t = tree_okD [OF assms(1)]
  let ?t = "t\<lparr>tr_live := bt_remove p (tr_live t), tr_progress := filter (\<lambda>q. q \<noteq> p) (tr_progress t),
                 tr_agents := bt_remove p (tr_agents t), tr_settled := filter (\<lambda>q. q \<noteq> p) (tr_settled t)\<rparr>"
  have "tree_ok ?t"
    using t bt_ok_remove [OF t(1)] bt_ok_remove [OF t(2)]
    by (auto simp: tree_ok_def runs_in_def settled_in_def)
  moreover have "p \<notin> set (tr_reserved t)" using t(5) assms(2) by (force simp: runs_in_def)
  ultimately have "tree_ok (put_back p restore ?t)"
    using tree_ok_put [of ?t p restore] assms(3) by simp
  moreover have "rollback_start p restore t = put_back p restore ?t"
    by (simp add: rollback_start_def put_back_def Let_def filter_id_conv split: option.split)
  ultimately show ?thesis by (simp add: put_back_def split: option.split)
qed

lemma retire_all_ok:
  assumes "distinct (map fst xs)"
  shows "distinct (map fst (retire_all drained xs)) \<and> length (retire_all drained xs) \<le> MAX_ARCHIVED"
proof -
  have "distinct (map fst (fold (\<lambda>(p, a) xs. filter (\<lambda>(q, _). q \<noteq> p) xs @ [(p, ag_session a)]) drained ys))"
    if "distinct (map fst ys)" for ys :: "(agent_path \<times> string) list"
    using that
  proof (induction drained arbitrary: ys)
    case (Cons d drained)
    obtain p a where d: "d = (p, a)" by (cases d)
    have "distinct (map fst (filter (\<lambda>(q, _). q \<noteq> p) ys @ [(p, ag_session a)]))" using Cons.prems by (induction ys) auto
    from Cons.IH [OF this] show ?case by (simp add: d)
  qed simp
  from this [OF assms] show ?thesis by (simp add: retire_all_def Let_def drop_map [symmetric] distinct_drop)
qed

lemma tree_ok_reset:
  assumes "tree_ok t" "reset_idle order t = (done, t')"
  shows "tree_ok t' \<and> (done \<longrightarrow> tr_live t = [] \<and> tr_reserved t = []) \<and> tr_live t' = tr_live t \<and> tr_reserved t' = tr_reserved t"
  using assms(2) retire_all_ok [OF tree_okD(9) [OF assms(1)]] assms(1)
  by (auto simp: reset_idle_def tree_ok_def runs_in_def settled_in_def split: if_splits)

lemma tree_ok_live_update:
  assumes "tree_ok t" "map_of (tr_live t) p \<noteq> None"
  shows "tree_ok (t\<lparr>tr_live := bt_insert p l (tr_live t)\<rparr>)"
proof -
  note t = tree_okD [OF assms(1)]
  have "runs_in t p" using t(6) assms(2) by blast
  then have "\<forall>q. map_of (bt_insert p l (tr_live t)) q \<noteq> None \<longleftrightarrow> runs_in t q" using t(6) by simp
  then show ?thesis using t bt_ok_insert [OF t(2)] by (simp add: tree_ok_def runs_in_def settled_in_def)
qed

lemma steer_agent_cases:
  assumes "steer_agent stopped p msg trust t = (ok, t')"
  obtains "t' = t" "\<not> ok"
  | live where "ok" "map_of (tr_live t) p = Some live" "\<not> stopped (lv_token live)"
      "t' = t\<lparr>tr_live := bt_insert p (live\<lparr>lv_queue := bump ((lv_queue live)\<lparr>cancelled := False,
          pd_bytes := pd_bytes (lv_queue live) + length msg,
          pd_steers := pd_steers (lv_queue live) @ [(msg, trust)]\<rparr>)\<rparr>) (tr_live t)\<rparr>"
  using assms by (auto simp: steer_agent_def steer_labelled_def Let_def split: option.splits if_splits)

lemma tree_ok_steer:
  assumes "tree_ok t" "steer_agent stopped p msg trust t = (ok, t')"
  shows "tree_ok t' \<and> tr_reserved t' = tr_reserved t \<and> tr_agents t' = tr_agents t \<and>
    (\<forall>q. map_of (tr_live t') q = None \<longleftrightarrow> map_of (tr_live t) q = None) \<and>
    (\<forall>q. q \<noteq> p \<longrightarrow> map_of (tr_live t') q = map_of (tr_live t) q)"
  using assms(2)
proof (cases rule: steer_agent_cases)
  case (2 live)
  then show ?thesis using tree_ok_live_update [OF assms(1), of p] by simp
qed (use assms(1) in simp)

section \<open>Which names are taken\<close>

definition named_paths :: "agent_tree \<Rightarrow> agent_path set" where
  "named_paths t = {p. map_of (tr_agents t) p \<noteq> None}"

lemma named_simps [simp]:
  "named_paths (reserve_path p t) = named_paths t" "named_paths (agent_started a live t) = insert (ag_path a) (named_paths t)"
  by (auto simp: named_paths_def reserve_path_def agent_started_def)

lemma named_evict: "named_paths (evict t) \<subseteq> named_paths t"
proof (induction t rule: evict.induct)
  case (1 t)
  have "named_paths (evict_one t) \<subseteq> named_paths t"
    by (auto simp: evict_one_def named_paths_def Let_def split: list.splits option.splits if_splits)
  then show ?case using 1 by (subst evict.simps) (simp, blast)
qed

lemma named_settled: "named_paths (mark_settled p status t) \<subseteq> named_paths t"
proof -
  have "named_paths (mark_settled p status t) \<subseteq> named_paths (t\<lparr>tr_live := bt_remove p (tr_live t),
       tr_agents := (case map_of (tr_agents t) p of
           Some a \<Rightarrow> bt_insert p (a\<lparr>ag_state := AgentSettled status\<rparr>) (tr_agents t)
         | None \<Rightarrow> tr_agents t),
       tr_settled := filter (\<lambda>q. q \<noteq> p) (tr_settled t) @ [p]\<rparr>)"
    unfolding mark_settled_def by (rule named_evict)
  then show ?thesis by (auto simp: named_paths_def split: option.splits if_splits)
qed

lemma named_put: "named_paths (put_back p restore t) \<subseteq> insert p (named_paths t)"
  by (auto simp: named_paths_def put_back_def split: option.splits)

lemma named_drop: "named_paths (drop_reserved p restore t) \<subseteq> insert p (named_paths t)"
  using named_put [of p restore "t\<lparr>tr_reserved := filter (\<lambda>q. q \<noteq> p) (tr_reserved t)\<rparr>"]
  by (simp add: drop_reserved_def named_paths_def)

lemma named_rollback: "named_paths (rollback_start p restore t) \<subseteq> insert p (named_paths t)"
  by (auto simp: named_paths_def rollback_start_def Let_def split: option.splits)

end
