(* ===== verification/Narrowing.thy ===== *)
theory Narrowing
  imports TurnDispatch AgentControl
begin

text \<open>
  Which tools a child may use (\<open>crates/orchestrator/src/narrow.rs\<close>). A \<open>NarrowedExecutor\<close> is an executor over an
  executor: it lists fewer tools and refuses the calls it did not list. \<open>executor\<close> is the trait of the kernel with its
  answers as functions of the call (and of the attempt, for a run); \<open>executor_world\<close> puts such an executor into the world of a
  dispatch, so that what a narrowed child can do is a statement about \<open>dispatch_one\<close> itself.
\<close>

section \<open>Executors\<close>

record inventory =
  in_specs :: "string list"
  in_sources :: "(string \<times> string) list"
  in_unavailable :: "string list"

record executor =
  ex_specs :: "string list"
  ex_inventory :: "(string \<times> string) list \<Rightarrow> inventory"
  ex_radius :: "string \<Rightarrow> blast_radius option"
  ex_call_radius :: "tool_intent \<Rightarrow> blast_radius option"
  ex_category :: "string \<Rightarrow> tool_category option"
  ex_mutation_key :: "tool_intent \<Rightarrow> string option"
  ex_containment :: "tool_intent \<Rightarrow> containment"
  ex_outbound :: "tool_intent \<Rightarrow> string option"
  ex_preflight :: "tool_intent \<Rightarrow> observation option"
  ex_missing :: "tool_intent \<Rightarrow> string + execution_access"
  ex_grant_access :: "execution_access \<Rightarrow> string \<Rightarrow> bool \<Rightarrow> string + network_decision"
  ex_retry_allowed :: "tool_intent \<Rightarrow> bool"
  ex_grant_network :: "string \<Rightarrow> bool \<Rightarrow> network_decision"
  ex_prepare :: "tool_intent \<Rightarrow> nat \<Rightarrow> observation + json"
  ex_execute :: "tool_intent \<Rightarrow> nat \<Rightarrow> run_scope \<Rightarrow> observation"
  ex_finish :: "tool_intent \<Rightarrow> nat \<Rightarrow> json \<Rightarrow> observation \<Rightarrow> observation"
  ex_preview :: "tool_intent \<Rightarrow> string option"
  ex_failed :: "string \<Rightarrow> observation \<Rightarrow> bool"
  ex_changed :: "string \<Rightarrow> observation \<Rightarrow> bool"
  ex_background :: "json list"

text \<open>The world of one call: the executor answers for the tools, the rest is the kernel's own.\<close>

definition executor_world :: "executor \<Rightarrow> tool_intent \<Rightarrow> world \<Rightarrow> world" where
  "executor_world ex i w =
     w\<lparr>w_outbound := ex_outbound ex i, w_radius := ex_call_radius ex i, w_mutation_key := ex_mutation_key ex i,
       w_containment := ex_containment ex i, w_preflight := ex_preflight ex i, w_missing := ex_missing ex i,
       w_preview := ex_preview ex i, w_grant_access := ex_grant_access ex, w_retry_allowed := ex_retry_allowed ex i,
       w_grant_network := ex_grant_network ex, w_prepare := ex_prepare ex i, w_execute := ex_execute ex i,
       w_finish := ex_finish ex i, w_failed := ex_failed ex\<rparr>"

section \<open>Narrowing\<close>

datatype scope = ScopeFixed "string list" | ScopeLive "string \<Rightarrow> bool"

record narrowing =
  nw_scope :: scope
  nw_read_only :: bool
  nw_no_clarify :: bool

definition scoped :: "scope \<Rightarrow> narrowing" where
  "scoped s = \<lparr>nw_scope = s, nw_read_only = False, nw_no_clarify = False\<rparr>"

text \<open>\<open>NarrowedExecutor::new\<close>, \<open>filtered\<close>, \<open>read_only\<close> and \<open>no_clarifying_questions\<close>.\<close>

definition narrow_new :: "executor \<Rightarrow> string list option \<Rightarrow> narrowing" where
  "narrow_new inner requested =
     scoped (ScopeFixed (case requested of
        Some names \<Rightarrow> filter (\<lambda>n. n \<in> set (ex_specs inner)) names
      | None \<Rightarrow> ex_specs inner))"

definition narrow_filtered :: "(string \<Rightarrow> bool) \<Rightarrow> narrowing" where
  "narrow_filtered admit = scoped (ScopeLive admit)"

definition read_only :: "narrowing \<Rightarrow> narrowing" where
  "read_only n = n\<lparr>nw_read_only := True\<rparr>"

definition no_clarifying_questions :: "narrowing \<Rightarrow> narrowing" where
  "no_clarifying_questions n = n\<lparr>nw_no_clarify := True\<rparr>"

fun in_scope :: "scope \<Rightarrow> string \<Rightarrow> bool" where
  "in_scope (ScopeFixed names) tool = (tool \<in> set names)"
| "in_scope (ScopeLive admit) tool = admit tool"

definition narrow_allows :: "narrowing \<Rightarrow> executor \<Rightarrow> string \<Rightarrow> bool" where
  "narrow_allows n inner tool \<longleftrightarrow>
     in_scope (nw_scope n) tool \<and>
     (\<not> nw_read_only n \<or> ex_radius inner tool = Some ReadRadius) \<and>
     \<not> (nw_no_clarify n \<and> tool = ''clarify'')"

definition allows_intent :: "narrowing \<Rightarrow> executor \<Rightarrow> tool_intent \<Rightarrow> bool" where
  "allows_intent n inner i \<longleftrightarrow>
     narrow_allows n inner (intent_tool i) \<and> (\<not> nw_read_only n \<or> ex_mutation_key inner i = None)"

definition outside_reason :: "tool_intent \<Rightarrow> string" where
  "outside_reason i = [CHR 0x27] @ intent_tool i @ [CHR 0x27] @ '' is outside this agent's capabilities''"

definition outside_denial :: "tool_intent \<Rightarrow> observation" where
  "outside_denial i = obs_denial (intent_id i) ''Outside this agent's capabilities''"

definition narrowed :: "narrowing \<Rightarrow> executor \<Rightarrow> executor" where
  "narrowed n inner =
     (let ok = narrow_allows n inner; ok_i = allows_intent n inner in
      \<lparr>ex_specs = filter ok (ex_specs inner),
       ex_inventory = (\<lambda>previous. let v = ex_inventory inner previous in
         \<lparr>in_specs = filter ok (in_specs v), in_sources = filter (\<lambda>(name, _). ok name) (in_sources v),
          in_unavailable = filter ok (in_unavailable v)\<rparr>),
       ex_radius = (\<lambda>tool. if ok tool then ex_radius inner tool else None),
       ex_call_radius = (\<lambda>i. if ok (intent_tool i) then ex_call_radius inner i else None),
       ex_category = (\<lambda>tool. if ok tool then ex_category inner tool else None),
       ex_mutation_key = (\<lambda>i. if ok (intent_tool i) then ex_mutation_key inner i else None),
       ex_containment = ex_containment inner,
       ex_outbound = (\<lambda>i. if ok_i i then ex_outbound inner i else Some (outside_reason i)),
       ex_preflight = (\<lambda>i. if ok_i i then ex_preflight inner i else Some (outside_denial i)),
       ex_missing = (\<lambda>i. if ok_i i then ex_missing inner i else Inl (outside_reason i)),
       ex_grant_access = ex_grant_access inner,
       ex_retry_allowed = (\<lambda>i. ok_i i \<and> ex_retry_allowed inner i),
       ex_grant_network = ex_grant_network inner,
       ex_prepare = (\<lambda>i k. if ok_i i then ex_prepare inner i k else Inl (outside_denial i)),
       ex_execute = (\<lambda>i k s. if ok_i i then ex_execute inner i k s else obs_denial (intent_id i) (outside_reason i)),
       ex_finish = (\<lambda>i k v obs. if ok_i i then ex_finish inner i k v obs else obs),
       ex_preview = (\<lambda>i. if ok_i i then ex_preview inner i else None),
       ex_failed = ex_failed inner,
       ex_changed = (\<lambda>tool obs. ok tool \<and> ex_changed inner tool obs),
       ex_background = (if nw_read_only n then [] else ex_background inner)\<rparr>)"

text \<open>A child of a child: the narrowing of the deepest agent is the first of the list.\<close>

fun narrowed_all :: "narrowing list \<Rightarrow> executor \<Rightarrow> executor" where
  "narrowed_all [] ex = ex"
| "narrowed_all (n # ns) ex = narrowed n (narrowed_all ns ex)"

text \<open>The executor \<open>admit\<close> gives a child: a writer has the one of its checkout, any other that of its parent, read only.\<close>

definition child_executor :: "bool \<Rightarrow> string list option \<Rightarrow> string list \<Rightarrow> executor \<Rightarrow> executor \<Rightarrow> executor" where
  "child_executor may_write tools parent_tools parent checkout =
     (if may_write
      then (let requested = (case tools of Some names \<Rightarrow> names | None \<Rightarrow> parent_tools)
            in narrowed (no_clarifying_questions (narrow_new checkout (Some requested))) checkout)
      else narrowed (no_clarifying_questions (read_only (narrow_new parent tools))) parent)"

section \<open>Lemmas\<close>

lemma scoped_simps [simp]:
  "nw_scope (scoped s) = s" "\<not> nw_read_only (scoped s)" "\<not> nw_no_clarify (scoped s)"
  by (simp_all add: scoped_def)

lemma narrow_flags [simp]:
  "nw_scope (read_only n) = nw_scope n" "nw_read_only (read_only n)" "nw_no_clarify (read_only n) = nw_no_clarify n"
  "nw_scope (no_clarifying_questions n) = nw_scope n" "nw_read_only (no_clarifying_questions n) = nw_read_only n"
  "nw_no_clarify (no_clarifying_questions n)"
  by (simp_all add: read_only_def no_clarifying_questions_def)

lemma narrowed_simps [simp]:
  "ex_specs (narrowed n inner) = filter (narrow_allows n inner) (ex_specs inner)"
  "ex_radius (narrowed n inner) tool = (if narrow_allows n inner tool then ex_radius inner tool else None)"
  "ex_call_radius (narrowed n inner) i = (if narrow_allows n inner (intent_tool i) then ex_call_radius inner i else None)"
  "ex_mutation_key (narrowed n inner) i = (if narrow_allows n inner (intent_tool i) then ex_mutation_key inner i else None)"
  "ex_outbound (narrowed n inner) i = (if allows_intent n inner i then ex_outbound inner i else Some (outside_reason i))"
  "ex_execute (narrowed n inner) i k s =
     (if allows_intent n inner i then ex_execute inner i k s else obs_denial (intent_id i) (outside_reason i))"
  by (simp_all add: narrowed_def Let_def)

text \<open>Whether a call is let through depends on the base executor alone.\<close>

definition admits :: "narrowing \<Rightarrow> executor \<Rightarrow> tool_intent \<Rightarrow> bool" where
  "admits n ex i \<longleftrightarrow> in_scope (nw_scope n) (intent_tool i) \<and>
     (nw_read_only n \<longrightarrow> ex_radius ex (intent_tool i) = Some ReadRadius \<and> ex_mutation_key ex i = None) \<and>
     (nw_no_clarify n \<longrightarrow> intent_tool i \<noteq> ''clarify'')"

lemma narrowed_all_open:
  assumes "\<forall>n \<in> set ns. admits n ex i"
  shows "executor_world (narrowed_all ns ex) i w = executor_world ex i w \<and>
    ex_radius (narrowed_all ns ex) (intent_tool i) = ex_radius ex (intent_tool i) \<and>
    (\<forall>k s. ex_execute (narrowed_all ns ex) i k s = ex_execute ex i k s)"
  using assms
proof (induction ns)
  case (Cons n ns)
  let ?inner = "narrowed_all ns ex"
  have inner: "executor_world ?inner i w = executor_world ex i w" "ex_radius ?inner (intent_tool i) = ex_radius ex (intent_tool i)"
    and n: "admits n ex i" using Cons by auto
  from inner(1) have key: "ex_mutation_key ?inner i = ex_mutation_key ex i"
    by (auto simp: executor_world_def dest: arg_cong [where f = w_mutation_key])
  have tool: "narrow_allows n ?inner (intent_tool i)" using n inner by (auto simp: narrow_allows_def admits_def)
  then have whole: "allows_intent n ?inner i" using n key by (auto simp: allows_intent_def admits_def)
  have "executor_world (narrowed n ?inner) i w = executor_world ?inner i w"
    using tool whole by (simp add: executor_world_def narrowed_def Let_def fun_eq_iff)
  then show ?case using tool whole inner Cons by simp
qed simp

lemma narrowed_step:
  assumes "\<forall>n \<in> set ns. admits n ex i"
  shows "allows_intent n (narrowed_all ns ex) i \<longleftrightarrow> admits n ex i"
proof -
  have world: "executor_world (narrowed_all ns ex) i w = executor_world ex i w" for w
    using narrowed_all_open [OF assms] by blast
  have key: "ex_mutation_key (narrowed_all ns ex) i = ex_mutation_key ex i"
    using arg_cong [OF world, where f = w_mutation_key] by (simp add: executor_world_def)
  have "ex_radius (narrowed_all ns ex) (intent_tool i) = ex_radius ex (intent_tool i)"
    using narrowed_all_open [OF assms] by blast
  then show ?thesis using key by (auto simp: allows_intent_def narrow_allows_def admits_def)
qed

text \<open>Left out by one layer, a call is refused at every way in.\<close>

lemma narrowed_all_closed:
  assumes "\<not> (\<forall>n \<in> set ns. admits n ex i)"
  shows "(\<exists>m. ex_outbound (narrowed_all ns ex) i = Some m) \<and> (\<exists>m. ex_execute (narrowed_all ns ex) i k s = obs_denial (intent_id i) m)"
  using assms
proof (induction ns)
  case (Cons n ns)
  show ?case
  proof (cases "\<forall>n \<in> set ns. admits n ex i")
    case True
    then show ?thesis using Cons.prems narrowed_step [OF True, of n] by auto
  next
    case False
    then show ?thesis using Cons.IH by auto
  qed
qed simp

lemma narrowed_all_specs:
  "set (ex_specs (narrowed_all ns ex)) \<subseteq> {t \<in> set (ex_specs ex). \<forall>n \<in> set ns. in_scope (nw_scope n) t}"
  by (induction ns) (auto simp: narrow_allows_def)

lemma narrowing_exact:
  "if \<forall>n \<in> set ns. admits n ex i
   then dispatch_one (executor_world (narrowed_all ns ex) i w) autonomy i taint = dispatch_one (executor_world ex i w) autonomy i taint
   else Ran k s \<notin> set (fst (dispatch_one (executor_world (narrowed_all ns ex) i w) autonomy i taint)) \<and>
     obs_status (snd (dispatch_one (executor_world (narrowed_all ns ex) i w) autonomy i taint)) \<in> {StatusDenied, StatusError} \<and>
     obs_status (ex_execute (narrowed_all ns ex) i k s) = StatusDenied"
proof (cases "\<forall>n \<in> set ns. admits n ex i")
  case True
  then show ?thesis by (simp add: narrowed_all_open)
next
  case False
  then obtain m d where m: "ex_outbound (narrowed_all ns ex) i = Some m" "ex_execute (narrowed_all ns ex) i k s = obs_denial (intent_id i) d"
    using narrowed_all_closed by blast
  show ?thesis
    unfolding if_not_P [OF False]
    by (auto simp: dispatch_one_def check_outbound_intent_def append_log_def executor_world_def m obs_denial_def obs_error_def split: option.split)
qed

definition two_tools :: executor where
  "two_tools = \<lparr>ex_specs = [''read'', ''edit''], ex_inventory = (\<lambda>_. \<lparr>in_specs = [''read'', ''edit''], in_sources = [], in_unavailable = []\<rparr>),
     ex_radius = (\<lambda>t. if t = ''read'' then Some ReadRadius else if t = ''edit'' then Some ReversibleLocal else None),
     ex_call_radius = (\<lambda>i. if intent_tool i = ''read'' then Some ReadRadius else if intent_tool i = ''edit'' then Some ReversibleLocal else None),
     ex_category = (\<lambda>_. None), ex_mutation_key = (\<lambda>i. if intent_tool i = ''edit'' then Some ''edit:*'' else None),
     ex_containment = (\<lambda>_. OsFsJail), ex_outbound = (\<lambda>_. None), ex_preflight = (\<lambda>_. None), ex_missing = (\<lambda>_. Inr no_access),
     ex_grant_access = (\<lambda>_ _ _. Inr NetOnce), ex_retry_allowed = (\<lambda>_. False), ex_grant_network = (\<lambda>_ _. NetDeny),
     ex_prepare = (\<lambda>_ _. Inr JNull), ex_execute = (\<lambda>_ _ _. obs_ok ''1'' JNull), ex_finish = (\<lambda>_ _ _ obs. obs), ex_preview = (\<lambda>_. None),
     ex_failed = (\<lambda>_ _. False), ex_changed = (\<lambda>_ _. False), ex_background = []\<rparr>"

definition call_of :: "string \<Rightarrow> tool_intent" where
  "call_of tool = \<lparr>intent_id = ''1'', intent_tool = tool, intent_args = JObj []\<rparr>"

section \<open>Properties\<close>

text \<open>C21. An agent cannot use what it was not given, however deep the delegation: a call that any layer above it leaves out
  (by its list, by being read-only, or as a question for the person) is never handed to the executor by a
  dispatch, and handed to it anyway the tool does not run; every other call is dispatched as if nothing had been narrowed.\<close>

theorem narrowing_is_exact:
  "if \<forall>n \<in> set ns. admits n ex i
   then dispatch_one (executor_world (narrowed_all ns ex) i w) autonomy i taint = dispatch_one (executor_world ex i w) autonomy i taint
   else Ran k s \<notin> set (fst (dispatch_one (executor_world (narrowed_all ns ex) i w) autonomy i taint)) \<and>
     obs_status (snd (dispatch_one (executor_world (narrowed_all ns ex) i w) autonomy i taint)) \<in> {StatusDenied, StatusError} \<and>
     obs_status (ex_execute (narrowed_all ns ex) i k s) = StatusDenied"
  by (rule narrowing_exact)

theorem narrowing_is_exact_witness:
  "Ran 0 PlainRun \<notin> set (fst (dispatch_one
     (executor_world (narrowed_all [narrow_filtered (\<lambda>_. True), read_only (narrow_new two_tools None)] two_tools) (call_of ''edit'') open_world)
     Careful (call_of ''edit'') False))"
proof -
  let ?ns = "[narrow_filtered (\<lambda>_. True), read_only (narrow_new two_tools None)]"
  have n: "\<not> (\<forall>n \<in> set ?ns. admits n two_tools (call_of ''edit''))"
    by (simp add: admits_def two_tools_def call_of_def)
  show ?thesis
    using narrowing_is_exact [of ?ns two_tools "call_of ''edit''" open_world Careful False 0 PlainRun, unfolded if_not_P [OF n]]
    by (rule conjunct1)
qed

text \<open>A child that may not write changes nothing: every call of it that runs is of a tool its parent has and whose declared
  risk is to read, has no mutation key, and never asks the person a question; and a child, writer or not, is shown
  only tools it was given, of those its executor really has.\<close>

theorem child_keeps_its_scope:
  "(Ran k s \<in> set (fst (dispatch_one (executor_world (child_executor False tools parent_tools parent checkout) i w) autonomy i taint)) \<longrightarrow>
     intent_tool i \<in> set (ex_specs parent) \<and> (\<forall>names. tools = Some names \<longrightarrow> intent_tool i \<in> set names) \<and>
     ex_radius parent (intent_tool i) = Some ReadRadius \<and> ex_mutation_key parent i = None \<and> intent_tool i \<noteq> ''clarify'') \<and>
   set (ex_specs (child_executor may_write tools parent_tools parent checkout)) \<subseteq>
     (case tools of Some names \<Rightarrow> set names | None \<Rightarrow> if may_write then set parent_tools else set (ex_specs parent))
     \<inter> set (ex_specs (if may_write then checkout else parent)) - {''clarify''}"
proof (rule conjI [OF impI])
  let ?n = "no_clarifying_questions (read_only (narrow_new parent tools))"
  assume "Ran k s \<in> set (fst (dispatch_one (executor_world (child_executor False tools parent_tools parent checkout) i w) autonomy i taint))"
  then have "admits ?n parent i"
    using narrowing_exact [of "[?n]" parent i w autonomy taint k s] by (simp add: child_executor_def split: if_splits)
  then show "intent_tool i \<in> set (ex_specs parent) \<and> (\<forall>names. tools = Some names \<longrightarrow> intent_tool i \<in> set names) \<and>
     ex_radius parent (intent_tool i) = Some ReadRadius \<and> ex_mutation_key parent i = None \<and> intent_tool i \<noteq> ''clarify''"
    by (auto simp: admits_def narrow_new_def split: option.splits)
qed (auto simp: child_executor_def narrow_allows_def narrow_new_def split: option.splits if_splits)

lemma read_child_runs: "Ran 0 PlainRun \<in> set (fst (dispatch_one
    (executor_world (child_executor False (Some [''read'', ''edit'']) [] two_tools two_tools) (call_of ''read'') open_world) Careful (call_of ''read'') False))"
  by (simp add: dispatch_one_def check_outbound_intent_def open_world_def executor_world_def two_tools_def child_executor_def narrowed_def
      narrow_allows_def allows_intent_def narrow_new_def call_of_def raw_decision_def allow_all_def
      escalate_for_trust_flow_def follows_web_def consequential_def pre_tool_def invoke_hook_def hook_batch_default_def
      append_log_def dispatch_decided_def no_access_def access_is_empty_def dispatch_gate_def then_post_def
      execute_with_net_retry_def execute_with_effect_outbox_def apply_post_tool_hook_def post_hooks.simps Let_def
      obs_ok_def approval_key_def salient_arg_def get_str_def json_get_def
      card_detail_def hook_line_def observe_decision_def net_denied_def)

theorem child_keeps_its_scope_witness:
  "''read'' \<in> set (ex_specs two_tools) \<and>
   set (ex_specs (child_executor True None [''read'', ''clarify''] two_tools two_tools)) \<subseteq> {''read''}"
  using child_keeps_its_scope [of 0 PlainRun "Some [''read'', ''edit'']" "[]" two_tools two_tools "call_of ''read''" open_world Careful False False]
    child_keeps_its_scope [of 0 PlainRun None "[''read'', ''clarify'']" two_tools two_tools "call_of ''read''" open_world Careful False True]
    read_child_runs by (auto simp: call_of_def)

end
