(* ===== verification/Protected.thy ===== *)
theory Protected
  imports Prelude
begin

text \<open>
  Paths no route and no grant opens: \<open>crates/permissions/src/protected.rs\<close>, on Unix. A \<open>PathBuf\<close> is the list of its
  components, which is what its equality, \<open>starts_with\<close> and \<open>parent\<close> see. The folders of the user, the links
  of the file system and the folding of case (the identity on Linux) are the record \<open>place_env\<close>.
\<close>

section \<open>Paths as components\<close>

type_synonym fpath = "component list"

definition fp_absolute :: "fpath \<Rightarrow> bool" where
  "fp_absolute p \<longleftrightarrow> first_of p = Some RootDir"

definition fp_join :: "fpath \<Rightarrow> fpath \<Rightarrow> fpath" where
  "fp_join base r = (if fp_absolute r then r else if base = [] then r else base @ filter (\<lambda>c. c \<noteq> CurDir) r)"

definition fp_parent :: "fpath \<Rightarrow> fpath option" where
  "fp_parent p = (if p = [] \<or> last p = RootDir then None else Some (butlast p))"

definition fp_file_name :: "fpath \<Rightarrow> string option" where
  "fp_file_name p = (if p = [] then None else case last p of NormalPart n \<Rightarrow> Some n | _ \<Rightarrow> None)"

definition fp_names :: "fpath \<Rightarrow> nat" where
  "fp_names p = length (filter (\<lambda>c. case c of NormalPart _ \<Rightarrow> True | _ \<Rightarrow> False) p)"

text \<open>\<open>PathBuf::pop\<close>: the path and whether something was taken off.\<close>

definition fp_pop :: "fpath \<Rightarrow> fpath \<times> bool" where
  "fp_pop p = (case fp_parent p of None \<Rightarrow> (p, False) | Some q \<Rightarrow> (q, True))"

fun lexical_from :: "fpath \<Rightarrow> fpath \<Rightarrow> fpath" where
  "lexical_from out [] = out"
| "lexical_from out (ParentDir # r) = lexical_from (fst (fp_pop out)) r"
| "lexical_from out (CurDir # r) = lexical_from out r"
| "lexical_from out (RootDir # r) = lexical_from [RootDir] r"
| "lexical_from out (NormalPart n # r) = lexical_from (out @ [NormalPart n]) r"

definition lexical :: "fpath \<Rightarrow> fpath" where
  "lexical p = lexical_from [] p"

fun fold_part :: "(string \<Rightarrow> string) \<Rightarrow> component \<Rightarrow> component" where
  "fold_part f (NormalPart n) = NormalPart (f n)"
| "fold_part f c = c"

definition fold_path :: "(string \<Rightarrow> string) \<Rightarrow> fpath \<Rightarrow> fpath" where
  "fold_path f p = map (fold_part f) p"

section \<open>The stores\<close>

definition CREDENTIAL_RELATIVE :: "string list" where
  "CREDENTIAL_RELATIVE =
     [''.ssh'', ''.aws'', ''.azure'', ''.gnupg'', ''.docker'', ''.kube'', ''.config/gcloud'', ''.config/gh'', ''.config/pip'',
      ''.config/pnpm'', ''.git-credentials'', ''.gitconfig'', ''.netrc'', ''.npmrc'', ''.pypirc'', ''.yarnrc'', ''.yarnrc.yml'',
      ''.gem/credentials'', ''.gradle/gradle.properties'', ''.m2/settings.xml'', ''.nuget/NuGet.Config'', ''.bash_history'',
      ''.zsh_history'', ''.python_history'', ''.node_repl_history'', ''.local/share/fish/fish_history'', ''.cargo/credentials'',
      ''.cargo/credentials.toml'', ''.medha/credentials.toml'', ''.medha/credentials.lock'', ''.medha/serve'', ''.medha/gateway'']"

definition HOME_RELATIVE :: "string list" where
  "HOME_RELATIVE =
     [''Library/Keychains'', ''Library/Cookies'', ''Library/Safari'', ''Library/Application Support/Google'',
      ''Library/Application Support/Chromium'', ''Library/Application Support/BraveSoftware'',
      ''Library/Application Support/Microsoft Edge'', ''Library/Application Support/Microsoft Edge Beta'',
      ''Library/Application Support/Microsoft Edge Dev'', ''Library/Application Support/Arc'',
      ''Library/Application Support/Vivaldi'', ''Library/Application Support/com.operasoftware.Opera'',
      ''Library/Application Support/Firefox'', ''Library/Application Support/1Password'',
      ''Library/Application Support/Bitwarden'', ''Library/Group Containers/2BUA8C4S2C.com.1password'', ''.mozilla'',
      ''.config/google-chrome'', ''.config/google-chrome-beta'', ''.config/google-chrome-unstable'', ''.config/chromium'',
      ''.config/BraveSoftware'', ''.config/microsoft-edge'', ''.config/vivaldi'', ''.config/opera'', ''.config/Bitwarden'',
      ''.local/share/keyrings'']"

record place_env =
  pl_home :: "fpath option"
  pl_state :: "fpath option"
  pl_canonical :: "fpath \<Rightarrow> fpath option"
  pl_fold :: "string \<Rightarrow> string"

definition state_secrets :: "fpath \<Rightarrow> fpath list" where
  "state_secrets state =
     map (\<lambda>r. fp_join state (path_components r)) (List.map_filter (\<lambda>r. strip_prefix ''.medha/'' r) CREDENTIAL_RELATIVE)"

definition protected_paths :: "place_env \<Rightarrow> fpath list" where
  "protected_paths env =
     (case pl_home env of Some home \<Rightarrow> map (\<lambda>r. fp_join home (path_components r)) (HOME_RELATIVE @ CREDENTIAL_RELATIVE) | None \<Rightarrow> [])
     @ (case pl_state env of Some state \<Rightarrow> state_secrets state | None \<Rightarrow> [])"

text \<open>A place as it is named and as its links lead.\<close>

definition both_ways :: "place_env \<Rightarrow> fpath \<Rightarrow> fpath list" where
  "both_ways env p = map (fold_path (pl_fold env)) (lexical p # (case pl_canonical env p of Some q \<Rightarrow> [q] | None \<Rightarrow> []))"

definition protected_roots :: "place_env \<Rightarrow> fpath list" where
  "protected_roots env = concat (map (both_ways env) (protected_paths env))"

definition is_state_control :: "place_env \<Rightarrow> fpath \<Rightarrow> bool" where
  "is_state_control env p \<longleftrightarrow>
     (fp_file_name p = Some ''trust.lock'' \<or> fp_file_name p = Some ''lock_trust.toml'' \<or> NormalPart ''session-leases'' \<in> set p) \<and>
     (NormalPart ''.medha'' \<in> set p \<or>
      (case pl_state env of Some state \<Rightarrow> list_ex (\<lambda>s. starts_with p s) (both_ways env state) | None \<Rightarrow> False))"

definition is_protected :: "place_env \<Rightarrow> fpath \<Rightarrow> bool" where
  "is_protected env p \<longleftrightarrow>
     (let q = fold_path (pl_fold env) (lexical p)
      in list_ex (\<lambda>r. starts_with q r) (protected_roots env) \<or> is_state_control env q)"

text \<open>A project's records under the \<open>projects\<close> folder of a state; worktrees lie there too and stay writable.\<close>

definition is_record :: "place_env \<Rightarrow> fpath \<Rightarrow> fpath \<Rightarrow> bool" where
  "is_record env folded state =
     (case strip_prefix (fold_path (pl_fold env) (fp_join state [NormalPart ''projects''])) folded of
        Some (_ # rest) \<Rightarrow> (case rest of [] \<Rightarrow> True | part # _ \<Rightarrow> part \<noteq> NormalPart ''worktrees'')
      | _ \<Rightarrow> False)"

definition state_places :: "place_env \<Rightarrow> fpath list" where
  "state_places env =
     (case pl_home env of Some home \<Rightarrow> [fp_join home [NormalPart ''.medha'']] | None \<Rightarrow> [])
     @ (case pl_state env of Some state \<Rightarrow> [state] | None \<Rightarrow> [])"

definition is_protected_for_write :: "place_env \<Rightarrow> fpath \<Rightarrow> bool" where
  "is_protected_for_write env p \<longleftrightarrow>
     is_protected env p \<or>
     list_ex (is_record env (fold_path (pl_fold env) (lexical p)))
       (concat (map (\<lambda>s. lexical s # (case pl_canonical env s of Some q \<Rightarrow> [q] | None \<Rightarrow> [])) (state_places env)))"

section \<open>Lemmas\<close>

text \<open>An absolute path without dots.\<close>

fun is_name :: "component \<Rightarrow> bool" where
  "is_name (NormalPart _) = True"
| "is_name _ = False"

definition plain :: "fpath \<Rightarrow> bool" where
  "plain p \<longleftrightarrow> p \<noteq> [] \<and> hd p = RootDir \<and> list_all is_name (tl p)"

lemma plain_root [simp]: "plain [RootDir]"
  by (simp add: plain_def)

lemma plain_append: "p \<noteq> [] \<Longrightarrow> plain (p @ q) \<longleftrightarrow> plain p \<and> list_all is_name q"
  by (auto simp: plain_def)

lemma plain_not_Nil: "plain p \<Longrightarrow> p \<noteq> []"
  by (auto simp: plain_def)

lemma plain_butlast: "plain p \<Longrightarrow> last p \<noteq> RootDir \<Longrightarrow> plain (butlast p)"
  by (cases p rule: rev_cases) (auto simp: plain_def hd_append split: if_splits)

lemma plain_pop: "plain p \<Longrightarrow> plain (fst (fp_pop p))"
  by (auto simp: fp_pop_def fp_parent_def plain_butlast)

lemma lexical_from_plain: "plain out \<Longrightarrow> plain (lexical_from out p)"
  by (induction out p rule: lexical_from.induct) (auto simp: plain_pop plain_append plain_not_Nil)

lemma lexical_plain:
  assumes "fp_absolute p"
  shows "plain (lexical p)"
proof -
  obtain r where "p = RootDir # r" using assms by (cases p) (auto simp: fp_absolute_def first_of_def split: list.splits)
  then show ?thesis by (simp add: lexical_def lexical_from_plain)
qed

lemma lexical_from_names: "list_all is_name q \<Longrightarrow> lexical_from out q = out @ q"
proof (induction q arbitrary: out)
  case (Cons c q)
  then show ?case by (cases c) simp_all
qed simp

lemma lexical_of_plain [simp]: "plain p \<Longrightarrow> lexical p = p"
  by (cases p) (auto simp: plain_def lexical_def lexical_from_names)

lemma lexical_from_append: "lexical_from out (p @ q) = lexical_from (lexical_from out p) q"
  by (induction out p rule: lexical_from.induct) auto

lemma lexical_under: "list_all is_name q \<Longrightarrow> lexical (p @ q) = lexical p @ q"
  by (simp add: lexical_def lexical_from_append lexical_from_names)

lemma lexical_idem: "fp_absolute p \<Longrightarrow> lexical (lexical p) = lexical p"
  by (simp add: lexical_plain)

lemma fold_path_append [simp]: "fold_path f (p @ q) = fold_path f p @ fold_path f q"
  by (simp add: fold_path_def)

lemma fold_path_prefix: "prefix p q \<Longrightarrow> prefix (fold_path f p) (fold_path f q)"
  by (auto simp: prefix_def)

lemma fold_name [simp]: "is_name (fold_part f c) = is_name c"
  by (cases c) simp_all

lemma stores_are_names: "\<forall>rel \<in> set (HOME_RELATIVE @ CREDENTIAL_RELATIVE). list_all is_name (path_components rel) \<and> path_components rel \<noteq> []"
  by code_simp

lemma join_names: "list_all is_name r \<Longrightarrow> base \<noteq> [] \<Longrightarrow> fp_join base r = base @ r"
  by (induction r) (auto simp: fp_join_def fp_absolute_def first_of_def filter_id_conv list_all_iff split: list.splits)

lemma home_store_root:
  assumes "pl_home env = Some home" "plain home" "rel \<in> set (HOME_RELATIVE @ CREDENTIAL_RELATIVE)"
  shows "fold_path (pl_fold env) (home @ path_components rel) \<in> set (protected_roots env)"
proof -
  have names: "list_all is_name (path_components rel)" using stores_are_names assms(3) by blast
  have "home @ path_components rel \<in> set (protected_paths env)"
    using assms join_names [OF names plain_not_Nil [OF assms(2)]] by (force simp: protected_paths_def)
  moreover have "plain (home @ path_components rel)" using assms(2) names by (simp add: plain_append plain_not_Nil)
  ultimately show ?thesis by (force simp: protected_roots_def both_ways_def)
qed

lemma protected_by_root: "r \<in> set (protected_roots env) \<Longrightarrow> prefix r (fold_path (pl_fold env) (lexical p)) \<Longrightarrow> is_protected env p"
  by (auto simp: is_protected_def Let_def list_ex_iff starts_with_iff_prefix)

lemma protected_below:
  assumes "is_protected env p" "lexical q = lexical p @ below"
    and "fp_file_name (fold_path (pl_fold env) (lexical p)) \<notin> {Some ''trust.lock'', Some ''lock_trust.toml''}"
  shows "is_protected env q"
proof -
  have ext: "fold_path (pl_fold env) (lexical q) = fold_path (pl_fold env) (lexical p) @ fold_path (pl_fold env) below"
    using assms(2) by simp
  have under: "starts_with (fold_path (pl_fold env) (lexical p)) s \<Longrightarrow> starts_with (fold_path (pl_fold env) (lexical q)) s" for s
    unfolding ext starts_with_iff_prefix by (rule prefix_prefix)
  consider r where "r \<in> set (protected_roots env)" "starts_with (fold_path (pl_fold env) (lexical p)) r"
    | "is_state_control env (fold_path (pl_fold env) (lexical p))"
    using assms(1) by (auto simp: is_protected_def Let_def list_ex_iff)
  then show ?thesis
  proof cases
    case 1
    then show ?thesis using under by (auto simp: is_protected_def Let_def list_ex_iff)
  next
    case 2
    then have "is_state_control env (fold_path (pl_fold env) (lexical q))"
      using assms(3) under by (auto simp: is_state_control_def list_ex_iff ext split: option.splits)
    then show ?thesis by (simp add: is_protected_def Let_def)
  qed
qed

lemma home_record:
  assumes "pl_home env = Some home" "plain home" "lexical p = home @ [NormalPart ''.medha'', NormalPart ''projects'', x] @ below"
    and "below = [] \<or> fold_part (pl_fold env) (hd below) \<noteq> NormalPart ''worktrees''"
  shows "is_protected_for_write env p"
proof -
  let ?state = "home @ [NormalPart ''.medha'']"
  have state: "lexical ?state = ?state" using assms(2) by (simp add: plain_append plain_not_Nil)
  have join: "fp_join home [NormalPart ''.medha''] = ?state" "fp_join ?state [NormalPart ''projects''] = ?state @ [NormalPart ''projects'']"
    using plain_not_Nil [OF assms(2)] by (simp_all add: join_names)
  have "is_record env (fold_path (pl_fold env) (lexical p)) ?state"
    unfolding is_record_def join assms(3)
    using assms(4) by (cases below) (auto simp: strip_prefix_def starts_with_iff_prefix fold_path_def)
  then show ?thesis using assms(1) join(1) state by (auto simp: is_protected_for_write_def state_places_def)
qed

section \<open>Properties\<close>

text \<open>C38. What is closed stays closed under every spelling and at every depth: the credentials under the home folder
  are closed however they are written, with everything under them; what lies under anything closed is closed (the grants
  themselves are files); and each project's records are closed for writing, but for its worktrees.\<close>

theorem stores_stay_closed:
  assumes "pl_home env = Some home" "plain home"
  shows "(\<forall>rel \<in> set (HOME_RELATIVE @ CREDENTIAL_RELATIVE). lexical p = home @ path_components rel @ below \<longrightarrow> is_protected env p) \<and>
    (is_protected env q \<and> lexical p = lexical q @ below \<and>
       fp_file_name (fold_path (pl_fold env) (lexical q)) \<notin> {Some ''trust.lock'', Some ''lock_trust.toml''} \<longrightarrow> is_protected env p) \<and>
    (lexical p = home @ [NormalPart ''.medha'', NormalPart ''projects'', x] @ below \<and>
       (below = [] \<or> fold_part (pl_fold env) (hd below) \<noteq> NormalPart ''worktrees'') \<longrightarrow> is_protected_for_write env p)"
proof (intro conjI ballI impI)
  fix rel assume rel: "rel \<in> set (HOME_RELATIVE @ CREDENTIAL_RELATIVE)" and p: "lexical p = home @ path_components rel @ below"
  have "prefix (fold_path (pl_fold env) (home @ path_components rel)) (fold_path (pl_fold env) (lexical p))"
    unfolding p by (rule fold_path_prefix) (simp add: prefix_def)
  then show "is_protected env p" by (rule protected_by_root [OF home_store_root [OF assms rel]])
next
  assume "is_protected env q \<and> lexical p = lexical q @ below \<and>
       fp_file_name (fold_path (pl_fold env) (lexical q)) \<notin> {Some ''trust.lock'', Some ''lock_trust.toml''}"
  then show "is_protected env p" using protected_below by blast
next
  assume "lexical p = home @ [NormalPart ''.medha'', NormalPart ''projects'', x] @ below \<and>
       (below = [] \<or> fold_part (pl_fold env) (hd below) \<noteq> NormalPart ''worktrees'')"
  then show "is_protected_for_write env p" using home_record [OF assms] by blast
qed

definition home_env :: place_env where
  "home_env = \<lparr>pl_home = Some (path_components ''/home/u''), pl_state = None, pl_canonical = (\<lambda>_. None), pl_fold = (\<lambda>s. s)\<rparr>"

theorem stores_stay_closed_witness:
  "is_protected home_env (path_components ''/home/u/work/../.ssh/id_rsa'') \<and>
   is_protected_for_write home_env (path_components ''/home/u/.medha/projects/p/events.db'')"
proof -
  have home: "pl_home home_env = Some (path_components ''/home/u'')" "plain (path_components ''/home/u'')"
    by (simp add: home_env_def) code_simp
  have key: "''.ssh'' \<in> set (HOME_RELATIVE @ CREDENTIAL_RELATIVE)" by code_simp
  have "lexical (path_components ''/home/u/work/../.ssh/id_rsa'') =
      path_components ''/home/u'' @ path_components ''.ssh'' @ [NormalPart ''id_rsa'']" by code_simp
  then have "is_protected home_env (path_components ''/home/u/work/../.ssh/id_rsa'')"
    using stores_stay_closed [OF home] key by blast
  moreover have "lexical (path_components ''/home/u/.medha/projects/p/events.db'') =
      path_components ''/home/u'' @ [NormalPart ''.medha'', NormalPart ''projects'', NormalPart ''p''] @ [NormalPart ''events.db'']"
    by code_simp
  moreover have "fold_part (pl_fold home_env) (hd [NormalPart ''events.db'']) \<noteq> NormalPart ''worktrees''" by (simp add: home_env_def)
  ultimately show ?thesis using stores_stay_closed [OF home] by blast
qed

end
