(* ===== verification/Permissions.thy ===== *)
theory Permissions
  imports Protected Dispatch
begin

text \<open>
  Access to files and to the network beyond the workspace: \<open>crates/permissions/src/lib.rs\<close>. The manager is the record
  \<open>manager\<close>: the workspace, the live grants shared with the sandbox, the trust file with what it was read as, and the
  list of what was done, in order: lines of the audit log, cards shown, grants written and grants opened. The file system, the
  person, the audit file and the write of the trust file answer through \<open>perm_env\<close>, one for each call.
\<close>

section \<open>Errors and grants\<close>

datatype perm_error =
    PermIo string
  | PermResolution string
  | PermDenied fpath
  | PermProtected fpath
  | PermRecord fpath
  | PermNoHumanGate
  | PermRepositoryTrustFile fpath
  | PermPersistenceDisabled

datatype perm_type = PermRead | PermWrite

record approved_roots =
  ar_read :: "fpath set"
  ar_write :: "fpath set"
  ar_owned :: "fpath set"

definition allow_read :: "fpath \<Rightarrow> approved_roots \<Rightarrow> approved_roots" where
  "allow_read p a = a\<lparr>ar_read := insert p (ar_read a)\<rparr>"

definition allow_write :: "fpath \<Rightarrow> approved_roots \<Rightarrow> approved_roots" where
  "allow_write p a = a\<lparr>ar_write := insert p (ar_write a)\<rparr>"

definition allow_owned :: "fpath \<Rightarrow> approved_roots \<Rightarrow> approved_roots" where
  "allow_owned p a = a\<lparr>ar_write := insert p (ar_write a), ar_owned := insert p (ar_owned a)\<rparr>"

definition extend_roots :: "fpath set \<times> fpath set \<Rightarrow> approved_roots \<Rightarrow> approved_roots" where
  "extend_roots persisted a = a\<lparr>ar_read := ar_read a \<union> fst persisted, ar_write := ar_write a \<union> snd persisted\<rparr>"

text \<open>\<open>is_allowed\<close> walks from the path up over its parents.\<close>

definition root_allows :: "approved_roots \<Rightarrow> perm_type \<Rightarrow> fpath \<Rightarrow> bool" where
  "root_allows a perm p \<longleftrightarrow>
     p \<in> (case perm of PermRead \<Rightarrow> ar_read a | PermWrite \<Rightarrow> ar_write a) \<or> (perm = PermRead \<and> p \<in> ar_write a)"

function roots_allow :: "approved_roots \<Rightarrow> fpath \<Rightarrow> perm_type \<Rightarrow> bool" where
  "roots_allow a p perm =
     (if root_allows a perm p then True
      else case fp_parent p of None \<Rightarrow> False | Some q \<Rightarrow> roots_allow a q perm)"
  by pat_completeness auto

termination by (relation "measure (\<lambda>(_, p, _). length p)") (auto simp: fp_parent_def split: if_splits)

declare roots_allow.simps [simp del]

section \<open>The trust file\<close>

datatype toml =
    TomlString string
  | TomlInt int
  | TomlBool bool
  | TomlArray "toml list"
  | TomlTable "(string \<times> toml) list"
  | TomlOther string

fun toml_table :: "toml \<Rightarrow> (string \<times> toml) list option" where
  "toml_table (TomlTable t) = Some t"
| "toml_table _ = None"

fun toml_array :: "toml \<Rightarrow> toml list option" where
  "toml_array (TomlArray xs) = Some xs"
| "toml_array _ = None"

fun toml_str :: "toml \<Rightarrow> string option" where
  "toml_str (TomlString s) = Some s"
| "toml_str _ = None"

definition toml_get :: "toml \<Rightarrow> string \<Rightarrow> toml option" where
  "toml_get v k = (case toml_table v of Some t \<Rightarrow> map_of t k | None \<Rightarrow> None)"

text \<open>\<open>read_trust_value\<close>: what the file held, if it is there.\<close>

definition read_trust_value :: "(string \<Rightarrow> string + toml) \<Rightarrow> string + string option \<Rightarrow> perm_error + toml" where
  "read_trust_value parse content =
     (case content of
        Inl e \<Rightarrow> Inl (PermIo (''could not read trust file: '' @ e))
      | Inr c \<Rightarrow>
          (let body = (case c of None \<Rightarrow> [] | Some b \<Rightarrow> b) in
           if trim body = [] then Inr (TomlTable [])
           else case parse body of
             Inl e \<Rightarrow> Inl (PermIo (''could not parse trust file: '' @ e))
           | Inr v \<Rightarrow> Inr v))"

text \<open>The file system as one call sees it.\<close>

datatype path_kind = FileKind | DirectoryKind | UnknownKind

record file_view =
  fv_exists :: "fpath \<Rightarrow> bool"
  fv_canonical :: "fpath \<Rightarrow> string + fpath"
  fv_kind :: "fpath \<Rightarrow> path_kind"
  fv_cwd :: "string + fpath"
  fv_home :: "fpath option"
  fv_temp :: fpath

text \<open>\<open>resolve_path_allowing_missing_leaf\<close>: the longest part that exists, canonical, and the rest.\<close>

function resolve_up :: "file_view \<Rightarrow> fpath \<Rightarrow> fpath \<Rightarrow> perm_error + fpath" where
  "resolve_up fv missing current =
     (if fv_exists fv current
      then (case fv_canonical fv current of
              Inl e \<Rightarrow> Inl (PermResolution (''Failed to canonicalize trust path ancestor: '' @ e))
            | Inr r \<Rightarrow> Inr (r @ missing))
      else case fp_parent current of
             None \<Rightarrow> Inl (PermResolution ''Trust path has no existing ancestor'')
           | Some up \<Rightarrow>
               resolve_up fv (case fp_file_name current of Some n \<Rightarrow> NormalPart n # missing | None \<Rightarrow> missing) up)"
  by pat_completeness auto

termination by (relation "measure (\<lambda>(_, _, p). length p)") (auto simp: fp_parent_def split: if_splits)

declare resolve_up.simps [simp del]

definition resolve_missing :: "file_view \<Rightarrow> fpath \<Rightarrow> perm_error + fpath" where
  "resolve_missing fv p =
     (if fp_absolute p then resolve_up fv [] p
      else case fv_cwd fv of Inl e \<Rightarrow> Inl (PermResolution e) | Inr cwd \<Rightarrow> resolve_up fv [] (fp_join cwd p))"

definition bad_entry :: "nat \<Rightarrow> string \<Rightarrow> perm_error" where
  "bad_entry index what = PermIo (''trust file: permissions.trusted_paths['' @ decimal index @ '']'' @ what)"

definition entry_grant :: "file_view \<Rightarrow> nat \<Rightarrow> toml \<Rightarrow> perm_error + fpath \<times> perm_type" where
  "entry_grant fv index v =
     (case toml_table v of
        None \<Rightarrow> Inl (bad_entry index '' is not a table'')
      | Some t \<Rightarrow>
          (case Option.bind (map_of t ''path'') toml_str of
             None \<Rightarrow> Inl (bad_entry index ''.path is missing or not a string'')
           | Some raw \<Rightarrow>
               (case Option.bind (map_of t ''permission'') toml_str of
                  None \<Rightarrow> Inl (bad_entry index ''.permission is missing or not a string'')
                | Some perm \<Rightarrow>
                    if \<not> fp_absolute (path_components raw) then Inl (bad_entry index ''.path must be absolute'')
                    else case resolve_missing fv (path_components raw) of
                      Inl e \<Rightarrow> Inl e
                    | Inr p \<Rightarrow>
                        if perm = ''Read'' then Inr (p, PermRead)
                        else if perm = ''Write'' then Inr (p, PermWrite)
                        else Inl (bad_entry index (''.permission is invalid: '' @ perm)))))"

fun entry_grants :: "file_view \<Rightarrow> nat \<Rightarrow> toml list \<Rightarrow> perm_error + (fpath \<times> perm_type) list" where
  "entry_grants fv index [] = Inr []"
| "entry_grants fv index (v # vs) =
     (case entry_grant fv index v of
        Inl e \<Rightarrow> Inl e
      | Inr g \<Rightarrow> (case entry_grants fv (index + 1) vs of Inl e \<Rightarrow> Inl e | Inr gs \<Rightarrow> Inr (g # gs)))"

definition grants_of :: "(fpath \<times> perm_type) list \<Rightarrow> fpath set \<times> fpath set" where
  "grants_of gs = (set (map fst (filter (\<lambda>g. snd g = PermRead) gs)), set (map fst (filter (\<lambda>g. snd g = PermWrite) gs)))"

lemma grants_of_iff: "p \<in> fst (grants_of gs) \<longleftrightarrow> (p, PermRead) \<in> set gs" "p \<in> snd (grants_of gs) \<longleftrightarrow> (p, PermWrite) \<in> set gs"
  by (force simp: grants_of_def)+

definition permissions_table :: "toml \<Rightarrow> perm_error + (string \<times> toml) list option" where
  "permissions_table value =
     (case toml_table value of
        None \<Rightarrow> Inl (PermIo ''trust file: top-level is not a TOML table'')
      | Some root \<Rightarrow>
          (case map_of root ''permissions'' of
             None \<Rightarrow> Inr None
           | Some perms \<Rightarrow>
               (case toml_table perms of
                  None \<Rightarrow> Inl (PermIo ''trust file: [permissions] is not a table'')
                | Some t \<Rightarrow> Inr (Some t))))"

definition collect_grants :: "file_view \<Rightarrow> toml \<Rightarrow> perm_error + (fpath \<times> perm_type) list" where
  "collect_grants fv value =
     (case permissions_table value of
        Inl e \<Rightarrow> Inl e
      | Inr None \<Rightarrow> Inr []
      | Inr (Some t) \<Rightarrow>
          (case map_of t ''trusted_paths'' of
             None \<Rightarrow> Inr []
           | Some paths \<Rightarrow>
               (case toml_array paths of
                  None \<Rightarrow> Inl (PermIo ''trust file: permissions.trusted_paths is not an array'')
                | Some entries \<Rightarrow> entry_grants fv 0 entries)))"

definition collect_persisted_paths :: "file_view \<Rightarrow> toml \<Rightarrow> perm_error + fpath set \<times> fpath set" where
  "collect_persisted_paths fv value = map_sum id grants_of (collect_grants fv value)"

definition persisted_network_allowed :: "toml \<Rightarrow> perm_error + bool" where
  "persisted_network_allowed value =
     (case permissions_table value of
        Inl e \<Rightarrow> Inl e
      | Inr None \<Rightarrow> Inr False
      | Inr (Some t) \<Rightarrow>
          (case map_of t ''network_allowed'' of
             None \<Rightarrow> Inr False
           | Some (TomlBool b) \<Rightarrow> Inr b
           | Some _ \<Rightarrow> Inl (PermIo ''trust file: permissions.network_allowed is not a boolean'')))"

text \<open>\<open>to_str\<close> of a path made of components.\<close>

fun part_text :: "component \<Rightarrow> string" where
  "part_text RootDir = []"
| "part_text CurDir = ''.''"
| "part_text ParentDir = ''..''"
| "part_text (NormalPart n) = n"

definition fp_text :: "fpath \<Rightarrow> string" where
  "fp_text p = (if fp_absolute p then ''/'' @ join_with ''/'' (map part_text (tl p)) else join_with ''/'' (map part_text p))"

definition perm_str :: "perm_type \<Rightarrow> string" where
  "perm_str perm = (case perm of PermRead \<Rightarrow> ''Read'' | PermWrite \<Rightarrow> ''Write'')"

definition in_permissions ::
  "((string \<times> toml) list \<Rightarrow> perm_error + (string \<times> toml) list) \<Rightarrow> toml \<Rightarrow> perm_error + toml" where
  "in_permissions change value =
     (case toml_table value of
        None \<Rightarrow> Inl (PermIo ''trust file: top-level is not a TOML table'')
      | Some root \<Rightarrow>
          (case toml_table (case map_of root ''permissions'' of Some v \<Rightarrow> v | None \<Rightarrow> TomlTable []) of
             None \<Rightarrow> Inl (PermIo ''trust file: [permissions] is not a table'')
           | Some t \<Rightarrow>
               (case change t of
                  Inl e \<Rightarrow> Inl e
                | Inr t' \<Rightarrow> Inr (TomlTable (bt_insert ''permissions'' (TomlTable t') root)))))"

definition grant_entry :: "string \<Rightarrow> perm_type \<Rightarrow> nat \<Rightarrow> toml" where
  "grant_entry raw perm now =
     TomlTable [(''granted_at'', TomlInt (int now)), (''path'', TomlString raw), (''permission'', TomlString (perm_str perm))]"

definition is_grant_entry :: "string \<Rightarrow> perm_type \<Rightarrow> toml \<Rightarrow> bool" where
  "is_grant_entry raw perm v \<longleftrightarrow>
     Option.bind (toml_get v ''path'') toml_str = Some raw \<and> Option.bind (toml_get v ''permission'') toml_str = Some (perm_str perm)"

definition add_grant :: "string option \<Rightarrow> perm_type \<Rightarrow> nat \<Rightarrow> toml \<Rightarrow> perm_error + toml" where
  "add_grant raw perm now =
     in_permissions (\<lambda>t.
       case toml_array (case map_of t ''trusted_paths'' of Some v \<Rightarrow> v | None \<Rightarrow> TomlArray []) of
         None \<Rightarrow> Inl (PermIo ''trust file: permissions.trusted_paths is not an array'')
       | Some entries \<Rightarrow>
           (case raw of
              None \<Rightarrow> Inl (PermIo ''trusted path is not valid Unicode and cannot be persisted exactly'')
            | Some r \<Rightarrow>
                Inr (bt_insert ''trusted_paths''
                  (TomlArray (if list_ex (is_grant_entry r perm) entries then entries else entries @ [grant_entry r perm now])) t)))"

definition add_network :: "toml \<Rightarrow> perm_error + toml" where
  "add_network = in_permissions (\<lambda>t. Inr (bt_insert ''network_allowed'' (TomlBool True) t))"

section \<open>The manager\<close>

record path_request =
  pq_action :: string
  pq_detail :: string
  pq_path :: fpath
  pq_kind :: path_kind
  pq_access :: perm_type
  pq_folder :: "fpath option"

datatype perm_action =
    AuditPath fpath fpath perm_type string
  | AuditCapability string string
  | CardPath path_request path_approval
  | CardNetwork "string option" bool network_decision
  | CardAccess execution_access string bool network_decision
  | WrotePath fpath perm_type
  | WroteNetwork
  | OpenedPath fpath perm_type
  | OpenedPersisted
  | OpenedNetwork

record manager =
  pm_workspace :: fpath
  pm_trust_path :: "fpath option"
  pm_roots :: approved_roots
  pm_network :: bool
  pm_gated :: bool
  pm_file :: "perm_error + toml"
  pm_done :: "perm_action list"

record perm_env =
  pv_places :: place_env
  pv_files :: file_view
  pv_unicode :: "string \<Rightarrow> bool"
  pv_now :: nat
  pv_lock :: "string option"
  pv_write :: "toml \<Rightarrow> string option"
  pv_audit :: "perm_action list \<Rightarrow> string option"
  pv_path_answer :: "path_request \<Rightarrow> path_approval"
  pv_network_answer :: "string option \<Rightarrow> bool \<Rightarrow> network_decision"
  pv_access_answer :: "string \<Rightarrow> bool \<Rightarrow> network_decision"
  pv_meanwhile :: "(fpath \<times> perm_type) list"

type_synonym 'a perm = "manager \<Rightarrow> (perm_error + 'a) \<times> manager"

definition perm_ok :: "'a \<Rightarrow> 'a perm" where
  "perm_ok x m = (Inr x, m)"

definition perm_fail :: "perm_error \<Rightarrow> 'a perm" where
  "perm_fail e m = (Inl e, m)"

definition perm_then :: "'a perm \<Rightarrow> ('a \<Rightarrow> 'b perm) \<Rightarrow> 'b perm" where
  "perm_then c f m = (case c m of (Inl e, m') \<Rightarrow> (Inl e, m') | (Inr x, m') \<Rightarrow> f x m')"

text \<open>The last call of \<open>let _ = ...\<close>: what it did stays, whether it worked or not.\<close>

definition perm_try :: "unit perm \<Rightarrow> unit perm" where
  "perm_try c m = (Inr (), snd (c m))"

definition perm_note :: "perm_action \<Rightarrow> manager \<Rightarrow> manager" where
  "perm_note a m = m\<lparr>pm_done := pm_done m @ [a]\<rparr>"

fun perm_each :: "('a \<Rightarrow> unit perm) \<Rightarrow> 'a list \<Rightarrow> unit perm" where
  "perm_each f [] = perm_ok ()"
| "perm_each f (x # xs) = perm_then (f x) (\<lambda>_. perm_each f xs)"

definition audit_line :: "perm_env \<Rightarrow> perm_action \<Rightarrow> unit perm" where
  "audit_line env a m =
     (case pv_audit env (pm_done m) of Some e \<Rightarrow> (Inl (PermIo e), m) | None \<Rightarrow> (Inr (), perm_note a m))"

definition audit_network :: "perm_env \<Rightarrow> string \<Rightarrow> unit perm" where
  "audit_network env outcome = audit_line env (AuditCapability ''Network'' outcome)"

text \<open>\<open>new_scoped\<close>, \<open>new_jailed\<close>, \<open>load_trusted_paths\<close> and \<open>set_network_grant\<close>; the workspace root is canonical.\<close>

definition manager_start :: "fpath \<Rightarrow> fpath option \<Rightarrow> approved_roots \<Rightarrow> bool \<Rightarrow> perm_error + toml \<Rightarrow> manager" where
  "manager_start ws trust roots gated content =
     \<lparr>pm_workspace = ws, pm_trust_path = trust, pm_roots = roots, pm_network = False, pm_gated = gated,
      pm_file = content, pm_done = []\<rparr>"

definition no_roots :: approved_roots where
  "no_roots = \<lparr>ar_read = {}, ar_write = {}, ar_owned = {}\<rparr>"

definition load_trusted_paths :: "perm_env \<Rightarrow> unit perm" where
  "load_trusted_paths env m =
     (case pm_trust_path m of
        None \<Rightarrow> (Inr (), m)
      | Some _ \<Rightarrow>
          (case pm_file m of
             Inl e \<Rightarrow> (Inl e, m)
           | Inr v \<Rightarrow>
               (case collect_persisted_paths (pv_files env) v of
                  Inl e \<Rightarrow> (Inl e, m)
                | Inr g \<Rightarrow> (Inr (), perm_note OpenedPersisted (m\<lparr>pm_roots := extend_roots g (pm_roots m)\<rparr>)))))"

definition load_network_grant :: "unit perm" where
  "load_network_grant m =
     (case pm_trust_path m of
        None \<Rightarrow> (Inr (), m)
      | Some _ \<Rightarrow>
          (case pm_file m of
             Inl e \<Rightarrow> (Inl e, m)
           | Inr v \<Rightarrow>
               (case persisted_network_allowed v of
                  Inl e \<Rightarrow> (Inl e, m)
                | Inr b \<Rightarrow> (Inr (), if b then perm_note OpenedNetwork (m\<lparr>pm_network := True\<rparr>) else m))))"

definition new_scoped ::
  "perm_env \<Rightarrow> fpath \<Rightarrow> fpath \<Rightarrow> approved_roots \<Rightarrow> fpath option \<Rightarrow> bool \<Rightarrow> perm_error + toml \<Rightarrow> perm_error + manager" where
  "new_scoped env ws trust roots state_root gated content =
     (case resolve_missing (pv_files env) trust of
        Inl e \<Rightarrow> Inl e
      | Inr tp \<Rightarrow>
          (case (case state_root of None \<Rightarrow> Inr False | Some r \<Rightarrow> map_sum id (starts_with tp) (resolve_missing (pv_files env) r)) of
             Inl e \<Rightarrow> Inl e
           | Inr inside \<Rightarrow>
               if starts_with tp ws \<and> \<not> inside then Inl (PermRepositoryTrustFile tp)
               else (case load_trusted_paths env (manager_start ws (Some tp) roots gated content) of
                  (Inl e, _) \<Rightarrow> Inl e
                | (Inr _, m) \<Rightarrow> Inr m)))"

definition new_jailed :: "fpath \<Rightarrow> manager" where
  "new_jailed ws = manager_start ws None no_roots False (Inr (TomlTable []))"

section \<open>Persisting\<close>

definition persist_value :: "perm_env \<Rightarrow> perm_action \<Rightarrow> (toml \<Rightarrow> perm_error + toml) \<Rightarrow> toml perm" where
  "persist_value env wrote change m =
     (case pm_file m of
        Inl e \<Rightarrow> (Inl e, m)
      | Inr v \<Rightarrow>
          (case change v of
             Inl e \<Rightarrow> (Inl e, m)
           | Inr v' \<Rightarrow>
               (case pv_write env v' of
                  Some e \<Rightarrow> (Inl (PermIo e), m)
                | None \<Rightarrow> (Inr v', perm_note wrote (m\<lparr>pm_file := Inr v'\<rparr>)))))"

definition persist_trusted_path :: "perm_env \<Rightarrow> fpath \<Rightarrow> perm_type \<Rightarrow> (fpath set \<times> fpath set) perm" where
  "persist_trusted_path env p perm m =
     (case pm_trust_path m of
        None \<Rightarrow> (Inl PermPersistenceDisabled, m)
      | Some trust \<Rightarrow>
          (case resolve_missing (pv_files env) trust of
             Inl e \<Rightarrow> (Inl e, m)
           | Inr current \<Rightarrow>
               if current \<noteq> trust then (Inl (PermResolution ''trust path identity changed after startup''), m)
               else case pv_lock env of
                 Some e \<Rightarrow> (Inl (PermIo e), m)
               | None \<Rightarrow>
                   perm_then
                     (persist_value env (WrotePath p perm)
                        (add_grant (if pv_unicode env (fp_text p) then Some (fp_text p) else None) perm (pv_now env)))
                     (\<lambda>v m'. (collect_persisted_paths (pv_files env) v, m')) m))"

definition persist_network_allowed :: "perm_env \<Rightarrow> unit perm" where
  "persist_network_allowed env m =
     (case pm_trust_path m of
        None \<Rightarrow> (Inl PermPersistenceDisabled, m)
      | Some _ \<Rightarrow>
          (case pv_lock env of
             Some e \<Rightarrow> (Inl (PermIo e), m)
           | None \<Rightarrow> perm_then (persist_value env WroteNetwork add_network) (\<lambda>_. perm_ok ()) m))"

definition trust_path :: "perm_env \<Rightarrow> fpath \<Rightarrow> perm_type \<Rightarrow> unit perm" where
  "trust_path env p perm =
     perm_then (persist_trusted_path env p perm)
       (\<lambda>g m. (Inr (), perm_note OpenedPersisted (m\<lparr>pm_roots := extend_roots g (pm_roots m)\<rparr>)))"

section \<open>Which paths are closed\<close>

definition refusal :: "perm_env \<Rightarrow> fpath \<Rightarrow> perm_type \<Rightarrow> perm_error option" where
  "refusal env p perm =
     (if is_protected (pv_places env) p then Some (PermProtected p)
      else if perm = PermWrite \<and> is_protected_for_write (pv_places env) p then Some (PermRecord p)
      else None)"

text \<open>The folder a person may be offered in place of one file in it.\<close>

definition folder_to_offer :: "perm_env \<Rightarrow> fpath \<Rightarrow> fpath option" where
  "folder_to_offer env resolved =
     (let fv = pv_files env in
      if fv_kind fv resolved = DirectoryKind then None
      else case fp_parent resolved of
        None \<Rightarrow> None
      | Some folder \<Rightarrow>
          (let shared = (case fv_home fv of Some h \<Rightarrow> [h] | None \<Rightarrow> []) @ [fv_temp fv, path_components ''/tmp'', path_components ''/var/tmp''];
               places = concat (map (\<lambda>p. (case fv_canonical fv p of Inr q \<Rightarrow> [q] | Inl _ \<Rightarrow> []) @ [p]) shared);
               too_wide = list_ex (\<lambda>p. starts_with p folder) places
           in if 3 \<le> fp_names folder \<and> \<not> too_wide \<and> \<not> is_protected (pv_places env) folder then Some folder else None))"

section \<open>Resolving a path\<close>

definition workspace_path :: "perm_env \<Rightarrow> manager \<Rightarrow> fpath \<Rightarrow> perm_error + fpath" where
  "workspace_path env m p =
     (case (if starts_with p [NormalPart ''~'']
            then (case fv_home (pv_files env) of
                    None \<Rightarrow> Inl (PermResolution ''Could not determine home directory'')
                  | Some home \<Rightarrow> Inr (fp_join home (tl p)))
            else Inr p) of
        Inl e \<Rightarrow> Inl e
      | Inr expanded \<Rightarrow> Inr (if fp_absolute expanded then expanded else fp_join (pm_workspace m) expanded))"

definition resolve_path_for_read :: "perm_env \<Rightarrow> manager \<Rightarrow> fpath \<Rightarrow> perm_error + fpath" where
  "resolve_path_for_read env m p =
     (case workspace_path env m p of
        Inl e \<Rightarrow> Inl e
      | Inr q \<Rightarrow> map_sum (\<lambda>e. PermResolution (''Failed to canonicalize path: '' @ e)) id (fv_canonical (pv_files env) q))"

fun resolve_parts :: "file_view \<Rightarrow> fpath \<Rightarrow> fpath \<Rightarrow> perm_error + fpath" where
  "resolve_parts fv resolved [] = Inr resolved"
| "resolve_parts fv resolved (RootDir # r) = resolve_parts fv [RootDir] r"
| "resolve_parts fv resolved (CurDir # r) = resolve_parts fv resolved r"
| "resolve_parts fv resolved (ParentDir # r) =
     (if snd (fp_pop resolved) then resolve_parts fv (fst (fp_pop resolved)) r
      else Inl (PermResolution ''Path escapes its filesystem root''))"
| "resolve_parts fv resolved (NormalPart n # r) =
     (let candidate = resolved @ [NormalPart n] in
      if fv_exists fv candidate
      then (case fv_canonical fv candidate of
              Inl e \<Rightarrow> Inl (PermResolution (''Failed to canonicalize path component: '' @ e))
            | Inr q \<Rightarrow> resolve_parts fv q r)
      else resolve_parts fv candidate r)"

definition resolve_path_for_write :: "perm_env \<Rightarrow> manager \<Rightarrow> fpath \<Rightarrow> perm_error + fpath" where
  "resolve_path_for_write env m p =
     (case workspace_path env m p of
        Inl e \<Rightarrow> Inl e
      | Inr q \<Rightarrow>
          if fv_exists (pv_files env) q
          then map_sum (\<lambda>e. PermResolution (''Failed to canonicalize write target: '' @ e)) id (fv_canonical (pv_files env) q)
          else resolve_parts (pv_files env) [] q)"

definition is_inside_workspace :: "manager \<Rightarrow> fpath \<Rightarrow> bool" where
  "is_inside_workspace m p = starts_with p (pm_workspace m)"

definition is_trusted :: "manager \<Rightarrow> fpath \<Rightarrow> perm_type \<Rightarrow> bool" where
  "is_trusted m p perm = roots_allow (pm_roots m) p perm"

definition resolve_if_permitted :: "perm_env \<Rightarrow> manager \<Rightarrow> fpath \<Rightarrow> perm_type \<Rightarrow> fpath option" where
  "resolve_if_permitted env m p perm =
     (case resolve_path_for_write env m p of
        Inl _ \<Rightarrow> None
      | Inr r \<Rightarrow> if refusal env r perm = None \<and> (is_inside_workspace m r \<or> is_trusted m r perm) then Some r else None)"

section \<open>Asking\<close>

definition limit_remembering :: "bool \<Rightarrow> network_decision \<Rightarrow> network_decision" where
  "limit_remembering escalated d = (if escalated \<and> (d = NetSession \<or> d = NetPersistent) then NetOnce else d)"

definition open_network :: "unit perm" where
  "open_network m = (Inr (), perm_note OpenedNetwork (m\<lparr>pm_network := True\<rparr>))"

definition request_network :: "perm_env \<Rightarrow> string option \<Rightarrow> bool \<Rightarrow> manager \<Rightarrow> network_decision \<times> manager" where
  "request_network env detail escalated m =
     (if \<not> pm_gated m then (NetDeny, snd (perm_try (audit_network env ''denied (no human gate)'') m))
      else
        let answer = pv_network_answer env detail escalated;
            m1 = perm_note (CardNetwork detail escalated answer) m;
            say = (\<lambda>outcome. \<lambda>m. snd (perm_try (audit_network env outcome) m))
        in case limit_remembering escalated answer of
             NetOnce \<Rightarrow> (NetOnce, say ''allowed (user approved, once)'' m1)
           | NetSession \<Rightarrow> (NetSession, say ''allowed (user approved, session)'' (snd (open_network m1)))
           | NetPersistent \<Rightarrow>
               (case persist_network_allowed env m1 of
                  (Inr _, m2) \<Rightarrow> (NetPersistent, say ''allowed (user approved, persisted)'' (snd (open_network m2)))
                | (Inl _, m2) \<Rightarrow> (NetSession, say ''allowed (user approved, session; persist failed)'' (snd (open_network m2))))
           | NetDeny \<Rightarrow> (NetDeny, say ''denied'' m1))"

fun access_outcome :: "network_decision \<Rightarrow> string" where
  "access_outcome NetDeny = ''denied''"
| "access_outcome NetOnce = ''allowed (user approved, once)''"
| "access_outcome NetSession = ''allowed (user approved, session)''"
| "access_outcome NetPersistent = ''allowed (user approved, persistence requested)''"

definition access_paths :: "execution_access \<Rightarrow> (fpath \<times> perm_type) list" where
  "access_paths a = map (\<lambda>p. (path_components p, PermRead)) (acc_read_paths a) @ map (\<lambda>p. (path_components p, PermWrite)) (acc_write_paths a)"

definition open_path :: "fpath \<times> perm_type \<Rightarrow> unit perm" where
  "open_path g m =
     (Inr (), perm_note (OpenedPath (fst g) (snd g))
        (m\<lparr>pm_roots := (case snd g of PermRead \<Rightarrow> allow_read | PermWrite \<Rightarrow> allow_write) (fst g) (pm_roots m)\<rparr>))"

definition when_perm :: "bool \<Rightarrow> unit perm \<Rightarrow> unit perm" where
  "when_perm b c = (if b then c else perm_ok ())"

text \<open>The publishing half of a review.\<close>

definition publish_access :: "perm_env \<Rightarrow> execution_access \<Rightarrow> network_decision \<Rightarrow> network_decision perm" where
  "publish_access env a d =
     perm_then (when_perm (d = NetPersistent)
       (perm_then (when_perm (acc_network a) (persist_network_allowed env)) (\<lambda>_.
        perm_each (\<lambda>(p, perm). trust_path env p perm) (access_paths a)))) (\<lambda>_.
     perm_then (when_perm (d = NetSession \<or> d = NetPersistent)
       (perm_then (when_perm (acc_network a) open_network) (\<lambda>_. perm_each open_path (access_paths a)))) (\<lambda>_.
     perm_ok d))"

text \<open>Approval is recorded before anything is published.\<close>

definition request_execution_access :: "perm_env \<Rightarrow> execution_access \<Rightarrow> string \<Rightarrow> bool \<Rightarrow> network_decision perm" where
  "request_execution_access env a detail escalated m =
     (case List.map_filter (\<lambda>(p, perm). refusal env p perm) (access_paths a) of
        e # _ \<Rightarrow> (Inl e, m)
      | [] \<Rightarrow>
        if \<not> pm_gated m then (Inl PermNoHumanGate, m)
        else
          let e = (escalated \<or> acc_outside_sandbox a);
              answer = pv_access_answer env detail e;
              d = limit_remembering e answer;
              outcome = access_outcome d
          in perm_then (when_perm (acc_network a) (audit_network env outcome)) (\<lambda>_.
             perm_then (when_perm (acc_outside_sandbox a) (audit_line env (AuditCapability ''OutsideSandbox'' outcome))) (\<lambda>_.
             perm_then (perm_each (\<lambda>(p, perm). audit_line env (AuditPath p p perm outcome)) (access_paths a)) (\<lambda>_.
             publish_access env a d))) (perm_note (CardAccess a detail e answer) m))"

text \<open>A folder of the harness, readable without asking and never stored.\<close>

definition allow_read_dir :: "perm_env \<Rightarrow> fpath \<Rightarrow> manager \<Rightarrow> manager" where
  "allow_read_dir env dir m =
     m\<lparr>pm_roots := allow_read (case fv_canonical (pv_files env) dir of Inr q \<Rightarrow> q | Inl _ \<Rightarrow> dir) (pm_roots m)\<rparr>"

text \<open>What a card about one path says.\<close>

definition path_card :: "perm_env \<Rightarrow> string option \<Rightarrow> fpath \<Rightarrow> perm_type \<Rightarrow> path_request" where
  "path_card env detail resolved perm =
     (let kind = fv_kind (pv_files env) resolved;
          where_it_is = (case kind of DirectoryKind \<Rightarrow> ''this folder and its contents'' | FileKind \<Rightarrow> ''this file'' | UnknownKind \<Rightarrow> ''this path'')
      in \<lparr>pq_action = perm_str perm @ '' access to '' @ fp_text resolved,
          pq_detail = (case detail of Some d \<Rightarrow> d | None \<Rightarrow> ''This path is outside the workspace: '' @ fp_text resolved)
            @ [CHR 0x0A] @ ''Remembering access to '' @ where_it_is @ '' applies to future chats in this project. ''
            @ ''Medha's file tools and commands can use remembered access.''
            @ (if perm = PermWrite then '' Write access also permits reading.'' else []),
          pq_path = resolved, pq_kind = kind, pq_access = perm, pq_folder = folder_to_offer env resolved\<rparr>)"

definition request_permission :: "perm_env \<Rightarrow> fpath \<Rightarrow> perm_type \<Rightarrow> string option \<Rightarrow> fpath perm" where
  "request_permission env p perm detail m =
     (case workspace_path env m p of
        Inl e \<Rightarrow> (Inl e, m)
      | Inr requested \<Rightarrow>
      (case refusal env requested perm of
        Some refused \<Rightarrow> perm_then (audit_line env (AuditPath p requested perm ''refused (protected)'')) (\<lambda>_. perm_fail refused) m
      | None \<Rightarrow>
      (case (case perm of PermRead \<Rightarrow> resolve_path_for_read env m p | PermWrite \<Rightarrow> resolve_path_for_write env m p) of
        Inl e \<Rightarrow> (Inl e, m)
      | Inr resolved \<Rightarrow>
          let settle = (\<lambda>outcome. perm_then (audit_line env (AuditPath p resolved perm outcome)) (\<lambda>_. perm_ok resolved))
          in case refusal env resolved perm of
            Some refused \<Rightarrow> perm_then (audit_line env (AuditPath p resolved perm ''refused (protected)'')) (\<lambda>_. perm_fail refused) m
          | None \<Rightarrow>
            if is_inside_workspace m resolved then settle ''allowed (workspace)'' m
            else if is_trusted m resolved perm then settle ''allowed (trusted)'' m
            else
              let m1 = m\<lparr>pm_roots := extend_roots (grants_of (pv_meanwhile env)) (pm_roots m)\<rparr>
              in if is_trusted m1 resolved perm then settle ''allowed (trusted while prompt queued)'' m1
                 else if \<not> pm_gated m1 then (Inl PermNoHumanGate, m1)
                 else
                   let card = path_card env detail resolved perm;
                       answer = pv_path_answer env card;
                       m2 = perm_note (CardPath card answer) m1
                   in case (answer, pq_folder card) of
                        (PathDeny, _) \<Rightarrow> perm_then (audit_line env (AuditPath p resolved perm ''denied'')) (\<lambda>_. perm_fail (PermDenied resolved)) m2
                      | (PathOnce, _) \<Rightarrow> settle ''allowed (user approved, once)'' m2
                      | (PathFolder, Some folder) \<Rightarrow>
                          perm_then (trust_path env folder perm) (\<lambda>_. settle ''allowed (user approved, folder persisted)'') m2
                      | _ \<Rightarrow> perm_then (trust_path env resolved perm) (\<lambda>_. settle ''allowed (user approved, persisted)'') m2)))"

section \<open>Lemmas\<close>

text \<open>For a plain path the walk finds exactly the grants at or above it.\<close>

lemma roots_allow_plain:
  assumes "plain p"
  shows "roots_allow a p perm \<longleftrightarrow> (\<exists>r. r \<noteq> [] \<and> prefix r p \<and> root_allows a perm r)"
  using assms
proof (induction a p perm rule: roots_allow.induct)
  case (1 a p perm)
  have p: "p \<noteq> []" using 1(2) by (rule plain_not_Nil)
  then obtain q c where qc: "p = q @ [c]" by (cases p rule: rev_cases) auto
  show ?case
  proof (cases "fp_parent p")
    case None
    then have "q = []" using 1(2) qc by (cases q) (auto simp: fp_parent_def plain_def split: if_splits)
    then show ?thesis using None qc by (subst roots_allow.simps) (auto simp: prefix_def Cons_eq_append_conv append_eq_Cons_conv)
  next
    case (Some up)
    then have up: "up = q" "last p \<noteq> RootDir" using qc by (auto simp: fp_parent_def split: if_splits)
    then have "plain q" using plain_butlast [OF 1(2)] qc by simp
    then have ih: "\<not> root_allows a perm p \<Longrightarrow> roots_allow a q perm \<longleftrightarrow> (\<exists>r. r \<noteq> [] \<and> prefix r q \<and> root_allows a perm r)"
      using 1(1) Some up(1) by blast
    show ?thesis
      using ih Some up(1) p qc by (subst roots_allow.simps) (auto simp: prefix_snoc)
  qed
qed

text \<open>Chains of calls.\<close>

lemma perm_thenE:
  assumes "perm_then c f m = (r, m')"
  obtains e where "c m = (Inl e, m')" "r = Inl e" | x m1 where "c m = (Inr x, m1)" "f x m1 = (r, m')"
  using assms by (auto simp: perm_then_def split: prod.splits sum.splits)

lemma audit_line_cases:
  assumes "audit_line env a m = (r, m')"
  obtains e where "r = Inl e" "m' = m" | "r = Inr ()" "m' = perm_note a m"
  using assms by (auto simp: audit_line_def split: option.splits)

text \<open>What a call leaves of the state is its grants and its list; the rest stays. A step of the list is one action.\<close>

definition quiet :: "perm_action \<Rightarrow> bool" where
  "quiet a \<longleftrightarrow> (case a of AuditPath _ _ _ _ \<Rightarrow> True | AuditCapability _ _ \<Rightarrow> True | CardPath _ _ \<Rightarrow> True | CardNetwork _ _ _ \<Rightarrow> True
     | CardAccess _ _ _ _ \<Rightarrow> True | _ \<Rightarrow> False)"

definition same_grants :: "manager \<Rightarrow> manager \<Rightarrow> bool" where
  "same_grants m m' \<longleftrightarrow> pm_roots m' = pm_roots m \<and> pm_network m' = pm_network m \<and> pm_file m' = pm_file m"

lemma note_same [simp]: "same_grants m (perm_note a m)"
  by (simp add: same_grants_def perm_note_def)

lemma same_grants_refl [simp]: "same_grants m m"
  by (simp add: same_grants_def)

lemma audit_line_same: "audit_line env a m = (r, m') \<Longrightarrow> same_grants m m'"
  by (erule audit_line_cases) simp_all

text \<open>A canonical path is absolute and free of dots, as the standard library documents it.\<close>

definition canonical_ok :: "file_view \<Rightarrow> bool" where
  "canonical_ok fv \<longleftrightarrow> (\<forall>p q. fv_canonical fv p = Inr q \<longrightarrow> plain q) \<and> (\<forall>h. fv_home fv = Some h \<longrightarrow> plain h)"

lemma resolve_parts_plain:
  "canonical_ok fv \<Longrightarrow> plain resolved \<Longrightarrow> resolve_parts fv resolved p = Inr r \<Longrightarrow> plain r"
proof (induction fv resolved p rule: resolve_parts.induct)
  case (5 fv resolved n r)
  then show ?case
    by (auto simp: Let_def plain_append plain_not_Nil canonical_ok_def split: if_splits sum.splits)
qed (auto simp: plain_pop split: if_splits)

lemma absolute_join: "fp_absolute base \<Longrightarrow> fp_absolute (fp_join base r)"
  by (cases base) (auto simp: fp_join_def fp_absolute_def first_of_def)

lemma plain_absolute: "plain p \<Longrightarrow> fp_absolute p"
  by (cases p) (auto simp: plain_def fp_absolute_def first_of_def)

lemma workspace_path_absolute:
  assumes "canonical_ok (pv_files env)" "plain (pm_workspace m)" "workspace_path env m p = Inr q"
  shows "fp_absolute q"
  using assms absolute_join plain_absolute
  by (auto simp: workspace_path_def canonical_ok_def split: if_splits option.splits)

lemma resolve_write_plain:
  assumes "canonical_ok (pv_files env)" "plain (pm_workspace m)" "resolve_path_for_write env m p = Inr r"
  shows "plain r"
proof -
  obtain q where q: "workspace_path env m p = Inr q" using assms(3) by (auto simp: resolve_path_for_write_def split: sum.splits)
  then have abs: "fp_absolute q" by (rule workspace_path_absolute [OF assms(1,2)])
  then obtain rest where rest: "q = RootDir # rest" by (cases q) (auto simp: fp_absolute_def first_of_def)
  show ?thesis
  proof (cases "fv_exists (pv_files env) q")
    case True
    then have "fv_canonical (pv_files env) q = Inr r"
      using assms(3) q by (cases "fv_canonical (pv_files env) q") (auto simp: resolve_path_for_write_def)
    then show ?thesis using assms(1) by (auto simp: canonical_ok_def)
  next
    case False
    then have "resolve_parts (pv_files env) [RootDir] rest = Inr r"
      using assms(3) q rest by (simp add: resolve_path_for_write_def)
    then show ?thesis by (rule resolve_parts_plain [OF assms(1) plain_root])
  qed
qed

lemma resolve_read_plain:
  assumes "canonical_ok (pv_files env)" "resolve_path_for_read env m p = Inr r"
  shows "plain r"
  using assms by (cases "workspace_path env m p"; cases "fv_canonical (pv_files env) (projr (workspace_path env m p))")
    (auto simp: resolve_path_for_read_def canonical_ok_def)

text \<open>Which steps of a request can succeed.\<close>

lemma settle_cases:
  assumes "perm_then (audit_line env a) (\<lambda>_. perm_ok x) m = (Inr y, m')"
  shows "y = x \<and> m' = perm_note a m"
  using assms by (auto simp: perm_then_def perm_ok_def audit_line_def split: option.splits)

lemma refused_fails: "perm_then (audit_line env a) (\<lambda>_. perm_fail e) m = (Inr y, m') \<Longrightarrow> False"
  by (auto simp: perm_then_def perm_fail_def audit_line_def split: option.splits)

lemma persist_value_done:
  assumes "persist_value env a change m = (r, m')"
  shows "(m' = m \<and> (\<exists>e. r = Inl e)) \<or> (\<exists>v v'. pm_file m = Inr v \<and> change v = Inr v' \<and> r = Inr v' \<and> m' = perm_note a (m\<lparr>pm_file := Inr v'\<rparr>))"
proof (cases "pm_file m")
  case (Inl e)
  then have "r = Inl e \<and> m' = m" using assms by (simp add: persist_value_def)
  then show ?thesis by blast
next
  case (Inr v)
  show ?thesis
  proof (cases "change v")
    case (Inl e)
    then have "r = Inl e \<and> m' = m" using assms Inr by (simp add: persist_value_def)
    then show ?thesis by blast
  next
    case chg: (Inr v')
    show ?thesis
    proof (cases "pv_write env v'")
      case None
      then have "(r, m') = (Inr v', perm_note a (m\<lparr>pm_file := Inr v'\<rparr>))"
        using assms [symmetric] Inr chg by (simp only: persist_value_def sum.case option.case)
      then show ?thesis using Inr chg by simp
    next
      case (Some e)
      then have "r = Inl (PermIo e) \<and> m' = m" using assms Inr chg by (simp add: persist_value_def)
      then show ?thesis by blast
    qed
  qed
qed

lemma trust_path_cases:
  assumes "trust_path env p perm m = (r, m')"
  obtains e where "r = Inl e" "m' = m"
  | e v v' where "r = Inl e" "pm_file m = Inr v" "add_grant (Some (fp_text p)) perm (pv_now env) v = Inr v'"
      "m' = perm_note (WrotePath p perm) (m\<lparr>pm_file := Inr v'\<rparr>)"
  | v v' g where "r = Inr ()" "pm_file m = Inr v" "add_grant (Some (fp_text p)) perm (pv_now env) v = Inr v'"
      "collect_persisted_paths (pv_files env) v' = Inr g"
      "m' = perm_note OpenedPersisted ((perm_note (WrotePath p perm) (m\<lparr>pm_file := Inr v'\<rparr>))\<lparr>pm_roots := extend_roots g (pm_roots m)\<rparr>)"
proof -
  obtain pr pm1 where pp: "persist_trusted_path env p perm m = (pr, pm1)" by force
  show thesis
  proof (cases "\<exists>v v'. pm_file m = Inr v \<and> add_grant (Some (fp_text p)) perm (pv_now env) v = Inr v' \<and>
      pm1 = perm_note (WrotePath p perm) (m\<lparr>pm_file := Inr v'\<rparr>) \<and> pr = collect_persisted_paths (pv_files env) v'")
    case True
    then obtain v v' where v: "pm_file m = Inr v" "add_grant (Some (fp_text p)) perm (pv_now env) v = Inr v'"
      "pm1 = perm_note (WrotePath p perm) (m\<lparr>pm_file := Inr v'\<rparr>)" "pr = collect_persisted_paths (pv_files env) v'" by blast
    show thesis
    proof (cases "collect_persisted_paths (pv_files env) v'")
      case (Inl e)
      then show ?thesis using that(2) [OF _ v(1,2)] assms pp v by (auto simp: trust_path_def perm_then_def)
    next
      case (Inr g)
      then show ?thesis using that(3) [OF _ v(1,2) Inr] assms pp v by (auto simp: trust_path_def perm_then_def perm_note_def)
    qed
  next
    case False
    have "pm1 = m \<and> (\<exists>e. pr = Inl e)"
    proof (cases "pm_trust_path m")
      case (Some trust)
      show ?thesis
      proof (cases "resolve_missing (pv_files env) trust = Inr trust \<and> pv_lock env = None")
        case True
        obtain vr vm where pv: "persist_value env (WrotePath p perm)
            (add_grant (if pv_unicode env (fp_text p) then Some (fp_text p) else None) perm (pv_now env)) m = (vr, vm)" by force
        have none: "add_grant None perm (pv_now env) v \<noteq> Inr v'" for v v'
          by (auto simp: add_grant_def in_permissions_def split: option.splits sum.splits)
        show ?thesis
          using persist_value_done [OF pv] False pp True Some pv none
          by (auto simp: persist_trusted_path_def perm_then_def split: if_splits)
      next
        case False
        then show ?thesis using pp Some by (auto simp: persist_trusted_path_def split: sum.splits option.splits if_splits)
      qed
    qed (use pp in \<open>auto simp: persist_trusted_path_def\<close>)
    then show thesis using that(1) assms pp by (auto simp: trust_path_def perm_then_def)
  qed
qed

text \<open>The lines of the audit log a review writes: all of them, or the first ones and an error.\<close>

lemma audits_each:
  assumes "perm_each (\<lambda>x. audit_line env (A x)) xs m = (r, m')"
  shows "(r = Inr () \<and> m' = m\<lparr>pm_done := pm_done m @ map A xs\<rparr>) \<or> (\<exists>e k. r = Inl e \<and> m' = m\<lparr>pm_done := pm_done m @ map A (take k xs)\<rparr>)"
  using assms
proof (induction xs arbitrary: m)
  case (Cons x xs)
  obtain r1 m1 where one: "audit_line env (A x) m = (r1, m1)" by force
  from one show ?case
  proof (cases rule: audit_line_cases)
    case (1 e)
    then have "r = Inl e \<and> m' = m" using Cons.prems one by (simp add: perm_then_def)
    then show ?thesis by (auto intro!: exI [where x = 0])
  next
    case 2
    then have rest: "perm_each (\<lambda>x. audit_line env (A x)) xs m1 = (r, m')" using Cons.prems one by (simp add: perm_then_def)
    from Cons.IH [OF this] show ?thesis
    proof (elim disjE exE conjE)
      fix e k assume "r = Inl e" "m' = m1\<lparr>pm_done := pm_done m1 @ map A (take k xs)\<rparr>"
      then show ?thesis using 2 by (auto simp: perm_note_def intro!: exI [where x = "Suc k"])
    qed (use 2 in \<open>simp add: perm_note_def\<close>)
  qed
qed (simp add: perm_ok_def)

lemma audit_when:
  assumes "when_perm b (audit_line env a) m = (r, m')"
  shows "(r = Inr () \<and> m' = m\<lparr>pm_done := pm_done m @ (if b then [a] else [])\<rparr>) \<or> (\<exists>e. r = Inl e \<and> m' = m)"
  using assms by (auto simp: when_perm_def perm_ok_def perm_note_def elim!: audit_line_cases split: if_splits)

lemma append_split_list:
  assumes "xs @ ys = before @ x # later"
  shows "(\<exists>u. xs = before @ x # u) \<or> set xs \<subseteq> set before"
proof -
  from assms obtain us where "(xs = before @ us \<and> us @ ys = x # later) \<or> (xs @ us = before \<and> ys = us @ x # later)"
    by (auto simp: append_eq_append_conv2)
  then show ?thesis by (cases us) auto
qed

text \<open>Calls only append to the list.\<close>

definition appends :: "manager \<Rightarrow> manager \<Rightarrow> bool" where
  "appends m m' \<longleftrightarrow> prefix (pm_done m) (pm_done m')"

lemma appends_refl [simp]: "appends m m"
  by (simp add: appends_def)

lemma appends_trans: "appends m m1 \<Longrightarrow> appends m1 m2 \<Longrightarrow> appends m m2"
  unfolding appends_def by (rule prefix_order.trans)

lemma appends_note [simp]: "appends m (perm_note a m)" "appends m ((perm_note a m)\<lparr>pm_roots := x\<rparr>)"
  by (simp_all add: appends_def perm_note_def)

lemma appends_then:
  assumes "perm_then c f m = (r, m')" "\<And>r m'. c m = (r, m') \<Longrightarrow> appends m m'" "\<And>x n r m'. f x n = (r, m') \<Longrightarrow> appends n m'"
  shows "appends m m'"
  using assms(1) by (rule perm_thenE) (use assms(2,3) appends_trans in blast)+

lemma appends_each: "perm_each f xs m = (r, m') \<Longrightarrow> (\<And>x n r m'. f x n = (r, m') \<Longrightarrow> appends n m') \<Longrightarrow> appends m m'"
proof (induction xs arbitrary: m r m')
  case (Cons x xs)
  from Cons.prems(1) [unfolded perm_each.simps] show ?case
  proof (rule appends_then)
    show "f x m = (r, m') \<Longrightarrow> appends m m'" for r m' by (rule Cons.prems(2))
    show "perm_each f xs n = (r, m') \<Longrightarrow> appends n m'" for n r m' by (erule Cons.IH) (rule Cons.prems(2))
  qed
qed (simp add: perm_ok_def)

lemma appends_trust_path: "trust_path env p perm m = (r, m') \<Longrightarrow> appends m m'"
  by (erule trust_path_cases) (simp_all add: appends_def perm_note_def)

lemma persist_network_cases:
  assumes "persist_network_allowed env m = (r, m')"
  obtains e where "r = Inl e" "m' = m"
  | v v' where "r = Inr ()" "pm_file m = Inr v" "add_network v = Inr v'" "m' = perm_note WroteNetwork (m\<lparr>pm_file := Inr v'\<rparr>)"
proof (cases "pm_trust_path m \<noteq> None \<and> pv_lock env = None")
  case True
  obtain pr pm1 where pp: "persist_value env WroteNetwork add_network m = (pr, pm1)" by force
  then have res: "(r, m') = (case pr of Inl e \<Rightarrow> (Inl e, pm1) | Inr _ \<Rightarrow> (Inr (), pm1))"
    using assms True by (auto simp: persist_network_allowed_def perm_then_def perm_ok_def split: sum.split)
  from persist_value_done [OF pp] show thesis
  proof (elim disjE exE conjE)
    fix e assume "pm1 = m" "pr = Inl e"
    then show thesis using res by (intro that(1)) simp_all
  next
    fix v v' assume v: "pm_file m = Inr v" "add_network v = Inr v'" "pr = Inr v'" "pm1 = perm_note WroteNetwork (m\<lparr>pm_file := Inr v'\<rparr>)"
    then have "r = Inr ()" "m' = perm_note WroteNetwork (m\<lparr>pm_file := Inr v'\<rparr>)" using res by simp_all
    then show thesis by (rule that(2) [OF _ v(1,2)])
  qed
next
  case False
  have "\<exists>e. (r, m') = (Inl e, m)"
  proof (cases "pm_trust_path m")
    case (Some t)
    then obtain e where "pv_lock env = Some e" using False by auto
    then have "(r, m') = (Inl (PermIo e), m)"
      using assms [symmetric] Some by (simp only: persist_network_allowed_def option.case)
    then show ?thesis by blast
  next
    case None
    then have "(r, m') = (Inl PermPersistenceDisabled, m)"
      using assms [symmetric] by (simp only: persist_network_allowed_def option.case)
    then show ?thesis by blast
  qed
  then show thesis using that(1) by auto
qed

lemma appends_network: "persist_network_allowed env m = (r, m') \<Longrightarrow> appends m m'"
  by (erule persist_network_cases) (simp_all add: appends_def perm_note_def)

lemma appends_when: "when_perm b c m = (r, m') \<Longrightarrow> (\<And>r m'. c m = (r, m') \<Longrightarrow> appends m m') \<Longrightarrow> appends m m'"
  by (auto simp: when_perm_def perm_ok_def split: if_splits)

lemma appends_open: "open_path g m = (r, m') \<Longrightarrow> appends m m'" "open_network m = (r, m') \<Longrightarrow> appends m m'"
  by (auto simp: open_path_def open_network_def appends_def perm_note_def)

lemma publish_once: "d \<noteq> NetSession \<Longrightarrow> d \<noteq> NetPersistent \<Longrightarrow> publish_access env a d m = (Inr d, m)"
  by (simp add: publish_access_def when_perm_def perm_then_def perm_ok_def)

lemma publish_appends:
  assumes "publish_access env a d m = (r, m')"
  shows "appends m m'"
proof -
  have trusts: "perm_each (\<lambda>(p, perm). trust_path env p perm) gs n = (r, n') \<Longrightarrow> appends n n'" for gs n r n'
    by (erule appends_each) (auto dest: appends_trust_path)
  have opens: "perm_each open_path gs n = (r, n') \<Longrightarrow> appends n n'" for gs n r n'
    by (erule appends_each) (rule appends_open(1))
  have persists: "perm_then (when_perm b (persist_network_allowed env)) (\<lambda>_. perm_each (\<lambda>(p, perm). trust_path env p perm) gs) n = (r, n')
      \<Longrightarrow> appends n n'" for b gs n r n'
    by (erule appends_then) (auto dest: appends_when appends_network trusts)
  have publishes: "perm_then (when_perm b open_network) (\<lambda>_. perm_each open_path gs) n = (r, n') \<Longrightarrow> appends n n'" for b gs n r n'
    by (erule appends_then) (auto dest: appends_when appends_open opens)
  show ?thesis
    using assms unfolding publish_access_def
    apply (rule appends_then)
    apply (erule appends_when, erule persists)
    apply (erule appends_then)
    apply (erule appends_when, erule publishes)
    by (simp add: perm_ok_def)
qed

text \<open>A path as text and back.\<close>

definition well_spelled :: "fpath \<Rightarrow> bool" where
  "well_spelled p \<longleftrightarrow> plain p \<and> (\<forall>n. NormalPart n \<in> set p \<longrightarrow> n \<noteq> [] \<and> n \<noteq> ''.'' \<and> n \<noteq> ''..'' \<and> CHR ''/'' \<notin> set n)"

lemma split_by_word:
  "\<forall>c \<in> set w. \<not> P c \<Longrightarrow> split_by P (w @ s) = (w @ hd (split_by P s)) # tl (split_by P s)"
  by (induction w) (auto split: list.split)

lemma split_join_slash:
  "ws \<noteq> [] \<Longrightarrow> \<forall>w \<in> set ws. CHR ''/'' \<notin> set w \<Longrightarrow> split_by is_slash (join_with ''/'' ws) = ws"
proof (induction "''/''" ws rule: join_with.induct)
  case (2 w)
  then show ?case using split_by_word [of w is_slash "[]"] by (auto simp: is_slash_def)
next
  case (3 w v vs)
  have clean: "\<forall>c \<in> set w. \<not> is_slash c" using 3(3) by (auto simp: is_slash_def)
  have "split_by is_slash (join_with ''/'' (v # vs)) = v # vs" using 3 by simp
  moreover have "is_slash (CHR ''/'')" by (simp add: is_slash_def)
  ultimately show ?case using split_by_word [OF clean, of "''/'' @ join_with ''/'' (v # vs)"] by simp
qed simp

lemma part_text_name: "is_name c \<Longrightarrow> \<exists>n. c = NormalPart n"
  by (cases c) simp_all

lemma fp_text_components:
  assumes "well_spelled p"
  shows "path_components (fp_text p) = p"
proof -
  obtain r where r: "p = RootDir # r" "list_all is_name r" using assms by (cases p) (auto simp: well_spelled_def plain_def)
  have good: "c = NormalPart (part_text c) \<and> part_text c \<noteq> [] \<and> part_text c \<noteq> ''.'' \<and> part_text c \<noteq> ''..'' \<and> CHR ''/'' \<notin> set (part_text c)"
    if "c \<in> set r" for c
  proof -
    have "is_name c" using r(2) that by (simp add: list_all_iff)
    then obtain n where "c = NormalPart n" using part_text_name by blast
    then show ?thesis using assms that r(1) by (auto simp: well_spelled_def)
  qed
  have parts: "map path_part (map part_text r) = r"
    using good by (induction r) (auto simp: path_part_def)
  have kept: "filter (\<lambda>w. w \<noteq> [] \<and> w \<noteq> ''.'') (map part_text r) = map part_text r"
    using good by (simp add: filter_id_conv)
  have spelt: "fp_text p = ''/'' @ join_with ''/'' (map part_text r)" by (simp add: fp_text_def r(1) fp_absolute_def first_of_def)
  have "filter (\<lambda>w. w \<noteq> [] \<and> w \<noteq> ''.'') (split_by is_slash (fp_text p)) = map part_text r"
  proof (cases "r = []")
    case True
    then show ?thesis by (simp add: spelt is_slash_def)
  next
    case False
    then have "split_by is_slash (join_with ''/'' (map part_text r)) = map part_text r"
      by (intro split_join_slash) (use good in auto)
    then show ?thesis using kept by (simp add: spelt is_slash_def)
  qed
  moreover have "starts_with (fp_text p) ''/''" by (simp add: spelt starts_with_def)
  ultimately have "path_components (fp_text p) = RootDir # r" using parts by (simp add: path_components_def Let_def)
  then show ?thesis using r(1) by simp
qed

text \<open>What one more entry adds to the file.\<close>

lemma entry_grants_append:
  "entry_grants fv k (vs @ [v]) =
     (case entry_grants fv k vs of
        Inl e \<Rightarrow> Inl e
      | Inr gs \<Rightarrow> (case entry_grant fv (k + length vs) v of Inl e \<Rightarrow> Inl e | Inr g \<Rightarrow> Inr (gs @ [g])))"
  by (induction vs arbitrary: k) (auto split: sum.split)

lemma entry_grants_mem: "entry_grants fv k vs = Inr gs \<Longrightarrow> v \<in> set vs \<Longrightarrow> \<exists>j g. entry_grant fv j v = Inr g \<and> g \<in> set gs"
  by (induction vs arbitrary: k gs) (fastforce split: sum.splits)+

lemma grant_entry_read:
  assumes "is_grant_entry raw perm v" "fp_absolute (path_components raw)" "resolve_missing fv (path_components raw) = Inr q"
  shows "entry_grant fv j v = Inr (q, perm)"
proof -
  obtain t where t: "toml_table v = Some t" using assms(1) by (auto simp: is_grant_entry_def toml_get_def split: option.splits)
  then show ?thesis
    using assms by (cases perm) (auto simp: is_grant_entry_def toml_get_def entry_grant_def perm_str_def)
qed

lemma grant_entry_is: "is_grant_entry raw perm (grant_entry raw perm now)"
  by (simp add: is_grant_entry_def grant_entry_def toml_get_def)

lemma add_grant_collect:
  assumes "add_grant (Some raw) perm now v = Inr v'" "collect_grants fv v = Inr gs"
    and "fp_absolute (path_components raw)" "resolve_missing fv (path_components raw) = Inr q"
  shows "\<exists>gs'. collect_grants fv v' = Inr gs' \<and> set gs' = insert (q, perm) (set gs) \<and>
    persisted_network_allowed v' = persisted_network_allowed v"
proof -
  obtain root where root: "toml_table v = Some root" using assms(1) by (auto simp: add_grant_def in_permissions_def split: option.splits)
  let ?perms = "case map_of root ''permissions'' of Some x \<Rightarrow> x | None \<Rightarrow> TomlTable []"
  obtain t where t: "toml_table ?perms = Some t" using assms(1) root by (auto simp: add_grant_def in_permissions_def split: option.splits)
  let ?paths = "case map_of t ''trusted_paths'' of Some x \<Rightarrow> x | None \<Rightarrow> TomlArray []"
  obtain es where es: "toml_array ?paths = Some es"
    using assms(1) root t by (auto simp: add_grant_def in_permissions_def split: option.splits sum.splits)
  let ?es' = "if list_ex (is_grant_entry raw perm) es then es else es @ [grant_entry raw perm now]"
  let ?t' = "bt_insert ''trusted_paths'' (TomlArray ?es') t"
  have v': "v' = TomlTable (bt_insert ''permissions'' (TomlTable ?t') root)"
    using assms(1) root t es by (simp add: add_grant_def in_permissions_def)
  have old: "entry_grants fv 0 es = Inr gs"
    using assms(2) root t es
    by (cases "map_of root ''permissions''"; cases "map_of t ''trusted_paths''")
      (auto simp: collect_grants_def permissions_table_def)
  have new: "collect_grants fv v' = entry_grants fv 0 ?es'"
    by (simp add: v' collect_grants_def permissions_table_def)
  have "\<exists>gs'. entry_grants fv 0 ?es' = Inr gs' \<and> set gs' = insert (q, perm) (set gs)"
  proof (cases "list_ex (is_grant_entry raw perm) es")
    case True
    then obtain e where e: "e \<in> set es" "is_grant_entry raw perm e" by (auto simp: list_ex_iff)
    then have "(q, perm) \<in> set gs"
      using entry_grants_mem [OF old e(1)] grant_entry_read [OF e(2) assms(3,4)] by fastforce
    then show ?thesis using True old by auto
  next
    case False
    then show ?thesis using old grant_entry_read [OF grant_entry_is assms(3,4)] by (simp add: entry_grants_append)
  qed
  moreover have "persisted_network_allowed v' = persisted_network_allowed v"
    using root t by (cases "map_of root ''permissions''") (auto simp: v' persisted_network_allowed_def permissions_table_def)
  ultimately show ?thesis using new by simp
qed

subsection \<open>Where grants come from\<close>

datatype perm_op =
    OpPath fpath perm_type "string option"
  | OpNetwork "string option" bool
  | OpAccess execution_access string bool
  | OpReload

fun perm_step :: "perm_env \<Rightarrow> perm_op \<Rightarrow> manager \<Rightarrow> manager" where
  "perm_step env (OpPath p perm detail) m = snd (request_permission env p perm detail m)"
| "perm_step env (OpNetwork detail e) m = snd (request_network env detail e m)"
| "perm_step env (OpAccess a detail e) m = snd (request_execution_access env a detail e m)"
| "perm_step env OpReload m = snd (load_trusted_paths env m)"

definition perm_run :: "perm_env \<Rightarrow> perm_op list \<Rightarrow> manager \<Rightarrow> manager" where
  "perm_run env ops m = fold (perm_step env) ops m"

text \<open>The grants a manager has or will have after a restart, and those a person has said yes to.\<close>

definition live_grants :: "approved_roots \<Rightarrow> (fpath \<times> perm_type) set" where
  "live_grants a = (\<lambda>p. (p, PermRead)) ` ar_read a \<union> (\<lambda>p. (p, PermWrite)) ` ar_write a"

definition stored_grants :: "perm_env \<Rightarrow> perm_error + toml \<Rightarrow> (fpath \<times> perm_type) set" where
  "stored_grants env content =
     (case content of Inl _ \<Rightarrow> {} | Inr v \<Rightarrow> (case collect_grants (pv_files env) v of Inl _ \<Rightarrow> {} | Inr gs \<Rightarrow> set gs))"

definition grants_known :: "perm_env \<Rightarrow> manager \<Rightarrow> (fpath \<times> perm_type) set" where
  "grants_known env m = live_grants (pm_roots m) \<union> stored_grants env (pm_file m)"

definition reads_back :: "perm_env \<Rightarrow> fpath \<Rightarrow> fpath \<Rightarrow> bool" where
  "reads_back env f g \<longleftrightarrow> g = f \<or> resolve_missing (pv_files env) (path_components (fp_text f)) = Inr g"

fun yes_to :: "perm_action \<Rightarrow> (fpath \<times> perm_type) set" where
  "yes_to (CardPath rq PathOnly) = {(pq_path rq, pq_access rq)}"
| "yes_to (CardPath rq PathFolder) = {(case pq_folder rq of Some d \<Rightarrow> d | None \<Rightarrow> pq_path rq, pq_access rq)}"
| "yes_to (CardAccess acc detail False NetSession) = set (access_paths acc)"
| "yes_to (CardAccess acc detail False NetPersistent) = set (access_paths acc)"
| "yes_to _ = {}"

definition said_yes :: "perm_env \<Rightarrow> perm_action list \<Rightarrow> (fpath \<times> perm_type) set" where
  "said_yes env acts = {(g, perm). \<exists>act \<in> set acts. \<exists>f. (f, perm) \<in> yes_to act \<and> reads_back env f g}"

lemma said_yes_mono: "set xs \<subseteq> set ys \<Longrightarrow> said_yes env xs \<subseteq> said_yes env ys"
  by (auto simp: said_yes_def)

lemma said_yes_direct: "act \<in> set acts \<Longrightarrow> yes_to act \<subseteq> said_yes env acts"
  by (force simp: said_yes_def reads_back_def)

text \<open>The step every operation is shown to be: the list grows, and so do the grants, by what was said yes to.\<close>

definition grants_step :: "perm_env \<Rightarrow> manager \<Rightarrow> manager \<Rightarrow> bool" where
  "grants_step env m m' \<longleftrightarrow> appends m m' \<and>
     grants_known env m' \<subseteq> grants_known env m \<union> set (pv_meanwhile env) \<union> said_yes env (pm_done m')"

lemma grants_step_refl [simp]: "grants_step env m m"
  by (auto simp: grants_step_def)

lemma grants_step_trans:
  assumes "grants_step env m m1" "grants_step env m1 m2"
  shows "grants_step env m m2"
proof -
  have "said_yes env (pm_done m1) \<subseteq> said_yes env (pm_done m2)"
    using assms(2) by (intro said_yes_mono) (auto simp: grants_step_def appends_def prefix_def)
  then show ?thesis using assms appends_trans unfolding grants_step_def by blast
qed

lemma grants_step_note [simp]: "grants_step env m (perm_note a m)"
  by (auto simp: grants_step_def grants_known_def perm_note_def appends_def)

lemma grants_step_audit: "audit_line env' a m = (r, m') \<Longrightarrow> grants_step env m m'"
  by (erule audit_line_cases) simp_all

lemma add_grant_backwards:
  assumes "add_grant (Some raw) perm now v = Inr v'" "collect_grants fv v' = Inr gs'"
  shows "\<exists>gs. collect_grants fv v = Inr gs \<and> set gs' \<subseteq> set gs \<union> {(q, perm) | q. resolve_missing fv (path_components raw) = Inr q}"
proof -
  obtain root where root: "toml_table v = Some root" using assms(1) by (auto simp: add_grant_def in_permissions_def split: option.splits)
  let ?perms = "case map_of root ''permissions'' of Some x \<Rightarrow> x | None \<Rightarrow> TomlTable []"
  obtain t where t: "toml_table ?perms = Some t" using assms(1) root by (auto simp: add_grant_def in_permissions_def split: option.splits)
  let ?paths = "case map_of t ''trusted_paths'' of Some x \<Rightarrow> x | None \<Rightarrow> TomlArray []"
  obtain es where es: "toml_array ?paths = Some es"
    using assms(1) root t by (auto simp: add_grant_def in_permissions_def split: option.splits sum.splits)
  let ?es' = "if list_ex (is_grant_entry raw perm) es then es else es @ [grant_entry raw perm now]"
  have v': "v' = TomlTable (bt_insert ''permissions'' (TomlTable (bt_insert ''trusted_paths'' (TomlArray ?es') t)) root)"
    using assms(1) root t es by (simp add: add_grant_def in_permissions_def)
  have new: "entry_grants fv 0 ?es' = Inr gs'"
    using assms(2) by (simp add: v' collect_grants_def permissions_table_def)
  have old: "collect_grants fv v = entry_grants fv 0 es"
    using root t es by (cases "map_of root ''permissions''"; cases "map_of t ''trusted_paths''")
      (auto simp: collect_grants_def permissions_table_def)
  show ?thesis
  proof (cases "list_ex (is_grant_entry raw perm) es")
    case True
    then show ?thesis using new old by auto
  next
    case False
    then obtain gs g where g: "entry_grants fv 0 es = Inr gs" "entry_grant fv (length es) (grant_entry raw perm now) = Inr g" "gs' = gs @ [g]"
      using new by (auto simp: entry_grants_append split: sum.splits)
    have "g \<in> {(q, perm) | q. resolve_missing fv (path_components raw) = Inr q}"
      using g(2) by (cases perm) (auto simp: entry_grant_def grant_entry_def perm_str_def split: sum.splits if_splits)
    then show ?thesis using g old by auto
  qed
qed

lemma live_extend: "live_grants (extend_roots (grants_of gs) a) = live_grants a \<union> set gs"
proof -
  have "(p, perm) \<in> set gs \<Longrightarrow> (p, perm) \<in> live_grants (extend_roots (grants_of gs) a)" for p perm
    by (cases perm) (auto simp: live_grants_def extend_roots_def grants_of_iff)
  then show ?thesis by (auto simp: live_grants_def extend_roots_def grants_of_iff)
qed

lemma grants_step_trust:
  assumes "trust_path env p perm m = (r, m')" "(p, perm) \<in> yes_to act" "act \<in> set (pm_done m)"
  shows "grants_step env m m'"
proof -
  have behind: "\<exists>gs. collect_grants (pv_files env) v = Inr gs \<and> set gs' \<subseteq> set gs \<union> said_yes env (pm_done m @ more)"
    if v: "add_grant (Some (fp_text p)) perm (pv_now env) v = Inr v'" "collect_grants (pv_files env) v' = Inr gs'" for v v' gs' more
  proof -
    obtain gs where gs: "collect_grants (pv_files env) v = Inr gs"
      "set gs' \<subseteq> set gs \<union> {(q, perm) | q. resolve_missing (pv_files env) (path_components (fp_text p)) = Inr q}"
      using add_grant_backwards [OF v] by blast
    have "{(q, perm) | q. resolve_missing (pv_files env) (path_components (fp_text p)) = Inr q} \<subseteq> said_yes env (pm_done m @ more)"
      using assms(2,3) by (auto simp: said_yes_def reads_back_def)
    then show ?thesis using gs by blast
  qed
  from assms(1) show ?thesis
  proof (cases rule: trust_path_cases)
    case (2 e v v')
    have done': "pm_done m' = pm_done m @ [WrotePath p perm]" using 2(4) by (simp add: perm_note_def)
    have "stored_grants env (Inr v') \<subseteq> stored_grants env (Inr v) \<union> said_yes env (pm_done m')"
    proof (cases "collect_grants (pv_files env) v'")
      case (Inr gs')
      obtain gs where "collect_grants (pv_files env) v = Inr gs" "set gs' \<subseteq> set gs \<union> said_yes env (pm_done m @ [WrotePath p perm])"
        using behind [OF 2(3) Inr] by blast
      then show ?thesis unfolding done' by (auto simp: stored_grants_def Inr)
    qed (simp add: stored_grants_def)
    then show ?thesis using 2 done' by (auto simp: grants_step_def grants_known_def perm_note_def appends_def)
  next
    case (3 v v' g)
    obtain gs' where gs': "collect_grants (pv_files env) v' = Inr gs'" "g = grants_of gs'"
      using 3(4) by (cases "collect_grants (pv_files env) v'") (auto simp: collect_persisted_paths_def)
    have done': "pm_done m' = pm_done m @ [WrotePath p perm, OpenedPersisted]" using 3(5) by (simp add: perm_note_def)
    obtain gs where gs: "collect_grants (pv_files env) v = Inr gs" "set gs' \<subseteq> set gs \<union> said_yes env (pm_done m')"
      using behind [OF 3(3) gs'(1)] unfolding done' by blast
    have "grants_known env m' = live_grants (pm_roots m) \<union> set gs'"
      using 3(5) gs' by (auto simp: grants_known_def perm_note_def live_extend stored_grants_def)
    then show ?thesis using gs 3(2) done' by (auto simp: grants_step_def grants_known_def stored_grants_def appends_def)
  qed simp
qed

text \<open>The pieces of the requests, each one such a step as long as the yes is already in the list.\<close>

definition agreed :: "perm_action \<Rightarrow> (fpath \<times> perm_type) list \<Rightarrow> manager \<Rightarrow> bool" where
  "agreed act gs m \<longleftrightarrow> set gs \<subseteq> yes_to act \<and> act \<in> set (pm_done m)"

lemma agreed_kept: "agreed act gs m \<Longrightarrow> appends m m' \<Longrightarrow> agreed act gs m'"
  by (auto simp: agreed_def appends_def prefix_def)

lemma grants_step_appends: "grants_step env m m' \<Longrightarrow> appends m m'"
  by (simp add: grants_step_def)

lemma grants_step_each:
  assumes "perm_each f gs m = (r, m')" "agreed act gs m"
    and one: "\<And>g n r n'. f g n = (r, n') \<Longrightarrow> agreed act [g] n \<Longrightarrow> grants_step env n n'"
  shows "grants_step env m m'"
  using assms(1,2)
proof (induction gs arbitrary: m r m')
  case (Cons g gs)
  have head: "agreed act [g] m" and tail: "agreed act gs m" using Cons.prems(2) by (auto simp: agreed_def)
  from Cons.prems(1) [unfolded perm_each.simps] show ?case
  proof (rule perm_thenE)
    fix e assume "f g m = (Inl e, m')"
    then show ?thesis by (rule one [OF _ head])
  next
    fix u m1 assume first: "f g m = (Inr u, m1)" and rest: "perm_each f gs m1 = (r, m')"
    have s: "grants_step env m m1" by (rule one [OF first head])
    then have "agreed act gs m1" by (intro agreed_kept [OF tail] grants_step_appends)
    then show ?thesis using Cons.IH [OF rest] s grants_step_trans by blast
  qed
qed (simp add: perm_ok_def)

lemma grants_step_open:
  assumes "open_path g m = (r, m')" "agreed act [g] m"
  shows "grants_step env m m'"
proof -
  have m': "m' = perm_note (OpenedPath (fst g) (snd g))
      (m\<lparr>pm_roots := (case snd g of PermRead \<Rightarrow> allow_read | PermWrite \<Rightarrow> allow_write) (fst g) (pm_roots m)\<rparr>)"
    using assms(1) by (simp add: open_path_def)
  have "live_grants (pm_roots m') \<subseteq> insert g (live_grants (pm_roots m))"
    by (cases g; cases "snd g") (auto simp: m' live_grants_def allow_read_def allow_write_def perm_note_def)
  moreover have "g \<in> said_yes env (pm_done m')"
    using assms(2) said_yes_direct [of act "pm_done m'" env] by (auto simp: agreed_def m' perm_note_def)
  moreover have "pm_file m' = pm_file m" "appends m m'" by (simp_all add: m' perm_note_def appends_def)
  ultimately show ?thesis by (auto simp: grants_step_def grants_known_def)
qed

lemma add_network_collect: "add_network v = Inr v' \<Longrightarrow> collect_grants fv v' = collect_grants fv v"
  by (cases "toml_table v"; cases "map_of (the (toml_table v)) ''permissions''")
    (auto simp: add_network_def in_permissions_def collect_grants_def permissions_table_def split: option.splits)

lemma grants_step_persist_network:
  assumes "persist_network_allowed env m = (r, m')"
  shows "grants_step env m m'"
  using assms
proof (cases rule: persist_network_cases)
  case (2 v v')
  have "stored_grants env (Inr v') = stored_grants env (Inr v)"
    by (simp add: stored_grants_def add_network_collect [OF 2(3)])
  then show ?thesis using 2 by (auto simp: grants_step_def grants_known_def perm_note_def appends_def)
qed simp

lemma grants_step_open_network: "open_network m = (r, m') \<Longrightarrow> grants_step env m m'"
  by (auto simp: open_network_def grants_step_def grants_known_def perm_note_def appends_def)

lemma grants_step_when: "when_perm b c m = (r, m') \<Longrightarrow> (\<And>r m'. c m = (r, m') \<Longrightarrow> grants_step env m m') \<Longrightarrow> grants_step env m m'"
  by (auto simp: when_perm_def perm_ok_def split: if_splits)

lemma grants_step_trusts:
  assumes "perm_each (\<lambda>(p, perm). trust_path env p perm) gs m = (r, m')" "agreed act gs m"
  shows "grants_step env m m'"
  using assms by (rule grants_step_each) (auto simp: agreed_def intro: grants_step_trust)

lemma grants_step_publish:
  assumes "publish_access env a d m = (r, m')" "d = NetSession \<or> d = NetPersistent \<Longrightarrow> agreed act (access_paths a) m"
  shows "grants_step env m m'"
proof (cases "d = NetSession \<or> d = NetPersistent")
  case False
  then show ?thesis using assms(1) publish_once [of d env a m] by simp
next
  case True
  have act: "agreed act (access_paths a) m" by (rule assms(2) [OF True])
  have trusts: "grants_step env n n'"
    if t: "perm_then (when_perm b (persist_network_allowed env)) (\<lambda>_. perm_each (\<lambda>(p, perm). trust_path env p perm) (access_paths a)) n = (s, n')"
      and n: "agreed act (access_paths a) n" for b n s n'
    using t
  proof (rule perm_thenE)
    fix e assume "when_perm b (persist_network_allowed env) n = (Inl e, n')"
    then show ?thesis by (rule grants_step_when) (rule grants_step_persist_network)
  next
    fix u n1 assume net: "when_perm b (persist_network_allowed env) n = (Inr u, n1)"
      and rest: "perm_each (\<lambda>(p, perm). trust_path env p perm) (access_paths a) n1 = (s, n')"
    from net have s1: "grants_step env n n1" by (rule grants_step_when) (rule grants_step_persist_network)
    then show ?thesis
      using grants_step_trusts [OF rest agreed_kept [OF n grants_step_appends [OF s1]]] grants_step_trans by blast
  qed
  have opens: "grants_step env n n'"
    if t: "perm_then (when_perm b open_network) (\<lambda>_. perm_each open_path (access_paths a)) n = (s, n')"
      and n: "agreed act (access_paths a) n" for b n s n'
    using t
  proof (rule perm_thenE)
    fix e assume "when_perm b open_network n = (Inl e, n')"
    then show ?thesis by (rule grants_step_when) (rule grants_step_open_network)
  next
    fix u n1 assume net: "when_perm b open_network n = (Inr u, n1)" and rest: "perm_each open_path (access_paths a) n1 = (s, n')"
    from net have s1: "grants_step env n n1" by (rule grants_step_when) (rule grants_step_open_network)
    have "grants_step env n1 n'"
      using rest agreed_kept [OF n grants_step_appends [OF s1]] by (rule grants_step_each) (rule grants_step_open)
    then show ?thesis using s1 grants_step_trans by blast
  qed
  from assms(1) [unfolded publish_access_def] show ?thesis
  proof (rule perm_thenE)
    fix e assume "when_perm (d = NetPersistent) (perm_then (when_perm (acc_network a) (persist_network_allowed env))
      (\<lambda>_. perm_each (\<lambda>(p, perm). trust_path env p perm) (access_paths a))) m = (Inl e, m')"
    then show ?thesis by (rule grants_step_when) (erule trusts, rule act)
  next
    fix u m1 assume one: "when_perm (d = NetPersistent) (perm_then (when_perm (acc_network a) (persist_network_allowed env))
        (\<lambda>_. perm_each (\<lambda>(p, perm). trust_path env p perm) (access_paths a))) m = (Inr u, m1)"
      and rest: "perm_then (when_perm (d = NetSession \<or> d = NetPersistent) (perm_then (when_perm (acc_network a) open_network)
        (\<lambda>_. perm_each open_path (access_paths a)))) (\<lambda>_. perm_ok d) m1 = (r, m')"
    from one have s1: "grants_step env m m1" by (rule grants_step_when) (erule trusts, rule act)
    have act1: "agreed act (access_paths a) m1" by (rule agreed_kept [OF act grants_step_appends [OF s1]])
    from rest have "grants_step env m1 m'"
    proof (rule perm_thenE)
      fix e assume "when_perm (d = NetSession \<or> d = NetPersistent) (perm_then (when_perm (acc_network a) open_network)
        (\<lambda>_. perm_each open_path (access_paths a))) m1 = (Inl e, m')"
      then show ?thesis by (rule grants_step_when) (erule opens, rule act1)
    next
      fix u m2 assume two: "when_perm (d = NetSession \<or> d = NetPersistent) (perm_then (when_perm (acc_network a) open_network)
          (\<lambda>_. perm_each open_path (access_paths a))) m1 = (Inr u, m2)" and final: "perm_ok d m2 = (r, m')"
      from two have "grants_step env m1 m2" by (rule grants_step_when) (erule opens, rule act1)
      then show ?thesis using final by (simp add: perm_ok_def)
    qed
    then show ?thesis using s1 grants_step_trans by blast
  qed
qed

lemma grants_step_settle:
  "perm_then (audit_line env a) (\<lambda>_. perm_ok x) m = (r, m') \<Longrightarrow> grants_step env m m'"
  "perm_then (audit_line env a) (\<lambda>_. perm_fail e) m = (r, m') \<Longrightarrow> grants_step env m m'"
  by (auto simp: perm_ok_def perm_fail_def elim!: perm_thenE dest: grants_step_audit)

lemma grants_step_remember:
  assumes "perm_then (trust_path env f perm) (\<lambda>_. perm_then (audit_line env a) (\<lambda>_. perm_ok x)) m = (r, m')" "agreed act [(f, perm)] m"
  shows "grants_step env m m'"
  using assms(1)
proof (rule perm_thenE)
  fix e assume "trust_path env f perm m = (Inl e, m')"
  then show ?thesis by (rule grants_step_trust) (use assms(2) in \<open>auto simp: agreed_def\<close>)
next
  fix u m1 assume one: "trust_path env f perm m = (Inr u, m1)" and rest: "perm_then (audit_line env a) (\<lambda>_. perm_ok x) m1 = (r, m')"
  have "grants_step env m m1" using one by (rule grants_step_trust) (use assms(2) in \<open>auto simp: agreed_def\<close>)
  then show ?thesis using grants_step_settle(1) [OF rest] grants_step_trans by blast
qed

lemma grants_step_meanwhile:
  "grants_step env m (m\<lparr>pm_roots := extend_roots (grants_of (pv_meanwhile env)) (pm_roots m)\<rparr>)"
  by (auto simp: grants_step_def grants_known_def live_extend appends_def)

lemma grants_step_request:
  assumes "request_permission env p perm detail m = (r, m')"
  shows "grants_step env m m'"
proof (cases "workspace_path env m p")
  case (Inl e)
  then show ?thesis using assms by (simp add: request_permission_def)
next
  case w: (Inr w)
  show ?thesis
  proof (cases "refusal env w perm")
    case (Some e)
    then show ?thesis using assms w by (auto simp: request_permission_def intro: grants_step_settle(2))
  next
    case open_w: None
    let ?res = "case perm of PermRead \<Rightarrow> resolve_path_for_read env m p | PermWrite \<Rightarrow> resolve_path_for_write env m p"
    show ?thesis
    proof (cases ?res)
      case (Inl e)
      then show ?thesis using assms w open_w by (simp add: request_permission_def)
    next
      case q: (Inr q)
      show ?thesis
      proof (cases "refusal env q perm")
        case (Some e)
        then show ?thesis using assms w open_w q by (auto simp: request_permission_def Let_def intro: grants_step_settle(2))
      next
        case open_q: None
        let ?m1 = "m\<lparr>pm_roots := extend_roots (grants_of (pv_meanwhile env)) (pm_roots m)\<rparr>"
        let ?rq = "path_card env detail q perm"
        let ?act = "CardPath ?rq (pv_path_answer env ?rq)"
        let ?m2 = "perm_note ?act ?m1"
        note go = assms [unfolded request_permission_def w sum.case open_w option.case q Let_def open_q]
        have s2: "grants_step env m ?m2" using grants_step_meanwhile grants_step_note grants_step_trans by blast
        have asked: "?act \<in> set (pm_done ?m2)" by (simp add: perm_note_def)
        have names: "pq_path ?rq = q" "pq_access ?rq = perm" by (simp_all add: path_card_def Let_def)
        consider "is_inside_workspace m q \<or> is_trusted m q perm" | "\<not> is_inside_workspace m q" "\<not> is_trusted m q perm" "is_trusted ?m1 q perm"
          | "\<not> is_inside_workspace m q" "\<not> is_trusted m q perm" "\<not> is_trusted ?m1 q perm" by blast
        then show ?thesis
        proof cases
          case 1
          then show ?thesis using go by (auto split: if_splits intro: grants_step_settle(1))
        next
          case 2
          then have "grants_step env ?m1 m'" using go by (auto intro: grants_step_settle(1))
          then show ?thesis using grants_step_meanwhile grants_step_trans by blast
        next
          case 3
          note go' = go [unfolded if_not_P [OF 3(1)] if_not_P [OF 3(2)] if_not_P [OF 3(3)]]
          show ?thesis
          proof (cases "pm_gated m")
            case False
            then show ?thesis using go' grants_step_meanwhile by (simp, blast)
          next
            case True
            then have gated: "\<not> \<not> pm_gated ?m1" by simp
            note asks = go' [unfolded if_not_P [OF gated]]
            have "grants_step env ?m2 m'"
            proof (cases "pv_path_answer env ?rq")
              case PathDeny
              then show ?thesis using asks by (auto intro: grants_step_settle(2))
            next
              case PathOnce
              then show ?thesis using asks by (auto intro: grants_step_settle(1))
            next
              case PathOnly
              then have "agreed ?act [(q, perm)] ?m2" using asked names by (simp add: agreed_def)
              then show ?thesis using asks PathOnly by (auto intro: grants_step_remember)
            next
              case PathFolder
              show ?thesis
              proof (cases "pq_folder ?rq")
                case None
                then have "agreed ?act [(q, perm)] ?m2" using asked names PathFolder by (simp add: agreed_def)
                then show ?thesis using asks PathFolder None by (auto intro: grants_step_remember)
              next
                case (Some f)
                then have "agreed ?act [(f, perm)] ?m2" using asked names PathFolder by (simp add: agreed_def)
                then show ?thesis using asks PathFolder Some by (auto intro: grants_step_remember)
              qed
            qed
            then show ?thesis using s2 grants_step_trans by blast
          qed
        qed
      qed
    qed
  qed
qed

lemma limit_session: "limit_remembering e d = NetSession \<or> limit_remembering e d = NetPersistent \<Longrightarrow> \<not> e \<and> limit_remembering e d = d"
  by (auto simp: limit_remembering_def split: if_splits)

lemma grants_step_done: "grants_step env m (m\<lparr>pm_done := pm_done m @ xs\<rparr>)"
  by (auto simp: grants_step_def grants_known_def appends_def)

lemma grants_step_audits:
  assumes "perm_each (\<lambda>(p, perm). audit_line env (AuditPath p p perm outcome)) gs m = (r, m')"
  shows "grants_step env m m'"
proof -
  have lines: "(\<lambda>(p, perm). audit_line env (AuditPath p p perm outcome)) = (\<lambda>x. audit_line env (case x of (p, perm) \<Rightarrow> AuditPath p p perm outcome))"
    by (simp add: fun_eq_iff split: prod.split)
  obtain xs where "m' = m\<lparr>pm_done := pm_done m @ xs\<rparr>" using audits_each [OF assms [unfolded lines]] by blast
  then show ?thesis by (simp add: grants_step_done)
qed

lemma grants_step_audit_when: "when_perm b (audit_line env a) m = (r, m') \<Longrightarrow> grants_step env m m'"
  by (erule grants_step_when) (rule grants_step_audit)

lemma grants_step_access:
  assumes "request_execution_access env a detail escalated m = (r, m')"
  shows "grants_step env m m'"
proof (cases "List.map_filter (\<lambda>(p, perm). refusal env p perm) (access_paths a) = [] \<and> pm_gated m")
  case False
  then show ?thesis using assms by (auto simp: request_execution_access_def split: list.splits if_splits)
next
  case True
  let ?e = "escalated \<or> acc_outside_sandbox a"
  let ?answer = "pv_access_answer env detail ?e"
  let ?d = "limit_remembering ?e ?answer"
  let ?act = "CardAccess a detail ?e ?answer"
  have agree: "agreed ?act (access_paths a) n" if "?d = NetSession \<or> ?d = NetPersistent" "appends (perm_note ?act m) n" for n
  proof -
    have "?act \<in> set (pm_done n)" using that(2) by (auto simp: appends_def prefix_def perm_note_def)
    moreover have "yes_to ?act = set (access_paths a)"
      using limit_session [OF that(1)] that(1) by (cases ?answer) auto
    ultimately show ?thesis by (simp add: agreed_def)
  qed
  have run: "perm_then (when_perm (acc_network a) (audit_network env (access_outcome ?d))) (\<lambda>_.
      perm_then (when_perm (acc_outside_sandbox a) (audit_line env (AuditCapability ''OutsideSandbox'' (access_outcome ?d)))) (\<lambda>_.
      perm_then (perm_each (\<lambda>(p, perm). audit_line env (AuditPath p p perm (access_outcome ?d))) (access_paths a)) (\<lambda>_.
      publish_access env a ?d))) (perm_note ?act m) = (r, m')"
    using assms True by (simp add: request_execution_access_def Let_def)
  from run have "grants_step env (perm_note ?act m) m'"
  proof (rule perm_thenE)
    fix e assume "when_perm (acc_network a) (audit_network env (access_outcome ?d)) (perm_note ?act m) = (Inl e, m')"
    then show ?thesis unfolding audit_network_def by (rule grants_step_audit_when)
  next
    fix u m2 assume "when_perm (acc_network a) (audit_network env (access_outcome ?d)) (perm_note ?act m) = (Inr u, m2)"
      and rest: "perm_then (when_perm (acc_outside_sandbox a) (audit_line env (AuditCapability ''OutsideSandbox'' (access_outcome ?d)))) (\<lambda>_.
      perm_then (perm_each (\<lambda>(p, perm). audit_line env (AuditPath p p perm (access_outcome ?d))) (access_paths a)) (\<lambda>_.
      publish_access env a ?d)) m2 = (r, m')"
    then have s2: "grants_step env (perm_note ?act m) m2" unfolding audit_network_def by (intro grants_step_audit_when)
    from rest show ?thesis
    proof (rule perm_thenE)
      fix e assume "when_perm (acc_outside_sandbox a) (audit_line env (AuditCapability ''OutsideSandbox'' (access_outcome ?d))) m2 = (Inl e, m')"
      then show ?thesis using s2 grants_step_audit_when grants_step_trans by blast
    next
      fix u m3 assume "when_perm (acc_outside_sandbox a) (audit_line env (AuditCapability ''OutsideSandbox'' (access_outcome ?d))) m2 = (Inr u, m3)"
        and rest: "perm_then (perm_each (\<lambda>(p, perm). audit_line env (AuditPath p p perm (access_outcome ?d))) (access_paths a)) (\<lambda>_.
          publish_access env a ?d) m3 = (r, m')"
      then have s3: "grants_step env (perm_note ?act m) m3" using s2 grants_step_audit_when grants_step_trans by blast
      from rest show ?thesis
      proof (rule perm_thenE)
        fix e assume "perm_each (\<lambda>(p, perm). audit_line env (AuditPath p p perm (access_outcome ?d))) (access_paths a) m3 = (Inl e, m')"
        then show ?thesis using s3 grants_step_audits grants_step_trans by blast
      next
        fix u m4 assume "perm_each (\<lambda>(p, perm). audit_line env (AuditPath p p perm (access_outcome ?d))) (access_paths a) m3 = (Inr u, m4)"
          and last_step: "publish_access env a ?d m4 = (r, m')"
        then have s4: "grants_step env (perm_note ?act m) m4" using s3 grants_step_audits grants_step_trans by blast
        have "grants_step env m4 m'"
          using last_step by (rule grants_step_publish) (rule agree [OF _ grants_step_appends [OF s4]])
        then show ?thesis using s4 grants_step_trans by blast
      qed
    qed
  qed
  then show ?thesis using grants_step_note grants_step_trans by blast
qed

lemma grants_step_network: "grants_step env m (snd (request_network env detail e m))"
proof -
  have say: "grants_step env n (snd (perm_try (audit_network env outcome) n))" for n outcome
    by (cases "audit_line env (AuditCapability ''Network'' outcome) n")
      (simp add: perm_try_def audit_network_def grants_step_audit)
  have opened: "grants_step env n (snd (open_network n))" for n
    by (cases "open_network n") (simp add: grants_step_open_network)
  let ?m1 = "perm_note (CardNetwork detail e (pv_network_answer env detail e)) m"
  have card: "grants_step env m ?m1" by simp
  obtain pr m2 where net: "persist_network_allowed env ?m1 = (pr, m2)" by force
  have stored: "grants_step env m m2" using grants_step_persist_network [OF net] card grants_step_trans by blast
  have "grants_step env ?m1 n \<Longrightarrow> grants_step env m (snd (perm_try (audit_network env outcome) n))" for n outcome
    using say card grants_step_trans by blast
  moreover have "grants_step env m (snd (perm_try (audit_network env outcome) (snd (open_network m2))))" for outcome
    using say opened stored grants_step_trans by blast
  ultimately show ?thesis
    using say opened net
    by (cases "limit_remembering e (pv_network_answer env detail e)"; cases pr) (simp_all add: request_network_def Let_def)
qed

lemma grants_step_op: "grants_step env m (perm_step env op m)"
proof (cases op)
  case (OpPath p perm detail)
  then show ?thesis by (cases "request_permission env p perm detail m") (simp add: grants_step_request)
next
  case (OpNetwork detail e)
  then show ?thesis by (simp add: grants_step_network)
next
  case (OpAccess a detail e)
  then show ?thesis by (cases "request_execution_access env a detail e m") (simp add: grants_step_access)
next
  case OpReload
  have "stored_grants env (pm_file m) = set gs" if "pm_file m = Inr v" "collect_grants (pv_files env) v = Inr gs" for v gs
    using that by (simp add: stored_grants_def)
  then show ?thesis
    using OpReload
    by (cases "pm_trust_path m"; cases "pm_file m"; cases "collect_grants (pv_files env) (projr (pm_file m))")
      (auto simp: load_trusted_paths_def collect_persisted_paths_def grants_step_def grants_known_def perm_note_def appends_def live_extend)
qed

subsection \<open>A dispatch whose cards the manager shows\<close>

definition manager_world :: "perm_env \<Rightarrow> (perm_error \<Rightarrow> string) \<Rightarrow> manager \<Rightarrow> world \<Rightarrow> world" where
  "manager_world env said m w =
     w\<lparr>w_grant_access := (\<lambda>a detail e. map_sum said id (fst (request_execution_access env a detail e m)))\<rparr>"

lemma outbox_runs_scope: "Ran k s \<in> set (fst (execute_with_effect_outbox w i n s')) \<Longrightarrow> s = s'"
  using runs_outbox [of w i n s'] Ran_in_runs [of k s] by (force simp: runs_def is_run_def filter_eq_Cons_iff)

lemma Ran_runs: "Ran k s \<in> set t \<Longrightarrow> Ran k s \<in> set (runs t)"
  by (simp add: runs_def is_run_def)

lemma Ran_runs_iff: "Ran k s \<in> set t \<longleftrightarrow> Ran k s \<in> set (runs t)"
  by (simp add: runs_def is_run_def)

lemma then_post_scope: "Ran k s \<in> set (fst (then_post w i taint r)) \<Longrightarrow> Ran k s \<in> set (fst r)"
  unfolding Ran_runs_iff [of k s "fst (then_post w i taint r)"] Ran_runs_iff [of k s "fst r"] by simp

lemma net_retry_scope: "Ran k s \<in> set (fst (execute_with_net_retry w i taint)) \<Longrightarrow> s \<in> {PlainRun, NetworkOnceRun}"
proof -
  assume r: "Ran k s \<in> set (fst (execute_with_net_retry w i taint))"
  have asked: "Ran k s \<in> set (net_asked w i e d) \<Longrightarrow> s = PlainRun" for e d
    unfolding Ran_runs_iff [of k s "net_asked w i e d"] runs_net_asked Ran_runs_iff [symmetric] by (rule outbox_runs_scope)
  show ?thesis
    using net_retry_shape [of w i taint] r asked outbox_runs_scope [of k s w i]
    by (elim disjE exE conjE) (auto dest: outbox_runs_scope)
qed

lemma access_run_granted:
  assumes "Ran k (AccessRun a) \<in> set (fst (dispatch_one w autonomy i taint))"
  shows "\<exists>detail e n. AskedAccess a detail e \<in> set (fst (dispatch_one w autonomy i taint)) \<and> w_grant_access w a detail e = Inr n \<and> n \<noteq> NetDeny"
proof -
  obtain t d' hr e where tr: "fst (dispatch_one w autonomy i taint) = t @ [Appended (PolicyRecord d')] @ fst (dispatch_decided w i taint e hr d')"
    and t: "runs t = []"
    using dispatch_runs [OF Ran_in_runs [OF assms]] by metis
  then have ran: "Ran k (AccessRun a) \<in> set (fst (dispatch_decided w i taint e hr d'))"
    using assms Ran_runs [of k "AccessRun a" t] by auto
  have "\<exists>detail e2 n. AskedAccess a detail e2 \<in> set (fst (dispatch_decided w i taint e hr d')) \<and> w_grant_access w a detail e2 = Inr n \<and> n \<noteq> NetDeny"
  proof (cases "\<exists>access. w_missing w = Inr access \<and> \<not> access_is_empty access \<and> w_preflight w = None \<and> (\<forall>m. d' \<noteq> Deny m)")
    case True
    then obtain access where acc: "w_missing w = Inr access" "\<not> access_is_empty access" "w_preflight w = None" "\<forall>m. d' \<noteq> Deny m" by blast
    then have dd: "dispatch_decided w i taint e hr d' = dispatch_access w i taint e hr access"
      by (cases d') (simp_all add: dispatch_decided_def)
    let ?e = "e \<or> (acc_network access \<and> follows_web (w_radius w) taint OsFsJail)"
    let ?m = "card_detail w i @ access_lines access ?e @ hook_line hr"
    have no: "Ran k (AccessRun a) \<notin> set (observe_decision w i kind ans)" for kind ans
      using Ran_runs [of k "AccessRun a" "observe_decision w i kind ans"] by auto
    have "\<exists>n. w_grant_access w access ?m ?e = Inr n \<and> n \<noteq> NetDeny"
      using ran no unfolding dd by (auto simp: dispatch_access_def Let_def split: sum.splits network_decision.splits prod.splits)
    moreover have "AskedAccess access ?m ?e \<in> set (fst (dispatch_access w i taint e hr access))"
      by (auto simp: dispatch_access_def Let_def split: sum.split network_decision.split prod.split)
    moreover have "a = access"
    proof -
      have "Ran k (AccessRun a) \<in> set (fst (then_post w i taint (execute_with_effect_outbox w i 0 (AccessRun access))))"
        using ran no unfolding dd by (auto simp: dispatch_access_def Let_def split: sum.splits network_decision.splits prod.splits)
      then show ?thesis using outbox_runs_scope then_post_scope by blast
    qed
    ultimately show ?thesis unfolding dd by blast
  next
    case False
    have noh: "Ran k (AccessRun a) \<notin> set (observe_decision w i kind ans)" for kind ans
      using Ran_runs [of k "AccessRun a" "observe_decision w i kind ans"] by auto
    have "Ran k (AccessRun a) \<in> set (fst (then_post w i taint (execute_with_net_retry w i taint)))"
      using ran False noh
      by (auto simp: dispatch_decided_def dispatch_gate_def Let_def split: decision.splits option.splits sum.splits if_splits prod.splits)
    then show ?thesis using net_retry_scope then_post_scope by blast
  qed
  then show ?thesis unfolding tr by (metis UnI2 set_append)
qed

section \<open>Properties\<close>

text \<open>C36. A path is opened only where it may be: what a request hands back is an absolute path without dots, not closed under the
  name it was asked by nor under the one it resolves to, and inside the workspace, at or under a grant, or
  approved on a card that shows this very path; and the answer is the last line of the audit log.\<close>

theorem opened_path_was_permitted:
  assumes "request_permission env p perm detail m = (Inr r, m')"
    and "canonical_ok (pv_files env)" "plain (pm_workspace m)"
  shows "plain r \<and> refusal env r perm = None \<and> (\<exists>w. workspace_path env m p = Inr w \<and> refusal env w perm = None) \<and>
    (prefix (pm_workspace m) r \<or>
     (\<exists>g. prefix g r \<and> root_allows (extend_roots (grants_of (pv_meanwhile env)) (pm_roots m)) perm g) \<or>
     (\<exists>card. pm_gated m \<and> pq_path card = r \<and> pq_access card = perm \<and> pv_path_answer env card \<noteq> PathDeny \<and>
        CardPath card (pv_path_answer env card) \<in> set (pm_done m'))) \<and>
    (\<exists>outcome. last (pm_done m') = AuditPath p r perm outcome)"
proof -
  let ?m1 = "m\<lparr>pm_roots := extend_roots (grants_of (pv_meanwhile env)) (pm_roots m)\<rparr>"
  obtain w where w: "workspace_path env m p = Inr w" "refusal env w perm = None"
    using assms(1) by (auto simp: request_permission_def split: sum.splits option.splits dest: refused_fails)
  let ?res = "case perm of PermRead \<Rightarrow> resolve_path_for_read env m p | PermWrite \<Rightarrow> resolve_path_for_write env m p"
  obtain q where q: "?res = Inr q"
    using assms(1) w by (auto simp: request_permission_def split: sum.splits)
  have plain: "plain q"
    using q resolve_read_plain [OF assms(2)] resolve_write_plain [OF assms(2,3)] by (auto split: perm_type.splits)
  have open_q: "refusal env q perm = None"
    using assms(1) w q by (auto simp: request_permission_def Let_def split: option.splits dest: refused_fails)
  let ?card = "path_card env detail q perm"
  let ?settle = "\<lambda>outcome. perm_then (audit_line env (AuditPath p q perm outcome)) (\<lambda>_. perm_ok q)"
  have settled: "r = q \<and> last (pm_done m') = AuditPath p q perm outcome \<and> pm_done m' = pm_done n @ [AuditPath p q perm outcome]"
    if "?settle outcome n = (Inr r, m')" for outcome n
    using settle_cases [OF that] by (simp add: perm_note_def)
  have walked: "\<exists>g. prefix g q \<and> root_allows a perm g" if "roots_allow a q perm" for a
    using that roots_allow_plain [OF plain] by blast
  note start = assms(1) [unfolded request_permission_def w(1) sum.case w(2) option.case q Let_def open_q]
  consider "is_inside_workspace m q" | "\<not> is_inside_workspace m q" "is_trusted m q perm"
    | "\<not> is_inside_workspace m q" "\<not> is_trusted m q perm" "is_trusted ?m1 q perm"
    | "\<not> is_inside_workspace m q" "\<not> is_trusted m q perm" "\<not> is_trusted ?m1 q perm" by blast
  then have "r = q \<and> (\<exists>outcome. last (pm_done m') = AuditPath p q perm outcome) \<and>
    (prefix (pm_workspace m) q \<or>
     (\<exists>g. prefix g q \<and> root_allows (extend_roots (grants_of (pv_meanwhile env)) (pm_roots m)) perm g) \<or>
     (pm_gated m \<and> pv_path_answer env ?card \<noteq> PathDeny \<and> CardPath ?card (pv_path_answer env ?card) \<in> set (pm_done m')))"
  proof cases
    case 1
    then have "?settle ''allowed (workspace)'' m = (Inr r, m')" using start by simp
    from settled [OF this] show ?thesis using 1 by (auto simp: is_inside_workspace_def starts_with_iff_prefix)
  next
    case 2
    then have "?settle ''allowed (trusted)'' m = (Inr r, m')" using start by simp
    moreover have "\<exists>g. prefix g q \<and> root_allows (extend_roots (grants_of (pv_meanwhile env)) (pm_roots m)) perm g"
      using walked [OF 2(2) [unfolded is_trusted_def]]
      by (fastforce simp: root_allows_def extend_roots_def split: perm_type.splits)
    ultimately show ?thesis using settled by blast
  next
    case 3
    then have "?settle ''allowed (trusted while prompt queued)'' ?m1 = (Inr r, m')" using start by simp
    moreover have "\<exists>g. prefix g q \<and> root_allows (extend_roots (grants_of (pv_meanwhile env)) (pm_roots m)) perm g"
      using walked 3(3) by (auto simp: is_trusted_def)
    ultimately show ?thesis using settled by blast
  next
    case 4
    let ?m2 = "perm_note (CardPath ?card (pv_path_answer env ?card)) ?m1"
    have asked: "CardPath ?card (pv_path_answer env ?card) \<in> set (pm_done ?m2)" by (simp add: perm_note_def)
    have gated: "pm_gated m" using start 4 by (auto split: if_splits)
    note go = start [unfolded if_not_P [OF 4(1)] if_not_P [OF 4(2)] if_not_P [OF 4(3)]]
    have remembered: "\<exists>n outcome. ?settle outcome n = (Inr r, m') \<and> set (pm_done ?m2) \<subseteq> set (pm_done n)"
      if t: "perm_then (trust_path env f perm) (\<lambda>_. ?settle outcome) ?m2 = (Inr r, m')" for f outcome
    proof -
      obtain n where n: "trust_path env f perm ?m2 = (Inr (), n)" "?settle outcome n = (Inr r, m')"
        using t by (rule perm_thenE) auto
      from n(1) have "set (pm_done ?m2) \<subseteq> set (pm_done n)"
        by (cases rule: trust_path_cases) (auto simp: perm_note_def)
      then show ?thesis using n(2) by blast
    qed
    have "pv_path_answer env ?card \<noteq> PathDeny \<and> (\<exists>n outcome. ?settle outcome n = (Inr r, m') \<and> set (pm_done ?m2) \<subseteq> set (pm_done n))"
    proof (cases "pv_path_answer env ?card")
      case PathFolder
      then show ?thesis using go gated remembered by (cases "pq_folder ?card") auto
    qed (use go gated remembered in \<open>auto dest: refused_fails\<close>)
    then show ?thesis using settled asked gated by fastforce
  qed
  moreover have "pq_path ?card = q" "pq_access ?card = perm" by (simp_all add: path_card_def Let_def)
  ultimately show ?thesis using plain open_q w by blast
qed

text \<open>C33. A review is written down before anything is opened, and what follows web text is never remembered: a grant that
  \<open>request_execution_access\<close> opens or stores (a folder, a file, the network) comes after the card, a yes to remember it, and a line of the
  audit log for every capability of the review, none of which is closed; and where the card was marked, or the
  command leaves the sandbox, grants stay as they were.\<close>

theorem access_is_recorded_first:
  assumes "request_execution_access env a detail escalated m = (r, m')" "pm_done m' = pm_done m @ before @ x # later" "\<not> quiet x"
  shows "\<not> escalated \<and> \<not> acc_outside_sandbox a \<and>
    (\<exists>d \<in> {NetSession, NetPersistent}. CardAccess a detail False d \<in> set before \<and>
       (acc_network a \<longrightarrow> AuditCapability ''Network'' (access_outcome d) \<in> set before) \<and>
       (\<forall>(p, perm) \<in> set (access_paths a). refusal env p perm = None \<and> AuditPath p p perm (access_outcome d) \<in> set before))"
proof -
  let ?e = "escalated \<or> acc_outside_sandbox a"
  let ?answer = "pv_access_answer env detail ?e"
  let ?d = "limit_remembering ?e ?answer"
  let ?card = "CardAccess a detail ?e ?answer"
  have new: "pm_done m' \<noteq> pm_done m" using assms(2) by simp
  then have open_all: "List.map_filter (\<lambda>(p, perm). refusal env p perm) (access_paths a) = []" and gated: "pm_gated m"
    using assms(1) by (auto simp: request_execution_access_def split: list.splits if_splits)
  then have clear: "refusal env p perm = None" if "(p, perm) \<in> set (access_paths a)" for p perm
    using that by (force simp: map_filter_def filter_empty_conv)
  let ?net = "if acc_network a then [AuditCapability ''Network'' (access_outcome ?d)] else []"
  let ?out = "if acc_outside_sandbox a then [AuditCapability ''OutsideSandbox'' (access_outcome ?d)] else []"
  let ?line = "\<lambda>(p, perm). AuditPath p p perm (access_outcome ?d)"
  let ?whole = "?card # ?net @ ?out @ map ?line (access_paths a)"
  let ?m1 = "perm_note ?card m"
  let ?steps = "perm_then (when_perm (acc_network a) (audit_line env (AuditCapability ''Network'' (access_outcome ?d)))) (\<lambda>_.
    perm_then (when_perm (acc_outside_sandbox a) (audit_line env (AuditCapability ''OutsideSandbox'' (access_outcome ?d)))) (\<lambda>_.
    perm_then (perm_each (\<lambda>x. audit_line env (?line x)) (access_paths a)) (\<lambda>_. publish_access env a ?d)))"
  have lines: "(\<lambda>(p, perm). audit_line env (AuditPath p p perm (access_outcome ?d))) = (\<lambda>x. audit_line env (?line x))"
    by (simp add: fun_eq_iff split: prod.split)
  have run: "?steps ?m1 = (r, m')"
    using assms(1) open_all gated
    by (simp add: request_execution_access_def Let_def audit_network_def lines)
  have audited: "(\<exists>k. pm_done m' = pm_done m @ take k ?whole) \<or>
      (\<exists>n. pm_done n = pm_done m @ ?whole \<and> publish_access env a ?d n = (r, m'))"
  proof -
    have stop: "\<exists>k. pm_done n = pm_done m @ take k ?whole" if "pm_done n = pm_done m @ xs" "prefix xs ?whole" for n xs
      using that by (auto simp: prefix_def intro!: exI [where x = "length xs"])
    from run show ?thesis
    proof (rule perm_thenE)
      fix e assume "when_perm (acc_network a) (audit_line env (AuditCapability ''Network'' (access_outcome ?d))) ?m1 = (Inl e, m')"
      from audit_when [OF this] show ?thesis by (intro disjI1 stop [of _ "[?card]"]) (auto simp: perm_note_def)
    next
      fix u m2 assume one: "when_perm (acc_network a) (audit_line env (AuditCapability ''Network'' (access_outcome ?d))) ?m1 = (Inr u, m2)"
        and rest: "perm_then (when_perm (acc_outside_sandbox a) (audit_line env (AuditCapability ''OutsideSandbox'' (access_outcome ?d)))) (\<lambda>_.
          perm_then (perm_each (\<lambda>x. audit_line env (?line x)) (access_paths a)) (\<lambda>_. publish_access env a ?d)) m2 = (r, m')"
      from audit_when [OF one] have m2: "pm_done m2 = pm_done m @ ?card # ?net" by (auto simp: perm_note_def)
      from rest show ?thesis
      proof (rule perm_thenE)
        fix e assume "when_perm (acc_outside_sandbox a) (audit_line env (AuditCapability ''OutsideSandbox'' (access_outcome ?d))) m2 = (Inl e, m')"
        from audit_when [OF this] show ?thesis by (intro disjI1 stop [of _ "?card # ?net"]) (use m2 in auto)
      next
        fix u m3 assume two: "when_perm (acc_outside_sandbox a) (audit_line env (AuditCapability ''OutsideSandbox'' (access_outcome ?d))) m2 = (Inr u, m3)"
          and rest: "perm_then (perm_each (\<lambda>x. audit_line env (?line x)) (access_paths a)) (\<lambda>_. publish_access env a ?d) m3 = (r, m')"
        from audit_when [OF two] have m3: "pm_done m3 = pm_done m @ ?card # ?net @ ?out" using m2 by auto
        from rest show ?thesis
        proof (rule perm_thenE)
          fix e assume "perm_each (\<lambda>x. audit_line env (?line x)) (access_paths a) m3 = (Inl e, m')"
          from audits_each [OF this] obtain k where "pm_done m' = pm_done m3 @ map ?line (take k (access_paths a))" by auto
          then show ?thesis
            by (intro disjI1 stop [of _ "?card # ?net @ ?out @ map ?line (take k (access_paths a))"])
              (auto simp: m3 take_map [symmetric] take_is_prefix)
        next
          fix u n assume three: "perm_each (\<lambda>x. audit_line env (?line x)) (access_paths a) m3 = (Inr u, n)"
            "publish_access env a ?d n = (r, m')"
          from audits_each [OF three(1)] have "pm_done n = pm_done m3 @ map ?line (access_paths a)" by auto
          then have "pm_done n = pm_done m @ ?whole" using m3 by (simp only: append_assoc append_Cons)
          then show ?thesis using three(2) by (intro disjI2 exI [where x = n] conjI)
        qed
      qed
    qed
  qed
  define W where "W = ?whole"
  have quiet_W: "quiet y" if "y \<in> set W" for y using that by (auto simp: W_def quiet_def split: if_splits)
  from audited [folded W_def] show ?thesis
  proof (elim disjE exE conjE)
    fix k assume "pm_done m' = pm_done m @ take k W"
    then have "take k W = before @ x # later" using assms(2) by simp
    then have "x \<in> set (take k W)" by simp
    then have "quiet x" by (intro quiet_W) (rule in_set_takeD)
    then show ?thesis using assms(3) by simp
  next
    fix n assume n: "pm_done n = pm_done m @ W" "publish_access env a ?d n = (r, m')"
    then obtain more where more: "pm_done m' = pm_done m @ W @ more"
      using publish_appends [OF n(2)] by (auto simp: appends_def prefix_def)
    have x: "\<not> (\<exists>u. W = before @ x # u)" using quiet_W assms(3) by auto
    have remembers: "?d = NetSession \<or> ?d = NetPersistent"
    proof (rule ccontr)
      assume "\<not> ?thesis"
      then have "m' = n" using n(2) publish_once [of ?d env a n] by simp
      then have "W = before @ x # later" using n(1) assms(2) by simp
      then show False using x by blast
    qed
    then have e: "\<not> ?e" by (auto simp: limit_remembering_def split: if_splits)
    then have d: "?d = ?answer" by (simp add: limit_remembering_def)
    have "W @ more = before @ x # later" using more assms(2) by simp
    from append_split_list [OF this] have whole: "set W \<subseteq> set before" using x by blast
    have card: "?card \<in> set W" and net: "acc_network a \<longrightarrow> AuditCapability ''Network'' (access_outcome ?d) \<in> set W"
      and paths: "\<forall>(p, perm) \<in> set (access_paths a). AuditPath p p perm (access_outcome ?d) \<in> set W"
      by (auto simp: W_def)
    have "CardAccess a detail False ?d \<in> set W" using card e d by simp
    then show ?thesis
      using e remembers net paths whole clear by (intro conjI bexI [where x = ?d]) auto
  qed
qed

text \<open>C37. What a person has remembered is there after a restart: once storing a grant succeeded, the trust file holds the old grants and the
  new one, with the network as it was, and a manager that starts from it opens everything under the new grant; where storing it fails
  nothing is open that was not before.\<close>

theorem remembered_grant_survives:
  assumes "pm_file m = Inr v" "collect_grants (pv_files env) v = Inr gs" "well_spelled p" "resolve_missing (pv_files env) p = Inr p"
    and "trust_path env p perm m = (r, m')"
  shows "(\<forall>e. r = Inl e \<longrightarrow> pm_roots m' = pm_roots m \<and> pm_network m' = pm_network m) \<and>
    (r = Inr () \<longrightarrow>
      (\<exists>v' gs' m''. pm_file m' = Inr v' \<and> collect_grants (pv_files env) v' = Inr gs' \<and> set gs' = insert (p, perm) (set gs) \<and>
         persisted_network_allowed v' = persisted_network_allowed v \<and>
         load_trusted_paths env (manager_start ws (Some t) no_roots gated (pm_file m')) = (Inr (), m'') \<and>
         (\<forall>q. plain q \<and> prefix p q \<longrightarrow> is_trusted m'' q perm \<and> is_trusted m' q perm)))"
proof -
  have raw: "path_components (fp_text p) = p" using assms(3) by (rule fp_text_components)
  have p: "plain p" "p \<noteq> []" using assms(3) plain_not_Nil by (auto simp: well_spelled_def)
  from assms(5) show ?thesis
  proof (cases rule: trust_path_cases)
    case (3 w v' g)
    have w: "w = v" using 3(2) assms(1) by simp
    obtain gs' where gs': "collect_grants (pv_files env) v' = Inr gs'" "set gs' = insert (p, perm) (set gs)"
      "persisted_network_allowed v' = persisted_network_allowed v"
      using add_grant_collect [OF 3(3) [unfolded w] assms(2)] raw assms(4) plain_absolute [OF p(1)] by auto
    have g: "g = grants_of gs'" using 3(4) gs'(1) by (simp add: collect_persisted_paths_def)
    have named: "root_allows (extend_roots g a) perm p" for a
      using gs'(2) by (cases perm) (auto simp: root_allows_def extend_roots_def g grants_of_iff)
    have roots: "pm_roots m' = extend_roots g (pm_roots m)" and stored: "pm_file m' = Inr v'"
      using 3(5) by (simp_all add: perm_note_def)
    let ?m0 = "manager_start ws (Some t) no_roots gated (pm_file m')"
    have load: "load_trusted_paths env ?m0 = (Inr (), perm_note OpenedPersisted (?m0\<lparr>pm_roots := extend_roots g (pm_roots ?m0)\<rparr>))"
      using 3(4) by (simp add: load_trusted_paths_def manager_start_def stored)
    have opens: "roots_allow (extend_roots g a) q perm" if "plain q" "prefix p q" for a q
      using that named p(2) by (auto simp: roots_allow_plain)
    show ?thesis
      using load gs' opens roots stored 3(1) by (auto simp: is_trusted_def perm_note_def)
  qed (auto simp: perm_note_def)
qed

definition data_env :: perm_env where
  "data_env = \<lparr>pv_places = home_env,
     pv_files = \<lparr>fv_exists = (\<lambda>_. True), fv_canonical = (\<lambda>p. if plain p then Inr p else Inl ''no''), fv_kind = (\<lambda>_. FileKind),
       fv_cwd = Inl ''none'', fv_home = pl_home home_env, fv_temp = [RootDir, NormalPart ''tmp'']\<rparr>,
     pv_unicode = (\<lambda>_. True), pv_now = 5, pv_lock = None, pv_write = (\<lambda>_. None), pv_audit = (\<lambda>_. None),
     pv_path_answer = (\<lambda>_. PathFolder), pv_network_answer = (\<lambda>_ _. NetPersistent), pv_access_answer = (\<lambda>_ _. NetPersistent),
     pv_meanwhile = []\<rparr>"

definition work_manager :: manager where
  "work_manager = manager_start [RootDir, NormalPart ''w''] (Some [RootDir, NormalPart ''state'', NormalPart ''trust.lock'']) no_roots True
     (Inr (TomlTable []))"

definition notes_path :: fpath where
  "notes_path = map NormalPart [''~''] @ map NormalPart [''a'', ''b'', ''notes'']"

lemma data_env_ok: "canonical_ok (pv_files data_env)" "plain (pm_workspace work_manager)"
  by (auto simp: canonical_ok_def data_env_def home_env_def work_manager_def manager_start_def plain_def path_components_def
      is_slash_def starts_with_def path_part_def split: if_splits)

lemma notes_opened: "fst (request_permission data_env notes_path PermRead None work_manager) =
    Inr (RootDir # map NormalPart [''home'', ''u'', ''a'', ''b'', ''notes''])"
  by code_simp

theorem opened_path_was_permitted_witness:
  "refusal data_env (RootDir # map NormalPart [''home'', ''u'', ''a'', ''b'', ''notes'']) PermRead = None"
proof -
  obtain m' where "request_permission data_env notes_path PermRead None work_manager =
      (Inr (RootDir # map NormalPart [''home'', ''u'', ''a'', ''b'', ''notes'']), m')"
    using notes_opened by (cases "request_permission data_env notes_path PermRead None work_manager") auto
  from opened_path_was_permitted [OF this data_env_ok] show ?thesis by blast
qed

definition read_etc :: execution_access where
  "read_etc = \<lparr>acc_network = False, acc_read_paths = [''/srv/data''], acc_write_paths = [], acc_outside_sandbox = False\<rparr>"

lemma read_etc_done: "pm_done (snd (request_execution_access data_env read_etc ''cat'' False work_manager)) =
    pm_done work_manager @ [CardAccess read_etc ''cat'' False NetPersistent,
      AuditPath (path_components ''/srv/data'') (path_components ''/srv/data'') PermRead (access_outcome NetPersistent)]
    @ WrotePath (path_components ''/srv/data'') PermRead # [OpenedPersisted, OpenedPath (path_components ''/srv/data'') PermRead]"
  by code_simp

theorem access_is_recorded_first_witness: "\<not> acc_outside_sandbox read_etc"
proof -
  obtain r m' where r: "request_execution_access data_env read_etc ''cat'' False work_manager = (r, m')"
    by (cases "request_execution_access data_env read_etc ''cat'' False work_manager")
  have d: "pm_done m' = pm_done work_manager @ [CardAccess read_etc ''cat'' False NetPersistent,
      AuditPath (path_components ''/srv/data'') (path_components ''/srv/data'') PermRead (access_outcome NetPersistent)]
    @ WrotePath (path_components ''/srv/data'') PermRead # [OpenedPersisted, OpenedPath (path_components ''/srv/data'') PermRead]"
    using read_etc_done r by simp
  have "\<not> quiet (WrotePath (path_components ''/srv/data'') PermRead)" by (simp add: quiet_def)
  from access_is_recorded_first [OF r d this] show ?thesis by blast
qed

definition srv_data :: fpath where
  "srv_data = [RootDir, NormalPart ''srv'', NormalPart ''data'']"

lemma srv_data_stored: "case fst (trust_path data_env srv_data PermRead work_manager) of Inl _ \<Rightarrow> False | Inr _ \<Rightarrow> True"
  by code_simp

theorem remembered_grant_survives_witness:
  "\<exists>m'. is_trusted m' (srv_data @ [NormalPart ''a.txt'']) PermRead \<and> pm_done m' = [OpenedPersisted]"
proof -
  obtain m' where m': "trust_path data_env srv_data PermRead work_manager = (Inr (), m')"
    using srv_data_stored by (cases "trust_path data_env srv_data PermRead work_manager") (auto split: sum.splits)
  have start: "pm_file work_manager = Inr (TomlTable [])" "collect_grants (pv_files data_env) (TomlTable []) = Inr []"
    by (simp_all add: work_manager_def manager_start_def collect_grants_def permissions_table_def)
  have path: "well_spelled srv_data" "resolve_missing (pv_files data_env) srv_data = Inr srv_data" "plain (srv_data @ [NormalPart ''a.txt''])"
    by (auto simp: well_spelled_def srv_data_def plain_def) code_simp
  obtain v' gs' m'' where "load_trusted_paths data_env (manager_start [] (Some []) no_roots True (pm_file m')) = (Inr (), m'')"
    "is_trusted m'' (srv_data @ [NormalPart ''a.txt'']) PermRead"
    using remembered_grant_survives [OF start path(1,2) m', of "[]" "[]" True] path(3) by auto
  moreover from this(1) have "pm_done m'' = [OpenedPersisted]"
    by (auto simp: load_trusted_paths_def manager_start_def perm_note_def split: sum.splits)
  ultimately show ?thesis by blast
qed

text \<open>A remembered path is resolved again whenever the file is read: one that has since become a link opens what it leads to.\<close>

lemma remembered_link_is_followed:
  assumes "canonical_ok fv" "fv_exists fv p" "fv_canonical fv p = Inr elsewhere" "well_spelled p"
  shows "collect_grants fv (TomlTable [(''permissions'', TomlTable [(''trusted_paths'', TomlArray [grant_entry (fp_text p) perm now])])]) =
    Inr [(elsewhere, perm)]"
proof -
  have "resolve_missing fv (path_components (fp_text p)) = Inr elsewhere"
    using assms plain_absolute by (simp add: fp_text_components resolve_missing_def well_spelled_def resolve_up.simps)
  moreover have "fp_absolute (path_components (fp_text p))"
    using assms(4) plain_absolute by (simp add: fp_text_components well_spelled_def)
  ultimately have "entry_grant fv 0 (grant_entry (fp_text p) perm now) = Inr (elsewhere, perm)"
    by (intro grant_entry_read [OF grant_entry_is])
  then show ?thesis by (simp add: collect_grants_def permissions_table_def)
qed

text \<open>The two resolvers disagree on \<open>..\<close> after a missing folder: one drops it.\<close>

lemma resolvers_disagree:
  assumes "\<And>p. fv_exists fv p \<longleftrightarrow> p = [RootDir]" "fv_canonical fv [RootDir] = Inr [RootDir]"
  shows "resolve_missing fv [RootDir, NormalPart ''gone'', ParentDir, NormalPart ''a''] = Inr [RootDir, NormalPart ''gone'', NormalPart ''a'']"
    "resolve_parts fv [] [RootDir, NormalPart ''gone'', ParentDir, NormalPart ''a''] = Inr [RootDir, NormalPart ''a'']"
proof -
  have up: "resolve_up fv missing cur = (if cur = [RootDir] then Inr ([RootDir] @ missing)
      else case fp_parent cur of None \<Rightarrow> Inl (PermResolution ''Trust path has no existing ancestor'')
       | Some up \<Rightarrow> resolve_up fv (case fp_file_name cur of Some n \<Rightarrow> NormalPart n # missing | None \<Rightarrow> missing) up)" for missing cur
    using assms by (subst resolve_up.simps) simp
  have one: "resolve_up fv ms [RootDir] = Inr (RootDir # ms)" for ms by (subst up) simp
  have two: "resolve_up fv ms [RootDir, NormalPart ''gone''] = Inr (RootDir # NormalPart ''gone'' # ms)" for ms
    by (subst up) (simp add: fp_parent_def fp_file_name_def one)
  have three: "resolve_up fv ms [RootDir, NormalPart ''gone'', ParentDir] = Inr (RootDir # NormalPart ''gone'' # ms)" for ms
    by (subst up) (simp add: fp_parent_def fp_file_name_def two)
  have four: "resolve_up fv [] [RootDir, NormalPart ''gone'', ParentDir, NormalPart ''a''] = Inr [RootDir, NormalPart ''gone'', NormalPart ''a'']"
    by (subst up) (simp add: fp_parent_def fp_file_name_def three)
  then show "resolve_missing fv [RootDir, NormalPart ''gone'', ParentDir, NormalPart ''a''] = Inr [RootDir, NormalPart ''gone'', NormalPart ''a'']"
    by (simp add: resolve_missing_def fp_absolute_def first_of_def)
  show "resolve_parts fv [] [RootDir, NormalPart ''gone'', ParentDir, NormalPart ''a''] = Inr [RootDir, NormalPart ''a'']"
    using assms by (simp add: fp_pop_def fp_parent_def)
qed

text \<open>The answer to a card is remembered before it is recorded: an audit log that cannot be written fails the request and leaves the grant.\<close>

lemma unrecorded_grant_stays:
  assumes "trust_path env p perm m = (Inr (), m')" "pv_audit env (pm_done m') = Some e"
  shows "perm_then (trust_path env p perm) (\<lambda>_. perm_then (audit_line env (AuditPath q r perm s)) (\<lambda>_. perm_ok r)) m = (Inl (PermIo e), m')"
  using assms by (simp add: perm_then_def audit_line_def)

text \<open>The folder offered for one file may hold a closed store below it.\<close>

lemma offered_folder_holds_a_store:
  "folder_to_offer data_env (RootDir # map NormalPart [''home'', ''u'', ''.config'', ''app.toml'']) =
     Some (RootDir # map NormalPart [''home'', ''u'', ''.config''])"
  "refusal data_env (RootDir # map NormalPart [''home'', ''u'', ''.config'', ''gh'']) PermRead \<noteq> None"
  by code_simp+


text \<open>A command never runs with access to a closed store: when a dispatch whose cards the permission manager shows runs a call with
  granted capabilities, a person said yes to them and no path among them is a credential store, the agent's own
  state or, for writing, a project's records, whatever the person, the policy and the hooks answer.\<close>

theorem granted_run_stays_off_stores:
  assumes "Ran k (AccessRun a) \<in> set (fst (dispatch_one (manager_world env said m w) autonomy i taint))"
  shows "pm_gated m \<and> (\<forall>(p, perm) \<in> set (access_paths a). refusal env p perm = None) \<and>
    (\<exists>detail e. AskedAccess a detail e \<in> set (fst (dispatch_one (manager_world env said m w) autonomy i taint)) \<and>
       pv_access_answer env detail (e \<or> acc_outside_sandbox a) \<noteq> NetDeny)"
proof -
  obtain detail e n where asked: "AskedAccess a detail e \<in> set (fst (dispatch_one (manager_world env said m w) autonomy i taint))"
    and answer: "w_grant_access (manager_world env said m w) a detail e = Inr n" "n \<noteq> NetDeny"
    using access_run_granted [OF assms] by blast
  obtain r m' where req: "request_execution_access env a detail e m = (r, m')" by force
  then have r: "r = Inr n" using answer(1) by (cases r) (simp_all add: manager_world_def)
  have clear: "List.map_filter (\<lambda>(p, perm). refusal env p perm) (access_paths a) = []" and gated: "pm_gated m"
    using req r by (auto simp: request_execution_access_def split: list.splits if_splits)
  then have "refusal env p perm = None" if "(p, perm) \<in> set (access_paths a)" for p perm
    using that by (force simp: map_filter_def filter_empty_conv)
  moreover have "pv_access_answer env detail (e \<or> acc_outside_sandbox a) \<noteq> NetDeny"
  proof
    assume deny: "pv_access_answer env detail (e \<or> acc_outside_sandbox a) = NetDeny"
    then have "n = NetDeny"
      using req r clear gated
      by (auto simp: request_execution_access_def Let_def limit_remembering_def publish_access_def when_perm_def perm_ok_def
          elim!: perm_thenE split: if_splits)
    then show False using answer(2) by simp
  qed
  ultimately show ?thesis using gated asked by blast
qed

definition access_world :: world where
  "access_world = open_world\<lparr>w_missing := Inr read_etc\<rparr>"

definition once_env :: perm_env where
  "once_env = data_env\<lparr>pv_access_answer := (\<lambda>_ _. NetOnce)\<rparr>"

lemma once_granted: "fst (request_execution_access once_env read_etc detail e work_manager) = Inr NetOnce"
proof -
  have "refusal once_env (path_components ''/srv/data'') PermRead = None" by code_simp
  moreover have "pm_gated work_manager" by (simp add: work_manager_def manager_start_def)
  moreover have "pv_audit once_env = (\<lambda>_. None)" "pv_access_answer once_env = (\<lambda>_ _. NetOnce)" by (simp_all add: once_env_def data_env_def)
  ultimately show ?thesis
    by (simp add: request_execution_access_def access_paths_def read_etc_def map_filter_simps Let_def limit_remembering_def
        perm_then_def when_perm_def perm_ok_def audit_line_def publish_access_def)
qed

lemma access_world_runs:
  "Ran 0 (AccessRun read_etc) \<in> set (fst (dispatch_one (manager_world once_env (\<lambda>_. ''refused'') work_manager access_world) Careful fetch_intent True))"
  by (simp add: dispatch_one_def check_outbound_intent_def manager_world_def access_world_def open_world_def raw_decision_def allow_all_def
      escalate_for_trust_flow_def follows_web_def consequential_def pre_tool_def invoke_hook_def hook_batch_default_def
      append_log_def dispatch_decided_def access_is_empty_def dispatch_access_def then_post_def once_granted
      execute_with_effect_outbox_def apply_post_tool_hook_def post_hooks.simps Let_def fetch_intent_def obs_ok_def case_prod_beta)
    (simp add: read_etc_def)

theorem granted_run_stays_off_stores_witness: "refusal once_env (path_components ''/srv/data'') PermRead = None"
  using granted_run_stays_off_stores [OF access_world_runs] by (simp add: access_paths_def read_etc_def)

end
