(* ===== verification/Pairing.thy ===== *)
theory Pairing
  imports Prelude
begin

text \<open>
  Who may talk to the agent through a messaging platform: \<open>crates/gateway/src/pairing.rs\<close>, over the small locked files of
  \<open>gateway/src/store.rs\<close>. SHA-256 is a parameter, random bytes come with the request that uses them, and times are
  seconds. Each step is given what comes of writing the file, so that any write may fail.
\<close>

unbundle bit_operations_syntax

section \<open>A file changed under a lock\<close>

text \<open>Unreadable, or its value. \<open>write\<close> says why the new value could not take the place of the old one.\<close>

type_synonym 'v stored = "string + 'v"

definition store_change :: "('v \<Rightarrow> 'v \<Rightarrow> string option) \<Rightarrow> ('v \<Rightarrow> 'r \<times> 'v) \<Rightarrow> 'v stored \<Rightarrow> (string + 'r) \<times> 'v stored" where
  "store_change write change file =
     (case file of
        Inl e \<Rightarrow> (Inl e, file)
      | Inr v \<Rightarrow>
          (case change v of (r, v') \<Rightarrow> (case write v v' of Some e \<Rightarrow> (Inl e, file) | None \<Rightarrow> (Inr r, Inr v'))))"

section \<open>Codes\<close>

definition ALPHABET :: string where
  "ALPHABET = ''ABCDEFGHJKLMNPQRSTUVWXYZ23456789''"

definition CODE_LENGTH :: nat where "CODE_LENGTH = 8"

definition CODE_LIFETIME :: nat where "CODE_LIFETIME = 60 * 60"

definition ONE_REQUEST_PER :: nat where "ONE_REQUEST_PER = 10 * 60"

definition PENDING_PER_PLATFORM :: nat where "PENDING_PER_PLATFORM = 3"

definition FAILURES_BEFORE_LOCKOUT :: nat where "FAILURES_BEFORE_LOCKOUT = 5"

definition LOCKOUT :: nat where "LOCKOUT = 60 * 60"

definition code_of :: "string \<Rightarrow> string" where
  "code_of bytes = map (\<lambda>b. ALPHABET ! (of_char b mod length ALPHABET)) bytes"

definition hex_of_digit :: "nat \<Rightarrow> char" where
  "hex_of_digit n = (if n < 10 then char_of (48 + n) else char_of (87 + n))"

definition hex_of :: "string \<Rightarrow> string" where
  "hex_of bytes = concat (map (\<lambda>b. let n = (of_char b :: nat) in [hex_of_digit (n div 16), hex_of_digit (n mod 16)]) bytes)"

definition code_digest :: "(string \<Rightarrow> string) \<Rightarrow> string \<Rightarrow> string \<Rightarrow> string" where
  "code_digest sha salt code = hex_of (sha (salt @ code))"

definition same_text :: "string \<Rightarrow> string \<Rightarrow> bool" where
  "same_text left right \<longleftrightarrow>
     length left = length right \<and> foldl (\<lambda>acc (a, b). acc OR ((of_char a :: nat) XOR of_char b)) 0 (zip left right) = 0"

section \<open>The book\<close>

record request =
  pr_platform :: string
  pr_user :: string
  pr_name :: string
  pr_salt :: string
  pr_hash :: string
  pr_created :: nat

record book =
  bk_approved :: "(string \<times> (string \<times> string) list) list"
  bk_pending :: "request list"
  bk_asked :: "(string \<times> nat) list"
  bk_failures :: "(string \<times> nat) list"
  bk_locked :: "(string \<times> nat) list"

definition empty_book :: book where
  "empty_book = \<lparr>bk_approved = [], bk_pending = [], bk_asked = [], bk_failures = [], bk_locked = []\<rparr>"

record person =
  ps_platform :: string
  ps_user :: string
  ps_name :: string

record waiting =
  wt_person :: person
  wt_minutes :: nat

definition expire :: "nat \<Rightarrow> book \<Rightarrow> book" where
  "expire now b = b\<lparr>
     bk_pending := filter (\<lambda>r. now < pr_created r + CODE_LIFETIME) (bk_pending b),
     bk_asked := filter (\<lambda>(_, at). now < at + ONE_REQUEST_PER) (bk_asked b),
     bk_locked := filter (\<lambda>(_, until). now < until) (bk_locked b)\<rparr>"

definition is_locked :: "string \<Rightarrow> nat \<Rightarrow> book \<Rightarrow> bool" where
  "is_locked platform now b = (case map_of (bk_locked b) platform of Some until \<Rightarrow> now < until | None \<Rightarrow> False)"

definition book_approves :: "book \<Rightarrow> string \<Rightarrow> string \<Rightarrow> bool" where
  "book_approves b platform user =
     (case map_of (bk_approved b) platform of Some users \<Rightarrow> map_of users user \<noteq> None | None \<Rightarrow> False)"

definition is_approved :: "book stored \<Rightarrow> string \<Rightarrow> string \<Rightarrow> string + bool" where
  "is_approved file platform user = map_sum id (\<lambda>b. book_approves b platform user) file"

definition request_at ::
  "(string \<Rightarrow> string) \<Rightarrow> string \<Rightarrow> string \<Rightarrow> string \<Rightarrow> nat \<Rightarrow> string \<Rightarrow> string \<Rightarrow> book \<Rightarrow> string option \<times> book" where
  "request_at sha platform user name now bytes salt_bytes b0 =
     (let code = code_of bytes;
          salt = hex_of salt_bytes;
          b = expire now b0;
          asker = platform @ '':'' @ user;
          waiting = filter (\<lambda>r. pr_platform r = platform \<and> pr_user r \<noteq> user) (bk_pending b)
      in if is_locked platform now b
            \<or> (case map_of (bk_asked b) asker of Some at \<Rightarrow> now < at + ONE_REQUEST_PER | None \<Rightarrow> False)
            \<or> PENDING_PER_PLATFORM \<le> length waiting
         then (None, b)
         else (Some code, b\<lparr>
           bk_pending := filter (\<lambda>r. \<not> (pr_platform r = platform \<and> pr_user r = user)) (bk_pending b)
             @ [\<lparr>pr_platform = platform, pr_user = user, pr_name = name, pr_salt = salt, pr_hash = code_digest sha salt code,
                 pr_created = now\<rparr>],
           bk_asked := bt_insert asker now (bk_asked b)\<rparr>))"

definition admit :: "string \<Rightarrow> string \<Rightarrow> string \<Rightarrow> book \<Rightarrow> book" where
  "admit platform user name b =
     (let users = (case map_of (bk_approved b) platform of Some us \<Rightarrow> us | None \<Rightarrow> [])
      in b\<lparr>bk_approved := bt_insert platform (bt_insert user name users) (bk_approved b)\<rparr>)"

text \<open>A typed code is read without its blanks and in capitals.\<close>

definition typed_code :: "string \<Rightarrow> string" where
  "typed_code typed = to_uppercase (concat (split_whitespace typed))"

definition too_many_codes :: string where
  "too_many_codes = ''Too many wrong codes. Pairing on this platform is locked for an hour.''"

definition no_such_code :: string where
  "no_such_code = ''No such code. Codes last one hour.''"

definition wrong_code :: "string \<Rightarrow> nat \<Rightarrow> book \<Rightarrow> book" where
  "wrong_code platform now b =
     (let failures = (case map_of (bk_failures b) platform of Some n \<Rightarrow> n | None \<Rightarrow> 0) + 1
      in if FAILURES_BEFORE_LOCKOUT \<le> failures
         then b\<lparr>bk_failures := bt_remove platform (bk_failures b), bk_locked := bt_insert platform (now + LOCKOUT) (bk_locked b)\<rparr>
         else b\<lparr>bk_failures := bt_insert platform failures (bk_failures b)\<rparr>)"

definition approve_at :: "(string \<Rightarrow> string) \<Rightarrow> string \<Rightarrow> string \<Rightarrow> nat \<Rightarrow> book \<Rightarrow> (string + person) \<times> book" where
  "approve_at sha platform typed now b0 =
     (let code = typed_code typed;
          b = expire now b0
      in if is_locked platform now b then (Inl too_many_codes, b)
         else case position (\<lambda>r. pr_platform r = platform \<and> same_text (code_digest sha (pr_salt r) code) (pr_hash r)) (bk_pending b) of
           None \<Rightarrow> (Inl no_such_code, wrong_code platform now b)
         | Some i \<Rightarrow>
             (let r = bk_pending b ! i
              in (Inr \<lparr>ps_platform = pr_platform r, ps_user = pr_user r, ps_name = pr_name r\<rparr>,
                  admit (pr_platform r) (pr_user r) (pr_name r)
                    (b\<lparr>bk_pending := remove_at i (bk_pending b), bk_failures := bt_remove platform (bk_failures b)\<rparr>))))"

definition revoke :: "string \<Rightarrow> string \<Rightarrow> book \<Rightarrow> bool \<times> book" where
  "revoke platform user b =
     (case map_of (bk_approved b) platform of
        None \<Rightarrow> (False, b)
      | Some users \<Rightarrow>
          (map_of users user \<noteq> None, b\<lparr>bk_approved := bt_insert platform (bt_remove user users) (bk_approved b)\<rparr>))"

definition approved_people :: "book \<Rightarrow> person list" where
  "approved_people b =
     concat (map (\<lambda>(platform, users). map (\<lambda>(user, name). \<lparr>ps_platform = platform, ps_user = user, ps_name = name\<rparr>) users) (bk_approved b))"

definition waiting_at :: "nat \<Rightarrow> book \<Rightarrow> waiting list \<times> book" where
  "waiting_at now b0 =
     (let b = expire now b0
      in (map (\<lambda>r. \<lparr>wt_person = \<lparr>ps_platform = pr_platform r, ps_user = pr_user r, ps_name = pr_name r\<rparr>,
            wt_minutes = (now - pr_created r) div 60\<rparr>) (bk_pending b), b))"

definition clear_waiting :: "book \<Rightarrow> nat \<times> book" where
  "clear_waiting b = (length (bk_pending b), b\<lparr>bk_pending := []\<rparr>)"

section \<open>The file over time\<close>

datatype pair_op =
    AskCode string string string nat "string + string \<times> string"
  | Approve string string nat
  | Admit string string string
  | Revoke string string
  | ListWaiting nat
  | ClearWaiting

datatype pair_answer =
    CodeGiven string
  | NoCode
  | LetIn person
  | NotLetIn string
  | Admitted
  | Revoked bool
  | Listed "waiting list"
  | Cleared nat
  | PairError string

fun pair_do :: "(string \<Rightarrow> string) \<Rightarrow> pair_op \<Rightarrow> book \<Rightarrow> pair_answer \<times> book" where
  "pair_do sha (AskCode platform user name now rand) b =
     (case rand of
        Inl e \<Rightarrow> (PairError e, b)
      | Inr (bytes, salt) \<Rightarrow>
          (case request_at sha platform user name now bytes salt b of
             (Some code, b') \<Rightarrow> (CodeGiven code, b')
           | (None, b') \<Rightarrow> (NoCode, b')))"
| "pair_do sha (Approve platform typed now) b =
     (case approve_at sha platform typed now b of (Inl e, b') \<Rightarrow> (NotLetIn e, b') | (Inr p, b') \<Rightarrow> (LetIn p, b'))"
| "pair_do sha (Admit platform user name) b = (Admitted, admit platform user name b)"
| "pair_do sha (Revoke platform user) b = map_prod Revoked id (revoke platform user b)"
| "pair_do sha (ListWaiting now) b = map_prod Listed id (waiting_at now b)"
| "pair_do sha ClearWaiting b = map_prod Cleared id (clear_waiting b)"

type_synonym pair_write = "book \<Rightarrow> book \<Rightarrow> string option"

text \<open>Without random bytes the file is not touched.\<close>

definition pair_step :: "(string \<Rightarrow> string) \<Rightarrow> pair_op \<Rightarrow> pair_write \<Rightarrow> book stored \<Rightarrow> pair_answer \<times> book stored" where
  "pair_step sha op write file =
     (case op of
        AskCode _ _ _ _ (Inl e) \<Rightarrow> (PairError e, file)
      | _ \<Rightarrow> (case store_change write (pair_do sha op) file of
               (Inl e, file') \<Rightarrow> (PairError e, file')
             | (Inr a, file') \<Rightarrow> (a, file')))"

type_synonym pair_event = "pair_op \<times> pair_answer"

fun pair_run :: "(string \<Rightarrow> string) \<Rightarrow> (pair_op \<times> pair_write) list \<Rightarrow> book stored \<Rightarrow> pair_event list \<times> book stored" where
  "pair_run sha [] file = ([], file)"
| "pair_run sha ((op, write) # steps) file =
     (case pair_step sha op write file of (a, file') \<Rightarrow>
        (case pair_run sha steps file' of (es, file'') \<Rightarrow> ((op, a) # es, file'')))"

section \<open>Lemmas\<close>

text \<open>Two texts are the same for \<open>same_text\<close> exactly when they are equal.\<close>

lemma xor_zero: "(a :: nat) XOR b = 0 \<longleftrightarrow> a = b"
  by (metis xor.assoc xor.left_neutral xor.right_neutral xor_self_eq)

lemma fold_or_zero: "foldl (\<lambda>acc (a, b). acc OR ((of_char a :: nat) XOR of_char b)) acc ps = 0 \<longleftrightarrow>
    acc = 0 \<and> (\<forall>(a, b) \<in> set ps. a = b)"
  by (induction ps arbitrary: acc) (auto simp: or_eq_0_iff xor_zero)

lemma same_text_iff [simp]: "same_text l r \<longleftrightarrow> l = r"
proof -
  have "(\<forall>(a, b) \<in> set (zip l r). a = b) \<longleftrightarrow> l = r" if "length l = length r"
    using that by (induction l r rule: list_induct2) auto
  then show ?thesis by (auto simp: same_text_def fold_or_zero)
qed

text \<open>A code is spelled from the alphabet, so it is read back as it was given.\<close>

lemma alphabet_chars: "list_all (\<lambda>c. \<not> is_ws c \<and> upper_char c = c) ALPHABET" "length ALPHABET = 32" "distinct ALPHABET"
  by code_simp+

lemma code_chars: "set (code_of bytes) \<subseteq> set ALPHABET"
  by (auto simp: code_of_def alphabet_chars(2))

lemma typed_code_of [simp]: "typed_code (code_of bytes) = code_of bytes"
proof -
  have kept: "to_uppercase xs = xs" "concat (split_whitespace xs) = xs" if "set xs \<subseteq> set ALPHABET" for xs
  proof -
    have chars: "\<not> is_ws c" "upper_char c = c" if "c \<in> set xs" for c
      using that alphabet_chars(1) \<open>set xs \<subseteq> set ALPHABET\<close> by (auto simp: list_all_iff)
    show "to_uppercase xs = xs" using chars(2) by (simp add: to_uppercase_def map_idI)
    have "split_by is_ws xs = [xs]" using chars(1) by (induction xs) auto
    then show "concat (split_whitespace xs) = xs" by (auto simp: split_whitespace_def)
  qed
  show ?thesis using kept [OF code_chars] by (simp add: typed_code_def)
qed

lemma pair_step_cases:
  assumes "pair_step sha op write file = (a, file')"
  obtains (failed) e where "a = PairError e" "file' = file"
  | (worked) b b' where "file = Inr b" "file' = Inr b'" "pair_do sha op b = (a, b')" "\<And>p u n t e. op \<noteq> AskCode p u n t (Inl e)"
proof -
  have "(\<exists>e. a = PairError e) \<and> file' = file \<or>
      (\<exists>b b'. file = Inr b \<and> file' = Inr b' \<and> pair_do sha op b = (a, b') \<and> (\<forall>p u n t e. op \<noteq> AskCode p u n t (Inl e)))"
    using assms
    by (cases op)
      (auto simp: pair_step_def store_change_def split: sum.splits prod.splits option.splits if_splits)
  then show thesis using failed worked by blast
qed

lemma pair_run_snoc:
  "pair_run sha (steps @ [(op, write)]) f =
     (case pair_run sha steps f of (es, f') \<Rightarrow> (case pair_step sha op write f' of (a, f'') \<Rightarrow> (es @ [(op, a)], f'')))"
  by (induction steps arbitrary: f) (auto split: prod.splits)

lemma approves_admit [simp]: "book_approves (admit p u n b) p' u' \<longleftrightarrow> (p' = p \<and> u' = u) \<or> book_approves b p' u'"
  by (auto simp: book_approves_def admit_def Let_def split: option.splits)

lemma pending_admit [simp]: "bk_pending (admit p u n b) = bk_pending b"
  by (simp add: admit_def Let_def)

lemma approves_fields [simp]:
  "book_approves (b\<lparr>bk_pending := x\<rparr>) = book_approves b" "book_approves (b\<lparr>bk_asked := y\<rparr>) = book_approves b"
  "book_approves (b\<lparr>bk_failures := z\<rparr>) = book_approves b" "book_approves (b\<lparr>bk_locked := z\<rparr>) = book_approves b"
  by (simp_all add: book_approves_def fun_eq_iff)

lemma approves_expire [simp]: "book_approves (expire now b) = book_approves b"
  by (simp add: expire_def)

lemma wrong_code_fields [simp]:
  "book_approves (wrong_code platform now b) = book_approves b" "bk_pending (wrong_code platform now b) = bk_pending b"
  by (simp_all add: wrong_code_def Let_def)

lemma pending_expire [simp]: "bk_pending (expire now b) = filter (\<lambda>r. now < pr_created r + CODE_LIFETIME) (bk_pending b)"
  by (simp add: expire_def)

lemma approves_revoke: "revoke p u b = (r, b') \<Longrightarrow> bk_pending b' = bk_pending b \<and> (book_approves b' p' u' \<longrightarrow> book_approves b p' u')"
  by (auto simp: revoke_def book_approves_def split: option.splits if_splits)

section \<open>Only the owner lets someone in\<close>

text \<open>A request of the book stands for a code that was given to the person it names.\<close>

definition given :: "(string \<Rightarrow> string) \<Rightarrow> pair_event list \<Rightarrow> request \<Rightarrow> bool" where
  "given sha es r \<longleftrightarrow>
     (\<exists>bytes salt.
        (AskCode (pr_platform r) (pr_user r) (pr_name r) (pr_created r) (Inr (bytes, salt)), CodeGiven (code_of bytes)) \<in> set es \<and>
        pr_salt r = hex_of salt \<and> pr_hash r = code_digest sha (hex_of salt) (code_of bytes))"

text \<open>The owner typed a code, not yet an hour old, that hashes as the one that was given to this person before.\<close>

definition let_in_by_code :: "(string \<Rightarrow> string) \<Rightarrow> pair_event list \<Rightarrow> string \<Rightarrow> string \<Rightarrow> bool" where
  "let_in_by_code sha es platform user \<longleftrightarrow>
     (\<exists>before typed now r later.
        es = before @ (Approve platform typed now, LetIn \<lparr>ps_platform = platform, ps_user = user, ps_name = pr_name r\<rparr>) # later \<and>
        given sha before r \<and> pr_platform r = platform \<and> pr_user r = user \<and> now < pr_created r + CODE_LIFETIME \<and>
        code_digest sha (pr_salt r) (typed_code typed) = pr_hash r)"

definition codes_given :: "string \<Rightarrow> string \<Rightarrow> pair_event list \<Rightarrow> nat" where
  "codes_given platform user es =
     length (filter (\<lambda>e. case e of (AskCode p u _ _ _, CodeGiven _) \<Rightarrow> p = platform \<and> u = user | _ \<Rightarrow> False) es)"

definition times_let_in :: "string \<Rightarrow> string \<Rightarrow> pair_event list \<Rightarrow> nat" where
  "times_let_in platform user es =
     length (filter (\<lambda>e. case e of (_, LetIn p) \<Rightarrow> ps_platform p = platform \<and> ps_user p = user | _ \<Rightarrow> False) es)"

definition codes_waiting :: "string \<Rightarrow> string \<Rightarrow> book \<Rightarrow> nat" where
  "codes_waiting platform user b = length (filter (\<lambda>r. pr_platform r = platform \<and> pr_user r = user) (bk_pending b))"

definition pair_inv :: "(string \<Rightarrow> string) \<Rightarrow> book \<Rightarrow> pair_event list \<Rightarrow> book \<Rightarrow> bool" where
  "pair_inv sha b0 es b \<longleftrightarrow>
     (\<forall>r \<in> set (bk_pending b). given sha es r) \<and>
     (\<forall>p u. book_approves b p u \<longrightarrow>
        book_approves b0 p u \<or> (\<exists>n. (Admit p u n, Admitted) \<in> set es) \<or> let_in_by_code sha es p u) \<and>
     (\<forall>p u. times_let_in p u es + codes_waiting p u b \<le> codes_given p u es)"

lemma times_let_in_snoc: "times_let_in q v (es @ [(op, a)]) =
    times_let_in q v es + (case a of LetIn p \<Rightarrow> if ps_platform p = q \<and> ps_user p = v then 1 else 0 | _ \<Rightarrow> 0)"
  by (simp add: times_let_in_def split: pair_answer.split)

lemma codes_given_snoc: "codes_given q v (es @ [(op, a)]) =
    codes_given q v es + (case (op, a) of (AskCode p u _ _ _, CodeGiven _) \<Rightarrow> if p = q \<and> u = v then 1 else 0 | _ \<Rightarrow> 0)"
  by (simp add: codes_given_def split: pair_answer.split pair_op.split)

lemma length_filter_weaker: "(\<And>x. P x \<Longrightarrow> Q x) \<Longrightarrow> length (filter P xs) \<le> length (filter Q xs)"
  by (induction xs) auto

lemma given_mono: "given sha es r \<Longrightarrow> given sha (es @ rest) r"
  by (auto simp: given_def)

lemma let_in_by_code_mono: "let_in_by_code sha es p u \<Longrightarrow> let_in_by_code sha (es @ rest) p u"
  unfolding let_in_by_code_def by (metis append_Cons append_assoc)

text \<open>A step that approves nobody new, keeps requests and answers neither with a code nor with a person.\<close>

lemma pair_inv_quiet:
  assumes "pair_inv sha b0 es b" "\<And>p u. book_approves b' p u \<Longrightarrow> book_approves b p u"
    "\<exists>P. bk_pending b' = filter P (bk_pending b)" "\<And>p. a \<noteq> LetIn p"
  shows "pair_inv sha b0 (es @ [(op, a)]) b'"
proof -
  obtain P where P: "bk_pending b' = filter P (bk_pending b)" using assms(3) by blast
  have waiting: "codes_waiting p u b' \<le> codes_waiting p u b" for p u
    unfolding codes_waiting_def P filter_filter by (rule length_filter_weaker) simp
  show ?thesis
    unfolding pair_inv_def
  proof (intro conjI allI ballI impI)
    fix r assume "r \<in> set (bk_pending b')"
    then show "given sha (es @ [(op, a)]) r" using assms(1) P by (auto simp: pair_inv_def intro: given_mono)
  next
    fix p u assume "book_approves b' p u"
    then show "book_approves b0 p u \<or> (\<exists>n. (Admit p u n, Admitted) \<in> set (es @ [(op, a)])) \<or> let_in_by_code sha (es @ [(op, a)]) p u"
      using assms(1,2) by (fastforce simp: pair_inv_def intro: let_in_by_code_mono)
  next
    fix p u
    have "times_let_in p u (es @ [(op, a)]) = times_let_in p u es" using assms(4) by (simp add: times_let_in_def split: pair_answer.split)
    moreover have "codes_given p u es \<le> codes_given p u (es @ [(op, a)])" by (simp add: codes_given_def)
    moreover have "times_let_in p u es + codes_waiting p u b \<le> codes_given p u es" using assms(1) by (simp add: pair_inv_def)
    ultimately show "times_let_in p u (es @ [(op, a)]) + codes_waiting p u b' \<le> codes_given p u (es @ [(op, a)])"
      using waiting [of p u] by linarith
  qed
qed

lemma pair_inv_asked:
  assumes "pair_inv sha b0 es b" "request_at sha p u n t bytes salt b = (Some code, b')"
  shows "pair_inv sha b0 (es @ [(AskCode p u n t (Inr (bytes, salt)), CodeGiven code)]) b'"
proof -
  let ?e = "(AskCode p u n t (Inr (bytes, salt)), CodeGiven code)"
  let ?new = "\<lparr>pr_platform = p, pr_user = u, pr_name = n, pr_salt = hex_of salt, pr_hash = code_digest sha (hex_of salt) code, pr_created = t\<rparr>"
  have b': "bk_pending b' = filter (\<lambda>r. \<not> (pr_platform r = p \<and> pr_user r = u)) (bk_pending (expire t b)) @ [?new]"
    and code: "code = code_of bytes" and apps: "book_approves b' = book_approves b"
    using assms(2) by (auto simp: request_at_def Let_def split: if_splits)
  have new: "given sha (es @ [?e]) ?new" using code by (auto simp: given_def)
  have waiting: "codes_waiting q v b' \<le> codes_waiting q v b + (if q = p \<and> v = u then 1 else 0)" for q v
  proof -
    have "length (filter (\<lambda>r. pr_platform r = q \<and> pr_user r = v) (filter (\<lambda>r. \<not> (pr_platform r = p \<and> pr_user r = u)) (bk_pending (expire t b))))
      \<le> codes_waiting q v b"
      unfolding codes_waiting_def pending_expire filter_filter by (rule length_filter_weaker) simp
    then show ?thesis by (auto simp: codes_waiting_def b')
  qed
  have mine: "codes_waiting p u b' = 1" by (simp add: codes_waiting_def b' filter_empty_conv)
  show ?thesis
    unfolding pair_inv_def
  proof (intro conjI allI ballI impI)
    fix r assume "r \<in> set (bk_pending b')"
    then show "given sha (es @ [?e]) r" using assms(1) new by (auto simp: b' pair_inv_def intro: given_mono)
  next
    fix q v assume "book_approves b' q v"
    then show "book_approves b0 q v \<or> (\<exists>n. (Admit q v n, Admitted) \<in> set (es @ [?e])) \<or> let_in_by_code sha (es @ [?e]) q v"
      using assms(1) apps by (fastforce simp: pair_inv_def intro: let_in_by_code_mono)
  next
    fix q v
    have "times_let_in q v es + codes_waiting q v b \<le> codes_given q v es" using assms(1) by (simp add: pair_inv_def)
    then show "times_let_in q v (es @ [?e]) + codes_waiting q v b' \<le> codes_given q v (es @ [?e])"
      using waiting [of q v] by (auto simp: times_let_in_snoc codes_given_snoc split: if_splits)
  qed
qed

lemma pair_inv_approved:
  assumes "pair_inv sha b0 es b" "approve_at sha p typed t b = (Inr person, b')"
  shows "pair_inv sha b0 (es @ [(Approve p typed t, LetIn person)]) b'"
proof -
  let ?code = "typed_code typed"
  let ?hit = "\<lambda>r. pr_platform r = p \<and> code_digest sha (pr_salt r) ?code = pr_hash r"
  let ?ps = "bk_pending (expire t b)"
  obtain i where i: "position ?hit ?ps = Some i"
    and person: "person = \<lparr>ps_platform = pr_platform (?ps ! i), ps_user = pr_user (?ps ! i), ps_name = pr_name (?ps ! i)\<rparr>"
    and b': "bk_pending b' = remove_at i ?ps"
      "\<And>q v. book_approves b' q v \<longleftrightarrow> (q = pr_platform (?ps ! i) \<and> v = pr_user (?ps ! i)) \<or> book_approves b q v"
    using assms(2) by (auto simp: approve_at_def Let_def split: if_splits option.splits)
  let ?r = "?ps ! i"
  have r: "i < length ?ps" "?hit ?r" using position_Some [OF i] by auto
  then have mem: "?r \<in> set ?ps" by (intro nth_mem)
  then have old: "?r \<in> set (bk_pending b)" "t < pr_created ?r + CODE_LIFETIME" by auto
  let ?e = "(Approve p typed t, LetIn person)"
  have "given sha es ?r" using assms(1) old(1) by (simp add: pair_inv_def)
  then have by_code: "let_in_by_code sha (es @ [?e]) (pr_platform ?r) (pr_user ?r)"
    unfolding let_in_by_code_def using old(2) r(2)
    by (intro exI [of _ es] exI [of _ typed] exI [of _ t] exI [of _ ?r] exI [of _ "[]"] conjI) (simp_all only: person)
  have parts: "?ps = take i ?ps @ ?r # drop (Suc i) ?ps" using r(1) by (rule id_take_nth_drop)
  have waiting: "codes_waiting q v b' + (if q = pr_platform ?r \<and> v = pr_user ?r then 1 else 0) \<le> codes_waiting q v b" for q v
  proof -
    have "length (filter (\<lambda>r. pr_platform r = q \<and> pr_user r = v) ?ps) \<le> codes_waiting q v b"
      unfolding codes_waiting_def pending_expire filter_filter by (rule length_filter_weaker) simp
    moreover have "length (filter (\<lambda>r. pr_platform r = q \<and> pr_user r = v) ?ps) =
        codes_waiting q v b' + (if q = pr_platform ?r \<and> v = pr_user ?r then 1 else 0)"
      by (subst parts) (auto simp: codes_waiting_def b' remove_at_def simp del: pending_expire)
    ultimately show ?thesis by simp
  qed
  show ?thesis
    unfolding pair_inv_def
  proof (intro conjI allI ballI impI)
    fix r assume "r \<in> set (bk_pending b')"
    then have "r \<in> set (bk_pending b)" using set_remove_at [of i ?ps] by (auto simp: b')
    then show "given sha (es @ [?e]) r" using assms(1) by (auto simp: pair_inv_def intro: given_mono)
  next
    fix q v assume "book_approves b' q v"
    then show "book_approves b0 q v \<or> (\<exists>n. (Admit q v n, Admitted) \<in> set (es @ [?e])) \<or> let_in_by_code sha (es @ [?e]) q v"
      using assms(1) by_code by (fastforce simp: b' pair_inv_def intro: let_in_by_code_mono)
  next
    fix q v
    have "times_let_in q v es + codes_waiting q v b \<le> codes_given q v es" using assms(1) by (simp add: pair_inv_def)
    then show "times_let_in q v (es @ [?e]) + codes_waiting q v b' \<le> codes_given q v (es @ [?e])"
      using waiting [of q v] by (auto simp: times_let_in_snoc codes_given_snoc person split: if_splits)
  qed
qed

lemma pair_inv_do:
  assumes "pair_inv sha b0 es b" "pair_do sha op b = (a, b')" "\<And>p u n t e. op \<noteq> AskCode p u n t (Inl e)"
  shows "pair_inv sha b0 (es @ [(op, a)]) b'"
proof (cases op)
  case (AskCode p u n t rand)
  then obtain bytes salt where rand: "rand = Inr (bytes, salt)" using assms(3) by (cases rand) auto
  obtain code b1 where req: "request_at sha p u n t bytes salt b = (code, b1)" by force
  show ?thesis
  proof (cases code)
    case (Some c)
    then show ?thesis using pair_inv_asked assms(1,2) req AskCode rand by auto
  next
    case None
    then have "b' = expire t b" "a = NoCode"
      using assms(2) req AskCode rand by (auto simp: request_at_def Let_def split: if_splits)
    then show ?thesis by (intro pair_inv_quiet [OF assms(1)]) (auto simp: expire_def)
  qed
next
  case (Approve p typed t)
  obtain res b1 where res: "approve_at sha p typed t b = (res, b1)" by force
  show ?thesis
  proof (cases res)
    case (Inr person)
    then show ?thesis using pair_inv_approved assms(1,2) res Approve by auto
  next
    case (Inl e)
    then have a: "a = NotLetIn e" "b' = b1" using assms(2) res Approve by auto
    have "b1 = expire t b \<or> b1 = wrong_code p t (expire t b)"
      using res Inl by (auto simp: approve_at_def Let_def split: if_splits option.splits)
    then show ?thesis using a by (intro pair_inv_quiet [OF assms(1)]) (auto simp: expire_def)
  qed
next
  case (Admit p u n)
  then have b': "b' = admit p u n b" "a = Admitted" using assms(2) by auto
  show ?thesis
    using assms(1) unfolding pair_inv_def b' Admit
    by (auto simp: times_let_in_snoc codes_given_snoc codes_waiting_def intro: given_mono let_in_by_code_mono)
      (metis let_in_by_code_mono)
next
  case (Revoke p u)
  then obtain r where "revoke p u b = (r, b')" "a = Revoked r" using assms(2) by (cases "revoke p u b") auto
  then show ?thesis using approves_revoke by (intro pair_inv_quiet [OF assms(1)]) (auto intro!: exI [of _ "\<lambda>_. True"])
next
  case (ListWaiting t)
  then show ?thesis using assms(2) by (intro pair_inv_quiet [OF assms(1)]) (auto simp: waiting_at_def Let_def expire_def)
next
  case ClearWaiting
  then show ?thesis using assms(2)
    by (intro pair_inv_quiet [OF assms(1)]) (auto simp: clear_waiting_def intro!: exI [of _ "\<lambda>_. False"])
qed

lemma pair_inv_run:
  assumes "pair_run sha steps (Inr b0) = (es, f)" "bk_pending b0 = []"
  shows "\<exists>b. f = Inr b \<and> pair_inv sha b0 es b"
  using assms(1)
proof (induction steps arbitrary: es f rule: rev_induct)
  case Nil
  then have "es = []" "f = Inr b0" by auto
  then show ?case using assms(2) by (simp add: pair_inv_def times_let_in_def codes_given_def codes_waiting_def)
next
  case (snoc s steps)
  obtain op wr where s: "s = (op, wr)" by (cases s)
  obtain es1 f1 where run: "pair_run sha steps (Inr b0) = (es1, f1)" by force
  obtain a f2 where step: "pair_step sha op wr f1 = (a, f2)" by force
  have es: "es = es1 @ [(op, a)]" "f = f2" using snoc.prems run step by (auto simp: s pair_run_snoc)
  obtain b1 where b1: "f1 = Inr b1" "pair_inv sha b0 es1 b1" using snoc.IH [OF run] by blast
  from step show ?case
  proof (cases rule: pair_step_cases)
    case (failed e)
    then have "pair_inv sha b0 (es1 @ [(op, a)]) b1"
      by (intro pair_inv_quiet [OF b1(2)]) (auto intro!: exI [of _ "\<lambda>_. True"])
    then show ?thesis using failed b1(1) by (simp add: es)
  next
    case (worked b b')
    then show ?thesis using b1 pair_inv_do [OF b1(2)] by (auto simp: es)
  qed
qed

text \<open>Only the owner lets anyone in: whatever strangers ask and the owner types, whenever and with writes that may fail, a person the
  book approves was in it at the start, was admitted by name, or was let in by a code the owner typed within the hour that
  hashes as a code made for this person before; and nobody is let in more often than codes were made for them.\<close>

theorem only_the_owner_lets_in:
  assumes "pair_run sha steps (Inr b0) = (es, f)" "bk_pending b0 = []"
  shows "(is_approved f platform user = Inr True \<longrightarrow>
      book_approves b0 platform user \<or> (\<exists>name. (Admit platform user name, Admitted) \<in> set es) \<or> let_in_by_code sha es platform user) \<and>
    times_let_in platform user es \<le> codes_given platform user es"
proof -
  obtain b where b: "f = Inr b" "pair_inv sha b0 es b" using pair_inv_run [OF assms] by blast
  have "times_let_in platform user es + codes_waiting platform user b \<le> codes_given platform user es"
    using b(2) by (simp add: pair_inv_def)
  then have "times_let_in platform user es \<le> codes_given platform user es" by simp
  then show ?thesis using b by (simp add: is_approved_def pair_inv_def)
qed

section \<open>Codes cannot be guessed\<close>

fun op_time :: "pair_op \<Rightarrow> nat option" where
  "op_time (AskCode _ _ _ now _) = Some now"
| "op_time (Approve _ _ now) = Some now"
| "op_time (ListWaiting now) = Some now"
| "op_time _ = None"

text \<open>A wrong code compared for \<open>platform\<close> before \<open>until\<close>.\<close>

definition wrong_before :: "string \<Rightarrow> nat \<Rightarrow> pair_event \<Rightarrow> bool" where
  "wrong_before platform until e =
     (case e of (Approve p _ now, NotLetIn why) \<Rightarrow> p = platform \<and> why = no_such_code \<and> now < until | _ \<Rightarrow> False)"

definition failures_of :: "string \<Rightarrow> book \<Rightarrow> nat" where
  "failures_of platform b = (case map_of (bk_failures b) platform of Some n \<Rightarrow> n | None \<Rightarrow> 0)"

text \<open>How many more wrong codes can be compared before \<open>until\<close>.\<close>

definition tries_left :: "string \<Rightarrow> nat \<Rightarrow> book \<Rightarrow> nat" where
  "tries_left platform until b =
     (case map_of (bk_locked b) platform of
        Some t \<Rightarrow> if until \<le> t then 0 else FAILURES_BEFORE_LOCKOUT - failures_of platform b
      | None \<Rightarrow> FAILURES_BEFORE_LOCKOUT - failures_of platform b)"

lemma map_of_filter_keys: "distinct (map fst m) \<Longrightarrow> map_of (filter P m) k = (case map_of m k of Some v \<Rightarrow> if P (k, v) then Some v else None | None \<Rightarrow> None)"
  by (induction m) (auto split: option.splits simp: map_of_eq_None_iff)

lemma map_of_locked_expire: "bt_ok (bk_locked b) \<Longrightarrow>
    map_of (bk_locked (expire now b)) p = (case map_of (bk_locked b) p of Some t \<Rightarrow> if now < t then Some t else None | None \<Rightarrow> None)"
  by (simp add: expire_def map_of_filter_keys bt_ok_distinct split: option.split)

lemma failures_expire [simp]: "failures_of p (expire now b) = failures_of p b" "bk_failures (expire now b) = bk_failures b"
  by (simp_all add: failures_of_def expire_def)

lemma tries_left_expire: "bt_ok (bk_locked b) \<Longrightarrow> now < until \<Longrightarrow> tries_left p until (expire now b) = tries_left p until b"
  by (auto simp: tries_left_def map_of_locked_expire split: option.splits)

definition kept_well :: "book \<Rightarrow> bool" where
  "kept_well b \<longleftrightarrow> bt_ok (bk_locked b) \<and> (\<forall>p. failures_of p b < FAILURES_BEFORE_LOCKOUT)"

lemma bt_ok_filter: "bt_ok m \<Longrightarrow> bt_ok (filter P m)"
  by (induction m) (auto simp: bt_ok_def)

lemma kept_well_expire: "kept_well b \<Longrightarrow> kept_well (expire now b)"
  by (auto simp: kept_well_def expire_def bt_ok_filter failures_of_def)

lemma kept_well_do:
  assumes "kept_well b" "pair_do sha op b = (a, b')"
  shows "kept_well b'"
proof -
  have same: "kept_well c \<Longrightarrow> bk_locked c' = bk_locked c \<Longrightarrow> bk_failures c' = bk_failures c \<Longrightarrow> kept_well c'" for c c'
    by (simp add: kept_well_def failures_of_def)
  have wrong: "kept_well c \<Longrightarrow> kept_well (wrong_code p t c)" for c p t
    by (auto simp: kept_well_def wrong_code_def failures_of_def Let_def bt_ok_insert FAILURES_BEFORE_LOCKOUT_def split: option.splits)
  have clear: "kept_well c \<Longrightarrow> bk_locked c' = bk_locked c \<Longrightarrow> bk_failures c' = bt_remove p (bk_failures c) \<Longrightarrow> kept_well c'" for c c' p
    by (auto simp: kept_well_def failures_of_def FAILURES_BEFORE_LOCKOUT_def)
  show ?thesis
  proof (cases op)
    case (AskCode p u n t rand)
    then have "b' = b \<or> (bk_locked b' = bk_locked (expire t b) \<and> bk_failures b' = bk_failures (expire t b))"
      using assms(2) by (auto simp: request_at_def Let_def split: sum.splits if_splits)
    then show ?thesis using same [OF kept_well_expire [OF assms(1)]] assms(1) by blast
  next
    case (Approve p typed t)
    then have "b' = expire t b \<or> b' = wrong_code p t (expire t b) \<or>
        (bk_locked b' = bk_locked (expire t b) \<and> bk_failures b' = bt_remove p (bk_failures (expire t b)))"
      using assms(2) by (auto simp: approve_at_def admit_def Let_def split: if_splits option.splits)
    then show ?thesis using kept_well_expire [OF assms(1)] wrong clear by blast
  next
    case (Revoke p u)
    then show ?thesis using assms same [OF assms(1)] by (auto simp: revoke_def split: option.splits)
  qed (use assms same [OF assms(1)] kept_well_expire in \<open>auto simp: admit_def waiting_at_def clear_waiting_def Let_def\<close>)
qed

lemma tries_left_do:
  assumes "kept_well b" "pair_do sha op b = (a, b')" "\<And>now. op_time op = Some now \<Longrightarrow> t0 \<le> now \<and> now < t0 + LOCKOUT"
    and "\<And>typed now person. (op, a) \<noteq> (Approve p typed now, LetIn person)"
  shows "tries_left p (t0 + LOCKOUT) b' + (if wrong_before p (t0 + LOCKOUT) (op, a) then 1 else 0) \<le> tries_left p (t0 + LOCKOUT) b"
proof -
  let ?u = "t0 + LOCKOUT"
  have ok: "bt_ok (bk_locked b)" using assms(1) by (simp add: kept_well_def)
  have same: "tries_left p ?u c' = tries_left p ?u c" if "bk_locked c' = bk_locked c" "failures_of p c' = failures_of p c" for c c'
    using that by (simp add: tries_left_def split: option.split)
  have exp: "tries_left p ?u (expire now b) = tries_left p ?u b" if "now < ?u" for now
    using ok that by (rule tries_left_expire)
  show ?thesis
  proof (cases op)
    case (AskCode q u n t rand)
    then have "b' = b \<or> (bk_locked b' = bk_locked (expire t b) \<and> bk_failures b' = bk_failures (expire t b))"
      using assms(2) by (auto simp: request_at_def Let_def split: sum.splits if_splits)
    then show ?thesis using exp [of t] same [of b' "expire t b"] assms(3) AskCode by (auto simp: wrong_before_def failures_of_def)
  next
    case (Approve q typed t)
    have t: "t0 \<le> t" "t < ?u" using assms(3) Approve by auto
    consider (locked) "b' = expire t b" "a = NotLetIn too_many_codes"
      | (wrong) "\<not> is_locked q t (expire t b)" "b' = wrong_code q t (expire t b)" "a = NotLetIn no_such_code"
      | (right) person where "a = LetIn person" "bk_locked b' = bk_locked (expire t b)" "bk_failures b' = bt_remove q (bk_failures (expire t b))"
      using assms(2) Approve by (auto simp: approve_at_def admit_def Let_def split: if_splits option.splits)
    then show ?thesis
    proof cases
      case locked
      then show ?thesis using exp [OF t(2)] Approve by (auto simp: wrong_before_def too_many_codes_def no_such_code_def)
    next
      case right
      then have "q \<noteq> p" using assms(4) Approve by auto
      then show ?thesis using right exp [OF t(2)] same [of b' "expire t b"] Approve by (auto simp: wrong_before_def failures_of_def)
    next
      case wrong
      show ?thesis
      proof (cases "q = p")
        case False
        then have "map_of (bk_locked b') p = map_of (bk_locked (expire t b)) p" "failures_of p b' = failures_of p (expire t b)"
          using wrong(2) by (auto simp: wrong_code_def failures_of_def Let_def simp del: failures_expire)
        then have "tries_left p ?u b' = tries_left p ?u (expire t b)" by (simp add: tries_left_def split: option.split)
        then show ?thesis using exp [OF t(2)] False Approve by (simp add: wrong_before_def split: pair_answer.split)
      next
        case True
        have free: "\<not> (\<exists>until. map_of (bk_locked b) p = Some until \<and> t < until)"
          using wrong(1) ok True by (auto simp: is_locked_def map_of_locked_expire split: option.splits if_splits)
        have left: "tries_left p ?u b = FAILURES_BEFORE_LOCKOUT - failures_of p b"
          using free t by (auto simp: tries_left_def split: option.splits)
        have "failures_of p b < FAILURES_BEFORE_LOCKOUT" using assms(1) by (simp add: kept_well_def)
        moreover have "tries_left p ?u b' + 1 \<le> FAILURES_BEFORE_LOCKOUT - failures_of p b" if "failures_of p b < FAILURES_BEFORE_LOCKOUT"
          using that t free ok wrong(2) True
          by (auto simp: wrong_code_def tries_left_def failures_of_def Let_def map_of_locked_expire split: option.splits if_splits)
        ultimately show ?thesis using left by (simp add: wrong_before_def split: pair_op.split pair_answer.split)
      qed
    qed
  next
    case (Revoke q u)
    then show ?thesis using assms(2) same [of b' b] by (auto simp: revoke_def wrong_before_def failures_of_def split: option.splits)
  next
    case (ListWaiting t)
    then show ?thesis using assms(2,3) exp [of t] by (auto simp: waiting_at_def wrong_before_def Let_def)
  qed (use assms(2) same [of b' b] in \<open>auto simp: admit_def clear_waiting_def wrong_before_def failures_of_def Let_def\<close>)
qed

definition times_of :: "(pair_op \<times> 'a) list \<Rightarrow> nat list" where
  "times_of steps = List.map_filter (\<lambda>(op, _). op_time op) steps"

lemma times_of_simps [simp]:
  "times_of [] = []"
  "times_of ((op, x) # steps) = (case op_time op of Some t \<Rightarrow> t # times_of steps | None \<Rightarrow> times_of steps)"
  by (auto simp: times_of_def map_filter_simps split: option.split)

lemma wrong_codes_of_late_steps:
  assumes "pair_run sha steps f = (es, f')" "\<forall>t \<in> set (times_of steps). until \<le> t"
  shows "filter (wrong_before p until) es = []"
  using assms
  by (induction sha steps f arbitrary: es f' rule: pair_run.induct)
    (auto simp: wrong_before_def split: prod.splits option.splits pair_op.splits pair_answer.splits)


text \<open>Asha is given a code, a wrong one is typed, then hers.\<close>

definition plain_sha :: "string \<Rightarrow> string" where
  "plain_sha s = s"

definition eight_bytes :: string where
  "eight_bytes = map char_of [0 :: nat, 1, 2, 3, 4, 5, 6, 7]"

definition asha_steps :: "(pair_op \<times> pair_write) list" where
  "asha_steps =
     [(AskCode ''telegram'' ''42'' ''Asha'' 1000 (Inr (eight_bytes, eight_bytes)), \<lambda>_ _. None),
      (Approve ''telegram'' ''NOPE2345'' 1001, \<lambda>_ _. None),
      (Approve ''telegram'' ''abcd efgh'' 1002, \<lambda>_ _. None)]"

lemma asha_run: "is_approved (snd (pair_run plain_sha asha_steps (Inr empty_book))) ''telegram'' ''42'' = Inr True"
  by code_simp

lemma asha_events: "fst (pair_run plain_sha asha_steps (Inr empty_book)) =
    [(AskCode ''telegram'' ''42'' ''Asha'' 1000 (Inr (eight_bytes, eight_bytes)), CodeGiven ''ABCDEFGH''),
     (Approve ''telegram'' ''NOPE2345'' 1001, NotLetIn no_such_code),
     (Approve ''telegram'' ''abcd efgh'' 1002, LetIn \<lparr>ps_platform = ''telegram'', ps_user = ''42'', ps_name = ''Asha''\<rparr>)]"
  by code_simp

theorem only_the_owner_lets_in_witness:
  "let_in_by_code plain_sha (fst (pair_run plain_sha asha_steps (Inr empty_book))) ''telegram'' ''42''"
proof -
  have start: "bk_pending empty_book = []" "\<not> book_approves empty_book ''telegram'' ''42''"
    by (simp_all add: empty_book_def book_approves_def)
  have "(Admit ''telegram'' ''42'' name, Admitted) \<notin> set (fst (pair_run plain_sha asha_steps (Inr empty_book)))" for name
    by (simp add: asha_events)
  then show ?thesis
    using only_the_owner_lets_in [of plain_sha asha_steps empty_book _ _ "''telegram''" "''42''", OF surjective_pairing start(1)] asha_run start(2)
    by blast
qed


end
