(* ===== verification/ChatText.thy ===== *)
theory ChatText
  imports Prelude
begin

text \<open>
  Text for a phone: the split of a long message in \<open>crates/gateway/src/platform.rs\<close>, the Markdown helpers of
  \<open>gateway/src/telegram_format.rs\<close>, the name a received file is saved under (\<open>gateway/src/attachments.rs\<close>) and the
  clipping of \<open>transcript-view/src/tool.rs\<close>. Positions count characters here, so text is the list of its code
  points. The split is a loop that may run for ever: it is a partial function, and whether it ends is a theorem.
\<close>

section \<open>Code points\<close>

type_synonym cps = "nat list"

definition cp :: "string \<Rightarrow> cps" where
  "cp s = map of_char s"

text \<open>\<open>char::is_whitespace\<close>: the code points with the White\_Space property.\<close>

definition cp_ws :: "nat \<Rightarrow> bool" where
  "cp_ws c \<longleftrightarrow>
     (if c < 128 then (9 \<le> c \<and> c \<le> 13) \<or> c = 32
      else c = 133 \<or> c = 160 \<or> c = 5760 \<or> (8192 \<le> c \<and> c \<le> 8202) \<or> c = 8232 \<or> c = 8233 \<or> c = 8239 \<or> c = 8287 \<or> c = 12288)"

definition cp_trim_start :: "cps \<Rightarrow> cps" where
  "cp_trim_start t = trim_start_by cp_ws t"

definition cp_trim_end :: "cps \<Rightarrow> cps" where
  "cp_trim_end t = trim_end_by cp_ws t"

definition cp_trim :: "cps \<Rightarrow> cps" where
  "cp_trim t = cp_trim_end (cp_trim_start t)"

definition is_newline :: "nat \<Rightarrow> bool" where
  "is_newline c \<longleftrightarrow> c = 10"

text \<open>\<open>str::lines\<close>: without the line endings, and without an empty last line.\<close>

definition cp_lines :: "cps \<Rightarrow> cps list" where
  "cp_lines t =
     (let parts = split_by is_newline t;
          whole = (if last parts = [] then butlast parts else parts)
      in map (\<lambda>l. case strip_suffix [13] l of Some r \<Rightarrow> r | None \<Rightarrow> l) whole)"

text \<open>\<open>rfind\<close> of a text.\<close>

definition rfind :: "cps \<Rightarrow> cps \<Rightarrow> nat option" where
  "rfind t p = (case filter (\<lambda>i. starts_with (drop i t) p) [0..<Suc (length t)] of [] \<Rightarrow> None | at # ats \<Rightarrow> Some (last (at # ats)))"

section \<open>Splitting a message\<close>

definition FENCE :: cps where
  "FENCE = cp ''```''"

definition CLOSE_FENCE :: cps where
  "CLOSE_FENCE = 10 # FENCE"

definition open_fence_step :: "cps option \<Rightarrow> cps \<Rightarrow> cps option" where
  "open_fence_step opened l =
     (let line = cp_trim_start l
      in if starts_with line FENCE then (case opened of None \<Rightarrow> Some (cp_trim_end line) | Some _ \<Rightarrow> None) else opened)"

definition open_fence :: "cps \<Rightarrow> cps option" where
  "open_fence t = foldl open_fence_step None (cp_lines t)"

definition split_room :: "nat \<Rightarrow> bool \<Rightarrow> nat" where
  "split_room limit fenced = max (if fenced then limit - length CLOSE_FENCE else limit) 1"

text \<open>A part that opens a block again carries more than the opening line.\<close>

definition opened_at :: "bool \<Rightarrow> cps \<Rightarrow> nat" where
  "opened_at fenced rest = (if fenced \<and> starts_with rest FENCE then (case position is_newline rest of Some i \<Rightarrow> i | None \<Rightarrow> 0) else 0)"

text \<open>Where the next part ends: at the last gap of the largest kind that leaves more than an opening line.\<close>

definition split_cut :: "nat \<Rightarrow> bool \<Rightarrow> cps \<Rightarrow> nat" where
  "split_cut limit fenced rest =
     (let opened = opened_at fenced rest;
          window = take (split_room limit fenced) rest
      in case find_map (\<lambda>gap. case rfind window gap of Some at \<Rightarrow> if opened < at then Some at else None | None \<Rightarrow> None)
               [[10, 10], [10], [32]] of
           Some at \<Rightarrow> at
         | None \<Rightarrow> length window)"

definition split_step :: "nat \<Rightarrow> bool \<Rightarrow> cps \<Rightarrow> cps \<times> cps" where
  "split_step limit fenced rest =
     (let cut = split_cut limit fenced rest;
          part = cp_trim_end (take cut rest);
          after = cp_trim_start (drop cut rest)
      in case (if fenced then open_fence part else None) of
           Some opening \<Rightarrow> (part @ CLOSE_FENCE, opening @ [10] @ after)
         | None \<Rightarrow> (part, after))"

partial_function (option) split_loop :: "nat \<Rightarrow> bool \<Rightarrow> cps \<Rightarrow> cps list option" where
  "split_loop limit fenced rest =
     (if limit < length rest
      then Option.bind (split_loop limit fenced (snd (split_step limit fenced rest)))
             (\<lambda>parts. Some (fst (split_step limit fenced rest) # parts))
      else Some (if rest = [] then [] else [rest]))"

definition split_message :: "cps \<Rightarrow> nat \<Rightarrow> cps list option" where
  "split_message t limit = split_loop limit (contains_str t FENCE) (cp_trim t)"

text \<open>A platform without buttons numbers its choices.\<close>

definition numbered_choices :: "cps \<Rightarrow> cps list \<Rightarrow> cps" where
  "numbered_choices t labels =
     t @ concat (map (\<lambda>(n, label). [10] @ cp (decimal (n + 1)) @ cp ''. '' @ label) (List.enumerate 0 labels))
     @ (if labels = [] then [] else 10 # cp ''Reply with a number.'')"

section \<open>Showing text as it is\<close>

definition is_ascii_punctuation :: "nat \<Rightarrow> bool" where
  "is_ascii_punctuation c \<longleftrightarrow> (33 \<le> c \<and> c \<le> 47) \<or> (58 \<le> c \<and> c \<le> 64) \<or> (91 \<le> c \<and> c \<le> 96) \<or> (123 \<le> c \<and> c \<le> 126)"

definition literal_shown :: "cps \<Rightarrow> cps" where
  "literal_shown t = concat (map (\<lambda>c. if is_ascii_punctuation c then [92, c] else [c]) t)"

definition run_step :: "nat \<Rightarrow> nat \<times> nat \<Rightarrow> nat \<Rightarrow> nat \<times> nat" where
  "run_step c = (\<lambda>(longest, run) x. let run = (if x = c then run + 1 else 0) in (max longest run, run))"

definition longest_run :: "cps \<Rightarrow> nat \<Rightarrow> nat" where
  "longest_run t c = fst (foldl (run_step c) (0, 0) t)"

definition code_text :: "cps \<Rightarrow> cps" where
  "code_text t =
     (let fence = replicate (longest_run t 96 + 1) 96;
          pad = (if starts_with t [96] \<or> ends_with t [96] then [32] else [])
      in fence @ pad @ t @ pad @ fence)"

definition code_block :: "cps \<Rightarrow> cps" where
  "code_block t =
     (let fence = replicate (max (longest_run t 96) 2 + 1) 96 in fence @ [10] @ t @ [10] @ fence)"

definition clip_text :: "cps \<Rightarrow> nat \<Rightarrow> cps" where
  "clip_text t0 limit =
     (let t = cp_trim t0;
          line = (case cp_lines t of [] \<Rightarrow> [] | l # _ \<Rightarrow> l);
          cut = limit < length line \<or> 2 \<le> length (cp_lines t);
          kept = take limit line
      in if cut then kept @ [8230] else kept)"

definition bounded_text :: "cps \<Rightarrow> nat \<Rightarrow> cps" where
  "bounded_text t limit =
     (if length t \<le> limit then t
      else take limit t @ [10, 8230, 32] @ cp (decimal (length t - limit)) @ cp '' more characters'')"

text \<open>The name a received file is saved under; \<open>alnum\<close> is \<open>char::is_alphanumeric\<close> beyond ASCII.\<close>

definition cp_alphanumeric :: "(nat \<Rightarrow> bool) \<Rightarrow> nat \<Rightarrow> bool" where
  "cp_alphanumeric alnum c =
     (if c < 128 then (48 \<le> c \<and> c \<le> 57) \<or> (65 \<le> c \<and> c \<le> 90) \<or> (97 \<le> c \<and> c \<le> 122) else alnum c)"

definition clean_name :: "(nat \<Rightarrow> bool) \<Rightarrow> cps \<Rightarrow> cps" where
  "clean_name alnum name =
     (let base = last (split_by (\<lambda>c. c = 47 \<or> c = 92) name);
          cleaned = take 80 (map (\<lambda>c. if cp_alphanumeric alnum c \<or> c = 46 \<or> c = 45 \<or> c = 95 then c else 95) base);
          shown = trim_start_by (\<lambda>c. c = 46) cleaned
      in if shown = [] then cp ''file'' else shown)"

section \<open>Lemmas\<close>

lemma find_map_gap: "find_map (\<lambda>gap. case rfind w gap of Some at \<Rightarrow> if o1 < at then Some at else None | None \<Rightarrow> None) gaps = Some at \<Longrightarrow>
    \<exists>gap \<in> set gaps. rfind w gap = Some at \<and> o1 < at"
  by (auto dest!: find_map_Some split: option.splits if_splits)

lemma rfind_Some: "rfind t p = Some i \<Longrightarrow> i \<le> length t \<and> starts_with (drop i t) p"
proof -
  define xs where "xs = filter (\<lambda>i. starts_with (drop i t) p) [0..<Suc (length t)]"
  assume "rfind t p = Some i"
  then have "xs \<noteq> []" "i = last xs" unfolding rfind_def xs_def [symmetric] by (simp_all split: list.splits)
  then have "i \<in> set xs" by simp
  then show ?thesis unfolding xs_def by (simp del: upt_Suc)
qed

lemma split_room_le: "1 \<le> limit \<Longrightarrow> split_room limit fenced \<le> limit" "1 \<le> split_room limit fenced"
  by (auto simp: split_room_def)

lemma split_cut_cases:
  assumes "1 \<le> limit" "limit < length rest"
  obtains (gap) at where "split_cut limit fenced rest = at" "opened_at fenced rest < at" "at < split_room limit fenced" "cp_ws (rest ! at)"
  | (room) "split_cut limit fenced rest = split_room limit fenced"
proof -
  let ?w = "take (split_room limit fenced) rest"
  let ?f = "\<lambda>gap. case rfind ?w gap of Some at \<Rightarrow> if opened_at fenced rest < at then Some at else None | None \<Rightarrow> None"
  have len: "length ?w = split_room limit fenced" using split_room_le(1) [OF assms(1), of fenced] assms(2) by simp
  have cut: "split_cut limit fenced rest = (case find_map ?f [[10, 10], [10], [32]] of Some at \<Rightarrow> at | None \<Rightarrow> length ?w)"
    by (simp only: split_cut_def Let_def)
  show thesis
  proof (cases "find_map ?f [[10, 10], [10], [32]]")
    case None
    then show ?thesis using cut len room by simp
  next
    case (Some at)
    then obtain gap where g: "gap \<in> {[10, 10], [10], [32]}" "rfind ?w gap = Some at" "opened_at fenced rest < at"
      using find_map_gap [OF Some] by auto
    from rfind_Some [OF g(2)] have at: "starts_with (drop at ?w) gap" by simp
    then have "drop at ?w \<noteq> []" using g(1) by (auto simp: starts_with_def)
    then have "at < length ?w" by (metis drop_all linorder_not_less)
    then have "drop at ?w = rest ! at # drop (Suc at) ?w" using len by (simp add: Cons_nth_drop_Suc [symmetric])
    then have "rest ! at \<in> {10, 32}" using at g(1) by (auto simp: starts_with_def)
    then show ?thesis using gap [of at] cut Some g(3) \<open>at < length ?w\<close> len by (auto simp: cp_ws_def)
  qed
qed

lemma cut_bounds:
  assumes "1 \<le> limit" "limit < length rest"
  shows "1 \<le> split_cut limit fenced rest" "split_cut limit fenced rest \<le> split_room limit fenced"
  using split_cut_cases [OF assms, of fenced] split_room_le(2) [of limit fenced] by (metis less_imp_le_nat less_one linorder_not_less le_zero_eq not_less_zero order_refl)+

definition black :: "cps \<Rightarrow> cps" where
  "black t = filter (\<lambda>c. \<not> cp_ws c) t"

lemma black_append [simp]: "black (s @ t) = black s @ black t"
  by (simp add: black_def)

lemma black_trim_start [simp]: "black (cp_trim_start t) = black t"
  by (induction t) (auto simp: black_def cp_trim_start_def trim_start_by_def)

lemma black_trim_end [simp]: "black (cp_trim_end t) = black t"
proof -
  have "black (cp_trim_end t) = rev (black (cp_trim_start (rev t)))"
    by (simp add: cp_trim_end_def trim_end_by_def cp_trim_start_def trim_start_by_def black_def rev_filter)
  then show ?thesis unfolding black_trim_start by (simp add: black_def rev_filter)
qed

lemma black_trim [simp]: "black (cp_trim t) = black t"
  by (simp add: cp_trim_def)

lemma trim_start_suffix: "\<exists>ws. t = ws @ cp_trim_start t \<and> list_all cp_ws ws"
  by (rule exI [of _ "takeWhile cp_ws t"]) (auto simp: cp_trim_start_def trim_start_by_def list_all_iff dest: set_takeWhileD)

lemma trim_end_prefix: "\<exists>ws. t = cp_trim_end t @ ws \<and> list_all cp_ws ws"
proof -
  obtain ws where "rev t = ws @ cp_trim_start (rev t)" "list_all cp_ws ws" using trim_start_suffix by blast
  then have "t = rev (cp_trim_start (rev t)) @ rev ws" "list_all cp_ws (rev ws)"
    by (metis rev_append rev_rev_ident) (use \<open>list_all cp_ws ws\<close> in \<open>simp add: list_all_iff\<close>)
  moreover have "rev (cp_trim_start (rev t)) = cp_trim_end t"
    by (simp add: cp_trim_end_def trim_end_by_def cp_trim_start_def trim_start_by_def)
  ultimately show ?thesis by metis
qed

lemma length_trim: "length (cp_trim_start t) \<le> length t" "length (cp_trim_end t) \<le> length t"
  using trim_start_suffix [of t] trim_end_prefix [of t] by (metis length_append le_add1 le_add2)+

text \<open>Text that begins with a visible character keeps it when its end is trimmed.\<close>

definition starts_black :: "cps \<Rightarrow> bool" where
  "starts_black t \<longleftrightarrow> t = [] \<or> \<not> cp_ws (hd t)"

lemma starts_black_trim [simp]: "starts_black (cp_trim_start t)"
  by (induction t) (auto simp: starts_black_def cp_trim_start_def trim_start_by_def)

lemma starts_black_trim_end: "starts_black t \<Longrightarrow> t \<noteq> [] \<Longrightarrow> cp_trim_end t \<noteq> [] \<and> hd (cp_trim_end t) = hd t"
proof -
  assume a: "starts_black t" "t \<noteq> []"
  obtain ws where ws: "t = cp_trim_end t @ ws" "list_all cp_ws ws" using trim_end_prefix by blast
  have "cp_trim_end t \<noteq> []"
  proof
    assume "cp_trim_end t = []"
    then have "t = ws" using ws(1) by simp
    then show False using a ws(2) by (cases t) (auto simp: starts_black_def)
  qed
  then show ?thesis using ws(1) by (metis hd_append2)
qed

lemma starts_black_trim_both [simp]: "starts_black (cp_trim t)"
proof (cases "cp_trim_start t = []")
  case True
  then show ?thesis by (simp add: cp_trim_def cp_trim_end_def trim_end_by_def starts_black_def)
next
  case False
  then show ?thesis using starts_black_trim_end [of "cp_trim_start t"] starts_black_trim [of t]
    by (simp add: cp_trim_def starts_black_def del: starts_black_trim)
qed

lemma split_by_sep: "P c \<Longrightarrow> split_by P (xs @ c # ys) = split_by P xs @ split_by P ys"
  by (induction xs) (auto split: list.splits)

lemma split_by_empty: "split_by P t = [[]] \<longleftrightarrow> t = []"
  by (cases t) (auto split: list.splits)

lemma last_split_by_Nil: "last (split_by P t) = [] \<longleftrightarrow> t = [] \<or> P (last t)"
  by (induction t) (auto split: list.splits simp: split_by_empty)

lemma cp_lines_close:
  assumes "t \<noteq> []" "\<not> is_newline (last t)"
  shows "cp_lines (t @ CLOSE_FENCE) = cp_lines t @ [FENCE]"
proof -
  have f: "split_by is_newline FENCE = [FENCE]" "FENCE \<noteq> []" "strip_suffix [13] FENCE = None" by code_simp+
  have "split_by is_newline (t @ CLOSE_FENCE) = split_by is_newline t @ [FENCE]"
    unfolding CLOSE_FENCE_def by (simp add: split_by_sep is_newline_def f(1))
  then show ?thesis using assms f by (simp add: cp_lines_def Let_def last_split_by_Nil)
qed

lemma open_fence_close:
  assumes "open_fence t = Some opening" "\<not> is_newline (last t)"
  shows "open_fence (t @ CLOSE_FENCE) = None"
proof -
  have "t \<noteq> []" using assms(1) by (auto simp: open_fence_def cp_lines_def)
  moreover have "open_fence_step (Some opening) FENCE = None" by code_simp
  ultimately show ?thesis using assms by (simp add: open_fence_def cp_lines_close)
qed

text \<open>The opening line is a line of the part, without the blanks around it.\<close>

lemma open_fence_line:
  "foldl open_fence_step z ls = Some opening \<Longrightarrow>
    z = Some opening \<or> (\<exists>l \<in> set ls. opening = cp_trim_end (cp_trim_start l) \<and> starts_with (cp_trim_start l) FENCE)"
  by (induction ls arbitrary: z) (fastforce simp: open_fence_step_def Let_def split: if_splits option.splits)+

lemma opening_starts_black:
  assumes "open_fence t = Some opening"
  shows "opening \<noteq> []" "starts_black opening"
proof -
  obtain l where l: "opening = cp_trim_end (cp_trim_start l)" "starts_with (cp_trim_start l) FENCE"
    using open_fence_line [of None] assms by (auto simp: open_fence_def)
  have "FENCE \<noteq> []" by code_simp
  then have "cp_trim_start l \<noteq> []" using l(2) by (auto simp: starts_with_def)
  then show "opening \<noteq> []" using starts_black_trim_end [OF starts_black_trim] l(1) by simp
  then show "starts_black opening"
    using starts_black_trim_end [OF starts_black_trim, of l] starts_black_trim [of l] \<open>cp_trim_start l \<noteq> []\<close> l(1)
    by (simp add: starts_black_def del: starts_black_trim)
qed

lemma trim_end_last: "cp_trim_end t \<noteq> [] \<Longrightarrow> \<not> cp_ws (last (cp_trim_end t))"
proof -
  assume "cp_trim_end t \<noteq> []"
  then have "dropWhile cp_ws (rev t) \<noteq> []" by (simp add: cp_trim_end_def trim_end_by_def)
  from hd_dropWhile [OF this] show ?thesis by (simp add: cp_trim_end_def trim_end_by_def last_rev)
qed

text \<open>One step: its part fits and is not empty, and no visible character is lost.\<close>

lemma split_step_ok:
  assumes "limit < length rest" "if fenced then 5 \<le> limit else 1 \<le> limit" "starts_black rest"
    and "split_step limit fenced rest = (part, after)"
  shows "part \<noteq> []" "length part \<le> limit" "starts_black after" "fenced \<Longrightarrow> open_fence part = None"
    "\<exists>common extra kept. black part = common @ extra \<and> black rest = common @ kept \<and> subseq kept (black after) \<and>
       (\<not> fenced \<longrightarrow> extra = [] \<and> kept = black after)"
proof -
  let ?cut = "split_cut limit fenced rest"
  let ?p = "cp_trim_end (take ?cut rest)" and ?n = "cp_trim_start (drop ?cut rest)"
  have one: "1 \<le> limit" using assms(2) by (auto split: if_splits)
  note cut = cut_bounds [OF one assms(1), of fenced]
  have take: "take ?cut rest \<noteq> []" "starts_black (take ?cut rest)"
    using assms(1,3) cut(1) by (auto simp: starts_black_def take_eq_Nil hd_take)
  have p: "?p \<noteq> []" using starts_black_trim_end [OF take(2,1)] by simp
  then have end_p: "\<not> is_newline (last ?p)" using trim_end_last [of "take ?cut rest"] by (auto simp: is_newline_def cp_ws_def)
  have len_p: "length ?p \<le> split_room limit fenced" using length_trim(2) [of "take ?cut rest"] cut(2) by simp
  have kept: "black rest = black ?p @ black ?n" by (metis append_take_drop_id black_append black_trim_end black_trim_start)
  have close: "length CLOSE_FENCE = 4" by code_simp
  have step: "(part, after) = (case (if fenced then open_fence ?p else None) of
      Some o1 \<Rightarrow> (?p @ CLOSE_FENCE, o1 @ [10] @ ?n) | None \<Rightarrow> (?p, ?n))"
    using assms(4) by (simp only: split_step_def Let_def)
  consider (closed) o1 where "fenced" "open_fence ?p = Some o1" "part = ?p @ CLOSE_FENCE" "after = o1 @ [10] @ ?n"
    | (plain) "part = ?p" "after = ?n" "fenced \<Longrightarrow> open_fence ?p = None"
    using step by (cases "if fenced then open_fence ?p else None") (auto split: if_splits)
  then have "part \<noteq> [] \<and> length part \<le> limit \<and> starts_black after \<and> (fenced \<longrightarrow> open_fence part = None) \<and>
    (\<exists>common extra kept. black part = common @ extra \<and> black rest = common @ kept \<and> subseq kept (black after) \<and>
       (\<not> fenced \<longrightarrow> extra = [] \<and> kept = black after))"
  proof cases
    case closed
    have "length part \<le> limit" using closed(1,3) len_p assms(2) close by (simp add: split_room_def split: if_splits)
    moreover have "starts_black after" using opening_starts_black [OF closed(2)] closed(4) by (simp add: starts_black_def)
    moreover have "subseq (black ?n) (black after)" unfolding closed(4) black_append by (intro list_emb_append2) simp
    ultimately show ?thesis
      using open_fence_close [OF closed(2) end_p] closed kept by (intro conjI exI [of _ "black ?p"] exI [of _ "black CLOSE_FENCE"] exI [of _ "black ?n"]) auto
  next
    case plain
    then show ?thesis using p len_p split_room_le(1) [OF one, of fenced] kept
      by (intro conjI exI [of _ "black ?p"] exI [of _ "[]"] exI [of _ "black ?n"]) auto
  qed
  then show "part \<noteq> []" "length part \<le> limit" "starts_black after" "fenced \<Longrightarrow> open_fence part = None"
    "\<exists>common extra kept. black part = common @ extra \<and> black rest = common @ kept \<and> subseq kept (black after) \<and>
       (\<not> fenced \<longrightarrow> extra = [] \<and> kept = black after)"
    by blast+
qed

lemma split_loop_ok:
  assumes "split_loop limit fenced rest = Some parts" "if fenced then 5 \<le> limit else 1 \<le> limit" "starts_black rest"
  shows "(\<forall>part \<in> set parts. part \<noteq> [] \<and> length part \<le> limit) \<and> subseq (black rest) (black (concat parts)) \<and>
    (\<not> fenced \<longrightarrow> black (concat parts) = black rest) \<and> (fenced \<longrightarrow> (\<forall>part \<in> set (butlast parts). open_fence part = None))"
  using assms
proof (induction limit fenced rest parts rule: split_loop.raw_induct [rotated, consumes 1, case_names 1])
  case (1 loop limit fenced rest parts)
  show ?case
  proof (cases "limit < length rest")
    case False
    then have "parts = (if rest = [] then [] else [rest])" using 1(2) by simp
    then show ?thesis using False by auto
  next
    case True
    obtain part after where step: "split_step limit fenced rest = (part, after)" by force
    then obtain more_parts where tail: "loop limit fenced after = Some more_parts" "parts = part # more_parts"
      using 1(2) True by (cases "loop limit fenced after") auto
    note ok = split_step_ok [OF True 1(3,4) step]
    have IH: "(\<forall>part \<in> set more_parts. part \<noteq> [] \<and> length part \<le> limit) \<and> subseq (black after) (black (concat more_parts)) \<and>
      (\<not> fenced \<longrightarrow> black (concat more_parts) = black after) \<and> (fenced \<longrightarrow> (\<forall>part \<in> set (butlast more_parts). open_fence part = None))"
      using 1(1) [OF tail(1) 1(3) ok(3)] .
    obtain common extra kept where c: "black part = common @ extra" "black rest = common @ kept" "subseq kept (black after)"
      "\<not> fenced \<longrightarrow> extra = [] \<and> kept = black after" using ok(5) by blast
    have "subseq kept (black (concat more_parts))" using c(3) IH by (meson subseq_order.trans)
    then have "subseq (common @ kept) (common @ extra @ black (concat more_parts))"
      by (intro list_emb_append_mono list_emb_append2) simp_all
    then show ?thesis using ok(1,2,4) IH c tail(2) by (auto split: if_splits)
  qed
qed

text \<open>A long message arrives whole and in order: every part that is sent is not empty and fits the limit, every visible character
  of the message is in the parts in its order (exactly those, where no code block is cut), and a part that is followed by another leaves no
  code block open.\<close>

theorem split_message_keeps_everything:
  assumes "split_message t limit = Some parts" "5 \<le> limit"
  shows "(\<forall>part \<in> set parts. part \<noteq> [] \<and> length part \<le> limit) \<and> subseq (black t) (black (concat parts)) \<and>
    (\<not> contains_str t FENCE \<longrightarrow> black (concat parts) = black t) \<and>
    (contains_str t FENCE \<longrightarrow> (\<forall>part \<in> set (butlast parts). open_fence part = None))"
  using split_loop_ok [OF assms(1) [unfolded split_message_def]] assms(2) by simp

section \<open>When the split ends\<close>

lemma split_loop_next:
  assumes "limit < length rest" "split_loop limit fenced (snd (split_step limit fenced rest)) = Some parts"
  shows "\<exists>parts. split_loop limit fenced rest = Some parts"
  using assms by (subst split_loop.simps) simp

lemma split_loop_short: "length rest \<le> limit \<Longrightarrow> \<exists>parts. split_loop limit fenced rest = Some parts"
  by (subst split_loop.simps) simp

lemma unfenced_split_ends:
  assumes "1 \<le> limit"
  shows "\<exists>parts. split_loop limit False rest = Some parts"
proof (induction "length rest" arbitrary: rest rule: less_induct)
  case less
  show ?case
  proof (cases "limit < length rest")
    case True
    have "snd (split_step limit False rest) = cp_trim_start (drop (split_cut limit False rest) rest)"
      by (simp add: split_step_def Let_def)
    moreover have "length (cp_trim_start (drop (split_cut limit False rest) rest)) < length rest"
      using cut_bounds(1) [OF assms True, of False] length_trim(1) [of "drop (split_cut limit False rest) rest"] True by simp
    ultimately show ?thesis using less split_loop_next [OF True] by metis
  qed (use split_loop_short in simp)
qed

text \<open>Every stretch without a line break is at most \<open>w\<close> long.\<close>

definition lines_within :: "nat \<Rightarrow> cps \<Rightarrow> bool" where
  "lines_within w t \<longleftrightarrow> list_all (\<lambda>l. length l \<le> w) (split_by is_newline t)"

lemma split_by_head: "\<forall>c \<in> set u. \<not> P c \<Longrightarrow> \<exists>w ws. split_by P (u @ b) = (u @ w) # ws"
proof (induction u)
  case Nil
  then show ?case using split_by_nonempty [of P b] by (cases "split_by P b") auto
qed auto

lemma split_by_whole: "\<forall>c \<in> set t. \<not> P c \<Longrightarrow> split_by P t = [t]"
  by (induction t) auto

lemma sublist_of_piece: "\<forall>c \<in> set u. \<not> P c \<Longrightarrow> \<exists>l \<in> set (split_by P (a @ u @ b)). sublist u l"
proof (induction a)
  case Nil
  then obtain w ws where "split_by P (u @ b) = (u @ w) # ws" using split_by_head by blast
  then show ?case by simp
next
  case (Cons c a)
  then obtain l where l: "l \<in> set (split_by P (a @ u @ b))" "sublist u l" by blast
  then show ?case by (cases "split_by P (a @ u @ b)") (auto simp: sublist_Cons_right)
qed

lemma piece_sublist: "l \<in> set (split_by P t) \<Longrightarrow> sublist l t"
proof (induction t arbitrary: l)
  case (Cons c t)
  have head: "prefix (hd (split_by P t)) t"
    by (induction t) (auto split: list.splits)
  show ?case using Cons head by (auto simp: sublist_Cons_right split: if_splits list.splits)
qed simp

lemma lines_within_iff: "lines_within w t \<longleftrightarrow> (\<forall>u. sublist u t \<longrightarrow> (\<forall>c \<in> set u. \<not> is_newline c) \<longrightarrow> length u \<le> w)"
proof
  assume l: "lines_within w t"
  show "\<forall>u. sublist u t \<longrightarrow> (\<forall>c \<in> set u. \<not> is_newline c) \<longrightarrow> length u \<le> w"
  proof (intro allI impI)
    fix u assume u: "sublist u t" "\<forall>c \<in> set u. \<not> is_newline c"
    then obtain a b where "t = a @ u @ b" by (auto simp: sublist_def)
    then obtain l where "l \<in> set (split_by is_newline t)" "sublist u l" using sublist_of_piece [OF u(2)] by blast
    then show "length u \<le> w" using l by (auto simp: lines_within_def list_all_iff dest!: sublist_length_le)
  qed
qed (auto simp: lines_within_def list_all_iff intro: piece_sublist dest: split_by_no_sep)

lemma piece_shorter:
  assumes "l \<in> set (split_by P t)"
  shows "length l < length t \<or> (l = t \<and> (\<forall>c \<in> set t. \<not> P c))"
proof -
  obtain a b where t: "t = a @ l @ b" using piece_sublist [OF assms] by (auto simp: sublist_def)
  then show ?thesis using split_by_no_sep [OF assms] by (cases "a = [] \<and> b = []") auto
qed

lemma lines_are_pieces: "l \<in> set (cp_lines t) \<Longrightarrow> \<exists>piece \<in> set (split_by is_newline t). prefix l piece"
  by (auto simp: cp_lines_def Let_def strip_suffix_def ends_with_def take_is_prefix split: if_splits dest!: in_set_butlastD
      intro: bexI [rotated])

lemma opening_piece:
  assumes "open_fence t = Some o1"
  obtains piece where "piece \<in> set (split_by is_newline t)" "length o1 \<le> length piece" "starts_with (cp_trim_start piece) FENCE"
proof -
  obtain l where l: "l \<in> set (cp_lines t)" "o1 = cp_trim_end (cp_trim_start l)" "starts_with (cp_trim_start l) FENCE"
    using open_fence_line [of None] assms by (auto simp: open_fence_def)
  obtain piece where piece: "piece \<in> set (split_by is_newline t)" "prefix l piece" using lines_are_pieces [OF l(1)] by blast
  have "FENCE \<noteq> []" by code_simp
  then have "cp_trim_start l \<noteq> []" using l(3) by (auto simp: starts_with_def)
  moreover obtain r where r: "piece = l @ r" using piece(2) by (auto simp: prefix_def)
  ultimately have "cp_trim_start piece = cp_trim_start l @ r"
    by (auto simp: cp_trim_start_def trim_start_by_def dropWhile_append)
  then have "starts_with (cp_trim_start piece) FENCE" using l(3) by (simp add: starts_with_iff_prefix)
  moreover have "length o1 \<le> length piece" using l(2) r length_trim by (simp, metis le_trans trans_le_add1)
  ultimately show ?thesis using that piece(1) by blast
qed

lemma position_nl: "position is_newline t = None \<Longrightarrow> \<forall>c \<in> set t. \<not> is_newline c" "position is_newline t = Some i \<Longrightarrow> i < length t \<and> is_newline (t ! i)"
  by (simp add: position_None) (simp add: position_Some)

text \<open>Behind a gap the opening line that is repeated is shorter than what was taken.\<close>

lemma opening_before_gap:
  assumes "open_fence (cp_trim_end (take at rest)) = Some o1" "opened_at True rest < at" "at < length rest" "starts_black rest"
    and "lines_within w rest" "w < length rest"
  shows "length o1 < at"
proof -
  let ?p = "cp_trim_end (take at rest)"
  obtain piece where piece: "piece \<in> set (split_by is_newline ?p)" "length o1 \<le> length piece" "starts_with (cp_trim_start piece) FENCE"
    using opening_piece [OF assms(1)] .
  have len: "length ?p \<le> at" using length_trim(2) [of "take at rest"] assms(3) by simp
  show ?thesis
  proof (cases "length piece < length ?p")
    case True
    then show ?thesis using piece(2) len by simp
  next
    case False
    then have p: "piece = ?p" "\<forall>c \<in> set ?p. \<not> is_newline c" using piece_shorter [OF piece(1)] by auto
    have "take at rest \<noteq> []" "starts_black (take at rest)" using assms(2,3,4) by (auto simp: starts_black_def hd_take)
    then have black: "starts_black ?p" using starts_black_trim_end [of "take at rest"] by (simp add: starts_black_def)
    then have "cp_trim_start ?p = ?p" by (cases ?p) (auto simp: cp_trim_start_def trim_start_by_def starts_black_def)
    then have fence: "prefix FENCE ?p" using piece(3) p(1) by (simp add: starts_with_iff_prefix)
    moreover have pre: "prefix ?p rest"
      using trim_end_prefix [of "take at rest"] take_is_prefix [of at rest] by (metis prefixI prefix_order.trans)
    ultimately have "starts_with rest FENCE" by (metis starts_with_iff_prefix prefix_order.trans)
    then have opened: "opened_at True rest = (case position is_newline rest of Some i \<Rightarrow> i | None \<Rightarrow> 0)" by (simp add: opened_at_def)
    show ?thesis
    proof (cases "position is_newline rest")
      case None
      then have "length rest \<le> w" using assms(5) position_nl(1) by (auto simp: lines_within_iff)
      then show ?thesis using assms(6) by simp
    next
      case (Some i)
      then have i: "i < at" "i < length rest" "is_newline (rest ! i)" using opened assms(2) position_nl(2) by auto
      have "length ?p \<le> i"
      proof (rule ccontr)
        assume "\<not> ?thesis"
        then have short: "i < length ?p" by simp
        obtain zs where "rest = ?p @ zs" using pre by (auto simp: prefix_def)
        then have "rest ! i = ?p ! i" using short by (metis nth_append)
        then show False using short using p(2) i(3) by (metis nth_mem)
      qed
      then show ?thesis using i(1) piece(2) p(1) by simp
    qed
  qed
qed

lemma lines_within_sublist: "lines_within w t \<Longrightarrow> sublist s t \<Longrightarrow> lines_within w s"
  unfolding lines_within_iff by (meson sublist_order.order_trans)

lemma trims_are_sublists: "sublist (cp_trim_start t) t" "sublist (cp_trim_end t) t"
  using trim_start_suffix [of t] trim_end_prefix [of t]
  by (metis suffixI suffix_imp_sublist, metis prefixI prefix_imp_sublist)

lemma fenced_split_ends:
  assumes "w + 2 \<le> split_room limit True" "1 \<le> limit" "lines_within w rest" "starts_black rest"
  shows "\<exists>parts. split_loop limit True rest = Some parts"
  using assms(3,4)
proof (induction "length rest" arbitrary: rest rule: less_induct)
  case less
  show ?case
  proof (cases "limit < length rest")
    case True
    let ?cut = "split_cut limit True rest"
    let ?p = "cp_trim_end (take ?cut rest)" and ?n = "cp_trim_start (drop ?cut rest)"
    let ?next = "snd (split_step limit True rest)"
    note cut = cut_bounds [OF assms(2) True, of True]
    have room: "split_room limit True < length rest" using split_room_le(1) [OF assms(2), of True] True by simp
    have sub: "sublist ?n rest" "sublist ?p rest"
      by (meson trims_are_sublists sublist_drop sublist_take sublist_order.order_trans)+
    have within: "lines_within w ?n" "lines_within w ?p" using lines_within_sublist [OF less(2)] sub by blast+
    have next_eq: "?next = (case open_fence ?p of Some o1 \<Rightarrow> o1 @ [10] @ ?n | None \<Rightarrow> ?n)"
      by (simp add: split_step_def Let_def split: option.split)
    have "starts_black ?next \<and> lines_within w ?next \<and> length ?next < length rest"
    proof (cases "open_fence ?p")
      case None
      then show ?thesis using next_eq within(1) length_trim(1) [of "drop ?cut rest"] cut True by simp
    next
      case (Some o1)
      obtain piece where piece: "piece \<in> set (split_by is_newline ?p)" "length o1 \<le> length piece"
        using opening_piece [OF Some] by blast
      then have o1: "length o1 \<le> w" using within(2) by (auto simp: lines_within_def list_all_iff)
      obtain l where l: "l \<in> set (cp_lines ?p)" "o1 = cp_trim_end (cp_trim_start l)"
        using open_fence_line [of None] Some by (auto simp: open_fence_def)
      have no_nl: "\<not> is_newline c" if "c \<in> set o1" for c
      proof -
        obtain q where q: "q \<in> set (split_by is_newline ?p)" "prefix l q" using lines_are_pieces [OF l(1)] by blast
        have "set o1 \<subseteq> set l" using l(2) trims_are_sublists set_mono_sublist by (metis subset_trans)
        then have "c \<in> set q" using that q(2) by (auto simp: prefix_def)
        then show ?thesis using split_by_no_sep [OF q(1)] by blast
      qed
      have "split_by is_newline o1 = [o1]" using no_nl by (simp add: split_by_whole)
      then have lines: "lines_within w ?next"
        using Some next_eq within(1) o1 by (simp add: lines_within_def split_by_sep is_newline_def)
      have black: "starts_black ?next" using opening_starts_black [OF Some] Some next_eq by (simp add: starts_black_def)
      from assms(2) True have "length ?next < length rest"
      proof (cases rule: split_cut_cases [where fenced = True, case_names gap room])
        case (gap at)
        then have "length o1 < at"
          using opening_before_gap [of at rest o1 w] Some less(2,3) room assms(1) by simp
        moreover have "length ?n < length (drop at rest)"
        proof -
          have "drop at rest = rest ! at # drop (Suc at) rest" using gap(3) room by (simp add: Cons_nth_drop_Suc)
          then have "cp_trim_start (drop at rest) = cp_trim_start (drop (Suc at) rest)"
            using gap(4) by (simp add: cp_trim_start_def trim_start_by_def)
          then show ?thesis using length_trim(1) [of "drop (Suc at) rest"] gap(1,3) room by simp
        qed
        ultimately show ?thesis using Some next_eq gap(1,3) room by simp
      next
        case room
        then show ?thesis using Some next_eq o1 assms(1) length_trim(1) [of "drop ?cut rest"] True cut \<open>split_room limit True < length rest\<close>
          by simp
      qed
      then show ?thesis using lines black by blast
    qed
    then show ?thesis using less(1) split_loop_next [OF True] by blast
  qed (use split_loop_short in simp)
qed

text \<open>The split of a message always ends where no code block is in it, however long its lines are, and otherwise where each line leaves six
  characters of the limit.\<close>

theorem split_message_ends:
  assumes "1 \<le> limit" "contains_str t FENCE \<Longrightarrow> lines_within w t \<and> w + 6 \<le> limit"
  shows "\<exists>parts. split_message t limit = Some parts"
proof (cases "contains_str t FENCE")
  case False
  then show ?thesis using unfenced_split_ends [OF assms(1)] by (simp add: split_message_def)
next
  case True
  have "length CLOSE_FENCE = 4" by code_simp
  then have "w + 2 \<le> split_room limit True" using assms(2) [OF True] by (auto simp: split_room_def)
  moreover have "lines_within w (cp_trim t)"
    using assms(2) [OF True] trims_are_sublists lines_within_sublist unfolding cp_trim_def by blast
  ultimately show ?thesis using fenced_split_ends [OF _ assms(1)] True by (simp add: split_message_def)
qed

text \<open>A text that a step leaves as it is, is split for ever.\<close>

lemma split_loop_stuck:
  assumes "limit < length rest" "snd (split_step limit fenced rest) = rest"
  shows "split_loop limit fenced rest = None"
proof (rule ccontr)
  assume "split_loop limit fenced rest \<noteq> None"
  then obtain parts where "split_loop limit fenced rest = Some parts" by auto
  then have "\<not> (limit < length rest \<and> snd (split_step limit fenced rest) = rest)"
  proof (induction limit fenced rest parts rule: split_loop.raw_induct [rotated, consumes 1, case_names 1])
    case (1 loop limit fenced rest parts)
    then show ?case by (cases "loop limit fenced rest") (auto split: if_splits)
  qed
  then show False using assms by blast
qed

lemma trims_black: "t \<noteq> [] \<Longrightarrow> \<not> cp_ws (hd t) \<Longrightarrow> cp_trim_start t = t" "t \<noteq> [] \<Longrightarrow> \<not> cp_ws (last t) \<Longrightarrow> cp_trim_end t = t"
proof -
  show start: "cp_trim_start t = t" if "t \<noteq> []" "\<not> cp_ws (hd t)" for t
    using that by (cases t) (auto simp: cp_trim_start_def trim_start_by_def)
  show "cp_trim_end t = t" if "t \<noteq> []" "\<not> cp_ws (last t)"
    using start [of "rev t"] that by (simp add: cp_trim_end_def trim_end_by_def cp_trim_start_def trim_start_by_def hd_rev)
qed

text \<open>A code block whose opening line is longer than the limit: the line is closed and opened again without end.\<close>

definition long_opening :: "nat \<Rightarrow> cps" where
  "long_opening limit = FENCE @ replicate (limit - 7) 120"

lemma long_opening_props:
  assumes "8 \<le> limit"
  shows "length (long_opening limit) = limit - 4" "set (long_opening limit) \<subseteq> {96, 120}" "long_opening limit \<noteq> []"
    "prefix FENCE (long_opening limit)" "open_fence (long_opening limit) = Some (long_opening limit)"
    "cp_trim_end (long_opening limit) = long_opening limit"
proof -
  let ?P = "long_opening limit"
  have fence: "FENCE = [96, 96, 96]" by code_simp
  show len: "length ?P = limit - 4" and chars: "set ?P \<subseteq> {96, 120}" and nonempty: "?P \<noteq> []" and pre: "prefix FENCE ?P"
    using assms by (auto simp: long_opening_def fence)
  have black: "\<not> cp_ws c" if "c \<in> set ?P" for c using that chars by (auto simp: cp_ws_def)
  have trim: "cp_trim_start ?P = ?P" "cp_trim_end ?P = ?P" using black nonempty by (auto intro!: trims_black)
  then show "cp_trim_end ?P = ?P" by simp
  have "split_by is_newline ?P = [?P]" using chars by (intro split_by_whole) (auto simp: is_newline_def)
  moreover have "\<not> ends_with ?P [13]"
  proof
    assume "ends_with ?P [13]"
    then have "13 \<in> set (drop (length ?P - 1) ?P)" by (simp add: ends_with_def)
    then have "13 \<in> set ?P" by (rule in_set_dropD)
    then show False using chars by auto
  qed
  ultimately have "cp_lines ?P = [?P]" using nonempty by (simp add: cp_lines_def Let_def strip_suffix_def)
  then show "open_fence ?P = Some ?P"
    using pre by (simp add: open_fence_def open_fence_step_def Let_def trim starts_with_iff_prefix)
qed

lemma long_opening_step:
  assumes "8 \<le> limit" "list_all cp_ws ws" "opened_at True (long_opening limit @ ws @ replicate (Suc k) 120) \<le> limit - 4"
  shows "snd (split_step limit True (long_opening limit @ ws @ replicate (Suc k) 120)) = long_opening limit @ [10] @ replicate (Suc k) 120"
proof -
  let ?P = "long_opening limit"
  note P = long_opening_props [OF assms(1)]
  have "length CLOSE_FENCE = 4" by code_simp
  then have room: "split_room limit True = limit - 4" using assms(1) by (simp add: split_room_def)
  have none: "rfind ?P gap = None" if "gap \<in> {[10, 10], [10], [32]}" for gap
  proof (cases "rfind ?P gap")
    case (Some i)
    from rfind_Some [OF this] obtain r where "drop i ?P = gap @ r" by (auto simp: starts_with_iff_prefix prefix_def)
    then have "hd gap \<in> set (drop i ?P)" using that by auto
    then have "hd gap \<in> {96, 120}" using P(2) in_set_dropD by fast
    then show ?thesis using that by auto
  qed
  then have cut: "split_cut limit True (?P @ ws @ replicate (Suc k) 120) = limit - 4"
    by (simp add: split_cut_def Let_def room P(1))
  have "\<not> cp_ws 120" by (simp add: cp_ws_def)
  then have after: "cp_trim_start (ws @ replicate (Suc k) 120) = replicate (Suc k) 120"
    using assms(2) by (auto simp: cp_trim_start_def trim_start_by_def list_all_iff dropWhile_append)
  have taken: "take (limit - 4) (?P @ ws @ replicate (Suc k) 120) = ?P" "drop (limit - 4) (?P @ ws @ replicate (Suc k) 120) = ws @ replicate (Suc k) 120"
    using P(1) by simp_all
  show ?thesis
    by (simp only: split_step_def Let_def cut taken P(5,6) after if_True option.case snd_conv)
qed

lemma position_append: "\<forall>x \<in> set xs. \<not> Q x \<Longrightarrow> Q y \<Longrightarrow> position Q (xs @ y # ys) = Some (length xs)"
  by (induction xs) auto

lemma long_opening_line_never_ends:
  assumes "8 \<le> limit" "limit < n + 3"
  shows "split_message (FENCE @ replicate n 120) limit = None"
proof -
  define k where "k = n + 6 - limit"
  let ?P = "long_opening limit"
  let ?R = "?P @ [10] @ replicate (Suc k) 120"
  note P = long_opening_props [OF assms(1)]
  have fence: "FENCE = [96, 96, 96]" by code_simp
  have "n = (limit - 7) + Suc k" using assms by (simp add: k_def)
  then have t: "FENCE @ replicate n 120 = ?P @ [] @ replicate (Suc k) (120 :: nat)"
    by (simp only: long_opening_def replicate_add append_assoc append_Nil)
  have no_nl: "\<forall>c \<in> set ?P. \<not> is_newline c" using P(2) by (auto simp: is_newline_def)
  have "position is_newline (?P @ [] @ replicate (Suc k) 120) = None"
    using no_nl by (auto simp: position_None is_newline_def)
  then have start: "snd (split_step limit True (?P @ [] @ replicate (Suc k) 120)) = ?R"
    by (intro long_opening_step) (auto simp: assms(1) opened_at_def)
  have "position is_newline ?R = Some (limit - 4)"
    using position_append [of ?P is_newline 10 "replicate (Suc k) 120"] no_nl P(1) by (simp add: is_newline_def)
  then have again: "snd (split_step limit True ?R) = ?R"
    by (intro long_opening_step) (auto simp: assms(1) opened_at_def cp_ws_def)
  have long: "limit < length (FENCE @ replicate n (120 :: nat))" "limit < length ?R"
    using assms P(1) by (auto simp: fence k_def)
  have "split_loop limit True ?R = None" using split_loop_stuck [OF long(2) again] .
  then have "split_loop limit True (FENCE @ replicate n 120) = None"
    using long(1) start by (subst split_loop.simps) (simp add: t del: append_Nil)
  moreover have "contains_str (FENCE @ replicate n 120) FENCE" by (simp add: contains_str_iff_sublist)
  moreover have "cp_trim (FENCE @ replicate n 120) = FENCE @ replicate n 120"
    by (auto simp: cp_trim_def trims_black fence cp_ws_def)
  ultimately show ?thesis by (simp add: split_message_def)
qed

section \<open>Text that cannot break out\<close>

lemma longest_run_bounds:
  "(\<forall>k. suffix (replicate k c) t \<longrightarrow> k \<le> snd (foldl (run_step c) (0, 0) t)) \<and>
    (\<forall>k. sublist (replicate k c) t \<longrightarrow> k \<le> fst (foldl (run_step c) (0, 0) t))"
proof (induction t rule: rev_induct)
  case (snoc x t)
  obtain l r where lr: "foldl (run_step c) (0, 0) t = (l, r)" by force
  then have IH: "\<And>k. suffix (replicate k c) t \<Longrightarrow> k \<le> r" "\<And>k. sublist (replicate k c) t \<Longrightarrow> k \<le> l" using snoc by simp_all
  have suf: "k \<le> (if x = c then r + 1 else 0)" if "suffix (replicate k c) (t @ [x])" for k
    using that IH(1) [of "k - 1"] by (cases k) (auto simp: replicate_append_same [symmetric])
  have step: "foldl (run_step c) (0, 0) (t @ [x]) = (max l (if x = c then r + 1 else 0), if x = c then r + 1 else 0)"
    by (simp add: lr) (simp add: run_step_def)
  have sub: "k \<le> max l (if x = c then r + 1 else 0)" if "sublist (replicate k c) (t @ [x])" for k
    using that suf [of k] IH(2) [of k] unfolding sublist_snoc by (auto simp del: suffix_snoc simp: le_max_iff_disj split: if_splits)
  show ?case unfolding step fst_conv snd_conv using suf sub by blast
qed simp

lemma longest_run_max: "sublist (replicate k c) t \<Longrightarrow> k \<le> longest_run t c"
  using longest_run_bounds [where c = c] by (simp add: longest_run_def)

text \<open>What is shown as code stays code: no line of the text can close its block, and the name a received file is saved under is one
  name, with nothing that climbs out of the folder or hides the file.\<close>

theorem shown_text_stays_inside:
  "(\<exists>n. 3 \<le> n \<and> code_block t = replicate n 96 @ [10] @ t @ [10] @ replicate n 96 \<and> \<not> contains_str t (replicate n 96)) \<and>
   (clean_name alnum name \<noteq> [] \<and> length (clean_name alnum name) \<le> 80 \<and> hd (clean_name alnum name) \<noteq> 46 \<and>
    (\<forall>c \<in> set (clean_name alnum name). cp_alphanumeric alnum c \<or> c = 46 \<or> c = 45 \<or> c = 95))"
proof (intro conjI)
  let ?n = "max (longest_run t 96) 2 + 1"
  have "\<not> sublist (replicate ?n 96) t" using longest_run_max [of ?n 96 t] by auto
  then show "\<exists>n. 3 \<le> n \<and> code_block t = replicate n 96 @ [10] @ t @ [10] @ replicate n 96 \<and> \<not> contains_str t (replicate n 96)"
    by (intro exI [of _ ?n]) (simp add: code_block_def Let_def contains_str_iff_sublist)
next
  define base where "base = map (\<lambda>c. if cp_alphanumeric alnum c \<or> c = 46 \<or> c = 45 \<or> c = 95 then c else 95)
    (last (split_by (\<lambda>c. c = 47 \<or> c = 92) name))"
  define shown where "shown = dropWhile (\<lambda>c. c = 46) (take 80 base)"
  have clean: "clean_name alnum name = (if shown = [] then cp ''file'' else shown)"
    by (simp only: clean_name_def Let_def trim_start_by_def shown_def base_def)
  have word: "cp ''file'' = [102, 105, 108, 101]" by code_simp
  have ok: "cp_alphanumeric alnum c \<or> c = 46 \<or> c = 45 \<or> c = 95" if "c \<in> set shown" for c
  proof -
    have "c \<in> set base" using that unfolding shown_def by (metis set_dropWhileD in_set_takeD)
    then show ?thesis by (auto simp: base_def split: if_splits)
  qed
  have len: "length shown \<le> 80" using length_dropWhile_le [of "\<lambda>c. c = 46" "take 80 base"] by (simp add: shown_def)
  have first: "hd shown \<noteq> 46" if "shown \<noteq> []" using hd_dropWhile [of "\<lambda>c. c = 46" "take 80 base"] that by (simp add: shown_def)
  have "clean_name alnum name \<noteq> [] \<and> length (clean_name alnum name) \<le> 80 \<and> hd (clean_name alnum name) \<noteq> 46 \<and>
    (\<forall>c \<in> set (clean_name alnum name). cp_alphanumeric alnum c \<or> c = 46 \<or> c = 45 \<or> c = 95)"
  proof (cases "shown = []")
    case True
    then show ?thesis by (simp add: clean word cp_alphanumeric_def)
  next
    case False
    then show ?thesis using len first ok unfolding clean by simp
  qed
  then show "clean_name alnum name \<noteq> []" "length (clean_name alnum name) \<le> 80" "hd (clean_name alnum name) \<noteq> 46"
    "\<forall>c \<in> set (clean_name alnum name). cp_alphanumeric alnum c \<or> c = 46 \<or> c = 45 \<or> c = 95"
    by blast+
qed

theorem split_message_keeps_everything_witness:
  "black (concat (the (split_message (cp ''a bb ccc dd'') 5))) = cp ''abbcccdd''"
proof -
  have start: "contains_str (cp ''a bb ccc dd'') FENCE = False" "cp_trim (cp ''a bb ccc dd'') = cp ''a bb ccc dd''"
    "split_step 5 False (cp ''a bb ccc dd'') = (cp ''a bb'', cp ''ccc dd'')" "split_step 5 False (cp ''ccc dd'') = (cp ''ccc'', cp ''dd'')"
    "length (cp ''a bb ccc dd'') = 11" "length (cp ''ccc dd'') = 6" "length (cp ''dd'') = 2" "cp ''dd'' \<noteq> []"
    by code_simp+
  have "split_loop 5 False (cp ''dd'') = Some [cp ''dd'']" by (subst split_loop.simps) (simp add: start)
  then have "split_loop 5 False (cp ''ccc dd'') = Some [cp ''ccc'', cp ''dd'']" by (subst split_loop.simps) (simp add: start)
  then have "split_loop 5 False (cp ''a bb ccc dd'') = Some [cp ''a bb'', cp ''ccc'', cp ''dd'']" by (subst split_loop.simps) (simp add: start)
  then have parts: "split_message (cp ''a bb ccc dd'') 5 = Some [cp ''a bb'', cp ''ccc'', cp ''dd'']"
    by (simp add: split_message_def start)
  have "black (concat [cp ''a bb'', cp ''ccc'', cp ''dd'']) = black (cp ''a bb ccc dd'')"
    using split_message_keeps_everything [OF parts order_refl] unfolding start(1) by blast
  moreover have "black (cp ''a bb ccc dd'') = cp ''abbcccdd''" by (simp add: black_def cp_def cp_ws_def)
  ultimately show ?thesis by (simp only: parts option.sel)
qed

theorem split_message_ends_witness: "\<exists>parts. split_message (cp ''see ```x``` here'') 30 = Some parts"
  by (rule split_message_ends [where w = 20]) (simp, code_simp)

end
