(* ===== verification/Prompts.thy ===== *)
theory Prompts
  imports ChatText
begin

text \<open>
  Approvals and questions that wait on a messaging chat: \<open>crates/gateway/src/prompts.rs\<close>, with the prompts of
  \<open>protocol/src/lib.rs\<close> they offer. Text is code points, as in ChatText; the data of a button is what the platform sends back.
\<close>

section \<open>What the backend asks\<close>

datatype approval_decision =
    DecideApprove | DecideOnce | DecideAlways | DecideSession | DecidePersistent | DecideFolder | DecideDeny

datatype approval_kind = ActionApproval | AccessApproval | PathApproval

datatype reviewed_kind = ReviewedFile | ReviewedDirectory | ReviewedUnknown

record approval_prompt =
  ap_gate :: nat
  ap_action :: cps
  ap_detail :: "cps option"
  ap_kind :: approval_kind
  ap_choices :: "approval_decision list"
  ap_path :: "reviewed_kind option"

definition choice_label :: "approval_prompt \<Rightarrow> approval_decision \<Rightarrow> string" where
  "choice_label p d =
     (case d of
        DecideApprove \<Rightarrow> ''Yes, allow once''
      | DecideOnce \<Rightarrow> ''Yes, allow once''
      | DecideAlways \<Rightarrow>
          (if ap_kind p = PathApproval
           then (case ap_path p of
                   Some ReviewedFile \<Rightarrow> ''Yes, always allow this file''
                 | Some ReviewedDirectory \<Rightarrow> ''Yes, always allow this folder and its contents''
                 | _ \<Rightarrow> ''Yes, always allow this path'')
           else ''Yes, always allow'')
      | DecideFolder \<Rightarrow> ''Yes, always allow this whole folder''
      | DecideSession \<Rightarrow> ''Allow for this session''
      | DecidePersistent \<Rightarrow> ''Always allow for this project''
      | DecideDeny \<Rightarrow> ''No, deny'')"

definition prompt_labels :: "approval_prompt \<Rightarrow> cps list" where
  "prompt_labels p = map (\<lambda>d. cp (choice_label p d)) (ap_choices p)"

record question_option =
  qo_label :: cps
  qo_description :: cps
  qo_recommended :: bool

record question =
  qn_prompt :: cps
  qn_header :: cps
  qn_multi :: bool
  qn_options :: "question_option list"

record answer =
  an_selected :: "cps list"
  an_other :: "cps option"

record button =
  bn_label :: cps
  bn_choice :: string

record ask =
  as_text :: cps
  as_buttons :: "button list"

datatype prompt_step =
    StepApprove nat approval_decision
  | StepAnswer nat "answer list" cps
  | StepAsk nat cps ask

datatype prompt_settled = SettledHere cps | SettledElsewhere

section \<open>What waits\<close>

record asking =
  ak_id :: nat
  ak_questions :: "question list"
  ak_answers :: "answer list"

record prompts =
  pt_approvals :: "(nat \<times> (approval_decision \<times> cps) list) list"
  pt_answered :: "(nat \<times> cps) list"
  pt_question :: "asking option"

definition no_prompts :: prompts where
  "no_prompts = \<lparr>pt_approvals = [], pt_answered = [], pt_question = None\<rparr>"

definition prompts_waiting :: "prompts \<Rightarrow> bool" where
  "prompts_waiting s \<longleftrightarrow> pt_approvals s \<noteq> [] \<or> pt_question s \<noteq> None"

definition DETAIL_CHARS :: nat where "DETAIL_CHARS = 1500"

definition dotted :: "string \<Rightarrow> nat \<Rightarrow> nat \<Rightarrow> string" where
  "dotted kind n index = kind @ ''.'' @ decimal n @ ''.'' @ decimal index"

definition buttons_of :: "string \<Rightarrow> nat \<Rightarrow> cps list \<Rightarrow> button list" where
  "buttons_of kind n labels =
     map (\<lambda>(index, label). \<lparr>bn_label = label, bn_choice = dotted kind n index\<rparr>) (List.enumerate 0 labels)"

definition prompt_approval :: "approval_prompt \<Rightarrow> prompts \<Rightarrow> ask option \<times> prompts" where
  "prompt_approval p s =
     (if map_of (pt_approvals s) (ap_gate p) \<noteq> None then (None, s)
      else
        let labels = prompt_labels p;
            detail = (case ap_detail p of
                        Some d \<Rightarrow> if cp_trim d \<noteq> [] then [10, 10] @ code_block (bounded_text (cp_trim d) DETAIL_CHARS) else []
                      | None \<Rightarrow> [])
        in (Some \<lparr>as_text = cp ''Medha asks to: '' @ literal_shown (ap_action p) @ detail, as_buttons = buttons_of ''a'' (ap_gate p) labels\<rparr>,
            s\<lparr>pt_approvals := bt_insert (ap_gate p) (zip (ap_choices p) labels) (pt_approvals s)\<rparr>))"

definition prompt_resolved :: "nat \<Rightarrow> prompts \<Rightarrow> prompt_settled option \<times> prompts" where
  "prompt_resolved gate s =
     (if map_of (pt_approvals s) gate = None then (None, s)
      else
        (Some (case map_of (pt_answered s) gate of Some label \<Rightarrow> SettledHere label | None \<Rightarrow> SettledElsewhere),
         s\<lparr>pt_approvals := bt_remove gate (pt_approvals s), pt_answered := bt_remove gate (pt_answered s)\<rparr>))"

definition described_option :: "question_option \<Rightarrow> cps" where
  "described_option o1 =
     (let recommended = (if qo_recommended o1 then cp '' (recommended)'' else [])
      in if cp_trim (qo_description o1) = [] then qo_label o1 @ recommended
         else qo_label o1 @ recommended @ cp '': '' @ cp_trim (qo_description o1))"

definition current_ask :: "asking \<Rightarrow> ask option" where
  "current_ask a =
     (case get_at (ak_questions a) (length (ak_answers a)) of
        None \<Rightarrow> None
      | Some q \<Rightarrow>
          (let title = (if cp_trim (qn_header q) = [] then qn_prompt q else qn_header q @ cp '': '' @ qn_prompt q)
           in if qn_multi q
              then Some \<lparr>as_text = title
                     @ concat (map (\<lambda>(n, o1). [10] @ cp (decimal (n + 1)) @ cp ''. '' @ described_option o1) (List.enumerate 0 (qn_options q)))
                     @ [10] @ cp ''Reply with the numbers that apply, like 1,3, or type your own answer.'',
                   as_buttons = []\<rparr>
              else Some \<lparr>as_text = title
                     @ concat (map (\<lambda>o1. [10] @ cp ''- '' @ described_option o1)
                         (filter (\<lambda>o1. cp_trim (qo_description o1) \<noteq> []) (qn_options q)))
                     @ [10] @ cp ''Or type your own answer.'',
                   as_buttons = buttons_of ''q'' (ak_id a) (map qo_label (qn_options q))\<rparr>))"

definition prompt_question :: "nat \<Rightarrow> question list \<Rightarrow> prompts \<Rightarrow> ask option \<times> prompts" where
  "prompt_question qid questions s =
     (if (case pt_question s of Some a \<Rightarrow> ak_id a = qid | None \<Rightarrow> False) then (None, s)
      else
        let a = \<lparr>ak_id = qid, ak_questions = questions, ak_answers = []\<rparr>;
            shown = current_ask a
        in (shown, s\<lparr>pt_question := (if shown \<noteq> None then Some a else None)\<rparr>))"

definition question_answered :: "nat \<Rightarrow> prompts \<Rightarrow> bool \<times> prompts" where
  "question_answered qid s =
     (if (case pt_question s of Some a \<Rightarrow> ak_id a = qid | None \<Rightarrow> False) then (True, s\<lparr>pt_question := None\<rparr>) else (False, s))"

section \<open>Answers\<close>

definition decide :: "nat \<Rightarrow> nat \<Rightarrow> prompts \<Rightarrow> prompt_step option \<times> prompts" where
  "decide gate index s =
     (if map_of (pt_answered s) gate \<noteq> None then (None, s)
      else case Option.bind (map_of (pt_approvals s) gate) (\<lambda>choices. get_at choices index) of
        None \<Rightarrow> (None, s)
      | Some (d, label) \<Rightarrow> (Some (StepApprove gate d), s\<lparr>pt_answered := (gate, label) # pt_answered s\<rparr>))"

definition give_answer :: "answer \<Rightarrow> prompts \<Rightarrow> prompt_step option \<times> prompts" where
  "give_answer x s =
     (let said = (case an_other x of Some other \<Rightarrow> other | None \<Rightarrow> join_with (cp '', '') (an_selected x))
      in case pt_question s of
           None \<Rightarrow> (None, s)
         | Some a \<Rightarrow>
             (let a' = a\<lparr>ak_answers := ak_answers a @ [x]\<rparr>
              in case current_ask a' of
                   Some shown \<Rightarrow> (Some (StepAsk (ak_id a) said shown), s\<lparr>pt_question := Some a'\<rparr>)
                 | None \<Rightarrow> (Some (StepAnswer (ak_id a) (ak_answers a') said), s\<lparr>pt_question := None\<rparr>)))"

definition is_dot :: "char \<Rightarrow> bool" where
  "is_dot c \<longleftrightarrow> c = CHR ''.''"

definition prompt_pressed :: "string \<Rightarrow> prompts \<Rightarrow> prompt_step option \<times> prompts" where
  "prompt_pressed choice s =
     (case split_by is_dot choice of
        kind # n # index # _ \<Rightarrow>
          (case (parse_unsigned 64 n, parse_unsigned 64 index) of
             (Some n, Some index) \<Rightarrow>
               if kind = ''a'' then decide n index s
               else if kind = ''q'' then
                 (case pt_question s of
                    None \<Rightarrow> (None, s)
                  | Some a \<Rightarrow>
                      if ak_id a \<noteq> n then (None, s)
                      else case Option.bind (get_at (ak_questions a) (length (ak_answers a))) (\<lambda>q. get_at (qn_options q) index) of
                        None \<Rightarrow> (None, s)
                      | Some o1 \<Rightarrow> give_answer \<lparr>an_selected = [qo_label o1], an_other = None\<rparr> s)
               else (None, s)
           | _ \<Rightarrow> (None, s))
      | _ \<Rightarrow> (None, s))"

definition cp_parse :: "cps \<Rightarrow> nat option" where
  "cp_parse t = (if list_all (\<lambda>c. c < 128) t then parse_unsigned 64 (map char_of t) else None)"

text \<open>The numbers of a typed reply, if it is nothing but numbers of options.\<close>

definition picked_numbers :: "nat \<Rightarrow> cps \<Rightarrow> nat list option" where
  "picked_numbers n t =
     those (map (\<lambda>w. case cp_parse w of Some k \<Rightarrow> if 1 \<le> k \<and> k \<le> n then Some k else None | None \<Rightarrow> None)
       (filter (\<lambda>w. w \<noteq> []) (split_by (\<lambda>c. c = 44 \<or> c = 32) t)))"

fun pick_labels :: "cps list \<Rightarrow> question_option list \<Rightarrow> nat list \<Rightarrow> cps list" where
  "pick_labels acc options [] = acc"
| "pick_labels acc options (n # ns) =
     (let label = qo_label (options ! (n - 1)) in pick_labels (if label \<in> set acc then acc else acc @ [label]) options ns)"

definition typed_answer :: "question \<Rightarrow> cps \<Rightarrow> answer" where
  "typed_answer q t =
     (case picked_numbers (length (qn_options q)) t of
        Some ns \<Rightarrow>
          if ns \<noteq> [] \<and> (qn_multi q \<or> length ns = 1) then \<lparr>an_selected = pick_labels [] (qn_options q) ns, an_other = None\<rparr>
          else \<lparr>an_selected = [], an_other = Some t\<rparr>
      | None \<Rightarrow> \<lparr>an_selected = [], an_other = Some t\<rparr>)"

definition prompt_reply :: "cps \<Rightarrow> prompts \<Rightarrow> prompt_step option \<times> prompts" where
  "prompt_reply typed s =
     (let t = cp_trim typed in
      case filter (\<lambda>(gate, _). map_of (pt_answered s) gate = None) (pt_approvals s) of
        (gate, _) # _ \<Rightarrow>
          (case cp_parse t of
             Some (Suc index) \<Rightarrow> decide gate index s
           | _ \<Rightarrow> (None, s))
      | [] \<Rightarrow>
          (case pt_question s of
             None \<Rightarrow> (None, s)
           | Some a \<Rightarrow>
               (case get_at (ak_questions a) (length (ak_answers a)) of
                  None \<Rightarrow> (None, s)
                | Some q \<Rightarrow> give_answer (typed_answer q t) s)))"

section \<open>A chat over time\<close>

datatype prompt_op =
    OfferApproval approval_prompt
  | ApprovalOver nat
  | OfferQuestion nat "question list"
  | QuestionOver nat
  | Press string
  | Reply cps
  | ChatOver

fun prompt_do :: "prompt_op \<Rightarrow> prompts \<Rightarrow> prompt_step option \<times> prompts" where
  "prompt_do (OfferApproval p) s = (None, snd (prompt_approval p s))"
| "prompt_do (ApprovalOver gate) s = (None, snd (prompt_resolved gate s))"
| "prompt_do (OfferQuestion qid questions) s = (None, snd (prompt_question qid questions s))"
| "prompt_do (QuestionOver qid) s = (None, snd (question_answered qid s))"
| "prompt_do (Press choice) s = prompt_pressed choice s"
| "prompt_do (Reply t) s = prompt_reply t s"
| "prompt_do ChatOver s = (None, no_prompts)"

text \<open>What was done, in order, with what each operation sent.\<close>

fun prompt_run :: "prompt_op list \<Rightarrow> prompts \<Rightarrow> (prompt_op \<times> prompt_step option) list \<times> prompts" where
  "prompt_run [] s = ([], s)"
| "prompt_run (op # ops) s =
     (case prompt_do op s of (step, s') \<Rightarrow> (case prompt_run ops s' of (es, s'') \<Rightarrow> ((op, step) # es, s'')))"

section \<open>Only what was offered is sent back\<close>

type_synonym prompt_event = "prompt_op \<times> prompt_step option"

text \<open>An answer to a question: its own words, or labels of its options, one where one is asked for.\<close>

definition fits :: "question \<Rightarrow> answer \<Rightarrow> bool" where
  "fits q x \<longleftrightarrow>
     (an_other x \<noteq> None \<and> an_selected x = []) \<or>
     (an_other x = None \<and> an_selected x \<noteq> [] \<and> distinct (an_selected x) \<and> set (an_selected x) \<subseteq> set (map qo_label (qn_options q)) \<and>
      (\<not> qn_multi q \<longrightarrow> length (an_selected x) = 1))"

definition ends_approval :: "nat \<Rightarrow> prompt_event \<Rightarrow> bool" where
  "ends_approval gate e \<longleftrightarrow> fst e = ApprovalOver gate \<or> fst e = ChatOver"

definition decides :: "nat \<Rightarrow> prompt_event \<Rightarrow> bool" where
  "decides gate e \<longleftrightarrow> (case snd e of Some (StepApprove g _) \<Rightarrow> g = gate | _ \<Rightarrow> False)"

text \<open>The approval was offered with this choice, and neither ended nor was answered since.\<close>

definition still_offered :: "prompt_event list \<Rightarrow> nat \<Rightarrow> approval_decision \<Rightarrow> bool" where
  "still_offered es gate d \<longleftrightarrow>
     (\<exists>before p r later. es = before @ (OfferApproval p, r) # later \<and> ap_gate p = gate \<and> d \<in> set (ap_choices p) \<and>
        (\<forall>e \<in> set later. \<not> ends_approval gate e \<and> \<not> decides gate e))"

definition was_asked :: "prompt_event list \<Rightarrow> nat \<Rightarrow> question list \<Rightarrow> bool" where
  "was_asked es qid questions \<longleftrightarrow> (\<exists>r. (OfferQuestion qid questions, r) \<in> set es)"

definition step_offered :: "prompt_event list \<Rightarrow> prompt_step \<Rightarrow> bool" where
  "step_offered es step \<longleftrightarrow>
     (case step of
        StepApprove gate d \<Rightarrow> still_offered es gate d
      | StepAnswer qid xs _ \<Rightarrow> (\<exists>questions. was_asked es qid questions \<and> list_all2 fits questions xs)
      | StepAsk qid _ _ \<Rightarrow> (\<exists>questions. was_asked es qid questions))"

definition approval_known :: "prompt_event list \<Rightarrow> prompts \<Rightarrow> nat \<Rightarrow> (approval_decision \<times> cps) list \<Rightarrow> bool" where
  "approval_known es s gate choices \<longleftrightarrow>
     (\<exists>before p r later. es = before @ (OfferApproval p, r) # later \<and> ap_gate p = gate \<and> map fst choices = ap_choices p \<and>
        (\<forall>e \<in> set later. \<not> ends_approval gate e \<and> (map_of (pt_answered s) gate = None \<longrightarrow> \<not> decides gate e)))"

definition question_known :: "prompt_event list \<Rightarrow> asking \<Rightarrow> bool" where
  "question_known es a \<longleftrightarrow>
     length (ak_answers a) < length (ak_questions a) \<and> was_asked es (ak_id a) (ak_questions a) \<and>
     list_all2 fits (take (length (ak_answers a)) (ak_questions a)) (ak_answers a)"

definition prompts_inv :: "prompt_event list \<Rightarrow> prompts \<Rightarrow> bool" where
  "prompts_inv es s \<longleftrightarrow>
     (\<forall>gate choices. map_of (pt_approvals s) gate = Some choices \<longrightarrow> approval_known es s gate choices) \<and>
     (\<forall>gate. map_of (pt_answered s) gate \<noteq> None \<longrightarrow> map_of (pt_approvals s) gate \<noteq> None) \<and>
     (\<forall>a. pt_question s = Some a \<longrightarrow> question_known es a)"

lemma was_asked_mono: "was_asked es qid qs \<Longrightarrow> was_asked (es @ tail) qid qs"
  by (auto simp: was_asked_def)

lemma question_known_mono: "question_known es a \<Longrightarrow> question_known (es @ tail) a"
  by (auto simp: question_known_def was_asked_mono)

lemma approval_known_snoc:
  assumes "approval_known es s gate choices" "\<not> ends_approval gate e" "map_of (pt_answered s') gate = None \<Longrightarrow> map_of (pt_answered s) gate = None \<and> \<not> decides gate e"
  shows "approval_known (es @ [e]) s' gate choices"
proof -
  obtain before p r later where k: "es = before @ (OfferApproval p, r) # later" "ap_gate p = gate" "map fst choices = ap_choices p"
    "\<forall>e \<in> set later. \<not> ends_approval gate e \<and> (map_of (pt_answered s) gate = None \<longrightarrow> \<not> decides gate e)"
    using assms(1) by (auto simp: approval_known_def)
  show ?thesis
    unfolding approval_known_def
    using k assms(2,3) by (intro exI [of _ before] exI [of _ p] exI [of _ r] exI [of _ "later @ [e]"]) auto
qed

lemma prompts_inv_snoc:
  assumes "prompts_inv es s" "\<And>gate choices. map_of (pt_approvals s') gate = Some choices \<Longrightarrow>
      map_of (pt_approvals s) gate = Some choices \<and> \<not> ends_approval gate e \<and>
      (map_of (pt_answered s') gate = None \<longrightarrow> map_of (pt_answered s) gate = None \<and> \<not> decides gate e)"
    and "\<And>gate. map_of (pt_answered s') gate \<noteq> None \<Longrightarrow> map_of (pt_approvals s') gate \<noteq> None"
    and "\<And>a. pt_question s' = Some a \<Longrightarrow> question_known (es @ [e]) a"
  shows "prompts_inv (es @ [e]) s'"
  unfolding prompts_inv_def
proof (intro conjI allI impI)
  fix gate choices assume c: "map_of (pt_approvals s') gate = Some choices"
  then have "approval_known es s gate choices" using assms(1,2) by (simp add: prompts_inv_def)
  then show "approval_known (es @ [e]) s' gate choices" by (rule approval_known_snoc) (use assms(2) [OF c] in auto)
qed (use assms(3,4) in blast)+

definition typed_in :: "prompt_op \<Rightarrow> bool" where
  "typed_in op \<longleftrightarrow> (\<exists>c. op = Press c) \<or> (\<exists>t. op = Reply t)"

lemma typed_in_ends [simp]: "typed_in op \<Longrightarrow> \<not> ends_approval gate (op, step)"
  by (auto simp: typed_in_def ends_approval_def)

lemma prompts_inv_none: "prompts_inv es s \<Longrightarrow> typed_in op \<Longrightarrow> prompts_inv (es @ [(op, None)]) s"
  by (rule prompts_inv_snoc) (auto simp: decides_def prompts_inv_def question_known_mono)

lemma decide_ok:
  assumes "prompts_inv es s" "decide gate index s = (step, s')" "typed_in op"
  shows "prompts_inv (es @ [(op, step)]) s' \<and> (\<forall>x. step = Some x \<longrightarrow> step_offered es x)"
proof (cases step)
  case None
  then have "s' = s" using assms(2) by (auto simp: decide_def split: if_splits option.splits)
  then show ?thesis using None prompts_inv_none [OF assms(1,3)] by simp
next
  case (Some x)
  then obtain choices d label where c: "map_of (pt_answered s) gate = None" "map_of (pt_approvals s) gate = Some choices"
    "get_at choices index = Some (d, label)" "x = StepApprove gate d" "s' = s\<lparr>pt_answered := (gate, label) # pt_answered s\<rparr>"
    using assms(2) by (auto simp: decide_def split: if_splits option.splits bind_splits)
  have "(d, label) \<in> set choices" using c(3) by (metis get_at_def nth_mem option.distinct(1) option.inject)
  then have d: "d \<in> set (map fst choices)" by force
  have "approval_known es s gate choices" using assms(1) c(2) by (simp add: prompts_inv_def)
  then have "still_offered es gate d"
    using d c(1) unfolding approval_known_def still_offered_def by metis
  moreover have "prompts_inv (es @ [(op, step)]) s'"
    using assms(1,3) c Some
    by (intro prompts_inv_snoc [OF assms(1)]) (auto simp: decides_def prompts_inv_def question_known_mono split: if_splits)
  ultimately show ?thesis using Some c(4) by (simp add: step_offered_def)
qed

lemma current_ask_None: "current_ask a = None \<longleftrightarrow> length (ak_questions a) \<le> length (ak_answers a)"
  by (auto simp: current_ask_def get_at_def Let_def)

lemma give_answer_ok:
  assumes "prompts_inv es s" "give_answer x s = (step, s')" "typed_in op" "pt_question s = Some a"
    "get_at (ak_questions a) (length (ak_answers a)) = Some q" "fits q x"
  shows "prompts_inv (es @ [(op, step)]) s' \<and> (\<forall>x. step = Some x \<longrightarrow> step_offered es x)"
proof -
  let ?a = "a\<lparr>ak_answers := ak_answers a @ [x]\<rparr>"
  have known: "question_known es a" using assms(1,4) by (simp add: prompts_inv_def)
  have q: "length (ak_answers a) < length (ak_questions a)" "q = ak_questions a ! length (ak_answers a)"
    using assms(5) by (auto simp: get_at_def split: if_splits)
  then have "take (Suc (length (ak_answers a))) (ak_questions a) = take (length (ak_answers a)) (ak_questions a) @ [q]"
    by (simp add: take_Suc_conv_app_nth)
  then have fit: "list_all2 fits (take (length (ak_answers ?a)) (ak_questions ?a)) (ak_answers ?a)"
    using known assms(6) by (simp add: question_known_def list_all2_appendI)
  have asked: "was_asked es (ak_id a) (ak_questions a)" using known by (simp add: question_known_def)
  have keep: "prompts_inv (es @ [(op, step)]) (s\<lparr>pt_question := a'\<rparr>)"
    if "\<And>b. a' = Some b \<Longrightarrow> question_known es b" "\<And>g d. step \<noteq> Some (StepApprove g d)" for a'
    using that assms(1,3) by (intro prompts_inv_snoc [OF assms(1)]) (auto simp: decides_def prompts_inv_def question_known_mono split: option.splits prompt_step.splits)
  show ?thesis
  proof (cases "current_ask ?a")
    case None
    then have "length (ak_questions a) = length (ak_answers ?a)" using q(1) by (simp add: current_ask_None)
    then have "list_all2 fits (ak_questions a) (ak_answers ?a)" using fit by simp
    moreover have "\<exists>said. step = Some (StepAnswer (ak_id a) (ak_answers ?a) said)" "s' = s\<lparr>pt_question := None\<rparr>"
      using assms(2,4) None by (auto simp: give_answer_def Let_def)
    ultimately show ?thesis using keep [of None] asked by (auto simp: step_offered_def)
  next
    case (Some shown)
    then have "length (ak_answers ?a) < length (ak_questions ?a)"
      using current_ask_None [of ?a] by auto
    then have "question_known es ?a" using fit asked by (simp add: question_known_def)
    moreover have "\<exists>said. step = Some (StepAsk (ak_id a) said shown)" "s' = s\<lparr>pt_question := Some ?a\<rparr>"
      using assms(2,4) Some by (auto simp: give_answer_def Let_def)
    ultimately show ?thesis using keep [of "Some ?a"] asked by (auto simp: step_offered_def)
  qed
qed

lemma pick_labels_props:
  "distinct acc \<Longrightarrow> distinct (pick_labels acc options ns)"
  "set acc \<subseteq> set (pick_labels acc options ns)"
  by (induction acc options ns rule: pick_labels.induct) (auto simp: Let_def)

lemma pick_labels_options:
  "list_all (\<lambda>n. 1 \<le> n \<and> n \<le> length options) ns \<Longrightarrow> set acc \<subseteq> set (map qo_label options) \<Longrightarrow>
    set (pick_labels acc options ns) \<subseteq> set (map qo_label options)"
proof (induction acc options ns rule: pick_labels.induct)
  case (2 acc options n ns)
  then have "qo_label (options ! (n - 1)) \<in> set (map qo_label options)" by auto
  then show ?case using 2 by (simp add: Let_def)
qed simp

lemma pick_labels_one: "pick_labels [] options [n] = [qo_label (options ! (n - 1))]"
  by simp

lemma picked_numbers_range: "picked_numbers n t = Some ns \<Longrightarrow> list_all (\<lambda>k. 1 \<le> k \<and> k \<le> n) ns"
proof -
  have "those (map f ws) = Some ns \<Longrightarrow> (\<And>w k. f w = Some k \<Longrightarrow> 1 \<le> k \<and> k \<le> n) \<Longrightarrow> list_all (\<lambda>k. 1 \<le> k \<and> k \<le> n) ns" for f ws ns
    by (induction ws arbitrary: ns) (auto split: option.splits)
  note range = this
  assume "picked_numbers n t = Some ns"
  then show ?thesis
    unfolding picked_numbers_def by (rule range) (auto split: option.splits if_splits)
qed

lemma typed_answer_fits: "fits q (typed_answer q t)"
proof (cases "picked_numbers (length (qn_options q)) t")
  case (Some ns)
  note range = picked_numbers_range [OF Some]
  show ?thesis
  proof (cases "ns \<noteq> [] \<and> (qn_multi q \<or> length ns = 1)")
    case True
    then obtain n tail where n: "ns = n # tail" by (cases ns) auto
    have one: "qo_label (qn_options q ! (n - 1)) \<in> set (pick_labels [] (qn_options q) ns)"
      using pick_labels_props(2) [of "[qo_label (qn_options q ! (n - 1))]" "qn_options q" tail] by (simp add: n)
    have "\<not> qn_multi q \<Longrightarrow> length (pick_labels [] (qn_options q) ns) = 1" using True n by simp
    then show ?thesis
      using True Some one pick_labels_props(1) [of "[]" "qn_options q" ns] pick_labels_options [OF range, of "[]"]
      by (auto simp: typed_answer_def fits_def)
  qed (use Some in \<open>auto simp: typed_answer_def fits_def\<close>)
qed (simp add: typed_answer_def fits_def)

lemma typed_in_simps [simp]: "typed_in (Press c)" "typed_in (Reply t)"
  by (simp_all add: typed_in_def)

lemma pressed_ok:
  assumes "prompts_inv es s" "prompt_pressed choice s = (step, s')"
  shows "prompts_inv (es @ [(Press choice, step)]) s' \<and> (\<forall>x. step = Some x \<longrightarrow> step_offered es x)"
proof -
  have in_set: "get_at xs i = Some x \<Longrightarrow> x \<in> set xs" for xs :: "question_option list" and i x
    by (metis get_at_def nth_mem option.distinct(1) option.inject)
  have "(step = None \<and> s' = s) \<or> (\<exists>n index. decide n index s = (step, s')) \<or>
    (\<exists>a q o1. pt_question s = Some a \<and> get_at (ak_questions a) (length (ak_answers a)) = Some q \<and> o1 \<in> set (qn_options q) \<and>
      give_answer \<lparr>an_selected = [qo_label o1], an_other = None\<rparr> s = (step, s'))"
    using assms(2) by (auto simp: prompt_pressed_def split: list.splits option.splits if_splits bind_splits dest: in_set)
  then consider (nothing) "step = None" "s' = s" | (approval) n index where "decide n index s = (step, s')"
    | (question) a q o1 where "pt_question s = Some a" "get_at (ak_questions a) (length (ak_answers a)) = Some q" "o1 \<in> set (qn_options q)"
        "give_answer \<lparr>an_selected = [qo_label o1], an_other = None\<rparr> s = (step, s')"
    by blast
  then show ?thesis
  proof cases
    case nothing
    then show ?thesis using prompts_inv_none [OF assms(1)] by simp
  next
    case (approval n index)
    show ?thesis by (rule decide_ok [OF assms(1) approval]) simp
  next
    case (question a q o1)
    have "fits q \<lparr>an_selected = [qo_label o1], an_other = None\<rparr>" using question(3) by (simp add: fits_def)
    from give_answer_ok [OF assms(1) question(4) typed_in_simps(1) question(1,2) this] show ?thesis .
  qed
qed

lemma reply_ok:
  assumes "prompts_inv es s" "prompt_reply t s = (step, s')"
  shows "prompts_inv (es @ [(Reply t, step)]) s' \<and> (\<forall>x. step = Some x \<longrightarrow> step_offered es x)"
proof -
  define open_ones where "open_ones = filter (\<lambda>(gate, _). map_of (pt_answered s) gate = None) (pt_approvals s)"
  have go: "(step, s') = (case open_ones of
      (gate, _) # _ \<Rightarrow> (case cp_parse (cp_trim t) of Some (Suc index) \<Rightarrow> decide gate index s | _ \<Rightarrow> (None, s))
    | [] \<Rightarrow> (case pt_question s of None \<Rightarrow> (None, s)
        | Some a \<Rightarrow> (case get_at (ak_questions a) (length (ak_answers a)) of
            None \<Rightarrow> (None, s) | Some q \<Rightarrow> give_answer (typed_answer q (cp_trim t)) s)))"
    using assms(2) by (simp only: prompt_reply_def Let_def open_ones_def)
  have "(step = None \<and> s' = s) \<or> (\<exists>n index. decide n index s = (step, s')) \<or>
    (\<exists>a q. pt_question s = Some a \<and> get_at (ak_questions a) (length (ak_answers a)) = Some q \<and>
      give_answer (typed_answer q (cp_trim t)) s = (step, s'))"
  proof (cases open_ones)
    case Nil
    then show ?thesis using go by (auto split: option.splits)
  next
    case (Cons e es')
    then show ?thesis using go by (auto split: option.splits nat.splits prod.splits)
  qed
  then consider (nothing) "step = None" "s' = s" | (approval) n index where "decide n index s = (step, s')"
    | (question) a q where "pt_question s = Some a" "get_at (ak_questions a) (length (ak_answers a)) = Some q"
        "give_answer (typed_answer q (cp_trim t)) s = (step, s')"
    by blast
  then show ?thesis
  proof cases
    case nothing
    then show ?thesis using prompts_inv_none [OF assms(1)] by simp
  next
    case (approval n index)
    show ?thesis by (rule decide_ok [OF assms(1) approval]) simp
  next
    case (question a q)
    show ?thesis by (rule give_answer_ok [OF assms(1) question(3) _ question(1,2) typed_answer_fits]) simp
  qed
qed

lemma prompt_do_ok:
  assumes "prompts_inv es s" "prompt_do op s = (step, s')"
  shows "prompts_inv (es @ [(op, step)]) s' \<and> (\<forall>x. step = Some x \<longrightarrow> step_offered es x)"
proof (cases op)
  case (OfferApproval p)
  let ?e = "(OfferApproval p, None :: prompt_step option)"
  have step: "step = None" and s': "s' = snd (prompt_approval p s)" using assms(2) OfferApproval by auto
  have e: "\<not> ends_approval g ?e" "\<not> decides g ?e" for g by (auto simp: ends_approval_def decides_def)
  show ?thesis
  proof (cases "map_of (pt_approvals s) (ap_gate p)")
    case (Some cs)
    then have "s' = s" by (simp add: s' prompt_approval_def)
    moreover have "prompts_inv (es @ [?e]) s"
      using assms(1) e by (intro prompts_inv_snoc [OF assms(1)]) (auto simp: prompts_inv_def question_known_mono)
    ultimately show ?thesis using step OfferApproval by simp
  next
    case None
    let ?new = "zip (ap_choices p) (prompt_labels p)"
    have eq: "s' = s\<lparr>pt_approvals := bt_insert (ap_gate p) ?new (pt_approvals s)\<rparr>"
      using None by (simp add: s' prompt_approval_def Let_def)
    have "approval_known (es @ [?e]) s' (ap_gate p) ?new"
      unfolding approval_known_def
      by (intro exI [of _ es] exI [of _ p] exI [of _ None] exI [of _ "[]"]) (simp add: prompt_labels_def)
    moreover have "approval_known (es @ [?e]) s' g cs" if "map_of (pt_approvals s) g = Some cs" for g cs
      using assms(1) that e by (intro approval_known_snoc [where s = s]) (auto simp: prompts_inv_def eq)
    ultimately have "prompts_inv (es @ [?e]) s'"
      using assms(1) by (auto simp: prompts_inv_def eq question_known_mono split: if_splits)
    then show ?thesis using step OfferApproval by simp
  qed
next
  case (ApprovalOver gate)
  have step: "step = None" and s': "s' = snd (prompt_resolved gate s)" using assms(2) ApprovalOver by auto
  have "prompts_inv (es @ [(ApprovalOver gate, None)]) s'"
  proof (cases "map_of (pt_approvals s) gate")
    case None
    then have "s' = s" by (simp add: s' prompt_resolved_def)
    then show ?thesis using assms(1) None
      by (intro prompts_inv_snoc [OF assms(1)]) (auto simp: prompts_inv_def question_known_mono ends_approval_def decides_def)
  next
    case (Some cs)
    then have "s' = s\<lparr>pt_approvals := bt_remove gate (pt_approvals s), pt_answered := bt_remove gate (pt_answered s)\<rparr>"
      by (simp add: s' prompt_resolved_def)
    then show ?thesis using assms(1)
      by (intro prompts_inv_snoc [OF assms(1)])
        (auto simp: prompts_inv_def question_known_mono ends_approval_def decides_def split: if_splits)
  qed
  then show ?thesis using step ApprovalOver by simp
next
  case (OfferQuestion qid questions)
  have step: "step = None" and s': "s' = snd (prompt_question qid questions s)" using assms(2) OfferQuestion by auto
  have new: "question_known (es @ [(OfferQuestion qid questions, None)]) \<lparr>ak_id = qid, ak_questions = questions, ak_answers = []\<rparr>"
    if "current_ask \<lparr>ak_id = qid, ak_questions = questions, ak_answers = []\<rparr> \<noteq> None"
    using that by (auto simp: current_ask_None question_known_def was_asked_def)
  have "prompts_inv (es @ [(OfferQuestion qid questions, None)]) s'"
    using assms(1) new
    by (intro prompts_inv_snoc [OF assms(1)])
      (auto simp: s' prompts_inv_def question_known_mono ends_approval_def decides_def prompt_question_def Let_def split: if_splits)
  then show ?thesis using step OfferQuestion by simp
next
  case (QuestionOver qid)
  have step: "step = None" and s': "s' = snd (question_answered qid s)" using assms(2) QuestionOver by auto
  have "prompts_inv (es @ [(QuestionOver qid, None)]) s'"
    using assms(1)
    by (intro prompts_inv_snoc [OF assms(1)])
      (auto simp: s' prompts_inv_def question_known_mono ends_approval_def decides_def question_answered_def split: if_splits)
  then show ?thesis using step QuestionOver by simp
next
  case ChatOver
  then show ?thesis using assms by (auto simp: prompts_inv_def no_prompts_def)
qed (use assms pressed_ok reply_ok in auto)

lemma prompt_run_ok:
  "prompts_inv pre s \<Longrightarrow> prompt_run ops s = (es, s') \<Longrightarrow> es = before @ (op, Some step) # later \<Longrightarrow> step_offered (pre @ before) step"
proof (induction ops arbitrary: pre s es before)
  case (Cons o1 ops)
  obtain st s1 where st: "prompt_do o1 s = (st, s1)" by force
  obtain es1 where es1: "prompt_run ops s1 = (es1, s')" "es = (o1, st) # es1" using Cons.prems(2) st by (auto split: prod.splits)
  note ok = prompt_do_ok [OF Cons.prems(1) st]
  show ?case
  proof (cases before)
    case Nil
    then show ?thesis using ok es1(2) Cons.prems(3) by auto
  next
    case (Cons e before')
    then have "es1 = before' @ (op, Some step) # later" "e = (o1, st)" using es1(2) Cons.prems(3) by auto
    then show ?thesis using Cons.IH [of "pre @ [(o1, st)]" s1 es1 before'] ok es1(1) Cons by simp
  qed
qed simp


text \<open>A button pressed twice answers the next question of its batch as well: its data names the batch, not the question.\<close>

definition two_questions :: "question list" where
  "two_questions =
     [\<lparr>qn_prompt = cp ''Delete the branch?'', qn_header = [], qn_multi = False,
        qn_options = [\<lparr>qo_label = cp ''Keep'', qo_description = [], qo_recommended = True\<rparr>, \<lparr>qo_label = cp ''Delete'', qo_description = [], qo_recommended = False\<rparr>]\<rparr>,
      \<lparr>qn_prompt = cp ''Push now?'', qn_header = [], qn_multi = False,
        qn_options = [\<lparr>qo_label = cp ''Push'', qo_description = [], qo_recommended = False\<rparr>, \<lparr>qo_label = cp ''Wait'', qo_description = [], qo_recommended = True\<rparr>]\<rparr>]"

lemma press_first_option:
  "prompt_pressed ''q.5.0'' s =
     (case pt_question s of
        None \<Rightarrow> (None, s)
      | Some a \<Rightarrow>
          if ak_id a \<noteq> 5 then (None, s)
          else case Option.bind (get_at (ak_questions a) (length (ak_answers a))) (\<lambda>q. get_at (qn_options q) 0) of
            None \<Rightarrow> (None, s)
          | Some o1 \<Rightarrow> give_answer \<lparr>an_selected = [qo_label o1], an_other = None\<rparr> s)"
proof -
  have "parse_unsigned 64 ''5'' = Some 5" "parse_unsigned 64 ''0'' = Some 0"
    by (simp_all add: parse_unsigned_def digits_value_def strip_prefix_def starts_with_def is_ascii_digit_def)
  moreover have "split_by is_dot ''q.5.0'' = [''q'', ''5'', ''0'']" by (simp add: is_dot_def)
  ultimately show ?thesis by (simp add: prompt_pressed_def)
qed

lemma pressed_twice_events:
  "\<exists>e. fst (prompt_run [OfferQuestion 5 two_questions, Press ''q.5.0'', Press ''q.5.0''] no_prompts) =
     [(OfferQuestion 5 two_questions, None), e]
     @ (Press ''q.5.0'', Some (StepAnswer 5 [\<lparr>an_selected = [cp ''Keep''], an_other = None\<rparr>, \<lparr>an_selected = [cp ''Push''], an_other = None\<rparr>] (cp ''Push''))) # []"
  by (simp add: prompt_question_def no_prompts_def Let_def current_ask_def two_questions_def get_at_def press_first_option give_answer_def)


end
