(* ===== verification/Gateway.thy ===== *)
theory Gateway
  imports Pairing Prompts
begin

text \<open>
  The way from a messaging platform to the agent: \<open>crates/gateway/src/router.rs\<close>, the map of chats to conversations
  (\<open>gateway/src/chats.rs\<close>). The router is a machine whose steps are
  what the platform hears, what the owner does to the book at the computer, and what the links to chats do,
  in any order; the list of what was done is part of its state.
\<close>

section \<open>Chats and their conversations\<close>

datatype chat_entry =
    EmptyEntry
  | ConversationEntry string
  | ChosenEntry "string option" "string option"

definition entry_conversation :: "chat_entry \<Rightarrow> string option" where
  "entry_conversation e =
     (case e of EmptyEntry \<Rightarrow> None | ConversationEntry c \<Rightarrow> Some c | ChosenEntry c _ \<Rightarrow> c)"

definition entry_folder :: "chat_entry \<Rightarrow> string option" where
  "entry_folder e = (case e of ChosenEntry _ f \<Rightarrow> f | _ \<Rightarrow> None)"

definition entry_with :: "string option \<Rightarrow> string option \<Rightarrow> chat_entry" where
  "entry_with conversation folder =
     (case (conversation, folder) of
        (None, None) \<Rightarrow> EmptyEntry
      | (Some c, None) \<Rightarrow> ConversationEntry c
      | _ \<Rightarrow> ChosenEntry conversation folder)"

type_synonym chats = "(string \<times> chat_entry) list"

definition chat_conversation :: "chats \<Rightarrow> string \<Rightarrow> string option" where
  "chat_conversation m key = Option.bind (map_of m key) entry_conversation"

definition chat_folder :: "chats \<Rightarrow> string \<Rightarrow> string option" where
  "chat_folder m key = Option.bind (map_of m key) entry_folder"

definition change_chat ::
  "string \<Rightarrow> (string option \<Rightarrow> string option \<Rightarrow> string option \<times> string option) \<Rightarrow> chats \<Rightarrow> chats" where
  "change_chat key change m =
     (let entry = (case map_of m key of Some e \<Rightarrow> e | None \<Rightarrow> EmptyEntry);
          m' = bt_remove key m
      in case change (entry_conversation entry) (entry_folder entry) of
           (conversation, folder) \<Rightarrow>
             (case entry_with conversation folder of EmptyEntry \<Rightarrow> m' | e \<Rightarrow> bt_insert key e m'))"

definition remember_chat :: "string \<Rightarrow> string \<Rightarrow> chats \<Rightarrow> chats" where
  "remember_chat key conversation = change_chat key (\<lambda>_ folder. (Some conversation, folder))"

definition choose_folder :: "string \<Rightarrow> string \<Rightarrow> chats \<Rightarrow> chats" where
  "choose_folder key folder = change_chat key (\<lambda>_ _. (None, Some folder))"

definition forget_chat :: "string \<Rightarrow> chats \<Rightarrow> chats" where
  "forget_chat key = change_chat key (\<lambda>_ folder. (None, folder))"

definition all_chats :: "chats \<Rightarrow> (string \<times> string) list" where
  "all_chats m = List.map_filter (\<lambda>(key, e). map_option (\<lambda>c. (key, c)) (entry_conversation e)) m"

definition chat_key :: "string \<Rightarrow> string \<Rightarrow> string" where
  "chat_key platform chat = platform @ '':'' @ chat"

lemma entry_with_reads [simp]:
  "entry_conversation (entry_with c f) = c" "entry_folder (entry_with c f) = f"
  by (auto simp: entry_with_def entry_conversation_def entry_folder_def split: option.splits prod.splits)

lemma entry_with_empty: "entry_with c f = EmptyEntry \<longleftrightarrow> c = None \<and> f = None"
  by (auto simp: entry_with_def split: option.splits)

text \<open>A change moves one chat and no other, and both of its parts are read back as they were left.\<close>

lemma chat_after_change:
  "chat_conversation (change_chat key change m) k =
     (if k = key then fst (change (chat_conversation m key) (chat_folder m key)) else chat_conversation m k)"
  "chat_folder (change_chat key change m) k =
     (if k = key then snd (change (chat_conversation m key) (chat_folder m key)) else chat_folder m k)"
proof -
  define entry where "entry = (case map_of m key of Some e \<Rightarrow> e | None \<Rightarrow> EmptyEntry)"
  have parts: "entry_conversation entry = chat_conversation m key" "entry_folder entry = chat_folder m key"
    by (simp_all add: entry_def chat_conversation_def chat_folder_def entry_conversation_def entry_folder_def split: option.split)
  obtain c f where cf: "change (chat_conversation m key) (chat_folder m key) = (c, f)" by force
  note cf' = cf [unfolded chat_conversation_def chat_folder_def]
  have after: "change_chat key change m =
      (if entry_with c f = EmptyEntry then bt_remove key m else bt_insert key (entry_with c f) (bt_remove key m))"
    by (simp add: change_chat_def Let_def parts cf flip: entry_def split: chat_entry.split)
  show "chat_conversation (change_chat key change m) k =
     (if k = key then fst (change (chat_conversation m key) (chat_folder m key)) else chat_conversation m k)"
    by (auto simp: after cf' chat_conversation_def chat_folder_def entry_with_empty)
  show "chat_folder (change_chat key change m) k =
     (if k = key then snd (change (chat_conversation m key) (chat_folder m key)) else chat_folder m k)"
    by (auto simp: after cf' chat_conversation_def chat_folder_def entry_with_empty)
qed

text \<open>Two platforms' chats never share a key, as long as no platform's name holds a colon.\<close>

lemma chat_key_inj:
  assumes "CHR '':'' \<notin> set p" "CHR '':'' \<notin> set q"
  shows "chat_key p c = chat_key q d \<longleftrightarrow> p = q \<and> c = d"
proof
  assume eq: "chat_key p c = chat_key q d"
  have "takeWhile (\<lambda>x. x \<noteq> CHR '':'') (chat_key r e) = r" if "CHR '':'' \<notin> set r" for r e
    using that by (simp add: chat_key_def) (induction r, auto)
  then have "p = q" using assms eq by metis
  then show "p = q \<and> c = d" using eq by (simp add: chat_key_def)
qed simp

section \<open>Routing\<close>

record incoming =
  ic_chat :: string
  ic_user :: string
  ic_name :: string
  ic_text :: string
  ic_files :: "string list"
  ic_group :: bool
  ic_mentioned :: bool

datatype heard = HeardMessage incoming | HeardPress string string string

datatype link_input = InMessage incoming | InPress string | InResume

datatype router_notice =
    CodeNotice string
  | AskedNotice string string
  | TooManyNotice

definition notice_text :: "string \<Rightarrow> router_notice \<Rightarrow> string" where
  "notice_text platform n =
     (case n of
        CodeNotice code \<Rightarrow>
          ''Medha does not know you yet. To let you in, the owner of this Medha runs this on their computer:'' @ [CHR 0x0A, CHR 0x0A]
          @ ''medha pairing approve '' @ platform @ '' '' @ code @ [CHR 0x0A, CHR 0x0A] @ ''The code works for one hour.''
      | AskedNotice name user \<Rightarrow>
          name @ '' ('' @ user @ '') asked to message Medha on '' @ platform
          @ ''. If you know them, ask for the code they were sent and run: medha pairing approve '' @ platform @ '' <code>''
      | TooManyNotice \<Rightarrow> ''Too many messages at once. Wait for the reply.'')"

datatype router_event =
    WasHeard heard
  | WasPaired pair_op pair_answer
  | WasSent string router_notice
  | WasDelivered string link_input
  | LinkStarted string

text \<open>A link's inbox: what waits in it, and whether its link let go.\<close>

record inbox =
  ib_waiting :: "link_input list"
  ib_closed :: bool

record router =
  rt_platform :: string
  rt_book :: "book stored"
  rt_live :: "(string \<times> inbox) list"
  rt_home :: "string option"
  rt_done :: "router_event list"

definition WAITING :: nat where "WAITING = 32"

definition router_note :: "router_event \<Rightarrow> router \<Rightarrow> router" where
  "router_note e s = s\<lparr>rt_done := rt_done s @ [e]\<rparr>"

definition new_link :: "string \<Rightarrow> string \<Rightarrow> link_input \<Rightarrow> router \<Rightarrow> router" where
  "new_link key chat input s =
     router_note (WasDelivered chat input)
       (router_note (LinkStarted key) (s\<lparr>rt_live := bt_insert key \<lparr>ib_waiting = [input], ib_closed = False\<rparr> (rt_live s)\<rparr>))"

definition deliver :: "string \<Rightarrow> link_input \<Rightarrow> router \<Rightarrow> router" where
  "deliver chat input s =
     (let key = chat_key (rt_platform s) chat in
      case map_of (rt_live s) key of
        None \<Rightarrow> new_link key chat input s
      | Some inbox \<Rightarrow>
          if ib_closed inbox then new_link key chat input s
          else if length (ib_waiting inbox) < WAITING
          then router_note (WasDelivered chat input)
                 (s\<lparr>rt_live := bt_insert key (inbox\<lparr>ib_waiting := ib_waiting inbox @ [input]\<rparr>) (rt_live s)\<rparr>)
          else router_note (WasSent chat TooManyNotice) s)"

text \<open>A step of the book, noted with its answer.\<close>

definition router_pair :: "(string \<Rightarrow> string) \<Rightarrow> pair_op \<Rightarrow> pair_write \<Rightarrow> router \<Rightarrow> pair_answer \<times> router" where
  "router_pair sha op write s =
     (case pair_step sha op write (rt_book s) of (a, book) \<Rightarrow> (a, router_note (WasPaired op a) (s\<lparr>rt_book := book\<rparr>)))"

text \<open>The owner hears who asked; the code stays with the person who asked for it.\<close>

definition tell_home :: "incoming \<Rightarrow> string \<Rightarrow> router \<Rightarrow> router" where
  "tell_home message name s =
     (case rt_home s of
        None \<Rightarrow> s
      | Some home \<Rightarrow> if home = ic_chat message then s else router_note (WasSent home (AskedNotice name (ic_user message))) s)"

definition stranger ::
  "(string \<Rightarrow> string) \<Rightarrow> incoming \<Rightarrow> nat \<Rightarrow> string + string \<times> string \<Rightarrow> pair_write \<Rightarrow> router \<Rightarrow> router" where
  "stranger sha message now rand write s =
     (if ic_group message then s
      else
        let name = (if ic_name message = [] then ic_user message else ic_name message)
        in case router_pair sha (AskCode (rt_platform s) (ic_user message) name now rand) write s of
             (CodeGiven code, s') \<Rightarrow> tell_home message name (router_note (WasSent (ic_chat message) (CodeNotice code)) s')
           | (_, s') \<Rightarrow> s')"

definition route ::
  "(string \<Rightarrow> string) \<Rightarrow> heard \<Rightarrow> nat \<Rightarrow> string + string \<times> string \<Rightarrow> pair_write \<Rightarrow> router \<Rightarrow> router" where
  "route sha h now rand write s0 =
     (let s = router_note (WasHeard h) s0 in
      case h of
        HeardMessage message \<Rightarrow>
          if ic_group message \<and> \<not> ic_mentioned message then s
          else (case is_approved (rt_book s) (rt_platform s) (ic_user message) of
                  Inr True \<Rightarrow> deliver (ic_chat message) (InMessage message) s
                | Inr False \<Rightarrow> stranger sha message now rand write s
                | Inl _ \<Rightarrow> s)
      | HeardPress chat user choice \<Rightarrow>
          if is_approved (rt_book s) (rt_platform s) user = Inr True then deliver chat (InPress choice) s else s)"

text \<open>At the start the chats left running are followed again: those of this platform the backend still lists.\<close>

definition resume_running :: "chats \<Rightarrow> string list \<Rightarrow> router \<Rightarrow> router" where
  "resume_running known live s =
     fold (\<lambda>(key, conversation) s.
       case strip_prefix (chat_key (rt_platform s) []) key of
         None \<Rightarrow> s
       | Some chat \<Rightarrow> if conversation \<in> set live then deliver chat InResume s else s) (all_chats known) s"

datatype router_op =
    Hears heard nat "string + string \<times> string" pair_write
  | OwnerDoes pair_op pair_write
  | LinkTakes string
  | LinkLetsGo string
  | Sweep
  | Resumes chats "string list"
  | SetsHome "string option"

definition change_inbox :: "string \<Rightarrow> (inbox \<Rightarrow> inbox) \<Rightarrow> router \<Rightarrow> router" where
  "change_inbox key f s =
     (case map_of (rt_live s) key of Some i \<Rightarrow> s\<lparr>rt_live := bt_insert key (f i) (rt_live s)\<rparr> | None \<Rightarrow> s)"

fun router_step :: "(string \<Rightarrow> string) \<Rightarrow> router_op \<Rightarrow> router \<Rightarrow> router" where
  "router_step sha (Hears h now rand write) s = route sha h now rand write s"
| "router_step sha (OwnerDoes op write) s = snd (router_pair sha op write s)"
| "router_step sha (LinkTakes key) s = change_inbox key (\<lambda>i. i\<lparr>ib_waiting := tl (ib_waiting i)\<rparr>) s"
| "router_step sha (LinkLetsGo key) s = change_inbox key (\<lambda>i. i\<lparr>ib_closed := True\<rparr>) s"
| "router_step sha Sweep s = s\<lparr>rt_live := filter (\<lambda>(_, i). \<not> ib_closed i) (rt_live s)\<rparr>"
| "router_step sha (Resumes known live) s = resume_running known live s"
| "router_step sha (SetsHome home) s = s\<lparr>rt_home := home\<rparr>"

definition router_run :: "(string \<Rightarrow> string) \<Rightarrow> router_op list \<Rightarrow> router \<Rightarrow> router" where
  "router_run sha ops s = fold (router_step sha) ops s"

definition router_start :: "string \<Rightarrow> book stored \<Rightarrow> string option \<Rightarrow> router" where
  "router_start platform book home =
     \<lparr>rt_platform = platform, rt_book = book, rt_live = [], rt_home = home, rt_done = []\<rparr>"

section \<open>Nobody reaches the agent before the owner let them in\<close>

fun heard_user :: "heard \<Rightarrow> string" where
  "heard_user (HeardMessage m) = ic_user m"
| "heard_user (HeardPress _ user _) = user"

text \<open>What a heard item is for its chat, and whether it is meant for the agent.\<close>

fun heard_input :: "heard \<Rightarrow> string \<times> link_input" where
  "heard_input (HeardMessage m) = (ic_chat m, InMessage m)"
| "heard_input (HeardPress chat _ choice) = (chat, InPress choice)"

fun addressed :: "heard \<Rightarrow> bool" where
  "addressed (HeardMessage m) = (\<not> ic_group m \<or> ic_mentioned m)"
| "addressed (HeardPress _ _ _) = True"

fun paired :: "router_event list \<Rightarrow> pair_event list" where
  "paired [] = []"
| "paired (WasPaired op a # es) = (op, a) # paired es"
| "paired (_ # es) = paired es"

lemma paired_append [simp]: "paired (es @ fs) = paired es @ paired fs"
  by (induction es rule: paired.induct) auto

text \<open>One the book approves after these steps: of the book at the start, admitted by name, or let in by a code of
  their own, and not revoked since.\<close>

definition owner_allowed :: "(string \<Rightarrow> string) \<Rightarrow> book \<Rightarrow> pair_event list \<Rightarrow> string \<Rightarrow> string \<Rightarrow> bool" where
  "owner_allowed sha b0 es platform user \<longleftrightarrow>
     (\<exists>steps book. pair_run sha steps (Inr b0) = (es, book) \<and> is_approved book platform user = Inr True) \<and>
     (book_approves b0 platform user \<or> (\<exists>name. (Admit platform user name, Admitted) \<in> set es) \<or> let_in_by_code sha es platform user)"

definition rightly_done :: "(string \<Rightarrow> string) \<Rightarrow> string \<Rightarrow> book \<Rightarrow> router_event list \<Rightarrow> router_event \<Rightarrow> bool" where
  "rightly_done sha platform b0 before e \<longleftrightarrow>
     (case e of
        WasDelivered chat input \<Rightarrow>
          input = InResume \<or>
          (\<exists>b1 h. heard_input h = (chat, input) \<and> addressed h \<and> owner_allowed sha b0 (paired b1) platform (heard_user h) \<and>
             (before = b1 @ [WasHeard h] \<or> before = b1 @ [WasHeard h, LinkStarted (chat_key platform chat)]))
      | WasSent chat (CodeNotice code) \<Rightarrow>
          (\<exists>b1 m name now rand. \<not> ic_group m \<and> ic_chat m = chat \<and>
             before = b1 @ [WasHeard (HeardMessage m), WasPaired (AskCode platform (ic_user m) name now rand) (CodeGiven code)])
      | _ \<Rightarrow> True)"

definition router_inv :: "(string \<Rightarrow> string) \<Rightarrow> string \<Rightarrow> book \<Rightarrow> router \<Rightarrow> bool" where
  "router_inv sha platform b0 s \<longleftrightarrow>
     rt_platform s = platform \<and>
     (\<exists>steps. pair_run sha steps (Inr b0) = (paired (rt_done s), rt_book s)) \<and>
     (\<forall>before e later. rt_done s = before @ e # later \<longrightarrow> rightly_done sha platform b0 before e) \<and>
     (\<forall>(key, i) \<in> set (rt_live s). length (ib_waiting i) \<le> WAITING)"

lemma router_inv_note:
  assumes "router_inv sha p b0 s" "rightly_done sha p b0 (rt_done s) e" "paired [e] = []"
  shows "router_inv sha p b0 (router_note e s)"
proof -
  have "rightly_done sha p b0 before x" if "rt_done s @ [e] = before @ x # later" for before x later
    using that assms(1,2) by (cases later rule: rev_cases) (auto simp: router_inv_def)
  then show ?thesis using assms by (simp add: router_inv_def router_note_def)
qed

lemma set_bt_insert: "set (bt_insert k v m) \<subseteq> insert (k, v) (set m)"
  by (induction m) (auto split: if_splits)

lemma router_inv_live:
  "router_inv sha p b0 s \<Longrightarrow> \<forall>(key, i) \<in> set live. length (ib_waiting i) \<le> WAITING \<Longrightarrow> router_inv sha p b0 (s\<lparr>rt_live := live\<rparr>)"
  by (simp add: router_inv_def)

lemma router_inv_insert:
  "router_inv sha p b0 s \<Longrightarrow> length (ib_waiting i) \<le> WAITING \<Longrightarrow> router_inv sha p b0 (s\<lparr>rt_live := bt_insert key i (rt_live s)\<rparr>)"
  using set_bt_insert [of key i "rt_live s"] by (intro router_inv_live) (auto simp: router_inv_def)

lemma router_inv_deliver:
  assumes "router_inv sha p b0 s" "input = InResume \<or> (\<exists>b1 h. heard_input h = (chat, input) \<and> addressed h \<and>
      owner_allowed sha b0 (paired b1) p (heard_user h) \<and> rt_done s = b1 @ [WasHeard h])"
  shows "router_inv sha p b0 (deliver chat input s)"
proof -
  let ?key = "chat_key p chat"
  have p: "rt_platform s = p" using assms(1) by (simp add: router_inv_def)
  have right: "rightly_done sha p b0 (rt_done s) (WasDelivered chat input)"
    using assms(2) unfolding rightly_done_def router_event.case by blast
  have "input = InResume \<or> (\<exists>b1 h. heard_input h = (chat, input) \<and> addressed h \<and>
      owner_allowed sha b0 (paired b1) p (heard_user h) \<and> rt_done s @ [LinkStarted ?key] = b1 @ [WasHeard h, LinkStarted ?key])"
    using assms(2) by (elim disjE exE conjE) simp_all
  then have right': "rightly_done sha p b0 (rt_done s @ [LinkStarted ?key]) (WasDelivered chat input)"
    unfolding rightly_done_def router_event.case by blast
  have fresh: "router_inv sha p b0 (new_link ?key chat input s)"
    unfolding new_link_def
    using right' by (intro router_inv_note router_inv_insert assms(1)) (simp_all add: router_note_def WAITING_def rightly_done_def)
  show ?thesis
  proof (cases "map_of (rt_live s) ?key")
    case None
    then show ?thesis using fresh by (simp add: deliver_def p Let_def)
  next
    case (Some i)
    have "router_inv sha p b0 (router_note (WasDelivered chat input) (s\<lparr>rt_live := bt_insert ?key (i\<lparr>ib_waiting := ib_waiting i @ [input]\<rparr>) (rt_live s)\<rparr>))"
      if "length (ib_waiting i) < WAITING"
      using that right(1) by (intro router_inv_note router_inv_insert assms(1)) auto
    moreover have "router_inv sha p b0 (router_note (WasSent chat TooManyNotice) s)"
      by (intro router_inv_note assms(1)) (auto simp: rightly_done_def)
    ultimately show ?thesis using Some fresh by (simp add: deliver_def p Let_def)
  qed
qed

lemma router_inv_pair:
  assumes "router_inv sha p b0 s" "router_pair sha op write s = (a, s')"
  shows "router_inv sha p b0 s' \<and> rt_done s' = rt_done s @ [WasPaired op a] \<and> rt_platform s' = p"
proof -
  obtain steps where run: "pair_run sha steps (Inr b0) = (paired (rt_done s), rt_book s)" using assms(1) by (auto simp: router_inv_def)
  obtain book where step: "pair_step sha op write (rt_book s) = (a, book)"
    and s': "s' = router_note (WasPaired op a) (s\<lparr>rt_book := book\<rparr>)"
    using assms(2) by (auto simp: router_pair_def split: prod.splits)
  have run': "pair_run sha (steps @ [(op, write)]) (Inr b0) = (paired (rt_done s @ [WasPaired op a]), book)"
    by (simp add: pair_run_snoc run step)
  have "rightly_done sha p b0 before x" if "rt_done s @ [WasPaired op a] = before @ x # later" for before x later
    using that assms(1) by (cases later rule: rev_cases) (auto simp: router_inv_def rightly_done_def)
  then have "router_inv sha p b0 s'"
    unfolding router_inv_def
    using assms(1) run' by (intro conjI exI [of _ "steps @ [(op, write)]"]) (auto simp: s' router_note_def router_inv_def)
  then show ?thesis using assms(1) by (simp add: s' router_note_def router_inv_def)
qed

lemma router_allowed:
  assumes "router_inv sha p b0 s" "bk_pending b0 = []" "is_approved (rt_book s) p user = Inr True"
  shows "owner_allowed sha b0 (paired (rt_done s)) p user"
proof -
  obtain steps where run: "pair_run sha steps (Inr b0) = (paired (rt_done s), rt_book s)" using assms(1) by (auto simp: router_inv_def)
  obtain b where b: "rt_book s = Inr b" "book_approves b p user" using assms(3) by (cases "rt_book s") (auto simp: is_approved_def)
  have "book_approves b0 p user \<or> (\<exists>n. (Admit p user n, Admitted) \<in> set (paired (rt_done s))) \<or>
      let_in_by_code sha (paired (rt_done s)) p user"
    using pair_inv_run [OF run assms(2)] b unfolding pair_inv_def by fastforce
  then show ?thesis using run assms(3) unfolding owner_allowed_def by blast
qed

lemma router_inv_stranger:
  assumes "router_inv sha p b0 s" "rt_done s = b1 @ [WasHeard (HeardMessage m)]"
  shows "router_inv sha p b0 (stranger sha m now rand write s)"
proof (cases "ic_group m")
  case True
  then show ?thesis using assms(1) by (simp add: stranger_def)
next
  case False
  let ?name = "if ic_name m = [] then ic_user m else ic_name m"
  have p: "rt_platform s = p" using assms(1) by (simp add: router_inv_def)
  obtain a s' where pr: "router_pair sha (AskCode p (ic_user m) ?name now rand) write s = (a, s')" by force
  note inv = router_inv_pair [OF assms(1) pr]
  have home: "router_inv sha p b0 (tell_home m name t)" if "router_inv sha p b0 t" for name t
    using that by (auto simp: tell_home_def rightly_done_def intro: router_inv_note split: option.split)
  show ?thesis
  proof (cases "\<exists>code. a = CodeGiven code")
    case True
    then obtain code where a: "a = CodeGiven code" by blast
    have "rightly_done sha p b0 (rt_done s') (WasSent (ic_chat m) (CodeNotice code))"
      using inv assms(2) a False by (auto simp: rightly_done_def)
    then have "router_inv sha p b0 (router_note (WasSent (ic_chat m) (CodeNotice code)) s')"
      using inv by (intro router_inv_note) auto
    then show ?thesis using home pr a False by (simp add: stranger_def p Let_def)
  next
    case False
    then show ?thesis using inv pr \<open>\<not> ic_group m\<close> by (cases a) (simp_all add: stranger_def p Let_def)
  qed
qed

lemma router_inv_route:
  assumes "router_inv sha p b0 s" "bk_pending b0 = []"
  shows "router_inv sha p b0 (route sha h now rand write s)"
proof -
  let ?s = "router_note (WasHeard h) s"
  have inv: "router_inv sha p b0 ?s"
    using assms(1) by (intro router_inv_note) (auto simp: rightly_done_def)
  have p: "rt_platform (router_note x s) = p" for x using inv by (simp add: router_inv_def router_note_def)
  have heard: "rt_done ?s = rt_done s @ [WasHeard h]" and book: "rt_book ?s = rt_book s" by (simp_all add: router_note_def)
  have through: "router_inv sha p b0 (deliver chat input ?s)"
    if "is_approved (rt_book ?s) p (heard_user h) = Inr True" "heard_input h = (chat, input)" "addressed h" for chat input
    using that inv heard router_allowed [OF assms that(1) [unfolded book]] by (intro router_inv_deliver) blast+
  show ?thesis
  proof (cases h)
    case (HeardMessage m)
    have ask: "router_inv sha p b0 (stranger sha m now rand write ?s)"
      by (rule router_inv_stranger [OF inv, of "rt_done s"]) (use heard HeardMessage in simp)
    show ?thesis
      using inv ask through [of "ic_chat m" "InMessage m"]
      by (auto simp: route_def Let_def HeardMessage p split: sum.splits bool.splits)
  next
    case (HeardPress chat user choice)
    then show ?thesis using inv through [of chat "InPress choice"] by (auto simp: route_def Let_def p)
  qed
qed

lemma router_inv_resume:
  assumes "router_inv sha p b0 s"
  shows "router_inv sha p b0 (resume_running known live s)"
proof -
  let ?f = "\<lambda>(key, conversation) s. case strip_prefix (chat_key (rt_platform s) []) key of
      None \<Rightarrow> s | Some chat \<Rightarrow> if conversation \<in> set live then deliver chat InResume s else s"
  have "router_inv sha p b0 (fold ?f xs s)" for xs
    using assms by (induction xs arbitrary: s) (auto simp: router_inv_deliver split: option.split)
  then show ?thesis by (simp add: resume_running_def)
qed

lemma router_inv_change:
  assumes "router_inv sha p b0 s" "\<And>i. length (ib_waiting (f i)) \<le> length (ib_waiting i)"
  shows "router_inv sha p b0 (change_inbox key f s)"
proof (cases "map_of (rt_live s) key")
  case (Some i)
  then have "length (ib_waiting i) \<le> WAITING" using assms(1) by (auto simp: router_inv_def dest: map_of_SomeD)
  then show ?thesis using assms Some by (simp add: change_inbox_def router_inv_insert le_trans [OF assms(2)])
qed (simp add: change_inbox_def assms)

lemma router_inv_step:
  assumes "router_inv sha p b0 s" "bk_pending b0 = []"
  shows "router_inv sha p b0 (router_step sha op s)"
proof (cases op)
  case (OwnerDoes o' wr)
  then show ?thesis using router_inv_pair [OF assms(1)] by (cases "router_pair sha o' wr s") auto
next
  case Sweep
  then show ?thesis using assms(1) by (auto simp: router_inv_def)
next
  case (SetsHome home)
  then show ?thesis using assms(1) by (simp add: router_inv_def)
qed (auto intro!: assms router_inv_route router_inv_change router_inv_resume)

lemma router_inv_run:
  "router_inv sha p b0 s \<Longrightarrow> bk_pending b0 = [] \<Longrightarrow> router_inv sha p b0 (router_run sha ops s)"
  unfolding router_run_def by (induction ops arbitrary: s) (simp_all add: router_inv_step)

lemma router_inv_start: "router_inv sha p b0 (router_start p (Inr b0) home)"
  by (simp add: router_inv_def router_start_def exI [where x = "[]"])

text \<open>C22. From the start with no code waiting, in any order of what the platform hears, what the owner does
  at the computer and what the links do: an input reaches a chat's link only right after it was heard from a
  user the owner had let in by then and, in a group, addressed to the agent (or as the router's own call to
  follow a running task); a pairing code is sent only to the private chat of the person it was made for,
  right after it was made; and no inbox ever holds more than thirty-two inputs.\<close>

theorem nobody_reaches_the_agent_unpaired:
  assumes "bk_pending b0 = []" "s = router_run sha ops (router_start platform (Inr b0) home)"
  shows "(\<forall>before e later. rt_done s = before @ e # later \<longrightarrow> rightly_done sha platform b0 before e) \<and>
    (\<forall>(key, i) \<in> set (rt_live s). length (ib_waiting i) \<le> 32)"
proof -
  have "router_inv sha platform b0 s" unfolding assms(2) by (rule router_inv_run [OF router_inv_start assms(1)])
  then show ?thesis by (simp add: router_inv_def WAITING_def)
qed

text \<open>Asha writes, is sent a code, the owner types it, and her next message reaches her chat's link.\<close>

definition asha_writes :: "string \<Rightarrow> heard" where
  "asha_writes words = HeardMessage \<lparr>ic_chat = ''9'', ic_user = ''42'', ic_name = ''Asha'', ic_text = words, ic_files = [],
     ic_group = False, ic_mentioned = False\<rparr>"

definition asha_ops :: "router_op list" where
  "asha_ops =
     [Hears (asha_writes ''hi'') 1000 (Inr (eight_bytes, eight_bytes)) (\<lambda>_ _. None),
      OwnerDoes (Approve ''telegram'' ''abcd efgh'' 1002) (\<lambda>_ _. None),
      Hears (asha_writes ''hello'') 1003 (Inr (eight_bytes, eight_bytes)) (\<lambda>_ _. None)]"

lemma asha_done:
  "rt_done (router_run plain_sha asha_ops (router_start ''telegram'' (Inr empty_book) None)) =
     [WasHeard (asha_writes ''hi''),
      WasPaired (AskCode ''telegram'' ''42'' ''Asha'' 1000 (Inr (eight_bytes, eight_bytes))) (CodeGiven ''ABCDEFGH''),
      WasSent ''9'' (CodeNotice ''ABCDEFGH''),
      WasPaired (Approve ''telegram'' ''abcd efgh'' 1002) (LetIn \<lparr>ps_platform = ''telegram'', ps_user = ''42'', ps_name = ''Asha''\<rparr>),
      WasHeard (asha_writes ''hello''),
      LinkStarted ''telegram:9'',
      WasDelivered ''9'' (InMessage \<lparr>ic_chat = ''9'', ic_user = ''42'', ic_name = ''Asha'', ic_text = ''hello'', ic_files = [],
         ic_group = False, ic_mentioned = False\<rparr>)]"
  by code_simp

theorem nobody_reaches_the_agent_unpaired_witness:
  "rightly_done plain_sha ''telegram'' empty_book
     (butlast (rt_done (router_run plain_sha asha_ops (router_start ''telegram'' (Inr empty_book) None))))
     (WasDelivered ''9'' (InMessage \<lparr>ic_chat = ''9'', ic_user = ''42'', ic_name = ''Asha'', ic_text = ''hello'', ic_files = [],
         ic_group = False, ic_mentioned = False\<rparr>))"
proof -
  let ?s = "router_run plain_sha asha_ops (router_start ''telegram'' (Inr empty_book) None)"
  have start: "bk_pending empty_book = []" by (simp add: empty_book_def)
  have "rt_done ?s = butlast (rt_done ?s) @ [WasDelivered ''9'' (InMessage \<lparr>ic_chat = ''9'', ic_user = ''42'', ic_name = ''Asha'',
      ic_text = ''hello'', ic_files = [], ic_group = False, ic_mentioned = False\<rparr>)]"
    by (simp add: asha_done)
  then show ?thesis using nobody_reaches_the_agent_unpaired [OF start refl, of plain_sha asha_ops "''telegram''" None] by blast
qed

end
