(* ===== verification/ChatReply.thy ===== *)
theory ChatReply
  imports ChatText
begin

text \<open>
  What a chat reads of a turn: \<open>crates/gateway/src/reply.rs\<close>. The model's words are held until something else is
  to be shown or the turn ends, a message the chat itself sent is not shown back, and every ending that
  matters is said once. Only what the reply reads of an event of the client protocol is in the model's events.
\<close>

section \<open>The reply\<close>

datatype turn_outcome =
    OFinished
  | OCancelled
  | ORefused
  | OTokenLimit
  | ORequestLimit
  | OFailed cps

datatype chat_event =
    EText cps
  | EToolCall
  | EToolStarted
  | EUser cps
  | ESteered cps
  | ENotice cps
  | EError cps
  | EVerify bool cps
  | EReturned "cps list"
  | ERestarted
  | EProjectTrust bool cps
  | ESettled turn_outcome
  | EOther

record chat_reply =
  rl_text :: cps
  rl_sent :: "cps list"
  rl_error :: "cps option"

definition fresh_reply :: chat_reply where
  "fresh_reply = \<lparr>rl_text = [], rl_sent = [], rl_error = None\<rparr>"

definition reply_sent :: "cps \<Rightarrow> chat_reply \<Rightarrow> chat_reply" where
  "reply_sent content r = (let s = rl_sent r @ [cp_trim content] in r\<lparr>rl_sent := drop (length s - 16) s\<rparr>)"

definition reply_flush :: "chat_reply \<Rightarrow> cps list \<times> chat_reply" where
  "reply_flush r =
     (let t = cp_trim (rl_text r); r' = r\<lparr>rl_text := []\<rparr> in if t = [] then ([], r') else ([t], r'))"

definition reply_then :: "cps \<Rightarrow> chat_reply \<Rightarrow> cps list \<times> chat_reply" where
  "reply_then message r = (case reply_flush r of (messages, r') \<Rightarrow> (messages @ [message], r'))"

definition reply_echo :: "cps \<Rightarrow> chat_reply \<Rightarrow> cps list \<times> chat_reply" where
  "reply_echo content0 r =
     (let content = cp_trim content0
      in case position (\<lambda>sent. sent = content) (rl_sent r) of
           Some at \<Rightarrow> reply_flush (r\<lparr>rl_sent := remove_at at (rl_sent r)\<rparr>)
         | None \<Rightarrow> reply_then (cp ''From another screen: '' @ content) r)"

definition reply_ending :: "turn_outcome \<Rightarrow> chat_reply \<Rightarrow> cps option \<times> chat_reply" where
  "reply_ending outcome r =
     (case outcome of
        OFinished \<Rightarrow> None
      | OCancelled \<Rightarrow> Some (cp ''Stopped.'')
      | ORefused \<Rightarrow> Some (cp ''The model declined to answer.'')
      | OTokenLimit \<Rightarrow> Some (cp ''The reply stopped at the model'' @ [39] @ cp ''s length limit.'')
      | ORequestLimit \<Rightarrow> Some (cp ''Stopped at the limit of model requests for one task.'')
      | OFailed message \<Rightarrow> if rl_error r = Some message then None else Some (cp ''Failed: '' @ message),
      r\<lparr>rl_error := None\<rparr>)"

fun reply_event :: "chat_event \<Rightarrow> chat_reply \<Rightarrow> cps list \<times> chat_reply" where
  "reply_event (EText delta) r = ([], r\<lparr>rl_text := rl_text r @ delta\<rparr>)"
| "reply_event EToolCall r = reply_flush r"
| "reply_event EToolStarted r = reply_flush r"
| "reply_event (EUser content) r = reply_echo content r"
| "reply_event (ESteered content) r = reply_echo content r"
| "reply_event (ENotice t) r = reply_then t r"
| "reply_event (EError message) r = reply_then (cp ''Error: '' @ message) (r\<lparr>rl_error := Some message\<rparr>)"
| "reply_event (EVerify ok summary) r =
     reply_then (cp ''Check '' @ cp (if ok then ''passed'' else ''failed'') @ cp '': '' @ summary) r"
| "reply_event (EReturned contents) r =
     reply_then (cp ''Not sent, send again if still wanted:'' @ [10] @ join_with [10] contents) r"
| "reply_event ERestarted r = reply_then (cp ''The model stopped mid-reply; trying again.'') r"
| "reply_event (EProjectTrust trusted root) r =
     (if trusted then ([], r)
      else reply_then (cp ''This folder'' @ [39] @ cp ''s own skills and settings are off until you trust it: run `medha trust --yes` in ''
             @ root @ cp ''.'') r)"
| "reply_event (ESettled outcome) r =
     (case reply_flush r of (messages, r1) \<Rightarrow>
        (case reply_ending outcome r1 of
           (Some said, r2) \<Rightarrow> (messages @ [said], r2)
         | (None, r2) \<Rightarrow> (messages, r2)))"
| "reply_event EOther r = ([], r)"

fun reply_run :: "chat_event list \<Rightarrow> chat_reply \<Rightarrow> cps list \<times> chat_reply" where
  "reply_run [] r = ([], r)"
| "reply_run (e # es) r =
     (case reply_event e r of (out, r1) \<Rightarrow> (case reply_run es r1 of (out', r2) \<Rightarrow> (out @ out', r2)))"

section \<open>The transcript behind the messages\<close>

text \<open>A turn as it happened: pieces of the model's words, points where words are due, and what is said besides.\<close>

datatype piece = Words cps | Due | Says cps

definition paragraph_of :: "cps \<Rightarrow> cps list" where
  "paragraph_of held = (if cp_trim held = [] then [] else [cp_trim held])"

fun shown :: "cps \<Rightarrow> piece list \<Rightarrow> cps list" where
  "shown held [] = paragraph_of held"
| "shown held (Words d # ps) = shown (held @ d) ps"
| "shown held (Due # ps) = paragraph_of held @ shown [] ps"
| "shown held (Says m # ps) = paragraph_of held @ m # shown [] ps"

text \<open>What an event adds, given what this chat sent and the last error.\<close>

fun pieces_of :: "chat_event \<Rightarrow> cps list \<Rightarrow> cps option \<Rightarrow> piece list" where
  "pieces_of (EText d) _ _ = [Words d]"
| "pieces_of EToolCall _ _ = [Due]"
| "pieces_of EToolStarted _ _ = [Due]"
| "pieces_of (ESettled outcome) _ error =
     (case fst (reply_ending outcome \<lparr>rl_text = [], rl_sent = [], rl_error = error\<rparr>) of Some m \<Rightarrow> [Says m] | None \<Rightarrow> [Due])"
| "pieces_of (EProjectTrust trusted root) _ _ =
     (if trusted then [] else map Says (fst (reply_event (EProjectTrust False root) fresh_reply)))"
| "pieces_of (EUser c) sent _ =
     (if cp_trim c \<in> set sent then [Due] else [Says (cp ''From another screen: '' @ cp_trim c)])"
| "pieces_of (ESteered c) sent _ =
     (if cp_trim c \<in> set sent then [Due] else [Says (cp ''From another screen: '' @ cp_trim c)])"
| "pieces_of EOther _ _ = []"
| "pieces_of e _ _ = map Says (fst (reply_event e fresh_reply))"

fun transcript_of :: "chat_event list \<Rightarrow> chat_reply \<Rightarrow> piece list" where
  "transcript_of [] r = []"
| "transcript_of (e # es) r = pieces_of e (rl_sent r) (rl_error r) @ transcript_of es (snd (reply_event e r))"

lemma flush_paragraph: "reply_flush r = (paragraph_of (rl_text r), r\<lparr>rl_text := []\<rparr>)"
  by (simp add: reply_flush_def paragraph_of_def Let_def)

lemma flush_fresh [simp]: "reply_flush fresh_reply = ([], fresh_reply)"
  by (simp add: reply_flush_def fresh_reply_def Let_def cp_trim_def cp_trim_start_def cp_trim_end_def trim_start_by_def trim_end_by_def)

lemma position_None_notin: "position (\<lambda>x. x = c) xs = None \<longleftrightarrow> c \<notin> set xs"
  by (induction xs) auto

text \<open>One event: what is sent at once, and what is still held, show just the event's pieces.\<close>

lemma event_shown:
  assumes "reply_event e r = (out, r')"
  shows "shown (rl_text r) (pieces_of e (rl_sent r) (rl_error r) @ ps) = out @ shown (rl_text r') ps"
proof -
  have echo: "shown (rl_text r) (pieces_of (EUser c) (rl_sent r) (rl_error r) @ ps) = o1 @ shown (rl_text r1) ps"
    if "reply_echo c r = (o1, r1)" for c o1 r1
  proof (cases "position (\<lambda>x. x = cp_trim c) (rl_sent r)")
    case None
    then have "cp_trim c \<notin> set (rl_sent r)" by (simp add: position_None_notin)
    then show ?thesis using that None by (auto simp: reply_echo_def reply_then_def flush_paragraph Let_def)
  next
    case (Some i)
    then have "cp_trim c \<in> set (rl_sent r)" by (metis position_None_notin option.distinct(1))
    then show ?thesis using that Some by (auto simp: reply_echo_def flush_paragraph Let_def)
  qed
  show ?thesis
  proof (cases e)
    case (ESettled outcome)
    then show ?thesis using assms
      by (auto simp: flush_paragraph reply_ending_def split: prod.splits option.splits turn_outcome.splits if_splits)
  next
    case (EUser c)
    then show ?thesis using assms echo by simp
  next
    case (ESteered c)
    then show ?thesis using assms echo [of c] by simp
  qed (use assms in \<open>auto simp: flush_paragraph reply_then_def fresh_reply_def paragraph_of_def cp_trim_def cp_trim_start_def
      cp_trim_end_def trim_start_by_def trim_end_by_def split: if_splits\<close>)
qed

lemma run_shown:
  "reply_run es r = (out, r') \<Longrightarrow> shown (rl_text r) (transcript_of es r) = out @ paragraph_of (rl_text r')"
proof (induction es arbitrary: r out)
  case (Cons e es)
  obtain o1 r1 where e: "reply_event e r = (o1, r1)" by force
  obtain o2 where "reply_run es r1 = (o2, r')" "out = o1 @ o2" using Cons.prems e by (auto split: prod.splits)
  then show ?case using Cons.IH event_shown [OF e] by (simp add: e)
qed simp

text \<open>Every word of the model is in the messages, in order, whatever comes between.\<close>

fun piece_text :: "piece \<Rightarrow> cps" where
  "piece_text (Words d) = d"
| "piece_text Due = []"
| "piece_text (Says m) = m"

lemma shown_keeps_words: "black (concat (shown held ps)) = black held @ black (concat (map piece_text ps))"
proof -
  have "black (concat (paragraph_of h)) = black h" for h
    unfolding paragraph_of_def by (metis black_trim append_Nil2 concat.simps(1) concat.simps(2))
  moreover have "black [] = []" by (simp add: black_def)
  ultimately show ?thesis by (induction held ps rule: shown.induct) simp_all
qed

text \<open>C12. From a turn's start with nothing held to its settling, the messages a chat is sent show the turn's
  transcript: the model's words in whole trimmed paragraphs, cut only where a tool call, a message of another
  screen or something else said comes between, each thing said once and in its place; nothing is held back,
  and no character of it other than blank ones is lost, repeated or moved.\<close>

theorem reply_shows_the_turn:
  assumes "reply_run (es @ [ESettled outcome]) r = (out, r')" "rl_text r = []"
  shows "out = shown [] (transcript_of (es @ [ESettled outcome]) r) \<and> rl_text r' = [] \<and>
    black (concat out) = black (concat (map piece_text (transcript_of (es @ [ESettled outcome]) r)))"
proof -
  have "rl_text r' = []" if "reply_run (es @ [ESettled outcome]) r = (out, r')" for out r
    using that by (induction es arbitrary: r out) (auto simp: flush_paragraph reply_ending_def split: prod.splits option.splits)
  then have held: "rl_text r' = []" using assms(1) by blast
  then have "out = shown [] (transcript_of (es @ [ESettled outcome]) r)"
    using run_shown [OF assms(1)] assms(2)
    by (simp add: paragraph_of_def cp_trim_def cp_trim_start_def cp_trim_end_def trim_start_by_def trim_end_by_def)
  then show ?thesis using held shown_keeps_words [of "[]"] by (simp add: black_def)
qed

theorem reply_shows_the_turn_witness:
  "fst (reply_run [EText (cp ''Let me ''), EText (cp ''look. ''), EToolCall, EUser (cp ''go''), EText (cp '' Done''), ESettled OCancelled]
     (reply_sent (cp ''go '') fresh_reply)) = [cp ''Let me look.'', cp ''Done'', cp ''Stopped.'']"
proof -
  let ?es = "[EText (cp ''Let me ''), EText (cp ''look. ''), EToolCall, EUser (cp ''go''), EText (cp '' Done'')]"
  have "rl_text (reply_sent (cp ''go '') fresh_reply) = []" by (simp add: reply_sent_def fresh_reply_def Let_def)
  from reply_shows_the_turn [OF surjective_pairing this, of ?es OCancelled]
  have "fst (reply_run (?es @ [ESettled OCancelled]) (reply_sent (cp ''go '') fresh_reply)) =
      shown [] (transcript_of (?es @ [ESettled OCancelled]) (reply_sent (cp ''go '') fresh_reply))" by blast
  also have "\<dots> = [cp ''Let me look.'', cp ''Done'', cp ''Stopped.'']" by code_simp
  finally show ?thesis by simp
qed

end
