(* ===== verification/Spec2Isabelle.thy ===== *)
theory Spec2Isabelle
  imports WriteLanes ShellParse Dispatch Seam Egress Mutations Projection TurnDispatch SessionLoop StreamTurn ChildRuns Narrowing Permissions Gateway ChatReply
begin

text \<open>
  A model of the core of an agent runtime written in Rust, with the theorems that make it correct. Paths are
  under \<open>src/crates\<close>; every name below that is not Rust is one of the theories.

  The program. A model writes a reply, the kernel runs the tool calls in it behind a policy, and everything
  that happens is an event of a log from which the conversation can be rebuilt. Around that core stand the
  parts that keep it safe: the reader of shell lines, the admission policy, the guard of what leaves
  the machine, the guard of protected files, the write lanes, and the budgets and retry tables that make
  a turn end.

  Foundations.
  Prelude holds the parts of the Rust standard library the crates use: byte strings, splitting and
  trimming, ordered maps, paths. Json holds JSON values with keys in order. KernelTypes holds trust labels, radii, the dial,
  decisions, intents and observations (\<open>kernel/src/types.rs\<close>); Messages the flat and the ordered message and
  their bridges; Replies what the kernel reads from a completed ordered message (\<open>kernel/src/loop_.rs\<close>).
  Retries states the contract of every bounded retry as a locale: a retry must use something up.

  Admission of a call.
  ShellReader and ShellParse are the whole \<open>shell-reader\<close> crate: the walk over a bash syntax tree, and what
  the commands found there run, write and delete. Admission and Policy are \<open>policy/src\<close> and
  \<open>kernel/src/policy.rs\<close>: the scan of a line, the safety floor, the dial and the approve list. Hooks is the
  boundary of the hooks of a call, Redact the secret values held for removal, Egress the guard of what leaves a chat
  that read web text, Mutations the guard of protected paths. Dispatch composes them: one validated intent from the
  outbound check through preflight, decision, person, lane, execution and network retry to the
  observation (\<open>kernel/src/dispatch.rs\<close>, \<open>gate.rs\<close>), as a trace of actions in a world. The theorems say what
  must come before a run: clearance, a durable record, a yes of a person after web text; and what can never come.

  One round of calls.
  ToolNames renames tools for the wire and back, ArgRepair converts arguments to their declared types, Refusals
  counts repeats that go nowhere, ResultFit cuts and redacts what the model reads of a result. TurnDispatch is
  \<open>session/dispatch.rs\<close> and \<open>admitted.rs\<close>: it runs Dispatch for every call of a reply, changes alone and reads in batches,
  and saves each result. Its theorems give the schedule, the one answer of every call, and that web results
  gate later rounds.

  One request to a model.
  Rejections and Recovery read a failure of a provider and give its row of the recovery table; Budgets is the governor and the
  pool of a tree of agents; Fallbacks the stand-in models and saved keys; Attempts the table of \<open>run_turn\<close> that
  answers a failed attempt; StreamTurn the loop over one stream with the text on screen, the seam of a
  continued reply (Seam) and the record of the reply (\<open>turn.rs\<close>); RequestImages what a request holds of stored images.

  One turn of a session.
  TurnLimits and Repetition hold the limits of cut-off, empty and looping replies; Interrupts the queue of
  typed text. SessionLoop is \<open>session.rs\<close> with \<open>session/boundary.rs\<close>, \<open>recovery.rs\<close>, \<open>response.rs\<close>,
  \<open>checkpoint.rs\<close>, \<open>completion.rs\<close> and \<open>history.rs\<close>: each step takes and returns the state of the session and says whether
  the turn goes on, stops, or fails.

  Agents.
  An agent can start others below it (\<open>orchestrator/src\<close>). AgentPaths is the addresses and shows that they are a
  tree of names. AgentRegistry is the roster, with its reservations, its settled and archived agents, and the
  invariant each operation keeps. AgentControl is the control plane around it as a machine whose steps are
  admissions, permits, commits, ends, cancels, steers and the adoption of another session, in any order: every reachable
  plane is within its limits, a cancel stays below, and no agent speaks as the person. ChildRuns is the run of one child, from the
  outcome of its session to what is recorded, closed, told and freed, in that order, with what it inherits.
  Narrowing is the executor a child is given; it is put into the world of Dispatch, so that its theorems
  speak of the same dispatch as those of the parent.

  Permissions.
  Protected is the places no grant opens (\<open>permissions/src/protected.rs\<close>) over paths as lists of components: the
  credential stores, the agent's own state, and for writing the records of projects. Permissions is the manager of
  \<open>permissions/src/lib.rs\<close>: the grants in force, the trust file they are kept in, the cards and the audit log, as steps
  on one record that also keeps the list of what was done, in order. Every grant traces back to a yes, a review is written down before it
  takes effect, and what is remembered survives a restart. The manager is put into the world of Dispatch (\<open>manager_world\<close>),
  so that a granted run of a command is one the manager let through.

  Gateway.
  A chat platform can reach the agent (\<open>crates/gateway/src\<close>). Pairing is the book of people the owner let in,
  with its codes, its lockout and a file that may fail to be written; times are in seconds and SHA-256 and the random
  bytes are parameters. Gateway is the router as a machine whose steps are what the platform hears, what the owner
  does to the book and what the links do, in any order; its state holds the list of what was done. Prompts is the
  approvals and questions a chat is offered and how a press or a typed reply becomes an answer. ChatReply is what a
  chat reads of a turn, shown to be its transcript. ChatText is the text itself: the split of a long message,
  which is a partial function because it may not end, with the texts on which it does, and the escapes under
  which shown text stays inside its code span or block.

  The log and its replay.
  EventLog is the chained log of \<open>events.rs\<close>; Replay and Projection rebuild both views of a conversation from
  it and close calls that were cut short. WriteLanes is \<open>write_lanes.rs\<close> as a step relation over every
  interleaving of writers and of leases shared between processes.

  Kinds of lemmas. Invariants over reachable states or over any sequence of operations (lanes, leases, guards, log,
  budgets); traces of a dispatch and of a round, from which the safety properties are read off; refinements of an
  abstract account (the schedule of a round, the ledger of tokens); termination by a measure that each
  retry uses up (Retries, interpreted for model calls, requests and empty replies); round trips between the
  two message views and between tools and wire names.

  How the code is modelled. A struct is a record, an enum a datatype, an error an \<open>Inl\<close> or a constructor of its own; asynchronous
  waiting is the outcome of the wait; a lock is the state it guards. Strings are UTF-8 bytes.
  Counters keep the bound the code gives them (saturating at 32 or 64 bits where the code saturates,
  wrapping words for the rolling hash). Floating-point costs are extended rationals under a
  rounding function that is a parameter, with only monotonicity and exactness on small integers assumed.
  Parameters stand for code outside \<open>src\<close>: the grammar of bash, SHA-256, printing and parsing of JSON, the regex crate,
  globs, base64, Unicode classes, clocks, the provider at the other end, the answers of tools, hooks and people.

  Bounds. Where a loop of the code could go on, the model is a \<open>partial_function (option)\<close> (the search for a free wire
  name, which a theorem shows to end when hashes differ) or a total function with its measure; recursion by depth
  (repair of arguments, audit of hooks) carries the depth limit of the code. No fuel is used where the
  code has none.

  Not modelled. Surfaces and transports (\<open>medha-cli\<close>, \<open>gateway\<close>, \<open>wire\<close>, the desktop shell) are input and output;
  the tools, the sandbox and the stores are mostly system calls; the wire formats of providers are their own
  documents.
\<close>

end
